(* ===== verification/RT_Prelude.thy ===== *)
theory RT_Prelude
  imports Main "HOL-Library.Word" "HOL-Library.Monad_Syntax"
begin

text \<open>
  Shared vocabulary of the RT-Thread development: the machine integer types of
  \<^verbatim>\<open>include/rttypes.h\<close>, the error codes and limits of \<^verbatim>\<open>include/rtdef.h\<close>, the option
  monad in which the kernel functions are written (\<^const>\<open>None\<close> is a failed
  \<^verbatim>\<open>RT_ASSERT\<close>, whose handler never returns, or a dereference of \<^verbatim>\<open>RT_NULL\<close>), and the
  lemmas on words, options and lists that several components use.
\<close>

unbundle bit_operations_syntax

named_theorems frame \<open>which fields an operation leaves alone\<close>
named_theorems stat_simps \<open>evaluation of the thread status word\<close>

subsection \<open>Machine integers\<close>

type_synonym u8 = "8 word"
type_synonym u16 = "16 word"
type_synonym u32 = "32 word"
type_synonym u64 = "64 word"

text \<open>\<^verbatim>\<open>rt_err_t\<close> is a signed long; the codes never come near its bounds.\<close>

type_synonym rt_err = int

abbreviation (input) RT_EOK :: rt_err where "RT_EOK \<equiv> 0"
abbreviation (input) RT_ERROR :: rt_err where "RT_ERROR \<equiv> 1"
abbreviation (input) RT_ETIMEOUT :: rt_err where "RT_ETIMEOUT \<equiv> 2"
abbreviation (input) RT_EFULL :: rt_err where "RT_EFULL \<equiv> 3"
abbreviation (input) RT_EEMPTY :: rt_err where "RT_EEMPTY \<equiv> 4"
abbreviation (input) RT_ENOMEM :: rt_err where "RT_ENOMEM \<equiv> 5"
abbreviation (input) RT_ENOSYS :: rt_err where "RT_ENOSYS \<equiv> 6"
abbreviation (input) RT_EBUSY :: rt_err where "RT_EBUSY \<equiv> 7"
abbreviation (input) RT_EINTR :: rt_err where "RT_EINTR \<equiv> 9"
abbreviation (input) RT_EINVAL :: rt_err where "RT_EINVAL \<equiv> 10"

subsection \<open>Assertions\<close>

definition rt_assert :: "bool \<Rightarrow> unit option" where
  "rt_assert b = (if b then Some () else None)"

lemma rt_assert_bind [simp]: "Option.bind (rt_assert b) f = (if b then f () else None)"
  by (simp add: rt_assert_def)

lemma rt_assert_eq_Some [simp]: "rt_assert b = Some u \<longleftrightarrow> b"
  by (simp add: rt_assert_def)

lemmas bind_Some = Option.bind_eq_Some_conv

subsection \<open>Lists\<close>

lemma filter_neq_notin [simp]: "x \<notin> set xs \<Longrightarrow> filter (\<lambda>y. y \<noteq> x) xs = xs"
  by (induction xs) auto

lemma butlast_tl_set:
  "set (butlast xs) \<subseteq> set xs" "set (tl xs) \<subseteq> set xs"
  by (auto dest: in_set_butlastD list.set_sel(2)) (metis list.sel(2) list.set_sel(2))

subsection \<open>Words\<close>

text \<open>A field of a word: replacing the bits under a mask and reading them back.\<close>

lemma and_or_not_mask:
  fixes v st m :: "'a::len word"
  assumes "v AND m = v"
  shows "(v OR (st AND NOT m)) AND m = v"
proof (rule bit_word_eqI)
  fix n
  assume "n < LENGTH('a)"
  moreover have "bit (v AND m) n = bit v n"
    using assms by simp
  ultimately show "bit ((v OR (st AND NOT m)) AND m) n = bit v n"
    by (auto simp: bit_simps)
qed

lemma and_or_other_mask:
  fixes v st m k :: "'a::len word"
  assumes "v AND k = 0" "k AND m = 0"
  shows "(v OR (st AND NOT m)) AND k = st AND k"
proof (rule bit_word_eqI)
  fix n
  assume n: "n < LENGTH('a)"
  have "bit (v AND k) n = False" "bit (k AND m) n = False"
    using assms by simp_all
  then show "bit ((v OR (st AND NOT m)) AND k) n = bit (st AND k) n"
    using n by (auto simp: bit_simps)
qed

text \<open>Single-bit masks, which the simplifier writes as powers.\<close>

lemma bit_or_push_bit:
  "bit (w OR 2 ^ p) q \<longleftrightarrow> bit w q \<or> (q = p \<and> p < LENGTH('a))" for w :: "'a::len word"
  by (auto simp: bit_simps)

lemma bit_and_not_push_bit:
  "bit (w AND NOT (2 ^ p)) q \<longleftrightarrow> bit w q \<and> q \<noteq> p" for w :: "'a::len word"
  by (auto simp: bit_simps bit_imp_le_length)

text \<open>Counting without wrap-around.\<close>

lemma unat_plus1:
  fixes x y :: "'a::len word"
  assumes "x < y"
  shows "unat (x + 1) = unat x + 1"
proof -
  have "unat x < unat y" "unat y < 2 ^ LENGTH('a)"
    using assms by (simp_all add: word_less_nat_alt)
  then have "unat x + 1 < 2 ^ LENGTH('a)" by linarith
  then show ?thesis by (simp add: unat_word_ariths)
qed

lemma unat_minus1: "x \<noteq> 0 \<Longrightarrow> unat (x - 1) = unat x - 1" for x :: "'a::len word"
  by (simp add: unat_minus_one)

text \<open>\<^verbatim>\<open>RT_ALIGN\<close> to \<^verbatim>\<open>RT_ALIGN_SIZE\<close>, which is 8.\<close>

definition rt_align :: "u64 \<Rightarrow> u64" where
  "rt_align n = (n + 7) AND NOT 7"

lemma word_eq_0_iff_bits: "w = 0 \<longleftrightarrow> (\<forall>i < LENGTH('a). \<not> bit w i)" for w :: "'a::len word"
  by (auto intro: bit_word_eqI)

end
