(* ===== verification/RT_List.thy ===== *)
theory RT_List
  imports RT_Prelude
begin

text \<open>
  The intrusive lists of \<^verbatim>\<open>include/rtservice.h\<close>. The doubly linked lists
  (\<^verbatim>\<open>rt_list_t\<close>) are modelled on a store of \<open>next\<close> and \<open>prev\<close> pointers, with
  the assignments of each inline function in the order the source makes them. The
  rest of the kernel model uses the list space: for every list head, the sequence of the
  nodes linked on it. \<open>represents\<close> relates the two, and each pointer operation
  is shown to implement its sequence operation. The singly linked lists
  (\<^verbatim>\<open>rt_slist_t\<close>) follow.
\<close>

subsection \<open>The pointer store\<close>

datatype ('h, 'n) lptr = Head 'h | Node 'n

record ('h, 'n) lstore =
  nxt :: "('h, 'n) lptr \<Rightarrow> ('h, 'n) lptr"
  prv :: "('h, 'n) lptr \<Rightarrow> ('h, 'n) lptr"

definition rt_list_init :: "('h, 'n) lstore \<Rightarrow> ('h, 'n) lptr \<Rightarrow> ('h, 'n) lstore" where
  "rt_list_init st l = st\<lparr>nxt := (nxt st)(l := l), prv := (prv st)(l := l)\<rparr>"

definition rt_list_insert_after ::
  "('h, 'n) lstore \<Rightarrow> ('h, 'n) lptr \<Rightarrow> ('h, 'n) lptr \<Rightarrow> ('h, 'n) lstore" where
  "rt_list_insert_after st l n =
     (let st = st\<lparr>prv := (prv st)(nxt st l := n)\<rparr>;
          st = st\<lparr>nxt := (nxt st)(n := nxt st l)\<rparr>;
          st = st\<lparr>nxt := (nxt st)(l := n)\<rparr>
      in st\<lparr>prv := (prv st)(n := l)\<rparr>)"

definition rt_list_insert_before ::
  "('h, 'n) lstore \<Rightarrow> ('h, 'n) lptr \<Rightarrow> ('h, 'n) lptr \<Rightarrow> ('h, 'n) lstore" where
  "rt_list_insert_before st l n =
     (let st = st\<lparr>nxt := (nxt st)(prv st l := n)\<rparr>;
          st = st\<lparr>prv := (prv st)(n := prv st l)\<rparr>;
          st = st\<lparr>prv := (prv st)(l := n)\<rparr>
      in st\<lparr>nxt := (nxt st)(n := l)\<rparr>)"

definition rt_list_remove :: "('h, 'n) lstore \<Rightarrow> ('h, 'n) lptr \<Rightarrow> ('h, 'n) lstore" where
  "rt_list_remove st n =
     (let st = st\<lparr>prv := (prv st)(nxt st n := prv st n)\<rparr>;
          st = st\<lparr>nxt := (nxt st)(prv st n := nxt st n)\<rparr>
      in st\<lparr>nxt := (nxt st)(n := n), prv := (prv st)(n := n)\<rparr>)"

definition rt_list_isempty :: "('h, 'n) lstore \<Rightarrow> ('h, 'n) lptr \<Rightarrow> bool" where
  "rt_list_isempty st l \<longleftrightarrow> nxt st l = l"

text \<open>The loop of \<^verbatim>\<open>rt_list_len\<close>: on a corrupted list it need not end.\<close>

partial_function (option) rt_list_len_loop ::
  "('h, 'n) lstore \<Rightarrow> ('h, 'n) lptr \<Rightarrow> ('h, 'n) lptr \<Rightarrow> u32 \<Rightarrow> u32 option" where
  "rt_list_len_loop st l p len =
     (if nxt st p \<noteq> l then rt_list_len_loop st l (nxt st p) (len + 1) else Some len)"

definition rt_list_len :: "('h, 'n) lstore \<Rightarrow> ('h, 'n) lptr \<Rightarrow> u32 option" where
  "rt_list_len st l = rt_list_len_loop st l l 0"

subsection \<open>Chains\<close>

fun linked :: "('h, 'n) lstore \<Rightarrow> ('h, 'n) lptr list \<Rightarrow> bool" where
  "linked st (a # b # xs) \<longleftrightarrow> nxt st a = b \<and> prv st b = a \<and> linked st (b # xs)"
| "linked st _ \<longleftrightarrow> True"

lemma linked_append:
  "linked st (xs @ a # ys) \<longleftrightarrow> linked st (xs @ [a]) \<and> linked st (a # ys)"
  by (induction st xs rule: linked.induct) auto

lemma linked_cong:
  assumes "\<And>a. a \<in> set (butlast zs) \<Longrightarrow> nxt st a = nxt st' a"
    and "\<And>a. a \<in> set (tl zs) \<Longrightarrow> prv st a = prv st' a"
  shows "linked st zs = linked st' zs"
  using assms
  by (induction st zs rule: linked.induct) auto

subsection \<open>The list space\<close>

text \<open>
  What the rest of the kernel sees: for every list head the sequence of the nodes
  linked on it. A node is on at most one list, since it has one pair of pointers.
\<close>

type_synonym ('h, 'n) lspace = "'h \<Rightarrow> 'n list"

definition ls_init :: "('h, 'n) lspace \<Rightarrow> 'h \<Rightarrow> ('h, 'n) lspace" where
  "ls_init L h = L(h := [])"

definition ls_insert_after :: "('h, 'n) lspace \<Rightarrow> 'h \<Rightarrow> 'n \<Rightarrow> ('h, 'n) lspace" where
  "ls_insert_after L h n = L(h := n # L h)"

definition ls_insert_before :: "('h, 'n) lspace \<Rightarrow> 'h \<Rightarrow> 'n \<Rightarrow> ('h, 'n) lspace" where
  "ls_insert_before L h n = L(h := L h @ [n])"

definition ls_remove :: "('h, 'n) lspace \<Rightarrow> 'n \<Rightarrow> ('h, 'n) lspace" where
  "ls_remove L n = (\<lambda>h. filter (\<lambda>x. x \<noteq> n) (L h))"

definition unlinked :: "('h, 'n) lspace \<Rightarrow> 'n \<Rightarrow> bool" where
  "unlinked L n \<longleftrightarrow> (\<forall>h. n \<notin> set (L h))"

definition wf_ls :: "('h, 'n) lspace \<Rightarrow> bool" where
  "wf_ls L \<longleftrightarrow> (\<forall>h. distinct (L h)) \<and> (\<forall>h h' n. n \<in> set (L h) \<longrightarrow> n \<in> set (L h') \<longrightarrow> h = h')"

lemma unlinked_upd:
  "unlinked (L(h := zs)) m \<longleftrightarrow> m \<notin> set zs \<and> (\<forall>g. g \<noteq> h \<longrightarrow> m \<notin> set (L g))"
  by (auto simp: unlinked_def)

lemma unlinked_updD: "unlinked (L(h := zs)) m \<Longrightarrow> m \<notin> set (L h) \<Longrightarrow> unlinked L m"
  by (metis unlinked_def unlinked_upd)

lemma wf_ls_distinct [simp]: "wf_ls L \<Longrightarrow> distinct (L h)"
  by (simp add: wf_ls_def)

lemma wf_ls_unique: "wf_ls L \<Longrightarrow> n \<in> set (L h) \<Longrightarrow> n \<in> set (L h') \<Longrightarrow> h' = h"
  by (auto simp: wf_ls_def)

lemma wf_ls_split:
  assumes "wf_ls L" "L h = xs @ ys" "unlinked L n"
  shows "wf_ls (L(h := xs @ n # ys))"
proof -
  have "distinct (xs @ ys)"
    using assms(1,2) wf_ls_distinct [of L h] by simp
  moreover have "n \<notin> set (xs @ ys)"
    using assms(2,3) by (metis unlinked_def)
  ultimately show ?thesis
    using assms by (auto simp: wf_ls_def unlinked_def)
qed

lemma wf_ls_insert_after: "wf_ls L \<Longrightarrow> unlinked L n \<Longrightarrow> wf_ls (ls_insert_after L h n)"
  using wf_ls_split [of L h "[]" "L h" n] by (simp add: ls_insert_after_def)

lemma wf_ls_insert_before: "wf_ls L \<Longrightarrow> unlinked L n \<Longrightarrow> wf_ls (ls_insert_before L h n)"
  using wf_ls_split [of L h "L h" "[]" n] by (simp add: ls_insert_before_def)

lemma set_ls_remove [simp]: "set (ls_remove L n h) = set (L h) - {n}"
  by (auto simp: ls_remove_def)

lemma wf_ls_remove: "wf_ls L \<Longrightarrow> wf_ls (ls_remove L n)"
  by (auto simp: wf_ls_def ls_remove_def)

lemma unlinked_remove [simp]: "unlinked (ls_remove L n) n"
  by (simp add: unlinked_def)

lemma ls_remove_unlinked [simp]: "unlinked L n \<Longrightarrow> ls_remove L n = L"
  by (auto simp: unlinked_def ls_remove_def)

lemma ls_remove_other [simp]: "n \<notin> set (L h) \<Longrightarrow> ls_remove L n h = L h"
  by (simp add: ls_remove_def)

lemma ls_remove_at:
  assumes "wf_ls L" "L h = xs @ n # ys"
  shows "ls_remove L n = L(h := xs @ ys)"
proof
  fix g
  have d: "distinct (xs @ n # ys)"
    using assms wf_ls_distinct [of L h] by simp
  show "ls_remove L n g = (L(h := xs @ ys)) g"
  proof (cases "g = h")
    case True
    with d assms show ?thesis by (simp add: ls_remove_def)
  next
    case False
    have "n \<in> set (L h)" using assms by simp
    with False assms(1) have "n \<notin> set (L g)" by (auto dest: wf_ls_unique)
    with False show ?thesis by simp
  qed
qed

subsection \<open>The pointer store implements the list space\<close>

definition represents :: "('h, 'n) lstore \<Rightarrow> ('h, 'n) lspace \<Rightarrow> bool" where
  "represents st L \<longleftrightarrow> wf_ls L \<and>
     (\<forall>h. linked st (Head h # map Node (L h) @ [Head h])) \<and>
     (\<forall>n. unlinked L n \<longrightarrow> nxt st (Node n) = Node n \<and> prv st (Node n) = Node n)"

lemma insert_after_nxt:
  "n \<noteq> l \<Longrightarrow> nxt (rt_list_insert_after st l n) = (nxt st)(n := nxt st l, l := n)"
  by (auto simp: rt_list_insert_after_def Let_def)

lemma insert_after_prv:
  "prv (rt_list_insert_after st l n) = (prv st)(nxt st l := n, n := l)"
  by (auto simp: rt_list_insert_after_def Let_def)

lemma insert_before_is_after:
  assumes "nxt st p = b" "prv st b = p" "n \<noteq> p" "n \<noteq> b"
  shows "rt_list_insert_before st b n = rt_list_insert_after st p n"
  using assms
  by (simp add: rt_list_insert_before_def rt_list_insert_after_def Let_def fun_upd_twist [of n])

text \<open>Splicing a fresh node between two neighbours of a chain.\<close>

lemma linked_splice:
  assumes "linked st (as @ p # b # bs)"
    and "n \<notin> set (as @ p # b # bs)" "p \<notin> set as" "b \<notin> set (tl (as @ [p]))"
    and "p \<notin> set (butlast (b # bs))" "b \<notin> set bs"
  shows "linked (rt_list_insert_after st p n) (as @ p # n # b # bs)"
proof -
  let ?st = "rt_list_insert_after st p n"
  have split: "linked st (as @ [p])" "linked st (p # b # bs)"
    using assms(1) linked_append [of st as p "b # bs"] by simp_all
  then have nb: "nxt st p = b" "prv st b = p" by simp_all
  have np: "n \<noteq> p" using assms(2) by auto
  have "linked ?st (as @ [p]) = linked st (as @ [p])"
  proof (rule linked_cong)
    show "nxt ?st a = nxt st a" if "a \<in> set (butlast (as @ [p]))" for a
      using that assms(2,3) np by (auto simp: insert_after_nxt)
    show "prv ?st a = prv st a" if "a \<in> set (tl (as @ [p]))" for a
      using that assms(2,4) nb by (cases as) (auto simp: insert_after_prv)
  qed
  moreover have "linked ?st (b # bs) = linked st (b # bs)"
  proof (rule linked_cong)
    show "nxt ?st a = nxt st a" if "a \<in> set (butlast (b # bs))" for a
      using that assms(2,5) np by (auto simp: insert_after_nxt dest: in_set_butlastD split: if_splits)
    show "prv ?st a = prv st a" if "a \<in> set (tl (b # bs))" for a
      using that assms(2,6) nb by (auto simp: insert_after_prv)
  qed
  ultimately show ?thesis
    using split np nb assms(2) linked_append [of ?st as p "n # b # bs"]
    by (auto simp: insert_after_nxt insert_after_prv)
qed


text \<open>Closing the gap left by a node of a chain.\<close>

lemma linked_unsplice:
  assumes "linked st (as @ p # n # b # bs)"
    and "n \<notin> set (as @ p # b # bs)" "p \<notin> set as" "b \<notin> set (tl (as @ [p]))"
    and "p \<notin> set (butlast (b # bs))" "b \<notin> set bs"
  shows "linked (rt_list_remove st n) (as @ p # b # bs)"
proof -
  let ?st = "rt_list_remove st n"
  have split: "linked st (as @ [p])" "linked st (p # n # b # bs)"
    using assms(1) linked_append [of st as p "n # b # bs"] by simp_all
  then have nb: "nxt st p = n" "prv st n = p" "nxt st n = b" "prv st b = n" by simp_all
  have ne: "n \<noteq> p" "n \<noteq> b" using assms(2) by auto
  have nxt': "nxt ?st = (nxt st)(p := b, n := n)" and prv': "prv ?st = (prv st)(b := p, n := n)"
    using nb ne by (simp_all add: rt_list_remove_def Let_def)
  have "linked ?st (as @ [p]) = linked st (as @ [p])"
  proof (rule linked_cong)
    show "nxt ?st a = nxt st a" if "a \<in> set (butlast (as @ [p]))" for a
      using that assms(2,3) by (auto simp: nxt')
    show "prv ?st a = prv st a" if "a \<in> set (tl (as @ [p]))" for a
      using that assms(2,4) by (cases as) (auto simp: prv')
  qed
  moreover have "linked ?st (b # bs) = linked st (b # bs)"
  proof (rule linked_cong)
    show "nxt ?st a = nxt st a" if "a \<in> set (butlast (b # bs))" for a
      using that assms(2,5) by (auto simp: nxt' dest: in_set_butlastD split: if_splits)
    show "prv ?st a = prv st a" if "a \<in> set (tl (b # bs))" for a
      using that assms(2,6) by (auto simp: prv')
  qed
  ultimately show ?thesis
    using split ne linked_append [of ?st as p "b # bs"] by (auto simp: nxt' prv')
qed

text \<open>
  The neighbours of a position of the list on head \<open>h\<close>: the element before it, or the
  head, and the element after it, or again the head.
\<close>

definition pos_prev :: "'h \<Rightarrow> 'n list \<Rightarrow> ('h, 'n) lptr" where
  "pos_prev h xs = last (Head h # map Node xs)"

definition pos_next :: "'h \<Rightarrow> 'n list \<Rightarrow> ('h, 'n) lptr" where
  "pos_next h ys = hd (map Node ys @ [Head h])"

lemma chain_split:
  "Head h # map Node (xs @ ys) @ [Head h] =
   butlast (Head h # map Node xs) @ pos_prev h xs # pos_next h ys # tl (map Node ys @ [Head h])"
proof -
  have "Head h # map Node xs = butlast (Head h # map Node xs) @ [pos_prev h xs]"
    unfolding pos_prev_def by (rule append_butlast_last_id [symmetric]) simp
  moreover have "map Node ys @ [Head h] = pos_next h ys # tl (map Node ys @ [Head h])"
    by (cases ys) (simp_all add: pos_next_def)
  ultimately show ?thesis
    by (metis append.assoc append_Cons append_Nil map_append)
qed

lemma pos_side_conditions:
  assumes "distinct (xs @ ys)"
  shows "pos_prev h xs \<notin> set (butlast (Head h # map Node xs))"
    and "pos_next h ys \<notin> set (tl (Head h # map Node xs))"
    and "pos_prev h xs \<notin> set (butlast (map Node ys @ [Head h]))"
    and "pos_next h ys \<notin> set (tl (map Node ys @ [Head h]))"
proof -
  have "distinct (butlast (Head h # map Node xs) @ [pos_prev h xs])"
    unfolding pos_prev_def using assms
    by (subst append_butlast_last_id) (auto simp: distinct_map inj_on_def)
  then show "pos_prev h xs \<notin> set (butlast (Head h # map Node xs))" by simp
  show "pos_next h ys \<notin> set (tl (Head h # map Node xs))"
    using assms by (cases ys) (auto simp: pos_next_def)
  show "pos_prev h xs \<notin> set (butlast (map Node ys @ [Head h]))"
    using assms by (cases xs rule: rev_cases) (auto simp: pos_prev_def)
  show "pos_next h ys \<notin> set (tl (map Node ys @ [Head h]))"
    using assms by (cases ys) (auto simp: pos_next_def)
qed

lemma chain_frame:
  assumes "\<And>a. a \<noteq> Head h \<Longrightarrow> a \<notin> Node ` S \<Longrightarrow> nxt st' a = nxt st a \<and> prv st' a = prv st a"
    and "g \<noteq> h" "set xs \<inter> S = {}"
  shows "linked st' (Head g # map Node xs @ [Head g]) = linked st (Head g # map Node xs @ [Head g])"
proof (rule linked_cong)
  have *: "nxt st' a = nxt st a \<and> prv st' a = prv st a"
    if "a \<in> set (Head g # map Node xs @ [Head g])" for a
    using that assms by (intro assms(1)) auto
  show "nxt st' a = nxt st a" if "a \<in> set (butlast (Head g # map Node xs @ [Head g]))" for a
    using * that butlast_tl_set(1) by (metis subsetD)
  show "prv st' a = prv st a" if "a \<in> set (tl (Head g # map Node xs @ [Head g]))" for a
    using * that by simp
qed


lemma represents_chain:
  assumes "represents st L" "L h = xs @ ys"
  shows "linked st (butlast (Head h # map Node xs) @ pos_prev h xs # pos_next h ys #
           tl (map Node ys @ [Head h]))"
proof -
  have "linked st (Head h # map Node (L h) @ [Head h])"
    using assms(1) by (simp add: represents_def)
  then show ?thesis unfolding assms(2) chain_split .
qed

lemma represents_neighbours:
  assumes "represents st L" "L h = xs @ ys"
  shows "nxt st (pos_prev h xs) = pos_next h ys" "prv st (pos_next h ys) = pos_prev h xs"
  using represents_chain [OF assms]
    linked_append [of st "butlast (Head h # map Node xs)" "pos_prev h xs"
      "pos_next h ys # tl (map Node ys @ [Head h])"]
  by simp_all

lemma pos_in_chain:
  "pos_prev h xs = Head h \<or> pos_prev h xs \<in> Node ` set xs"
  "pos_next h ys = Head h \<or> pos_next h ys \<in> Node ` set ys"
  by (cases xs rule: rev_cases, auto simp: pos_prev_def) (cases ys, auto simp: pos_next_def)

theorem represents_insert:
  assumes r: "represents st L" and L: "L h = xs @ ys" and n: "unlinked L n"
  shows "represents (rt_list_insert_after st (pos_prev h xs) (Node n)) (L(h := xs @ n # ys))"
proof -
  let ?st = "rt_list_insert_after st (pos_prev h xs) (Node n)"
  let ?L = "L(h := xs @ n # ys)"
  have wf: "wf_ls L" using r by (simp add: represents_def)
  have d: "distinct (xs @ ys)" using wf wf_ls_distinct [of L h] L by simp
  have nn: "n \<notin> set (xs @ ys)" using n L by (metis unlinked_def)
  have np: "Node n \<noteq> pos_prev h xs" "Node n \<noteq> pos_next h ys"
    using pos_in_chain [of h xs] pos_in_chain(2) [of h ys] nn by auto
  have chain: "linked ?st (Head h # map Node (xs @ n # ys) @ [Head h])"
  proof -
    have "linked ?st (butlast (Head h # map Node xs) @ pos_prev h xs # Node n # pos_next h ys #
        tl (map Node ys @ [Head h]))"
    proof (rule linked_splice [OF represents_chain [OF r L]])
      show "Node n \<notin> set (butlast (Head h # map Node xs) @ pos_prev h xs # pos_next h ys #
          tl (map Node ys @ [Head h]))"
        unfolding chain_split [symmetric] using nn by auto
      show "pos_next h ys \<notin> set (tl (butlast (Head h # map Node xs) @ [pos_prev h xs]))"
        using pos_side_conditions(2) [OF d, of h] by (simp add: pos_prev_def)
      show "pos_prev h xs \<notin> set (butlast (pos_next h ys # tl (map Node ys @ [Head h])))"
        using pos_side_conditions(3) [OF d, of h] by (cases ys) (simp_all add: pos_next_def)
    qed (use pos_side_conditions [OF d, of h] in simp_all)
    moreover have "Head h # map Node (xs @ n # ys) @ [Head h] =
        butlast (Head h # map Node xs) @ pos_prev h xs # Node n # pos_next h ys #
        tl (map Node ys @ [Head h])"
      using chain_split [of h xs "n # ys"] by (cases ys) (simp_all add: pos_next_def)
    ultimately show ?thesis by simp
  qed
  have frame: "nxt ?st a = nxt st a \<and> prv ?st a = prv st a"
    if "a \<noteq> Head h" "a \<notin> Node ` insert n (set (xs @ ys))" for a
    using that pos_in_chain [of h xs] pos_in_chain(2) [of h ys] np represents_neighbours [OF r L]
    by (auto simp: insert_after_nxt insert_after_prv)
  have "linked ?st (Head g # map Node (?L g) @ [Head g])" for g
  proof (cases "g = h")
    case False
    then have "set (L g) \<inter> insert n (set (xs @ ys)) = {}"
      using n wf L by (auto simp: unlinked_def wf_ls_def)
    with False have "linked ?st (Head g # map Node (L g) @ [Head g]) =
        linked st (Head g # map Node (L g) @ [Head g])"
      by (intro chain_frame [where h = h and S = "insert n (set (xs @ ys))"] frame)
    with False show ?thesis
      using r by (simp add: represents_def)
  qed (use chain in simp)
  moreover have "nxt ?st (Node m) = Node m \<and> prv ?st (Node m) = Node m" if "unlinked ?L m" for m
  proof -
    have m: "m \<notin> insert n (set (xs @ ys))" using that by (simp add: unlinked_upd)
    moreover have "unlinked L m" using unlinked_updD [OF that] m L by simp
    ultimately have "m \<notin> insert n (set (xs @ ys))" "unlinked L m" by simp_all
    then show ?thesis using frame [of "Node m"] r by (auto simp: represents_def)
  qed
  ultimately show ?thesis
    using wf_ls_split [OF wf L n] by (simp add: represents_def)
qed

theorem represents_remove:
  assumes r: "represents st L"
  shows "represents (rt_list_remove st (Node n)) (ls_remove L n)"
proof (cases "unlinked L n")
  case True
  then have "rt_list_remove st (Node n) = st"
    using r by (simp add: represents_def rt_list_remove_def fun_upd_idem)
  with True r show ?thesis by simp
next
  case False
  then obtain h xs ys where L: "L h = xs @ n # ys"
    by (metis split_list unlinked_def)
  let ?st = "rt_list_remove st (Node n)"
  let ?L = "L(h := xs @ ys)"
  have wf: "wf_ls L" using r by (simp add: represents_def)
  have d: "distinct (xs @ ys)" and nn: "n \<notin> set (xs @ ys)"
    using wf wf_ls_distinct [of L h] L by auto
  have eq: "ls_remove L n = ?L" by (rule ls_remove_at [OF wf L])
  have pre: "linked st (butlast (Head h # map Node xs) @ pos_prev h xs # Node n # pos_next h ys #
      tl (map Node ys @ [Head h]))"
    using represents_chain [OF r L] by (cases ys) (simp_all add: pos_next_def)
  have nb: "prv st (Node n) = pos_prev h xs" "nxt st (Node n) = pos_next h ys"
    using represents_neighbours [OF r L] represents_neighbours [OF r, of h "xs @ [n]" ys] L
    by (simp_all add: pos_next_def pos_prev_def)
  have np: "Node n \<noteq> pos_prev h xs" "Node n \<noteq> pos_next h ys"
    using pos_in_chain [of h xs] pos_in_chain(2) [of h ys] nn by auto
  have chain: "linked ?st (Head h # map Node (xs @ ys) @ [Head h])"
    unfolding chain_split
  proof (rule linked_unsplice [OF pre])
    show "Node n \<notin> set (butlast (Head h # map Node xs) @ pos_prev h xs # pos_next h ys #
        tl (map Node ys @ [Head h]))"
      unfolding chain_split [symmetric] using nn by auto
    show "pos_next h ys \<notin> set (tl (butlast (Head h # map Node xs) @ [pos_prev h xs]))"
      using pos_side_conditions(2) [OF d, of h] by (simp add: pos_prev_def)
    show "pos_prev h xs \<notin> set (butlast (pos_next h ys # tl (map Node ys @ [Head h])))"
      using pos_side_conditions(3) [OF d, of h] by (cases ys) (simp_all add: pos_next_def)
  qed (use pos_side_conditions [OF d, of h] in simp_all)
  have frame: "nxt ?st a = nxt st a \<and> prv ?st a = prv st a"
    if "a \<noteq> Head h" "a \<notin> Node ` insert n (set (xs @ ys))" for a
    using that pos_in_chain [of h xs] pos_in_chain(2) [of h ys] nb np
    by (auto simp: rt_list_remove_def Let_def)
  have "linked ?st (Head g # map Node (?L g) @ [Head g])" for g
  proof (cases "g = h")
    case False
    then have "set (L g) \<inter> insert n (set (xs @ ys)) = {}"
      using wf L by (auto simp: wf_ls_def)
    with False have "linked ?st (Head g # map Node (L g) @ [Head g]) =
        linked st (Head g # map Node (L g) @ [Head g])"
      by (intro chain_frame [where h = h and S = "insert n (set (xs @ ys))"] frame)
    with False show ?thesis
      using r by (simp add: represents_def)
  qed (use chain in simp)
  moreover have "nxt ?st (Node m) = Node m \<and> prv ?st (Node m) = Node m" if "unlinked ?L m" for m
  proof (cases "m = n")
    case True
    then show ?thesis by (simp add: rt_list_remove_def Let_def)
  next
    case False
    then have m: "m \<notin> insert n (set (xs @ ys))" using that by (simp add: unlinked_upd)
    moreover have "unlinked L m" using unlinked_updD [OF that] m L by simp
    ultimately have "m \<notin> insert n (set (xs @ ys))" "unlinked L m" by simp_all
    then show ?thesis using frame [of "Node m"] r by (auto simp: represents_def)
  qed
  ultimately show ?thesis
    using wf_ls_remove [OF wf, of n] eq by (simp add: represents_def)
qed


text \<open>The list operations on a head, as the kernel calls them.\<close>

corollary represents_insert_after:
  "represents st L \<Longrightarrow> unlinked L n \<Longrightarrow>
   represents (rt_list_insert_after st (Head h) (Node n)) (ls_insert_after L h n)"
  using represents_insert [of st L h "[]" "L h" n]
  by (simp add: ls_insert_after_def pos_prev_def)

corollary represents_insert_before:
  assumes "represents st L" "unlinked L n"
  shows "represents (rt_list_insert_before st (Head h) (Node n)) (ls_insert_before L h n)"
proof -
  have nb: "nxt st (pos_prev h (L h)) = Head h" "prv st (Head h) = pos_prev h (L h)"
    using represents_neighbours [OF assms(1), of h "L h" "[]"] by (simp_all add: pos_next_def)
  have "pos_prev h (L h) \<noteq> Node n"
    using assms(2) pos_in_chain(1) [of h "L h"] by (auto simp: unlinked_def)
  with nb have "rt_list_insert_before st (Head h) (Node n) =
      rt_list_insert_after st (pos_prev h (L h)) (Node n)"
    by (intro insert_before_is_after) auto
  then show ?thesis
    using represents_insert [OF assms(1), of h "L h" "[]" n] assms(2)
    by (simp add: ls_insert_before_def)
qed

corollary represents_insert_before_node:
  assumes "represents st L" "unlinked L n" "L h = xs @ m # ys"
  shows "represents (rt_list_insert_before st (Node m) (Node n)) (L(h := xs @ n # m # ys))"
proof -
  have nb: "nxt st (pos_prev h xs) = Node m" "prv st (Node m) = pos_prev h xs"
    using represents_neighbours [OF assms(1,3)] by (simp_all add: pos_next_def)
  have "n \<notin> set (L h)" using assms(2) by (simp add: unlinked_def)
  then have "pos_prev h xs \<noteq> Node n" "m \<noteq> n"
    using assms(3) pos_in_chain(1) [of h xs] by auto
  with nb have "rt_list_insert_before st (Node m) (Node n) =
      rt_list_insert_after st (pos_prev h xs) (Node n)"
    by (intro insert_before_is_after) auto
  then show ?thesis
    using represents_insert [OF assms(1,3,2)] by simp
qed

lemma represents_first: "represents st L \<Longrightarrow> nxt st (Head h) = pos_next h (L h)"
  using represents_neighbours(1) [of st L h "[]" "L h"] by (simp add: pos_prev_def)

corollary represents_isempty: "represents st L \<Longrightarrow> rt_list_isempty st (Head h) \<longleftrightarrow> L h = []"
  by (cases "L h") (simp_all add: rt_list_isempty_def represents_first pos_next_def)

lemma represents_list_init:
  assumes "represents st L"
  shows "represents (rt_list_init st (Head h)) (ls_init L h) \<longleftrightarrow> L h = []"
proof
  assume "represents (rt_list_init st (Head h)) (ls_init L h)"
  show "L h = []"
  proof (rule ccontr)
    assume "L h \<noteq> []"
    then obtain m ms where L: "L h = [] @ m # ms" by (cases "L h") auto
    have wf: "wf_ls L" using assms by (simp add: represents_def)
    have "unlinked (ls_init L h) m"
      using L wf by (auto simp: unlinked_def ls_init_def dest: wf_ls_unique [of L m h])
    then have "prv (rt_list_init st (Head h)) (Node m) = Node m"
      using \<open>represents (rt_list_init st (Head h)) (ls_init L h)\<close> by (simp add: represents_def)
    moreover have "prv st (Node m) = Head h"
      using represents_neighbours(2) [OF assms L] by (simp add: pos_prev_def pos_next_def)
    ultimately show False by (simp add: rt_list_init_def)
  qed
next
  assume L: "L h = []"
  then have "nxt st (Head h) = Head h" "prv st (Head h) = Head h"
    using represents_neighbours [OF assms, of h "[]" "[]"] by (simp_all add: pos_prev_def pos_next_def)
  then have "rt_list_init st (Head h) = st"
    by (simp add: rt_list_init_def fun_upd_idem)
  with L assms show "represents (rt_list_init st (Head h)) (ls_init L h)"
    by (simp add: ls_init_def fun_upd_idem)
qed

lemma list_len_loop:
  assumes "linked st (p # map Node xs @ [Head h])"
  shows "rt_list_len_loop st (Head h) p k = Some (k + of_nat (length xs))"
  using assms
proof (induction xs arbitrary: p k)
  case Nil
  then show ?case by (simp add: rt_list_len_loop.simps [of st "Head h" p])
next
  case (Cons x xs)
  then show ?case by (simp add: rt_list_len_loop.simps [of st "Head h" p] add.assoc)
qed

theorem rt_list_len_correct:
  "represents st L \<Longrightarrow> rt_list_len st (Head h) = Some (of_nat (length (L h)))"
  using list_len_loop [of st "Head h" "L h" h 0] by (simp add: rt_list_len_def represents_def)


subsection \<open>The list interface\<close>

text \<open>
  What a client of the lists relies on: a relation between a state of the provider and
  the list space, and that each operation follows its sequence operation. The pointer
  store and the list space itself both provide it, so a fact proved here holds of the C
  lists and of the sequences the kernel model is written with.
\<close>

locale list_provider =
  fixes repr :: "'s \<Rightarrow> ('h, 'n) lspace \<Rightarrow> bool"
    and ins_after :: "'s \<Rightarrow> 'h \<Rightarrow> 'n \<Rightarrow> 's"
    and ins_before :: "'s \<Rightarrow> 'h \<Rightarrow> 'n \<Rightarrow> 's"
    and rem :: "'s \<Rightarrow> 'n \<Rightarrow> 's"
    and isempty :: "'s \<Rightarrow> 'h \<Rightarrow> bool"
    and first :: "'s \<Rightarrow> 'h \<Rightarrow> 'n option"
  assumes repr_wf: "repr s L \<Longrightarrow> wf_ls L"
    and repr_ins_after: "repr s L \<Longrightarrow> unlinked L n \<Longrightarrow> repr (ins_after s h n) (ls_insert_after L h n)"
    and repr_ins_before: "repr s L \<Longrightarrow> unlinked L n \<Longrightarrow> repr (ins_before s h n) (ls_insert_before L h n)"
    and repr_rem: "repr s L \<Longrightarrow> repr (rem s n) (ls_remove L n)"
    and repr_isempty: "repr s L \<Longrightarrow> isempty s h \<longleftrightarrow> L h = []"
    and repr_first: "repr s L \<Longrightarrow> first s h = (case L h of [] \<Rightarrow> None | n # _ \<Rightarrow> Some n)"
begin

text \<open>Taking the first node off a list, repeatedly: the way every suspend list is drained.\<close>

fun drain :: "nat \<Rightarrow> 's \<Rightarrow> 'h \<Rightarrow> 'n list" where
  "drain 0 s h = []"
| "drain (Suc k) s h = (case first s h of None \<Rightarrow> [] | Some n \<Rightarrow> n # drain k (rem s n) h)"

lemma drain_take: "repr s L \<Longrightarrow> drain k s h = take k (L h)"
proof (induction k arbitrary: s L)
  case 0
  then show ?case by simp
next
  case (Suc k)
  show ?case
  proof (cases "L h")
    case Nil
    then show ?thesis using repr_first [OF Suc.prems, of h] by simp
  next
    case (Cons n ns)
    have "ls_remove L n h = ns"
      using ls_remove_at [OF repr_wf [OF Suc.prems], of h "[]" n ns] Cons by simp
    then have "drain k (rem s n) h = take k ns"
      using Suc.IH [OF repr_rem [OF Suc.prems]] by simp
    then show ?thesis using Cons repr_first [OF Suc.prems, of h] by simp
  qed
qed

lemma repr_fold_ins_before:
  "repr s L \<Longrightarrow> distinct ns \<Longrightarrow> (\<forall>n\<in>set ns. unlinked L n) \<Longrightarrow>
   repr (fold (\<lambda>n s. ins_before s h n) ns s) (L(h := L h @ ns))"
proof (induction ns arbitrary: s L)
  case Nil
  then show ?case by simp
next
  case (Cons n ns)
  let ?L = "ls_insert_before L h n"
  have r: "repr (ins_before s h n) ?L"
    using Cons.prems by (intro repr_ins_before) simp_all
  have "\<forall>m\<in>set ns. unlinked ?L m"
    using Cons.prems by (auto simp: ls_insert_before_def unlinked_def)
  then have "repr (fold (\<lambda>n s. ins_before s h n) ns (ins_before s h n)) (?L(h := ?L h @ ns))"
    using Cons.prems by (intro Cons.IH [OF r]) simp_all
  moreover have "?L(h := ?L h @ ns) = L(h := L h @ n # ns)"
    by (rule ext) (simp add: ls_insert_before_def)
  ultimately show ?case by (simp del: fun_upd_apply)
qed

text \<open>First in, first out: nodes appended to an empty list leave it in the order they came.\<close>

lemma fifo:
  assumes "repr s L" "L h = []" "distinct ns" "\<forall>n\<in>set ns. unlinked L n"
  shows "drain (length ns) (fold (\<lambda>n s. ins_before s h n) ns s) h = ns"
  using drain_take [OF repr_fold_ins_before [OF assms(1,3,4)], of "length ns" h h] assms(2) by simp

end

interpretation seq: list_provider "\<lambda>s L. s = L \<and> wf_ls L" ls_insert_after ls_insert_before
  ls_remove "\<lambda>s h. s h = []" "\<lambda>s h. case s h of [] \<Rightarrow> None | n # _ \<Rightarrow> Some n"
  by unfold_locales (auto simp: wf_ls_insert_after wf_ls_insert_before wf_ls_remove)

definition ptr_first :: "('h, 'n) lstore \<Rightarrow> 'h \<Rightarrow> 'n option" where
  "ptr_first st h = (case nxt st (Head h) of Head _ \<Rightarrow> None | Node n \<Rightarrow> Some n)"

interpretation ptr: list_provider represents
  "\<lambda>s h n. rt_list_insert_after s (Head h) (Node n)"
  "\<lambda>s h n. rt_list_insert_before s (Head h) (Node n)"
  "\<lambda>s n. rt_list_remove s (Node n)" "\<lambda>s h. rt_list_isempty s (Head h)" ptr_first
proof unfold_locales
  show "ptr_first s h = (case L h of [] \<Rightarrow> None | n # _ \<Rightarrow> Some n)"
    if "represents s L" for s :: "('a, 'b) lstore" and L h
    using represents_first [OF that, of h] by (cases "L h") (simp_all add: ptr_first_def pos_next_def)
qed (simp_all add: represents_insert_after represents_insert_before represents_remove
      represents_isempty represents_def [THEN iffD1])


subsection \<open>Singly linked lists\<close>

text \<open>
  A store of \<open>next\<close> pointers; \<^const>\<open>None\<close> is \<^verbatim>\<open>RT_NULL\<close>. The list head is
  a node like the others. The walks need not end on a cyclic store.
\<close>

type_synonym 'a sstore = "'a \<Rightarrow> 'a option"

definition rt_slist_init :: "'a sstore \<Rightarrow> 'a \<Rightarrow> 'a sstore" where
  "rt_slist_init st l = st(l := None)"

partial_function (option) rt_slist_tail :: "'a sstore \<Rightarrow> 'a \<Rightarrow> 'a option" where
  "rt_slist_tail st l = (case st l of None \<Rightarrow> Some l | Some m \<Rightarrow> rt_slist_tail st m)"

definition rt_slist_append :: "'a sstore \<Rightarrow> 'a \<Rightarrow> 'a \<Rightarrow> 'a sstore option" where
  "rt_slist_append st l n =
     do { node \<leftarrow> rt_slist_tail st l; Some (st(node \<mapsto> n, n := None)) }"

definition rt_slist_insert :: "'a sstore \<Rightarrow> 'a \<Rightarrow> 'a \<Rightarrow> 'a sstore" where
  "rt_slist_insert st l n = (let st = st(n := st l) in st(l \<mapsto> n))"

partial_function (option) rt_slist_len_loop :: "'a sstore \<Rightarrow> 'a option \<Rightarrow> u32 \<Rightarrow> u32 option" where
  "rt_slist_len_loop st p len =
     (case p of None \<Rightarrow> Some len | Some m \<Rightarrow> rt_slist_len_loop st (st m) (len + 1))"

definition rt_slist_len :: "'a sstore \<Rightarrow> 'a \<Rightarrow> u32 option" where
  "rt_slist_len st l = rt_slist_len_loop st (st l) 0"

text \<open>The walk of \<^verbatim>\<open>rt_slist_remove\<close> to the node before the one to remove.\<close>

partial_function (option) rt_slist_find_prev :: "'a sstore \<Rightarrow> 'a \<Rightarrow> 'a \<Rightarrow> 'a option" where
  "rt_slist_find_prev st node n =
     (case st node of
        None \<Rightarrow> Some node
      | Some m \<Rightarrow> if m \<noteq> n then rt_slist_find_prev st m n else Some node)"

definition rt_slist_remove :: "'a sstore \<Rightarrow> 'a \<Rightarrow> 'a \<Rightarrow> 'a sstore option" where
  "rt_slist_remove st l n =
     do { node \<leftarrow> rt_slist_find_prev st l n;
          Some (case st node of None \<Rightarrow> st | Some m \<Rightarrow> st(node := st m)) }"

definition rt_slist_first :: "'a sstore \<Rightarrow> 'a \<Rightarrow> 'a option" where
  "rt_slist_first st l = st l"

definition rt_slist_next :: "'a sstore \<Rightarrow> 'a \<Rightarrow> 'a option" where
  "rt_slist_next st n = st n"

definition rt_slist_isempty :: "'a sstore \<Rightarrow> 'a \<Rightarrow> bool" where
  "rt_slist_isempty st l \<longleftrightarrow> st l = None"

fun schain :: "'a sstore \<Rightarrow> 'a \<Rightarrow> 'a list \<Rightarrow> bool" where
  "schain st l [] \<longleftrightarrow> st l = None"
| "schain st l (x # xs) \<longleftrightarrow> st l = Some x \<and> schain st x xs"

lemma schain_upd [simp]: "n \<notin> set (l # xs) \<Longrightarrow> schain (st(n := v)) l xs = schain st l xs"
  by (induction xs arbitrary: l) auto

lemma schain_snoc:
  "schain st l (xs @ [n]) \<longleftrightarrow> schain (st(last (l # xs) := None)) l xs \<and>
     st (last (l # xs)) = Some n \<and> st n = None" if "distinct (l # xs)"
  using that by (induction xs arbitrary: l) auto

lemma slist_tail: "schain st l xs \<Longrightarrow> rt_slist_tail st l = Some (last (l # xs))"
  by (induction xs arbitrary: l) (simp_all add: rt_slist_tail.simps)

lemma schain_last: "schain st l xs \<Longrightarrow> st (last (l # xs)) = None"
  by (induction xs arbitrary: l) auto

lemma slist_append:
  assumes "schain st l xs" "distinct (l # xs)" "n \<notin> set (l # xs)"
  shows "\<exists>st'. rt_slist_append st l n = Some st' \<and> schain st' l (xs @ [n])"
proof -
  have "last (l # xs) \<in> set (l # xs)" by (intro last_in_set) simp
  then have "last (l # xs) \<noteq> n" using assms(3) by blast
  then have "schain (st(last (l # xs) \<mapsto> n, n := None)) l (xs @ [n])"
    using assms schain_last [OF assms(1)]
    by (subst schain_snoc) (auto simp: fun_upd_twist fun_upd_idem simp del: last.simps)
  then show ?thesis using slist_tail [OF assms(1)] by (simp add: rt_slist_append_def)
qed

lemma slist_insert:
  assumes "schain st l xs" "distinct (l # xs)" "n \<notin> set (l # xs)"
  shows "schain (rt_slist_insert st l n) l (n # xs)"
  using assms by (cases xs) (auto simp: rt_slist_insert_def)

lemma slist_find_prev:
  assumes "schain st l xs" "distinct (l # xs)"
  shows "rt_slist_find_prev st l n = Some (last (l # takeWhile (\<lambda>m. m \<noteq> n) xs))"
  using assms by (induction xs arbitrary: l) (simp_all add: rt_slist_find_prev.simps)

lemma slist_remove:
  assumes "schain st l xs" "distinct (l # xs)"
  shows "\<exists>st'. rt_slist_remove st l n = Some st' \<and> schain st' l (remove1 n xs)"
  using assms
proof (induction xs arbitrary: l)
  case Nil
  then show ?case by (simp add: rt_slist_remove_def rt_slist_find_prev.simps)
next
  case (Cons x xs)
  show ?case
  proof (cases "x = n")
    case True
    with Cons.prems show ?thesis
      by (cases xs) (auto simp: rt_slist_remove_def rt_slist_find_prev.simps [of st l])
  next
    case False
    have "rt_slist_remove st l n = rt_slist_remove st x n"
      using Cons.prems False by (simp add: rt_slist_remove_def rt_slist_find_prev.simps [of st l])
    moreover obtain st' where st': "rt_slist_remove st x n = Some st'" "schain st' x (remove1 n xs)"
      using Cons.IH Cons.prems by auto
    moreover have "st' l = Some x"
    proof -
      let ?p = "last (x # takeWhile (\<lambda>m. m \<noteq> n) xs)"
      have "?p \<in> set (x # takeWhile (\<lambda>m. m \<noteq> n) xs)" by (intro last_in_set) simp
      then have "?p \<noteq> l" using Cons.prems(2) by (auto dest: set_takeWhileD)
      then show ?thesis
        using Cons.prems st'(1) slist_find_prev [of st x xs n]
        by (auto simp: rt_slist_remove_def simp del: last.simps split: option.splits)
    qed
    ultimately show ?thesis using False by simp
  qed
qed

lemma slist_len:
  assumes "schain st l xs"
  shows "rt_slist_len st l = Some (of_nat (length xs))"
proof -
  have "rt_slist_len_loop st (st l) k = Some (k + of_nat (length xs))" for k
    using assms
    by (induction xs arbitrary: l k) (simp_all add: rt_slist_len_loop.simps algebra_simps)
  then show ?thesis by (simp add: rt_slist_len_def)
qed

end
