(* ===== verification/RT_Object.thy ===== *)
theory RT_Object
  imports RT_List
begin

text \<open>
  Kernel objects (\<^verbatim>\<open>src/object.c\<close>). Every kernel object starts with a type byte: its class,
  with the bit \<^verbatim>\<open>RT_Object_Class_Static\<close> for an object that was not allocated from the heap.
  The other components use this byte only: an object is in the container of its class from
  \<^verbatim>\<open>rt_object_init\<close> or \<^verbatim>\<open>rt_object_allocate\<close> to \<^verbatim>\<open>rt_object_detach\<close> or
  \<^verbatim>\<open>rt_object_delete\<close>, and the byte is \<^verbatim>\<open>RT_Object_Class_Null\<close> otherwise.
\<close>

subsection \<open>The type byte\<close>

text \<open>The object classes of \<^verbatim>\<open>rtdef.h\<close> the kernel components use.\<close>

abbreviation (input) RT_Object_Class_Null :: u8 where "RT_Object_Class_Null \<equiv> 0"
abbreviation (input) RT_Object_Class_Thread :: u8 where "RT_Object_Class_Thread \<equiv> 1"
abbreviation (input) RT_Object_Class_Semaphore :: u8 where "RT_Object_Class_Semaphore \<equiv> 2"
abbreviation (input) RT_Object_Class_Mutex :: u8 where "RT_Object_Class_Mutex \<equiv> 3"
abbreviation (input) RT_Object_Class_Event :: u8 where "RT_Object_Class_Event \<equiv> 4"
abbreviation (input) RT_Object_Class_MailBox :: u8 where "RT_Object_Class_MailBox \<equiv> 5"
abbreviation (input) RT_Object_Class_MessageQueue :: u8 where "RT_Object_Class_MessageQueue \<equiv> 6"
abbreviation (input) RT_Object_Class_MemPool :: u8 where "RT_Object_Class_MemPool \<equiv> 8"
abbreviation (input) RT_Object_Class_Timer :: u8 where "RT_Object_Class_Timer \<equiv> 10"
abbreviation (input) RT_Object_Class_Static :: u8 where "RT_Object_Class_Static \<equiv> 0x80"

definition rt_object_get_type :: "u8 \<Rightarrow> u8" where
  "rt_object_get_type ty = ty AND NOT RT_Object_Class_Static"

definition rt_object_is_systemobject :: "u8 \<Rightarrow> bool" where
  "rt_object_is_systemobject ty \<longleftrightarrow> ty AND RT_Object_Class_Static \<noteq> 0"

text \<open>
  The effect of the four operations on the type byte. With \<^verbatim>\<open>RT_USING_DEBUG\<close>,
  \<^verbatim>\<open>rt_object_init\<close> asserts that the object is not in the container of its class yet.
\<close>

definition object_init :: "u8 \<Rightarrow> u8 \<Rightarrow> u8 option" where
  "object_init c ty =
     do { rt_assert (rt_object_get_type ty \<noteq> c); Some (c OR RT_Object_Class_Static) }"

definition object_allocate :: "u8 \<Rightarrow> u8" where
  "object_allocate c = c"

definition object_detach :: "u8 \<Rightarrow> u8" where
  "object_detach ty = RT_Object_Class_Null"

lemma object_detach_type [simp]: "rt_object_get_type (object_detach ty) = RT_Object_Class_Null"
  by (simp add: object_detach_def rt_object_get_type_def)

end
