(* ===== verification/RT_Timer.thy ===== *)
theory RT_Timer
  imports RT_List RT_Object
begin

text \<open>
  The timers of \<^verbatim>\<open>src/timer.c\<close> and the tick counter of \<^verbatim>\<open>src/clock.c\<close>: the timer record,
  the state with the hard and the soft timer list, and every operation that stays within
  that state. \<^verbatim>\<open>rt_timer_start\<close> and the expiry loops call the scheduler and the timer
  callbacks and follow in later theories. With \<^verbatim>\<open>RT_TIMER_SKIP_LIST_LEVEL\<close> 1, the value of
  \<^verbatim>\<open>rtdef.h\<close>, a timer list is one row, kept in the order of the expiry ticks. Ticks are
  32-bit words and wrap; the order is the order of the distances from a base tick, and the
  lemmas say in which window of ticks the comparison of the code agrees with it.
\<close>

subsection \<open>State\<close>

type_synonym tid = nat

abbreviation (input) RT_TIMER_FLAG_DEACTIVATED :: u8 where "RT_TIMER_FLAG_DEACTIVATED \<equiv> 0"
abbreviation (input) RT_TIMER_FLAG_ACTIVATED :: u8 where "RT_TIMER_FLAG_ACTIVATED \<equiv> 1"
abbreviation (input) RT_TIMER_FLAG_PROCESSING :: u8 where "RT_TIMER_FLAG_PROCESSING \<equiv> 2"
abbreviation (input) RT_TIMER_FLAG_PERIODIC :: u8 where "RT_TIMER_FLAG_PERIODIC \<equiv> 4"
abbreviation (input) RT_TIMER_FLAG_SOFT_TIMER :: u8 where "RT_TIMER_FLAG_SOFT_TIMER \<equiv> 8"
abbreviation (input) RT_TIMER_FLAG_THREAD_TIMER :: u8 where "RT_TIMER_FLAG_THREAD_TIMER \<equiv> 16"

abbreviation (input) RT_TICK_MAX :: u32 where "RT_TICK_MAX \<equiv> 0xffffffff"

text \<open>\<^verbatim>\<open>RT_TICK_MAX / 2\<close>.\<close>

abbreviation (input) RT_TICK_HALF :: u32 where "RT_TICK_HALF \<equiv> 0x7fffffff"

lemma tick_half: "RT_TICK_MAX div 2 = RT_TICK_HALF"
  by simp

text \<open>
  A timer is the one built into a thread or one the application owns. A callback is
  \<^verbatim>\<open>_thread_timeout\<close>, whose parameter is the thread, or a function of the application.
\<close>

datatype timerid = Thread_timer tid | User_timer nat

datatype tfunc = Thread_timeout | User_func nat

record rt_timer =
  tm_type :: u8
  tm_flag :: u8
  timeout_func :: tfunc
  tm_parameter :: nat
  tm_init_tick :: u32
  timeout_tick :: u32

text \<open>The list heads: the two static lists and the local list of each expiry loop.\<close>

datatype tmhead = Timer_list | Soft_timer_list | Hard_local | Soft_local

record tmst =
  timers :: "timerid \<Rightarrow> rt_timer"
  tmlist :: "(tmhead, timerid) lspace"
  rt_tick :: u32
  random_nr :: u32

definition upd_timer :: "timerid \<Rightarrow> (rt_timer \<Rightarrow> rt_timer) \<Rightarrow> tmst \<Rightarrow> tmst" where
  "upd_timer t f s = s\<lparr>timers := (timers s)(t := f (timers s t))\<rparr>"

definition set_tm_flag :: "timerid \<Rightarrow> u8 \<Rightarrow> tmst \<Rightarrow> tmst" where
  "set_tm_flag t m s = upd_timer t (\<lambda>x. x\<lparr>tm_flag := tm_flag x OR m\<rparr>) s"

definition clr_tm_flag :: "timerid \<Rightarrow> u8 \<Rightarrow> tmst \<Rightarrow> tmst" where
  "clr_tm_flag t m s = upd_timer t (\<lambda>x. x\<lparr>tm_flag := tm_flag x AND NOT m\<rparr>) s"

definition tm_has :: "tmst \<Rightarrow> timerid \<Rightarrow> u8 \<Rightarrow> bool" where
  "tm_has s t m \<longleftrightarrow> tm_flag (timers s t) AND m \<noteq> 0"

subsection \<open>The tick counter\<close>

definition rt_tick_get :: "tmst \<Rightarrow> u32" where
  "rt_tick_get s = rt_tick s"

definition rt_tick_set :: "u32 \<Rightarrow> tmst \<Rightarrow> tmst" where
  "rt_tick_set t s = s\<lparr>rt_tick := t\<rparr>"

text \<open>
  The C expressions of \<^verbatim>\<open>rt_tick_from_millisecond\<close> are \<^verbatim>\<open>int\<close> expressions; \<open>tps\<close> is
  \<^verbatim>\<open>RT_TICK_PER_SECOND\<close>, a constant of the configuration.
\<close>

definition rt_tick_from_millisecond :: "int \<Rightarrow> int \<Rightarrow> u32" where
  "rt_tick_from_millisecond tps ms =
     (if ms < 0 then of_int (- 1)
      else of_int (tps * (ms div 1000)) + of_int ((tps * (ms mod 1000) + 999) div 1000))"

definition rt_tick_get_millisecond :: "u32 \<Rightarrow> tmst \<Rightarrow> u32" where
  "rt_tick_get_millisecond tps s =
     (if 1000 mod tps = 0 then rt_tick_get s * (1000 div tps) else 0)"

subsection \<open>Operations within the timer state\<close>

definition timer_init :: "timerid \<Rightarrow> tfunc \<Rightarrow> nat \<Rightarrow> u32 \<Rightarrow> u8 \<Rightarrow> tmst \<Rightarrow> tmst" where
  "timer_init t timeout parameter time flag s =
     upd_timer t (\<lambda>x. x\<lparr>tm_flag := flag AND NOT RT_TIMER_FLAG_ACTIVATED,
       timeout_func := timeout, tm_parameter := parameter,
       timeout_tick := 0, tm_init_tick := time\<rparr>) s"

text \<open>
  \<^verbatim>\<open>rt_list_init\<close> on the row of the timer leaves the list space as it is: a timer that is
  initialised is on no list.
\<close>

definition timer_list_next_timeout :: "tmst \<Rightarrow> tmhead \<Rightarrow> u32 option" where
  "timer_list_next_timeout s h =
     (case tmlist s h of [] \<Rightarrow> None | t # _ \<Rightarrow> Some (timeout_tick (timers s t)))"

definition timer_remove :: "timerid \<Rightarrow> tmst \<Rightarrow> tmst" where
  "timer_remove t s = s\<lparr>tmlist := ls_remove (tmlist s) t\<rparr>"

definition rt_timer_init :: "timerid \<Rightarrow> tfunc \<Rightarrow> nat \<Rightarrow> u32 \<Rightarrow> u8 \<Rightarrow> tmst \<Rightarrow> tmst option" where
  "rt_timer_init t timeout parameter time flag s =
     do { rt_assert (time < RT_TICK_MAX div 2);
          ty \<leftarrow> object_init RT_Object_Class_Timer (tm_type (timers s t));
          let s = upd_timer t (\<lambda>x. x\<lparr>tm_type := ty\<rparr>) s;
          Some (timer_init t timeout parameter time flag s) }"

definition rt_timer_detach :: "timerid \<Rightarrow> tmst \<Rightarrow> tmst option" where
  "rt_timer_detach t s =
     do { rt_assert (rt_object_get_type (tm_type (timers s t)) = RT_Object_Class_Timer);
          rt_assert (rt_object_is_systemobject (tm_type (timers s t)));
          let s = timer_remove t s;
          let s = clr_tm_flag t RT_TIMER_FLAG_ACTIVATED s;
          Some (upd_timer t (\<lambda>x. x\<lparr>tm_type := object_detach (tm_type x)\<rparr>) s) }"

text \<open>
  \<^verbatim>\<open>rt_timer_create\<close>: \<open>obj\<close> is what \<^verbatim>\<open>rt_object_allocate\<close> returned, no object when the heap
  is exhausted.
\<close>

definition rt_timer_create ::
  "timerid option \<Rightarrow> tfunc \<Rightarrow> nat \<Rightarrow> u32 \<Rightarrow> u8 \<Rightarrow> tmst \<Rightarrow> (timerid option \<times> tmst) option" where
  "rt_timer_create obj timeout parameter time flag s =
     do { rt_assert (time < RT_TICK_MAX div 2);
          case obj of
            None \<Rightarrow> Some (None, s)
          | Some t \<Rightarrow>
              let s = upd_timer t (\<lambda>x. x\<lparr>tm_type := object_allocate RT_Object_Class_Timer\<rparr>) s
              in Some (Some t, timer_init t timeout parameter time flag s) }"

definition rt_timer_delete :: "timerid \<Rightarrow> tmst \<Rightarrow> tmst option" where
  "rt_timer_delete t s =
     do { rt_assert (rt_object_get_type (tm_type (timers s t)) = RT_Object_Class_Timer);
          rt_assert (\<not> rt_object_is_systemobject (tm_type (timers s t)));
          let s = timer_remove t s;
          let s = clr_tm_flag t RT_TIMER_FLAG_ACTIVATED s;
          Some (upd_timer t (\<lambda>x. x\<lparr>tm_type := object_detach (tm_type x)\<rparr>) s) }"

text \<open>
  The search of \<^verbatim>\<open>_timer_start\<close> for the row position, with the insertion after it: the
  walk stops before the first timer that expires strictly later.
\<close>

fun timer_insert :: "(timerid \<Rightarrow> rt_timer) \<Rightarrow> timerid \<Rightarrow> timerid list \<Rightarrow> timerid list" where
  "timer_insert T n [] = [n]"
| "timer_insert T n (p # ps) =
     (if timeout_tick (T p) - timeout_tick (T n) = 0 then p # timer_insert T n ps
      else if timeout_tick (T p) - timeout_tick (T n) < RT_TICK_MAX div 2 then n # p # ps
      else p # timer_insert T n ps)"

definition timer_start :: "tmhead \<Rightarrow> timerid \<Rightarrow> tmst \<Rightarrow> rt_err \<times> tmst" where
  "timer_start h t s =
     (if tm_has s t RT_TIMER_FLAG_PROCESSING then (- RT_ERROR, s)
      else
        let s = timer_remove t s;
            s = clr_tm_flag t RT_TIMER_FLAG_ACTIVATED s;
            s = upd_timer t (\<lambda>x. x\<lparr>timeout_tick := rt_tick_get s + tm_init_tick x\<rparr>) s;
            s = s\<lparr>random_nr := random_nr s + 1\<rparr>;
            s = s\<lparr>tmlist := (tmlist s)(h := timer_insert (timers s) t (tmlist s h))\<rparr>
        in (RT_EOK, set_tm_flag t RT_TIMER_FLAG_ACTIVATED s))"

definition rt_timer_stop :: "timerid \<Rightarrow> tmst \<Rightarrow> (rt_err \<times> tmst) option" where
  "rt_timer_stop t s =
     do { rt_assert (rt_object_get_type (tm_type (timers s t)) = RT_Object_Class_Timer);
          if \<not> tm_has s t RT_TIMER_FLAG_ACTIVATED then Some (- RT_ERROR, s)
          else Some (RT_EOK, clr_tm_flag t RT_TIMER_FLAG_ACTIVATED (timer_remove t s)) }"

text \<open>
  The argument of \<^verbatim>\<open>rt_timer_control\<close> points to a tick, a function or a parameter, as the
  command has it; a pointer to something else is not a call of the interface.
\<close>

datatype tmarg = Arg_tick u32 | Arg_func tfunc | Arg_parm nat | Arg_none

abbreviation (input) RT_TIMER_CTRL_SET_TIME :: int where "RT_TIMER_CTRL_SET_TIME \<equiv> 0"
abbreviation (input) RT_TIMER_CTRL_GET_TIME :: int where "RT_TIMER_CTRL_GET_TIME \<equiv> 1"
abbreviation (input) RT_TIMER_CTRL_SET_ONESHOT :: int where "RT_TIMER_CTRL_SET_ONESHOT \<equiv> 2"
abbreviation (input) RT_TIMER_CTRL_SET_PERIODIC :: int where "RT_TIMER_CTRL_SET_PERIODIC \<equiv> 3"
abbreviation (input) RT_TIMER_CTRL_GET_STATE :: int where "RT_TIMER_CTRL_GET_STATE \<equiv> 4"
abbreviation (input) RT_TIMER_CTRL_GET_REMAIN_TIME :: int where "RT_TIMER_CTRL_GET_REMAIN_TIME \<equiv> 5"
abbreviation (input) RT_TIMER_CTRL_GET_FUNC :: int where "RT_TIMER_CTRL_GET_FUNC \<equiv> 6"
abbreviation (input) RT_TIMER_CTRL_SET_FUNC :: int where "RT_TIMER_CTRL_SET_FUNC \<equiv> 7"
abbreviation (input) RT_TIMER_CTRL_GET_PARM :: int where "RT_TIMER_CTRL_GET_PARM \<equiv> 8"
abbreviation (input) RT_TIMER_CTRL_SET_PARM :: int where "RT_TIMER_CTRL_SET_PARM \<equiv> 9"

definition timer_set_time :: "timerid \<Rightarrow> u32 \<Rightarrow> tmst \<Rightarrow> tmst option" where
  "timer_set_time t v s =
     do { rt_assert (v < RT_TICK_MAX div 2);
          let s = (if tm_has s t RT_TIMER_FLAG_ACTIVATED
                   then clr_tm_flag t RT_TIMER_FLAG_ACTIVATED (timer_remove t s) else s);
          Some (upd_timer t (\<lambda>x. x\<lparr>tm_init_tick := v\<rparr>) s) }"

definition rt_timer_control :: "timerid \<Rightarrow> int \<Rightarrow> tmarg \<Rightarrow> tmst \<Rightarrow> (rt_err \<times> tmarg \<times> tmst) option" where
  "rt_timer_control t cmd arg s =
     do { rt_assert (rt_object_get_type (tm_type (timers s t)) = RT_Object_Class_Timer);
          if cmd = RT_TIMER_CTRL_GET_TIME then
            Some (RT_EOK, Arg_tick (tm_init_tick (timers s t)), s)
          else if cmd = RT_TIMER_CTRL_SET_TIME then
            (case arg of
               Arg_tick v \<Rightarrow> do { s \<leftarrow> timer_set_time t v s; Some (RT_EOK, arg, s) }
             | _ \<Rightarrow> None)
          else if cmd = RT_TIMER_CTRL_SET_ONESHOT then
            Some (RT_EOK, arg, clr_tm_flag t RT_TIMER_FLAG_PERIODIC s)
          else if cmd = RT_TIMER_CTRL_SET_PERIODIC then
            Some (RT_EOK, arg, set_tm_flag t RT_TIMER_FLAG_PERIODIC s)
          else if cmd = RT_TIMER_CTRL_GET_STATE then
            Some (RT_EOK, Arg_tick (if tm_has s t RT_TIMER_FLAG_ACTIVATED then 1 else 0), s)
          else if cmd = RT_TIMER_CTRL_GET_REMAIN_TIME then
            Some (RT_EOK, Arg_tick (timeout_tick (timers s t)), s)
          else if cmd = RT_TIMER_CTRL_GET_FUNC then
            Some (RT_EOK, Arg_func (timeout_func (timers s t)), s)
          else if cmd = RT_TIMER_CTRL_SET_FUNC then
            (case arg of
               Arg_func f \<Rightarrow> Some (RT_EOK, arg, upd_timer t (\<lambda>x. x\<lparr>timeout_func := f\<rparr>) s)
             | _ \<Rightarrow> None)
          else if cmd = RT_TIMER_CTRL_GET_PARM then
            Some (RT_EOK, Arg_parm (tm_parameter (timers s t)), s)
          else if cmd = RT_TIMER_CTRL_SET_PARM then
            (case arg of
               Arg_parm p \<Rightarrow> Some (RT_EOK, arg, upd_timer t (\<lambda>x. x\<lparr>tm_parameter := p\<rparr>) s)
             | _ \<Rightarrow> None)
          else Some (RT_EOK, arg, s) }"

definition rt_timer_next_timeout_tick :: "tmst \<Rightarrow> u32" where
  "rt_timer_next_timeout_tick s =
     (case timer_list_next_timeout s Timer_list of None \<Rightarrow> RT_TICK_MAX | Some t \<Rightarrow> t)"

definition rt_system_timer_init :: "tmst \<Rightarrow> tmst" where
  "rt_system_timer_init s = s\<lparr>tmlist := ls_init (tmlist s) Timer_list\<rparr>"

subsection \<open>Frame lemmas\<close>

lemmas tm_upd_defs = upd_timer_def set_tm_flag_def clr_tm_flag_def timer_remove_def

lemma tm_upd_frame [simp]:
  "tmlist (upd_timer t f s) = tmlist s" "rt_tick (upd_timer t f s) = rt_tick s"
  "tmlist (set_tm_flag t m s) = tmlist s" "rt_tick (set_tm_flag t m s) = rt_tick s"
  "tmlist (clr_tm_flag t m s) = tmlist s" "rt_tick (clr_tm_flag t m s) = rt_tick s"
  "timers (timer_remove t s) = timers s" "rt_tick (timer_remove t s) = rt_tick s"
  "tmlist (timer_remove t s) = ls_remove (tmlist s) t"
  by (simp_all add: tm_upd_defs)

lemma timers_upd [simp]:
  "timers (upd_timer t f s) u = (if u = t then f (timers s t) else timers s u)"
  "timers (set_tm_flag t m s) u =
     (if u = t then (timers s t)\<lparr>tm_flag := tm_flag (timers s t) OR m\<rparr> else timers s u)"
  "timers (clr_tm_flag t m s) u =
     (if u = t then (timers s t)\<lparr>tm_flag := tm_flag (timers s t) AND NOT m\<rparr> else timers s u)"
  by (simp_all add: tm_upd_defs)

text \<open>
  The flags are single bits; reading one after writing another. The complements are in the
  form the simplifier gives them, e.g. \<open>- 2\<close> for the complement of 1.
\<close>

lemma flag_bits [simp]:
  fixes w :: u8
  shows "(w OR 1) AND 1 = 1" "(w OR 1) AND 2 = w AND 2" "(w OR 1) AND 4 = w AND 4"
    "(w OR 1) AND 8 = w AND 8" "(w OR 1) AND 16 = w AND 16"
    "(w AND - 2) AND 1 = 0" "(w AND - 2) AND 2 = w AND 2" "(w AND - 2) AND 4 = w AND 4"
    "(w AND - 2) AND 8 = w AND 8" "(w AND - 2) AND 16 = w AND 16"
    "(w OR 2) AND 1 = w AND 1" "(w OR 2) AND 8 = w AND 8" "(w OR 2) AND 4 = w AND 4"
    "(w OR 2) AND 16 = w AND 16" "(w OR 2) AND 2 = 2"
    "(w AND - 3) AND 1 = w AND 1" "(w AND - 3) AND 8 = w AND 8" "(w AND - 3) AND 4 = w AND 4"
    "(w AND - 3) AND 16 = w AND 16" "(w AND - 3) AND 2 = 0"
    "(w OR 4) AND 1 = w AND 1" "(w OR 4) AND 8 = w AND 8" "(w OR 4) AND 16 = w AND 16"
    "(w AND - 5) AND 1 = w AND 1" "(w AND - 5) AND 8 = w AND 8" "(w AND - 5) AND 16 = w AND 16"
  by (simp_all add: bit.conj_disj_distrib2 and.assoc)

lemma tm_has_upd [simp]:
  "tm_has (timer_remove t s) u m = tm_has s u m"
  "tm_has (s\<lparr>random_nr := r\<rparr>) u m = tm_has s u m"
  "tm_has (s\<lparr>tmlist := L\<rparr>) u m = tm_has s u m"
  "tm_has (s\<lparr>rt_tick := k\<rparr>) u m = tm_has s u m"
  by (simp_all add: tm_has_def timer_remove_def)

subsection \<open>The invariant of the timer lists\<close>

text \<open>
  A timer is on at most one list; a timer on a static list is activated and on the list its
  kind selects; an activated timer is on a list; a timer on a list is an initialised timer.
\<close>

definition tm_list_of :: "u8 \<Rightarrow> tmhead" where
  "tm_list_of flag = (if flag AND RT_TIMER_FLAG_SOFT_TIMER \<noteq> 0 then Soft_timer_list else Timer_list)"

definition timer_ok :: "(tmhead, timerid) lspace \<Rightarrow> timerid \<Rightarrow> rt_timer \<Rightarrow> bool" where
  "timer_ok L t x \<longleftrightarrow>
     (\<forall>h\<in>{Timer_list, Soft_timer_list}. t \<in> set (L h) \<longrightarrow>
        tm_flag x AND RT_TIMER_FLAG_ACTIVATED \<noteq> 0 \<and> h = tm_list_of (tm_flag x)) \<and>
     (tm_flag x AND RT_TIMER_FLAG_ACTIVATED \<noteq> 0 \<longrightarrow> \<not> unlinked L t) \<and>
     (\<not> unlinked L t \<longrightarrow> rt_object_get_type (tm_type x) = RT_Object_Class_Timer)"

definition timer_inv :: "tmst \<Rightarrow> bool" where
  "timer_inv s \<longleftrightarrow> wf_ls (tmlist s) \<and> (\<forall>t. timer_ok (tmlist s) t (timers s t))"

lemma timer_invD:
  "timer_inv s \<Longrightarrow> wf_ls (tmlist s)" "timer_inv s \<Longrightarrow> timer_ok (tmlist s) t (timers s t)"
  by (auto simp: timer_inv_def)

lemma unlinked_ls_remove: "unlinked (ls_remove L t) u \<longleftrightarrow> u = t \<or> unlinked L u"
  by (auto simp: unlinked_def)

lemma timer_ok_remove_other: "timer_ok L u x \<Longrightarrow> u \<noteq> t \<Longrightarrow> timer_ok (ls_remove L t) u x"
  by (simp add: timer_ok_def unlinked_ls_remove)

lemma timer_ok_unlinked:
  "unlinked L t \<Longrightarrow> timer_ok L t x \<longleftrightarrow> tm_flag x AND RT_TIMER_FLAG_ACTIVATED = 0"
  by (auto simp: timer_ok_def unlinked_def)

text \<open>Taking a timer off its list and deactivating it, the common part of the operations.\<close>

lemma timer_inv_off:
  assumes "timer_inv s" "tm_flag (f (timers s t)) AND RT_TIMER_FLAG_ACTIVATED = 0"
  shows "timer_inv (upd_timer t f (timer_remove t s))"
  using assms(2) timer_invD [OF assms(1)]
  by (simp add: timer_inv_def wf_ls_remove timer_ok_unlinked timer_ok_remove_other)

lemma timer_inv_unlinked:
  assumes "timer_inv s" "unlinked (tmlist s) t" "tm_flag (f (timers s t)) AND RT_TIMER_FLAG_ACTIVATED = 0"
  shows "timer_inv (upd_timer t f s)"
  using assms(2,3) timer_invD [OF assms(1)]
  by (simp add: timer_inv_def timer_ok_unlinked)

lemma upd_timer_twice: "upd_timer t f (upd_timer t g s) = upd_timer t (\<lambda>x. f (g x)) s"
  by (simp add: upd_timer_def)

text \<open>A change of a timer record that keeps the two flags and the type.\<close>

lemma timer_ok_cong:
  "tm_flag x AND 1 = tm_flag y AND 1 \<Longrightarrow> tm_flag x AND 8 = tm_flag y AND 8 \<Longrightarrow>
   tm_type x = tm_type y \<Longrightarrow> timer_ok L t x = timer_ok L t y"
  by (simp add: timer_ok_def tm_list_of_def)

lemma timer_inv_upd_field:
  assumes "timer_inv s" "tm_flag (f (timers s t)) AND 1 = tm_flag (timers s t) AND 1"
    "tm_flag (f (timers s t)) AND 8 = tm_flag (timers s t) AND 8"
    "tm_type (f (timers s t)) = tm_type (timers s t)"
  shows "timer_inv (upd_timer t f s)"
  using assms timer_ok_cong [OF assms(2-4)] by (simp add: timer_inv_def)

subsection \<open>Sorted insertion\<close>

lemma timer_insert_split: "\<exists>xs ys. ps = xs @ ys \<and> timer_insert T n ps = xs @ n # ys"
proof (induction ps)
  case (Cons p ps)
  then obtain xs ys where "ps = xs @ ys" "timer_insert T n ps = xs @ n # ys" by blast
  then show ?case
    by (auto intro: exI [of _ "[]"] exI [of _ "p # xs"])
qed simp

lemma set_timer_insert [simp]: "set (timer_insert T n ps) = insert n (set ps)"
  using timer_insert_split [of ps T n] by auto

lemma timer_start_unlinked:
  assumes "wf_ls L" "unlinked L t"
  shows "wf_ls (L(h := timer_insert T t (L h)))"
  using timer_insert_split [of "L h" T t] wf_ls_split [OF assms(1) _ assms(2)] by metis

lemma timer_ok_link_other:
  assumes "timer_ok L u x" "u \<noteq> t"
  shows "timer_ok (L(h := timer_insert T t (L h))) u x"
proof -
  have "u \<in> set ((L(h := timer_insert T t (L h))) g) \<longleftrightarrow> u \<in> set (L g)" for g
    using assms(2) by simp
  then show ?thesis using assms(1) unfolding timer_ok_def unlinked_def by presburger
qed

text \<open>The timer record after a start at tick \<open>k\<close>, and the state after it.\<close>

definition started :: "u32 \<Rightarrow> rt_timer \<Rightarrow> rt_timer" where
  "started k x = x\<lparr>timeout_tick := k + tm_init_tick x,
     tm_flag := (tm_flag x AND NOT RT_TIMER_FLAG_ACTIVATED) OR RT_TIMER_FLAG_ACTIVATED\<rparr>"

lemma started_simps [simp]:
  "timeout_tick (started k x) = k + tm_init_tick x" "tm_type (started k x) = tm_type x"
  "tm_flag (started k x) AND 1 = 1" "tm_flag (started k x) AND 2 = tm_flag x AND 2"
  "tm_flag (started k x) AND 4 = tm_flag x AND 4" "tm_flag (started k x) AND 8 = tm_flag x AND 8"
  "tm_flag (started k x) AND 16 = tm_flag x AND 16"
  "timeout_func (started k x) = timeout_func x" "tm_parameter (started k x) = tm_parameter x"
  "tm_init_tick (started k x) = tm_init_tick x"
  by (simp_all add: started_def)

lemma timer_insert_cong:
  assumes "\<And>p. timeout_tick (T p) = timeout_tick (T' p)"
  shows "timer_insert T n ps = timer_insert T' n ps"
  by (induction ps) (simp_all add: assms)

lemma timer_start_eq:
  assumes "\<not> tm_has s t RT_TIMER_FLAG_PROCESSING"
  shows "timer_start h t s =
    (let T = (timers s)(t := started (rt_tick s) (timers s t)); L = ls_remove (tmlist s) t
     in (RT_EOK, s\<lparr>random_nr := random_nr s + 1, tmlist := L(h := timer_insert T t (L h)), timers := T\<rparr>))"
proof -
  let ?x = "timers s t"
  let ?y = "?x\<lparr>tm_flag := tm_flag ?x AND NOT RT_TIMER_FLAG_ACTIVATED, timeout_tick := rt_tick s + tm_init_tick ?x\<rparr>"
  have "timer_insert ((timers s)(t := ?y)) t = timer_insert ((timers s)(t := started (rt_tick s) ?x)) t"
    by (rule ext, rule timer_insert_cong) simp
  then show ?thesis
    using assms by (simp add: timer_start_def Let_def tm_upd_defs started_def rt_tick_get_def)
qed

lemma timer_ok_started:
  assumes "unlinked L t" "h = tm_list_of (tm_flag x)" "rt_object_get_type (tm_type x) = RT_Object_Class_Timer"
  shows "timer_ok (L(h := timer_insert T t (L h))) t (started k x)"
proof -
  have "t \<in> set ((L(h := timer_insert T t (L h))) g) \<longleftrightarrow> g = h" for g
    using assms(1) by (simp add: unlinked_def)
  moreover have "tm_list_of (tm_flag (started k x)) = h"
    using assms(2) by (simp add: tm_list_of_def)
  ultimately show ?thesis using assms(3) by (simp add: timer_ok_def unlinked_def del: fun_upd_apply)
qed

lemma timer_start_inv:
  assumes "timer_inv s" "h = tm_list_of (tm_flag (timers s t))"
    "rt_object_get_type (tm_type (timers s t)) = RT_Object_Class_Timer"
  shows "timer_inv (snd (timer_start h t s))"
proof (cases "tm_has s t RT_TIMER_FLAG_PROCESSING")
  case False
  note eq = timer_start_eq [OF False, of h, unfolded Let_def]
  show ?thesis
    unfolding timer_inv_def eq
    using timer_invD [OF assms(1)] timer_ok_started [OF unlinked_remove assms(2,3)]
    by (simp add: timer_start_unlinked wf_ls_remove timer_ok_link_other timer_ok_remove_other
        del: fun_upd_apply) (simp add: timer_ok_link_other timer_ok_remove_other)
qed (use assms in \<open>simp add: timer_start_def\<close>)

text \<open>
  The distance of an expiry tick from a base tick. Two ticks whose distances are below
  \<^verbatim>\<open>RT_TICK_MAX / 2\<close> are compared by the code as their distances are.
\<close>

definition tm_dist :: "u32 \<Rightarrow> rt_timer \<Rightarrow> nat" where
  "tm_dist b x = unat (timeout_tick x - b)"

definition tm_sorted :: "u32 \<Rightarrow> (timerid \<Rightarrow> rt_timer) \<Rightarrow> timerid list \<Rightarrow> bool" where
  "tm_sorted b T ps \<longleftrightarrow>
     sorted (map (\<lambda>t. tm_dist b (T t)) ps) \<and> (\<forall>t\<in>set ps. tm_dist b (T t) < 0x7fffffff)"

lemma word_diff_half:
  fixes x y :: u32
  assumes "unat x < 0x7fffffff" "unat y < 0x7fffffff"
  shows "(x - y \<noteq> 0 \<and> x - y < 0x7fffffff) \<longleftrightarrow> unat y < unat x"
  using assms by (simp add: word_less_nat_alt unat_sub_if' word_size flip: unat_eq_0) auto

lemma tick_compare:
  fixes a c b :: u32
  assumes "unat (a - b) < 0x7fffffff" "unat (c - b) < 0x7fffffff"
  shows "(a - c \<noteq> 0 \<and> a - c < 0x7fffffff) \<longleftrightarrow> unat (c - b) < unat (a - b)"
  using word_diff_half [OF assms] by simp

lemma timer_insert_step:
  assumes "tm_dist b (T n) < 0x7fffffff" "tm_dist b (T p) < 0x7fffffff"
  shows "timer_insert T n (p # ps) =
    (if tm_dist b (T p) \<le> tm_dist b (T n) then p # timer_insert T n ps else n # p # ps)"
proof -
  have "(timeout_tick (T p) - timeout_tick (T n) \<noteq> 0 \<and>
         timeout_tick (T p) - timeout_tick (T n) < 0x7fffffff) \<longleftrightarrow>
        tm_dist b (T n) < tm_dist b (T p)"
    using tick_compare assms by (simp add: tm_dist_def)
  then show ?thesis by (auto simp: not_le)
qed

declare timer_insert.simps(2) [simp del]

text \<open>
  The insertion is stable: in front are the timers that expire no later, in their order,
  behind the ones that expire later.
\<close>

lemma timer_insert_window:
  assumes "tm_dist b (T n) < 0x7fffffff" "\<forall>t\<in>set ps. tm_dist b (T t) < 0x7fffffff"
  shows "timer_insert T n ps = takeWhile (\<lambda>t. tm_dist b (T t) \<le> tm_dist b (T n)) ps @ n #
           dropWhile (\<lambda>t. tm_dist b (T t) \<le> tm_dist b (T n)) ps"
  using assms(2) by (induction ps) (simp_all add: timer_insert_step [where b = b] assms(1))

lemma timer_insert_sorted:
  assumes "tm_sorted b T ps" "tm_dist b (T n) < 0x7fffffff"
  shows "tm_sorted b T (timer_insert T n ps)"
  using assms(1)
  by (induction ps) (auto simp: tm_sorted_def timer_insert_step [where b = b] assms(2))

lemma tm_sorted_remove: "tm_sorted b T ps \<Longrightarrow> tm_sorted b T (filter P ps)"
  by (auto simp: tm_sorted_def intro: sorted_filter)

lemma tm_sorted_cong:
  "(\<And>t. t \<in> set ps \<Longrightarrow> timeout_tick (T t) = timeout_tick (T' t)) \<Longrightarrow> tm_sorted b T ps = tm_sorted b T' ps"
  by (simp add: tm_sorted_def tm_dist_def cong: map_cong)

subsection \<open>Every operation keeps the invariant\<close>

lemmas tm_op_simps = set_tm_flag_def clr_tm_flag_def upd_timer_twice timer_init_def bind_Some Let_def

lemma rt_timer_stop_inv: "rt_timer_stop t s = Some (e, s') \<Longrightarrow> timer_inv s \<Longrightarrow> timer_inv s'"
  by (auto simp: rt_timer_stop_def tm_op_simps intro!: timer_inv_off split: if_splits)

lemma rt_timer_detach_inv: "rt_timer_detach t s = Some s' \<Longrightarrow> timer_inv s \<Longrightarrow> timer_inv s'"
  by (auto simp: rt_timer_detach_def tm_op_simps intro!: timer_inv_off split: if_splits)

lemma rt_timer_delete_inv: "rt_timer_delete t s = Some s' \<Longrightarrow> timer_inv s \<Longrightarrow> timer_inv s'"
  by (auto simp: rt_timer_delete_def tm_op_simps intro!: timer_inv_off split: if_splits)

lemma timer_set_time_inv: "timer_set_time t v s = Some s' \<Longrightarrow> timer_inv s \<Longrightarrow> timer_inv s'"
  by (auto simp: timer_set_time_def tm_op_simps intro!: timer_inv_off timer_inv_upd_field split: if_splits)

lemma rt_timer_init_inv:
  assumes "rt_timer_init t f p v fl s = Some s'" "timer_inv s"
  shows "timer_inv s'"
proof -
  have "unlinked (tmlist s) t"
    using assms(1) timer_invD(2) [OF assms(2), of t]
    by (auto simp: rt_timer_init_def object_init_def timer_ok_def bind_Some split: if_splits)
  then show ?thesis
    using assms by (auto simp: rt_timer_init_def tm_op_simps intro!: timer_inv_unlinked split: if_splits)
qed

lemma rt_timer_create_inv:
  assumes "rt_timer_create obj f p v fl s = Some (r, s')" "timer_inv s"
    "\<forall>t. obj = Some t \<longrightarrow> unlinked (tmlist s) t"
  shows "timer_inv s'"
  using assms
  by (auto simp: rt_timer_create_def tm_op_simps intro!: timer_inv_unlinked split: if_splits option.splits)

lemma rt_timer_control_inv:
  assumes "rt_timer_control t c a s = Some (e, a', s')" "timer_inv s"
  shows "timer_inv s'"
  using assms timer_set_time_inv [OF _ assms(2)]
  by (auto simp: rt_timer_control_def tm_op_simps intro!: timer_inv_upd_field split: if_splits tmarg.splits)

subsection \<open>Ticks and milliseconds\<close>

text \<open>The conversion rounds up, and nothing overflows up to 1000 ticks per second.\<close>

lemma rt_tick_from_millisecond_ceil:
  assumes "0 < tps" "tps \<le> 1000" "0 \<le> ms" "ms < 2 ^ 31"
  shows "uint (rt_tick_from_millisecond tps ms) = (tps * ms + 999) div 1000"
proof -
  have "tps * ms = 1000 * (tps * (ms div 1000)) + tps * (ms mod 1000)"
    by (metis distrib_left mult.left_commute mult_div_mod_eq)
  then have sum: "tps * (ms div 1000) + (tps * (ms mod 1000) + 999) div 1000 = (tps * ms + 999) div 1000"
    by simp
  have "tps * ms \<le> 1000 * ms" using assms by (simp add: mult_right_mono)
  then have "(tps * ms + 999) div 1000 < 2 ^ 32" "0 \<le> (tps * ms + 999) div 1000"
    using assms by (simp_all add: pos_imp_zdiv_nonneg_iff)
  then have "uint (of_int ((tps * ms + 999) div 1000) :: u32) = (tps * ms + 999) div 1000"
    by (simp add: uint_word_of_int take_bit_int_eq_self)
  moreover have "rt_tick_from_millisecond tps ms = of_int ((tps * ms + 999) div 1000)"
    unfolding rt_tick_from_millisecond_def sum [symmetric] of_int_add using assms(3) by simp
  ultimately show ?thesis by simp
qed

end
