(* ===== verification/RT_Ffs.thy ===== *)
theory RT_Ffs
  imports RT_Prelude
begin

text \<open>
  \<^verbatim>\<open>__rt_ffs\<close> of \<^verbatim>\<open>src/kservice.c\<close>, which the scheduler uses to find the highest ready
  priority in the ready group. Both software variants are modelled: the byte table
  (\<open>rt_ffs\<close>, the one the configurations select) and the modulo-37 table of
  \<^verbatim>\<open>RT_USING_TINY_FFS\<close> (\<open>rt_ffs_tiny\<close>). They compute the same function: the index,
  from 1, of the least significant set bit, and 0 for the value 0. The argument is the
  32-bit pattern of the C \<^verbatim>\<open>int\<close>.
\<close>

definition lowest_bit_bitmap :: "nat list" where
  "lowest_bit_bitmap =
   [0, 0, 1, 0, 2, 0, 1, 0, 3, 0, 1, 0, 2, 0, 1, 0,
    4, 0, 1, 0, 2, 0, 1, 0, 3, 0, 1, 0, 2, 0, 1, 0,
    5, 0, 1, 0, 2, 0, 1, 0, 3, 0, 1, 0, 2, 0, 1, 0,
    4, 0, 1, 0, 2, 0, 1, 0, 3, 0, 1, 0, 2, 0, 1, 0,
    6, 0, 1, 0, 2, 0, 1, 0, 3, 0, 1, 0, 2, 0, 1, 0,
    4, 0, 1, 0, 2, 0, 1, 0, 3, 0, 1, 0, 2, 0, 1, 0,
    5, 0, 1, 0, 2, 0, 1, 0, 3, 0, 1, 0, 2, 0, 1, 0,
    4, 0, 1, 0, 2, 0, 1, 0, 3, 0, 1, 0, 2, 0, 1, 0,
    7, 0, 1, 0, 2, 0, 1, 0, 3, 0, 1, 0, 2, 0, 1, 0,
    4, 0, 1, 0, 2, 0, 1, 0, 3, 0, 1, 0, 2, 0, 1, 0,
    5, 0, 1, 0, 2, 0, 1, 0, 3, 0, 1, 0, 2, 0, 1, 0,
    4, 0, 1, 0, 2, 0, 1, 0, 3, 0, 1, 0, 2, 0, 1, 0,
    6, 0, 1, 0, 2, 0, 1, 0, 3, 0, 1, 0, 2, 0, 1, 0,
    4, 0, 1, 0, 2, 0, 1, 0, 3, 0, 1, 0, 2, 0, 1, 0,
    5, 0, 1, 0, 2, 0, 1, 0, 3, 0, 1, 0, 2, 0, 1, 0,
    4, 0, 1, 0, 2, 0, 1, 0, 3, 0, 1, 0, 2, 0, 1, 0]"

definition rt_ffs :: "u32 \<Rightarrow> nat" where
  "rt_ffs value =
     (if value = 0 then 0
      else if value AND 0xff \<noteq> 0 then lowest_bit_bitmap ! unat (value AND 0xff) + 1
      else if value AND 0xff00 \<noteq> 0 then
        lowest_bit_bitmap ! unat (drop_bit 8 (value AND 0xff00)) + 9
      else if value AND 0xff0000 \<noteq> 0 then
        lowest_bit_bitmap ! unat (drop_bit 16 (value AND 0xff0000)) + 17
      else lowest_bit_bitmap ! unat (drop_bit 24 (value AND 0xff000000)) + 25)"

definition lowest_bit_bitmap_tiny :: "nat list" where
  "lowest_bit_bitmap_tiny =
   [0, 1, 2, 27, 3, 24, 28, 32,
    4, 17, 25, 31, 29, 12, 32, 14,
    5, 8, 18, 32, 26, 23, 32, 16,
    30, 11, 13, 7, 32, 22, 15, 10,
    6, 21, 9, 20, 19]"

definition rt_ffs_tiny :: "u32 \<Rightarrow> nat" where
  "rt_ffs_tiny value =
     lowest_bit_bitmap_tiny ! unat (((value AND (value - 1)) XOR value) mod 37)"

text \<open>The least set bit, as a specification.\<close>

definition least_set :: "'a::len word \<Rightarrow> nat \<Rightarrow> bool" where
  "least_set w i \<longleftrightarrow> bit w i \<and> (\<forall>j<i. \<not> bit w j)"

lemma least_set_unique: "least_set w i \<Longrightarrow> least_set w j \<Longrightarrow> i = j"
  by (metis least_set_def linorder_neqE_nat)

lemma least_set_nonzero: "least_set w i \<Longrightarrow> w \<noteq> 0"
  by (auto simp: least_set_def)

lemma least_set_less: "least_set (w :: 'a::len word) i \<Longrightarrow> i < LENGTH('a)"
  by (auto simp: least_set_def dest: bit_imp_le_length)

lemma table_bytes:
  "list_all (\<lambda>(b :: int, i). i < 8 \<and> bit b i \<and> list_all (\<lambda>j. \<not> bit b j) [0..<i])
     (tl (zip [0..255] lowest_bit_bitmap))"
  by code_simp

lemma zip_upto_nth:
  assumes "0 < b" "b < length t" "int (length t) = n + 1"
  shows "(int b, t ! b) \<in> set (tl (zip [0..n] t))"
proof -
  have "tl (zip [0..n] t) ! (b - 1) = (int b, t ! b)"
    using assms by (simp add: nth_tl)
  moreover have "b - 1 < length (tl (zip [0..n] t))"
    using assms by simp
  ultimately show ?thesis by (metis nth_mem)
qed

lemma table_byte:
  assumes "b \<noteq> 0" "b < 256"
  shows "lowest_bit_bitmap ! b < 8 \<and> least_set (of_nat b :: u32) (lowest_bit_bitmap ! b)"
proof -
  have len: "length lowest_bit_bitmap = 256" by (simp add: lowest_bit_bitmap_def)
  have "(int b, lowest_bit_bitmap ! b) \<in> set (tl (zip [0..255] lowest_bit_bitmap))"
    using assms by (intro zip_upto_nth) (simp_all add: len)
  with table_bytes have "lowest_bit_bitmap ! b < 8 \<and> bit (int b) (lowest_bit_bitmap ! b) \<and>
      (\<forall>j<lowest_bit_bitmap ! b. \<not> bit (int b) j)"
    unfolding list_all_iff by (metis (mono_tags, lifting) atLeastLessThan_iff case_prodD le0 set_upt)
  then show ?thesis
    by (simp add: least_set_def bit_of_nat_iff_bit bit_of_nat_iff)
qed

text \<open>The four byte masks of the search, by their bits.\<close>

definition byte_at :: "u32 \<Rightarrow> nat \<Rightarrow> bool" where
  "byte_at m s \<longleftrightarrow> (\<forall>i. bit m i \<longleftrightarrow> s \<le> i \<and> i < s + 8)"

lemma byte_at_push_bit: "s \<le> 24 \<Longrightarrow> byte_at (push_bit s (mask 8)) s"
  unfolding byte_at_def by (auto simp only: bit_push_bit_iff bit_mask_iff) (auto simp: less_diff_conv2)

lemma byte_masks: "byte_at 0xff 0" "byte_at 0xff00 8" "byte_at 0xff0000 16" "byte_at 0xff000000 24"
  using byte_at_push_bit [of 0] byte_at_push_bit [of 8] byte_at_push_bit [of 16]
    byte_at_push_bit [of 24]
  by (simp_all add: mask_eq_exp_minus_1 push_bit_eq_mult)

text \<open>One step of the search: the byte under \<open>m\<close> is the first that is not zero.\<close>

lemma rt_ffs_byte:
  fixes w :: u32
  assumes m: "byte_at m s" and low: "\<And>j. j < s \<Longrightarrow> \<not> bit w j" and nz: "w AND m \<noteq> 0"
  shows "least_set w (s + lowest_bit_bitmap ! unat (drop_bit s (w AND m)))"
proof -
  define v where "v = drop_bit s (w AND m)"
  have bits: "bit v i \<longleftrightarrow> bit w (s + i) \<and> i < 8" for i
    using m by (auto simp: v_def byte_at_def bit_drop_bit_eq bit_and_iff)
  obtain i where "bit (w AND m) i" using nz by (auto simp: word_eq_0_iff_bits)
  then have "s \<le> i" "bit v (i - s)"
    using m by (auto simp: v_def byte_at_def bit_drop_bit_eq bit_and_iff)
  then have nz: "unat v \<noteq> 0" by (metis bit_0_eq bot_apply bot_bool_def unat_eq_0)
  have "take_bit 8 v = v"
    by (rule bit_eqI) (auto simp only: bits bit_take_bit_iff)
  then have "unat v = take_bit 8 (unat v)" by (metis unsigned_take_bit_eq)
  then have "unat v < 2 ^ 8" by (metis take_bit_nat_less_exp)
  then have "unat v < 256" by simp
  then have t: "bit v (lowest_bit_bitmap ! unat v)"
      "\<And>j. j < lowest_bit_bitmap ! unat v \<Longrightarrow> \<not> bit v j" "lowest_bit_bitmap ! unat v < 8"
    using table_byte [of "unat v"] nz by (simp_all add: least_set_def)
  have "\<not> bit w j" if "j < s + lowest_bit_bitmap ! unat v" for j
  proof (cases "j < s")
    case False
    then have "\<not> bit v (j - s)" using that t(2) by simp
    with False that t(3) show ?thesis by (auto simp: bits)
  qed (use low in simp)
  with t(1) show ?thesis unfolding v_def [symmetric] by (simp add: least_set_def bits)
qed

lemma byte_zero:
  fixes w :: u32
  assumes "byte_at m s" "w AND m = 0" "s \<le> j" "j < s + 8"
  shows "\<not> bit w j"
  using assms by (metis bit_0_eq bit_and_iff bot_apply bot_bool_def byte_at_def)

lemmas bytes_zero = byte_masks [THEN byte_zero, simplified]

lemma rt_ffs_0 [simp]: "rt_ffs 0 = 0"
  by (simp add: rt_ffs_def)

lemma rt_ffs_pos: "w \<noteq> 0 \<Longrightarrow> 0 < rt_ffs w"
  by (simp add: rt_ffs_def)

lemma rt_ffs_least:
  assumes "w \<noteq> 0"
  shows "least_set w (rt_ffs w - 1)"
proof -
  consider "w AND 0xff \<noteq> 0" | "w AND 0xff = 0" "w AND 0xff00 \<noteq> 0"
    | "w AND 0xff = 0" "w AND 0xff00 = 0" "w AND 0xff0000 \<noteq> 0"
    | "w AND 0xff = 0" "w AND 0xff00 = 0" "w AND 0xff0000 = 0" by blast
  then show ?thesis
  proof cases
    case 1
    from rt_ffs_byte [OF byte_masks(1) _ 1] 1 assms show ?thesis by (simp add: rt_ffs_def)
  next
    case 2
    have "\<not> bit w j" if "j < 8" for j using bytes_zero(1) 2 that by blast
    from rt_ffs_byte [OF byte_masks(2) this 2(2)] 2 assms show ?thesis by (simp add: rt_ffs_def)
  next
    case 3
    have "\<not> bit w j" if "j < 16" for j using bytes_zero(1,2) [of w j] 3 that by (meson not_le)
    from rt_ffs_byte [OF byte_masks(3) this 3(3)] 3 assms show ?thesis by (simp add: rt_ffs_def)
  next
    case 4
    have z: "\<not> bit w j" if "j < 24" for j
      using bytes_zero(1-3) [of w j] 4 that by (meson not_le)
    have "w AND 0xff000000 \<noteq> 0"
    proof
      assume "w AND 0xff000000 = 0"
      then have "\<not> bit w j" if "j < 32" for j
        using bytes_zero(4) [of w j] z [of j] that by (meson not_le)
      then show False using assms by (simp add: word_eq_0_iff_bits)
    qed
    from rt_ffs_byte [OF byte_masks(4) z this] 4 assms show ?thesis by (simp add: rt_ffs_def)
  qed
qed

lemma rt_ffs_eq_iff: "w \<noteq> 0 \<Longrightarrow> rt_ffs w = Suc i \<longleftrightarrow> least_set w i"
  using rt_ffs_least [of w] rt_ffs_pos [of w] least_set_unique [of w] by fastforce

lemma rt_ffs_le_32: "rt_ffs w \<le> 32"
  using least_set_less [OF rt_ffs_least, of w] by (cases "w = 0") auto

text \<open>The isolated lowest bit of the small variant.\<close>

lemma lowest_bit_isolated:
  fixes w :: "'a::len word"
  assumes "least_set w i"
  shows "(w AND (w - 1)) XOR w = push_bit i 1"
proof -
  have i: "i < LENGTH('a)" "bit w i" and low: "\<And>j. j < i \<Longrightarrow> \<not> bit w j"
    using assms least_set_less by (auto simp: least_set_def)
  let ?a = "w AND NOT (push_bit i 1)"
  have "w = ?a OR push_bit i 1"
    using i by (auto intro!: bit_word_eqI simp: bit_simps)
  also have "\<dots> = ?a + push_bit i 1"
    by (rule disjunctive_add_eq_or [symmetric]) (auto intro!: bit_word_eqI simp: bit_simps)
  finally have "w - 1 = ?a + (push_bit i 1 - 1)" by (metis add_diff_eq)
  also have "push_bit i 1 - (1 :: 'a word) = mask i"
    by (simp add: mask_eq_exp_minus_1 push_bit_eq_mult)
  also have "?a + mask i = ?a OR mask i"
    by (rule disjunctive_add_eq_or) (auto intro!: bit_word_eqI simp: bit_simps low)
  finally have *: "w - 1 = ?a OR mask i" .
  show ?thesis
    unfolding * using i low by (intro bit_word_eqI) (auto simp: bit_simps bit_mask_iff)
qed

lemma table_tiny:
  assumes "i < 32"
  shows "lowest_bit_bitmap_tiny ! (2 ^ i mod 37) = Suc i"
proof -
  have "list_all (\<lambda>i. lowest_bit_bitmap_tiny ! nat (2 ^ i mod 37) = Suc i) [0..<32]" by code_simp
  then have "lowest_bit_bitmap_tiny ! nat (2 ^ i mod 37) = Suc i"
    using assms by (simp add: list_all_iff)
  then show ?thesis by (simp add: nat_mod_distrib nat_power_eq)
qed

lemma rt_ffs_tiny_eq: "rt_ffs_tiny w = rt_ffs w"
proof (cases "w = 0")
  case False
  let ?i = "rt_ffs w - 1"
  have l: "least_set w ?i" by (rule rt_ffs_least [OF False])
  then have i: "?i < 32" using least_set_less by fastforce
  have "unat (push_bit ?i (1 :: u32)) = 2 ^ ?i"
    using i unsigned_push_bit_eq [of ?i "1 :: u32", where 'a = nat]
    by (simp add: take_bit_nat_eq_self)
  then have "unat (((w AND (w - 1)) XOR w) mod 37) = 2 ^ ?i mod 37"
    unfolding lowest_bit_isolated [OF l] by (simp add: unat_mod)
  then show ?thesis using table_tiny i rt_ffs_pos [OF False] by (simp add: rt_ffs_tiny_def)
qed (simp add: rt_ffs_tiny_def lowest_bit_bitmap_tiny_def)

end
