(* ===== verification/RT_Kernel.thy ===== *)
theory RT_Kernel
  imports RT_Timer RT_Ffs
begin

text \<open>
  The state of the kernel: threads, scheduler, timers and IPC objects, with the structures
  of \<^verbatim>\<open>include/rtdef.h\<close> and \<^verbatim>\<open>include/rtsched.h\<close> in the configuration of the repository
  (one processor, 32 priorities, no signals, no processes). Objects are named by numbers and
  the stores are total; the type byte of an object tells whether it is initialised. The list
  node of a thread is on at most one list, and all lists of threads are one list space.
\<close>

subsection \<open>Threads\<close>

abbreviation (input) RT_THREAD_INIT :: u8 where "RT_THREAD_INIT \<equiv> 0"
abbreviation (input) RT_THREAD_CLOSE :: u8 where "RT_THREAD_CLOSE \<equiv> 1"
abbreviation (input) RT_THREAD_READY :: u8 where "RT_THREAD_READY \<equiv> 2"
abbreviation (input) RT_THREAD_RUNNING :: u8 where "RT_THREAD_RUNNING \<equiv> 3"
abbreviation (input) RT_THREAD_SUSPEND_MASK :: u8 where "RT_THREAD_SUSPEND_MASK \<equiv> 4"
abbreviation (input) RT_THREAD_SUSPEND :: u8 where "RT_THREAD_SUSPEND \<equiv> 4"
abbreviation (input) RT_THREAD_SUSPEND_INTERRUPTIBLE :: u8 where "RT_THREAD_SUSPEND_INTERRUPTIBLE \<equiv> 4"
abbreviation (input) RT_THREAD_SUSPEND_KILLABLE :: u8 where "RT_THREAD_SUSPEND_KILLABLE \<equiv> 6"
abbreviation (input) RT_THREAD_SUSPEND_UNINTERRUPTIBLE :: u8 where "RT_THREAD_SUSPEND_UNINTERRUPTIBLE \<equiv> 7"
abbreviation (input) RT_THREAD_STAT_MASK :: u8 where "RT_THREAD_STAT_MASK \<equiv> 7"
abbreviation (input) RT_THREAD_STAT_YIELD :: u8 where "RT_THREAD_STAT_YIELD \<equiv> 8"
abbreviation (input) RT_THREAD_STAT_YIELD_MASK :: u8 where "RT_THREAD_STAT_YIELD_MASK \<equiv> 8"

abbreviation (input) RT_INTERRUPTIBLE :: int where "RT_INTERRUPTIBLE \<equiv> 0"
abbreviation (input) RT_KILLABLE :: int where "RT_KILLABLE \<equiv> 1"
abbreviation (input) RT_UNINTERRUPTIBLE :: int where "RT_UNINTERRUPTIBLE \<equiv> 2"

abbreviation (input) RT_THREAD_PRIORITY_MAX :: u8 where "RT_THREAD_PRIORITY_MAX \<equiv> 32"

record rt_thread =
  th_type :: u8
  sp :: u64
  entry_fn :: nat
  th_parameter :: nat
  stack_addr :: u64
  stack_size :: u32
  stack_first :: u8
  error :: rt_err
  stat :: u8
  ttmr_set :: bool
  init_tick :: u32
  remaining_tick :: u32
  current_priority :: u8
  init_priority :: u8
  number_mask :: u32
  cleanup :: "nat option"
  pending_object :: "nat option"
  event_set :: u32
  event_info :: u8

text \<open>
  \<^const>\<open>stack_first\<close> is the byte at \<^verbatim>\<open>stack_addr\<close>, which the stack check reads; the thread
  timer is the timer \<^term>\<open>Thread_timer t\<close> of the timer state, and \<^const>\<open>pending_object\<close>
  names the mutex the thread waits for.
\<close>

definition th_stat :: "rt_thread \<Rightarrow> u8" where
  "th_stat x = stat x AND RT_THREAD_STAT_MASK"

definition th_yield :: "rt_thread \<Rightarrow> bool" where
  "th_yield x \<longleftrightarrow> stat x AND RT_THREAD_STAT_YIELD_MASK \<noteq> 0"

definition th_suspended :: "rt_thread \<Rightarrow> bool" where
  "th_suspended x \<longleftrightarrow> stat x AND RT_THREAD_SUSPEND_MASK = RT_THREAD_SUSPEND_MASK"

subsection \<open>IPC objects\<close>

text \<open>The list a thread can be suspended on.\<close>

datatype ipcref =
    Sem_q nat | Mutex_q nat | Event_q nat | Mb_q nat | Mb_sender_q nat | Mq_q nat | Mq_sender_q nat
  | Mp_q nat

record rt_semaphore =
  sem_type :: u8
  sem_flag :: u8
  sem_value :: u16
  sem_max_value :: u16

record rt_mutex =
  mtx_type :: u8
  mtx_flag :: u8
  ceiling_priority :: u8
  mtx_priority :: u8
  hold :: u8
  owner :: "tid option"

record rt_event =
  ev_type :: u8
  ev_flag :: u8
  ev_set :: u32

record rt_mailbox =
  mb_type :: u8
  mb_flag :: u8
  mb_pool :: "u64 list"
  mb_size :: u16
  mb_entry :: u16
  mb_in :: u16
  mb_out :: u16

text \<open>
  The message blocks of a queue are numbered; a block has a length and a payload, and the
  three chains of the C code (queued messages from head to tail, free blocks) are linked
  through \<^verbatim>\<open>next\<close>.
\<close>

record rt_mq_message =
  mq_next :: "nat option"
  mq_length :: u64
  mq_data :: "u8 list"

record rt_messagequeue =
  mq_type :: u8
  mq_flag :: u8
  mq_pool :: "nat \<Rightarrow> rt_mq_message"
  mq_msg_size :: u16
  mq_max_msgs :: u16
  mq_entry :: u16
  mq_head :: "nat option"
  mq_tail :: "nat option"
  mq_free :: "nat option"

text \<open>
  A block of a memory pool is named by the pool whose area it lies in and its number there.
  The word in front of the block links the free blocks, or names the pool the block was
  allocated from.
\<close>

type_synonym mpblock = "nat \<times> nat"

datatype mpword = Next_free "mpblock option" | Owned_by nat

record rt_mempool =
  mp_type :: u8
  mp_size :: u64
  mp_block_size :: u64
  block_list :: "mpblock option"
  block_total_count :: u64
  block_free_count :: u64

text \<open>The mutexes a thread holds are on its \<^verbatim>\<open>taken_object_list\<close>.\<close>

record ipcst =
  sems :: "nat \<Rightarrow> rt_semaphore"
  mutexes :: "nat \<Rightarrow> rt_mutex"
  events :: "nat \<Rightarrow> rt_event"
  mbs :: "nat \<Rightarrow> rt_mailbox"
  mqs :: "nat \<Rightarrow> rt_messagequeue"
  taken :: "(tid, nat) lspace"
  mps :: "nat \<Rightarrow> rt_mempool"
  mp_words :: "mpblock \<Rightarrow> mpword"

subsection \<open>The kernel state\<close>

datatype thead = Prio nat | Susp ipcref | Defunct

record kst =
  threads :: "tid \<Rightarrow> rt_thread"
  tls :: "(thead, tid) lspace"
  ready_group :: u32
  lock_nest :: u16
  current :: "tid option"
  cur_prio :: u8
  irq_nest :: u8
  tm :: tmst
  ipc :: ipcst
  rt_errno :: rt_err

definition upd_thread :: "tid \<Rightarrow> (rt_thread \<Rightarrow> rt_thread) \<Rightarrow> kst \<Rightarrow> kst" where
  "upd_thread t f s = s\<lparr>threads := (threads s)(t := f (threads s t))\<rparr>"

definition set_stat :: "tid \<Rightarrow> u8 \<Rightarrow> kst \<Rightarrow> kst" where
  "set_stat t v s = upd_thread t (\<lambda>x. x\<lparr>stat := v OR (stat x AND NOT RT_THREAD_STAT_MASK)\<rparr>) s"

definition list_remove_thread :: "tid \<Rightarrow> kst \<Rightarrow> kst" where
  "list_remove_thread t s = s\<lparr>tls := ls_remove (tls s) t\<rparr>"

definition rt_thread_self :: "kst \<Rightarrow> tid option" where
  "rt_thread_self s = current s"

definition rt_interrupt_get_nest :: "kst \<Rightarrow> u8" where
  "rt_interrupt_get_nest s = irq_nest s"

definition rt_interrupt_enter :: "kst \<Rightarrow> kst" where
  "rt_interrupt_enter s = s\<lparr>irq_nest := irq_nest s + 1\<rparr>"

definition rt_interrupt_leave :: "kst \<Rightarrow> kst" where
  "rt_interrupt_leave s = s\<lparr>irq_nest := irq_nest s - 1\<rparr>"

definition rt_get_errno :: "kst \<Rightarrow> rt_err" where
  "rt_get_errno s =
     (if rt_interrupt_get_nest s \<noteq> 0 then rt_errno s
      else case rt_thread_self s of None \<Rightarrow> rt_errno s | Some t \<Rightarrow> error (threads s t))"

definition rt_set_errno :: "rt_err \<Rightarrow> kst \<Rightarrow> kst" where
  "rt_set_errno e s =
     (if rt_interrupt_get_nest s \<noteq> 0 then s\<lparr>rt_errno := e\<rparr>
      else case rt_thread_self s of
             None \<Rightarrow> s\<lparr>rt_errno := e\<rparr>
           | Some t \<Rightarrow> upd_thread t (\<lambda>x. x\<lparr>error := e\<rparr>) s)"

text \<open>Changing one component of the state.\<close>

definition on_tm :: "(tmst \<Rightarrow> tmst option) \<Rightarrow> kst \<Rightarrow> kst option" where
  "on_tm f s = do { t \<leftarrow> f (tm s); Some (s\<lparr>tm := t\<rparr>) }"

definition on_tm_r :: "(tmst \<Rightarrow> ('r \<times> tmst) option) \<Rightarrow> kst \<Rightarrow> ('r \<times> kst) option" where
  "on_tm_r f s = do { (r, t) \<leftarrow> f (tm s); Some (r, s\<lparr>tm := t\<rparr>) }"

subsection \<open>Frame and status lemmas\<close>

lemma threads_upd_thread [simp]:
  "threads (upd_thread t f s) u = (if u = t then f (threads s t) else threads s u)"
  "threads (set_stat t v s) u =
     (if u = t then (threads s t)\<lparr>stat := v OR (stat (threads s t) AND NOT 7)\<rparr> else threads s u)"
  "threads (list_remove_thread t s) = threads s"
  by (simp_all add: upd_thread_def set_stat_def list_remove_thread_def)

lemma upd_thread_frame [simp]:
  "tls (upd_thread t f s) = tls s" "ready_group (upd_thread t f s) = ready_group s"
  "lock_nest (upd_thread t f s) = lock_nest s" "current (upd_thread t f s) = current s"
  "cur_prio (upd_thread t f s) = cur_prio s" "irq_nest (upd_thread t f s) = irq_nest s"
  "tm (upd_thread t f s) = tm s" "ipc (upd_thread t f s) = ipc s"
  by (simp_all add: upd_thread_def)

lemma set_stat_frame [simp]:
  "tls (set_stat t v s) = tls s" "ready_group (set_stat t v s) = ready_group s"
  "lock_nest (set_stat t v s) = lock_nest s" "current (set_stat t v s) = current s"
  "cur_prio (set_stat t v s) = cur_prio s" "irq_nest (set_stat t v s) = irq_nest s"
  "tm (set_stat t v s) = tm s" "ipc (set_stat t v s) = ipc s"
  by (simp_all add: set_stat_def)

lemma list_remove_frame [simp]:
  "tls (list_remove_thread t s) = ls_remove (tls s) t"
  "ready_group (list_remove_thread t s) = ready_group s"
  "lock_nest (list_remove_thread t s) = lock_nest s" "current (list_remove_thread t s) = current s"
  "cur_prio (list_remove_thread t s) = cur_prio s" "irq_nest (list_remove_thread t s) = irq_nest s"
  "tm (list_remove_thread t s) = tm s" "ipc (list_remove_thread t s) = ipc s"
  by (simp_all add: list_remove_thread_def)

text \<open>The status field under \<^const>\<open>set_stat\<close>; the complement of 7 is \<open>- 8\<close> after simplification.\<close>

lemma stat_field [simp]:
  fixes w v :: u8
  shows "(0 OR (w AND - 8)) AND 7 = 0" "(1 OR (w AND - 8)) AND 7 = 1" "(2 OR (w AND - 8)) AND 7 = 2"
    "(3 OR (w AND - 8)) AND 7 = 3" "(4 OR (w AND - 8)) AND 7 = 4" "(6 OR (w AND - 8)) AND 7 = 6"
    "(7 OR (w AND - 8)) AND 7 = 7"
    "(2 OR (w AND - 8)) AND 8 = w AND 8" "(3 OR (w AND - 8)) AND 8 = w AND 8"
    "(4 OR (w AND - 8)) AND 8 = w AND 8" "(6 OR (w AND - 8)) AND 8 = w AND 8"
    "(7 OR (w AND - 8)) AND 8 = w AND 8"
    "(2 OR (w AND - 8)) AND 4 = 0" "(3 OR (w AND - 8)) AND 4 = 0" "(4 OR (w AND - 8)) AND 4 = 4"
    "(6 OR (w AND - 8)) AND 4 = 4" "(7 OR (w AND - 8)) AND 4 = 4"
    "(w OR 8) AND 7 = w AND 7" "(w AND - 9) AND 7 = w AND 7" "(w AND - 9) AND 8 = 0"
    "(w OR 8) AND 8 = 8" "(w OR 8) AND 4 = w AND 4" "(w AND - 9) AND 4 = w AND 4"
  by (simp_all add: bit.conj_disj_distrib2 and.assoc)

lemma suspended_stat: "th_suspended x \<longleftrightarrow> th_stat x AND 4 \<noteq> 0"
proof -
  have "(4 :: u8) = 2 ^ 2" by simp
  then have "w AND 4 = (if bit w 2 then 4 else 0)" for w :: u8
    by (intro bit_word_eqI) (auto simp only: bit_and_iff bit_exp_iff bit_0_eq bot_apply bot_bool_def split: if_splits)
  then have "stat x AND 4 = 0 \<or> stat x AND 4 = 4" by (metis)
  moreover have "stat x AND 4 = th_stat x AND 4"
    by (simp add: th_stat_def and.assoc)
  ultimately show ?thesis by (auto simp: th_suspended_def)
qed

end
