(* ===== verification/RT_Sched.thy ===== *)
theory RT_Sched
  imports RT_Kernel
begin

text \<open>
  The scheduler: \<^verbatim>\<open>src/scheduler_up.c\<close> (ready lists, ready bitmap, thread selection, critical
  sections) and \<^verbatim>\<open>src/scheduler_comm.c\<close> (thread status, readying, priority change, stack
  check). \<^verbatim>\<open>rt_sched_lock\<close> and the interrupt lock exclude the interrupts, which is the
  atomicity of one call here, and have no other effect on one processor.
\<close>

subsection \<open>Ready lists\<close>

definition rt_sched_insert_thread :: "tid \<Rightarrow> kst \<Rightarrow> kst" where
  "rt_sched_insert_thread t s =
     (if Some t = current s then set_stat t RT_THREAD_RUNNING s
      else
        let s = set_stat t RT_THREAD_READY s;
            h = Prio (unat (current_priority (threads s t)));
            s = (if th_yield (threads s t)
                 then s\<lparr>tls := ls_insert_before (tls s) h t\<rparr>
                 else s\<lparr>tls := ls_insert_after (tls s) h t\<rparr>)
        in s\<lparr>ready_group := ready_group s OR number_mask (threads s t)\<rparr>)"

definition rt_sched_remove_thread :: "tid \<Rightarrow> kst \<Rightarrow> kst" where
  "rt_sched_remove_thread t s =
     (let s = list_remove_thread t s
      in if tls s (Prio (unat (current_priority (threads s t)))) = []
         then s\<lparr>ready_group := ready_group s AND NOT (number_mask (threads s t))\<rparr> else s)"

subsection \<open>Thread selection\<close>

definition scheduler_get_highest_priority_thread :: "kst \<Rightarrow> (tid \<times> nat) option" where
  "scheduler_get_highest_priority_thread s =
     (if ready_group s = 0 then None
      else let p = rt_ffs (ready_group s) - 1
           in case tls s (Prio p) of [] \<Rightarrow> None | t # _ \<Rightarrow> Some (t, p))"

text \<open>A stack whose first byte was overwritten, or whose pointer left it, stops the system.\<close>

definition rt_scheduler_stack_check :: "tid \<Rightarrow> kst \<Rightarrow> unit option" where
  "rt_scheduler_stack_check t s =
     (let x = threads s t
      in if stack_first x \<noteq> 0x23 \<or> sp x \<le> stack_addr x \<or> stack_addr x + ucast (stack_size x) < sp x
         then None else Some ())"

text \<open>The switch from one thread to another: the branch of \<^verbatim>\<open>rt_schedule\<close> that changes threads.\<close>

definition schedule_switch :: "tid \<Rightarrow> tid \<Rightarrow> nat \<Rightarrow> bool \<Rightarrow> kst \<Rightarrow> kst option" where
  "schedule_switch from_thread to_thread hp need_insert s =
     do { let s = s\<lparr>cur_prio := of_nat hp, current := Some to_thread\<rparr>;
          let s = (if need_insert then rt_sched_insert_thread from_thread s else s);
          let s = (if th_yield (threads s from_thread)
                   then upd_thread from_thread (\<lambda>x. x\<lparr>stat := stat x AND NOT RT_THREAD_STAT_YIELD_MASK\<rparr>) s
                   else s);
          let s = rt_sched_remove_thread to_thread s;
          let s = set_stat to_thread RT_THREAD_RUNNING s;
          rt_scheduler_stack_check to_thread s;
          Some s }"

definition rt_schedule :: "kst \<Rightarrow> kst option" where
  "rt_schedule s =
     (if lock_nest s = 0 then
        if ready_group s \<noteq> 0 then
          do { (highest, hp) \<leftarrow> scheduler_get_highest_priority_thread s;
               cur \<leftarrow> current s;
               let x = threads s cur;
               let (to_thread, need_insert) =
                 (if th_stat x = RT_THREAD_RUNNING then
                    if unat (current_priority x) < hp then (cur, False)
                    else if unat (current_priority x) = hp \<and> \<not> th_yield x then (cur, False)
                    else (highest, True)
                  else (highest, False));
               if to_thread \<noteq> cur then schedule_switch cur to_thread hp need_insert s
               else Some (set_stat cur RT_THREAD_RUNNING (rt_sched_remove_thread cur s)) }
        else Some s
      else Some s)"

definition rt_sched_unlock_n_resched :: "kst \<Rightarrow> kst option" where
  "rt_sched_unlock_n_resched s =
     (case rt_thread_self s of None \<Rightarrow> Some s | Some _ \<Rightarrow> rt_schedule s)"

text \<open>\<^verbatim>\<open>rt_system_scheduler_init\<close>: the loop over the priority table initialises the 32 lists.\<close>

definition rt_system_scheduler_init :: "kst \<Rightarrow> kst" where
  "rt_system_scheduler_init s =
     (let s = s\<lparr>lock_nest := 0\<rparr>;
          s = s\<lparr>tls := fold (\<lambda>p L. ls_init L (Prio p)) [0..<32] (tls s)\<rparr>
      in s\<lparr>ready_group := 0\<rparr>)"

definition rt_system_scheduler_start :: "kst \<Rightarrow> kst option" where
  "rt_system_scheduler_start s =
     do { (to_thread, hp) \<leftarrow> scheduler_get_highest_priority_thread s;
          let s = s\<lparr>current := Some to_thread\<rparr>;
          let s = rt_sched_remove_thread to_thread s;
          Some (upd_thread to_thread (\<lambda>x. x\<lparr>stat := RT_THREAD_RUNNING\<rparr>) s) }"

subsection \<open>Critical sections\<close>

definition rt_enter_critical :: "kst \<Rightarrow> u16 \<times> kst" where
  "rt_enter_critical s = (lock_nest s + 1, s\<lparr>lock_nest := lock_nest s + 1\<rparr>)"

definition rt_exit_critical :: "kst \<Rightarrow> kst option" where
  "rt_exit_critical s =
     (let s = s\<lparr>lock_nest := lock_nest s - 1\<rparr>
      in if sint (lock_nest s) \<le> 0 then
           let s = s\<lparr>lock_nest := 0\<rparr>
           in case current s of None \<Rightarrow> Some s | Some _ \<Rightarrow> rt_schedule s
         else Some s)"

text \<open>A mismatched level prints a message and loops.\<close>

definition rt_exit_critical_safe :: "u16 \<Rightarrow> kst \<Rightarrow> kst option" where
  "rt_exit_critical_safe level s =
     do { rt_assert (level = lock_nest s); rt_exit_critical s }"

definition rt_critical_level :: "kst \<Rightarrow> u16" where
  "rt_critical_level s = lock_nest s"

text \<open>The context checks of \<^verbatim>\<open>rtthread.h\<close> under \<^verbatim>\<open>RT_DEBUGING_CONTEXT\<close>.\<close>

definition debug_not_in_interrupt :: "kst \<Rightarrow> unit option" where
  "debug_not_in_interrupt s = rt_assert (rt_interrupt_get_nest s = 0)"

definition debug_in_thread_context :: "kst \<Rightarrow> unit option" where
  "debug_in_thread_context s =
     do { rt_assert (rt_thread_self s \<noteq> None); debug_not_in_interrupt s }"

definition debug_scheduler_available :: "bool \<Rightarrow> kst \<Rightarrow> unit option" where
  "debug_scheduler_available need_check s =
     (if need_check
      then do { rt_assert (rt_critical_level s = 0); debug_in_thread_context s }
      else Some ())"

subsection \<open>Thread status\<close>

definition rt_sched_thread_init_priv :: "tid \<Rightarrow> u32 \<Rightarrow> u8 \<Rightarrow> kst \<Rightarrow> kst option" where
  "rt_sched_thread_init_priv t tick priority s =
     do { rt_assert (priority < RT_THREAD_PRIORITY_MAX);
          Some (upd_thread t (\<lambda>x. x\<lparr>init_priority := priority, current_priority := priority,
            number_mask := 0, init_tick := tick, remaining_tick := tick\<rparr>) s) }"

definition rt_sched_thread_init_ctx :: "tid \<Rightarrow> u32 \<Rightarrow> u8 \<Rightarrow> kst \<Rightarrow> kst option" where
  "rt_sched_thread_init_ctx t tick priority s =
     rt_sched_thread_init_priv t tick priority (upd_thread t (\<lambda>x. x\<lparr>stat := RT_THREAD_INIT\<rparr>) s)"

definition rt_sched_thread_startup :: "tid \<Rightarrow> kst \<Rightarrow> kst" where
  "rt_sched_thread_startup t s =
     upd_thread t (\<lambda>x. x\<lparr>number_mask := push_bit (unat (current_priority x)) 1,
       stat := RT_THREAD_SUSPEND\<rparr>) s"

definition rt_sched_thread_timer_start :: "tid \<Rightarrow> kst \<Rightarrow> kst" where
  "rt_sched_thread_timer_start t s = upd_thread t (\<lambda>x. x\<lparr>ttmr_set := True\<rparr>) s"

definition rt_sched_thread_timer_stop :: "tid \<Rightarrow> kst \<Rightarrow> (rt_err \<times> kst) option" where
  "rt_sched_thread_timer_stop t s =
     (if ttmr_set (threads s t) then
        do { (e, s) \<leftarrow> on_tm_r (rt_timer_stop (Thread_timer t)) s;
             Some (e, upd_thread t (\<lambda>x. x\<lparr>ttmr_set := False\<rparr>) s) }
      else Some (RT_EOK, s))"

definition rt_sched_thread_get_stat :: "tid \<Rightarrow> kst \<Rightarrow> u8" where
  "rt_sched_thread_get_stat t s = stat (threads s t) AND RT_THREAD_STAT_MASK"

definition rt_sched_thread_get_curr_prio :: "tid \<Rightarrow> kst \<Rightarrow> u8" where
  "rt_sched_thread_get_curr_prio t s = current_priority (threads s t)"

definition rt_sched_thread_get_init_prio :: "tid \<Rightarrow> kst \<Rightarrow> u8" where
  "rt_sched_thread_get_init_prio t s = init_priority (threads s t)"

definition rt_sched_thread_is_suspended :: "tid \<Rightarrow> kst \<Rightarrow> bool" where
  "rt_sched_thread_is_suspended t s \<longleftrightarrow>
     stat (threads s t) AND RT_THREAD_SUSPEND_MASK = RT_THREAD_SUSPEND_MASK"

definition rt_sched_thread_close :: "tid \<Rightarrow> kst \<Rightarrow> kst" where
  "rt_sched_thread_close t s = upd_thread t (\<lambda>x. x\<lparr>stat := RT_THREAD_CLOSE\<rparr>) s"

definition rt_sched_thread_yield :: "tid \<Rightarrow> kst \<Rightarrow> kst" where
  "rt_sched_thread_yield t s =
     upd_thread t (\<lambda>x. x\<lparr>remaining_tick := init_tick x, stat := stat x OR RT_THREAD_STAT_YIELD\<rparr>) s"

definition rt_sched_thread_ready :: "tid \<Rightarrow> kst \<Rightarrow> (rt_err \<times> kst) option" where
  "rt_sched_thread_ready t s =
     (if \<not> rt_sched_thread_is_suspended t s then Some (- RT_EINVAL, s)
      else
        do { (e, s) \<leftarrow> (if ttmr_set (threads s t) then rt_sched_thread_timer_stop t s
                         else Some (RT_EOK, s));
             if e = 0
             then Some (e, rt_sched_insert_thread t (list_remove_thread t s))
             else Some (e, s) })"

definition rt_sched_tick_increase :: "kst \<Rightarrow> kst option" where
  "rt_sched_tick_increase s =
     do { t \<leftarrow> rt_thread_self s;
          let s = upd_thread t (\<lambda>x. x\<lparr>remaining_tick := remaining_tick x - 1\<rparr>) s;
          if remaining_tick (threads s t) \<noteq> 0 then Some s
          else rt_sched_unlock_n_resched (rt_sched_thread_yield t s) }"

definition rt_sched_thread_change_priority :: "tid \<Rightarrow> u8 \<Rightarrow> kst \<Rightarrow> kst option" where
  "rt_sched_thread_change_priority t priority s =
     do { rt_assert (priority < RT_THREAD_PRIORITY_MAX);
          if th_stat (threads s t) = RT_THREAD_READY then
            do { let s = rt_sched_remove_thread t s;
                 let s = upd_thread t (\<lambda>x. x\<lparr>current_priority := priority,
                   number_mask := push_bit (unat priority) 1, stat := RT_THREAD_INIT\<rparr>) s;
                 Some (rt_sched_insert_thread t s) }
          else
            Some (upd_thread t (\<lambda>x. x\<lparr>current_priority := priority,
              number_mask := push_bit (unat priority) 1\<rparr>) s) }"

definition rt_sched_thread_bind_cpu :: "tid \<Rightarrow> int \<Rightarrow> kst \<Rightarrow> rt_err" where
  "rt_sched_thread_bind_cpu t cpu s = - RT_EINVAL"

end
