(* ===== verification/RT_SchedInv.thy ===== *)
theory RT_SchedInv
  imports RT_Sched
begin

text \<open>
  The invariant of the scheduler and its preservation. A thread is on the ready list of its
  priority exactly when it is ready, the bitmap has the bits of the lists that are not
  empty, at most the current thread runs, and the threads on a suspend list are suspended.
  Every scheduler operation keeps this, and \<^const>\<open>rt_schedule\<close> selects a thread of the
  highest ready priority.
\<close>

subsection \<open>The invariant\<close>

definition prio_of :: "rt_thread \<Rightarrow> nat" where
  "prio_of x = unat (current_priority x)"

definition mask_ok :: "rt_thread \<Rightarrow> bool" where
  "mask_ok x \<longleftrightarrow> prio_of x < 32 \<and> number_mask x = push_bit (prio_of x) 1"

definition thread_ok :: "(thead, tid) lspace \<Rightarrow> tid option \<Rightarrow> tid \<Rightarrow> rt_thread \<Rightarrow> bool" where
  "thread_ok L cur t x \<longleftrightarrow>
     (\<forall>p. t \<in> set (L (Prio p)) \<longleftrightarrow> th_stat x = RT_THREAD_READY \<and> p = prio_of x) \<and>
     (\<forall>q. t \<in> set (L (Susp q)) \<longrightarrow> th_suspended x) \<and>
     (t \<in> set (L Defunct) \<longrightarrow> th_stat x = RT_THREAD_CLOSE) \<and>
     (th_stat x = RT_THREAD_RUNNING \<longrightarrow> cur = Some t) \<and>
     (cur = Some t \<longrightarrow> th_stat x \<noteq> RT_THREAD_READY) \<and>
     (th_stat x \<noteq> RT_THREAD_INIT \<and> th_stat x \<noteq> RT_THREAD_CLOSE \<longrightarrow> mask_ok x)"

definition group_ok :: "(thead, tid) lspace \<Rightarrow> u32 \<Rightarrow> bool" where
  "group_ok L g \<longleftrightarrow> (\<forall>p<32. bit g p \<longleftrightarrow> L (Prio p) \<noteq> [])"

text \<open>The invariant with the threads of \<open>X\<close> in transit between two states.\<close>

definition sched_inv_but :: "tid set \<Rightarrow> kst \<Rightarrow> bool" where
  "sched_inv_but X s \<longleftrightarrow> wf_ls (tls s) \<and> group_ok (tls s) (ready_group s) \<and>
     (\<forall>t. t \<notin> X \<longrightarrow> thread_ok (tls s) (current s) t (threads s t))"

abbreviation sched_inv :: "kst \<Rightarrow> bool" where
  "sched_inv s \<equiv> sched_inv_but {} s"

lemma sched_invD:
  "sched_inv_but X s \<Longrightarrow> wf_ls (tls s)" "sched_inv_but X s \<Longrightarrow> group_ok (tls s) (ready_group s)"
  "sched_inv_but X s \<Longrightarrow> t \<notin> X \<Longrightarrow> thread_ok (tls s) (current s) t (threads s t)"
  by (auto simp: sched_inv_but_def)

lemma sched_inv_but_mono: "sched_inv_but X s \<Longrightarrow> X \<subseteq> Y \<Longrightarrow> sched_inv_but Y s"
  by (auto simp: sched_inv_but_def)

lemma thread_okD:
  assumes "thread_ok L cur t x"
  shows "t \<in> set (L (Prio p)) \<Longrightarrow> th_stat x = RT_THREAD_READY \<and> p = prio_of x"
    "th_stat x = RT_THREAD_READY \<Longrightarrow> t \<in> set (L (Prio (prio_of x)))"
    "t \<in> set (L (Susp q)) \<Longrightarrow> th_suspended x"
    "t \<in> set (L Defunct) \<Longrightarrow> th_stat x = RT_THREAD_CLOSE"
    "th_stat x = RT_THREAD_RUNNING \<Longrightarrow> cur = Some t"
    "cur = Some t \<Longrightarrow> th_stat x \<noteq> RT_THREAD_READY"
    "th_stat x \<noteq> RT_THREAD_INIT \<Longrightarrow> th_stat x \<noteq> RT_THREAD_CLOSE \<Longrightarrow> mask_ok x"
  using assms by (auto simp: thread_ok_def)

text \<open>A thread that is running, or not started, is on no list.\<close>

lemma thread_ok_unlinked:
  assumes "thread_ok L cur t x" "th_stat x = RT_THREAD_RUNNING \<or> th_stat x = RT_THREAD_INIT"
  shows "unlinked L t"
proof -
  have "t \<notin> set (L h)" for h
    using assms by (cases h) (auto simp: thread_ok_def suspended_stat)
  then show ?thesis by (simp add: unlinked_def)
qed

lemma thread_ok_when_unlinked:
  assumes "unlinked L t"
  shows "thread_ok L cur t x \<longleftrightarrow> th_stat x \<noteq> RT_THREAD_READY \<and>
    (th_stat x = RT_THREAD_RUNNING \<longrightarrow> cur = Some t) \<and> (th_stat x \<noteq> RT_THREAD_INIT \<and> th_stat x \<noteq> RT_THREAD_CLOSE \<longrightarrow> mask_ok x)"
  using assms by (auto simp: thread_ok_def unlinked_def)

lemma thread_ok_list_cong:
  "(\<And>h. t \<in> set (L h) \<longleftrightarrow> t \<in> set (L' h)) \<Longrightarrow> thread_ok L cur t x = thread_ok L' cur t x"
  by (simp add: thread_ok_def)

text \<open>The fields of the thread the invariant reads.\<close>

lemma thread_ok_cong:
  "th_stat x = th_stat y \<Longrightarrow> current_priority x = current_priority y \<Longrightarrow> number_mask x = number_mask y \<Longrightarrow>
   thread_ok L cur t x = thread_ok L cur t y"
  by (simp add: thread_ok_def suspended_stat prio_of_def mask_ok_def)

subsection \<open>The bitmap\<close>

lemma group_ok_remove:
  assumes "group_ok L g" "p < 32" "\<forall>q. t \<in> set (L (Prio q)) \<longrightarrow> q = p"
  shows "group_ok (ls_remove L t)
    (if ls_remove L t (Prio p) = [] then g AND NOT (push_bit p 1) else g)"
  unfolding group_ok_def
proof (intro allI impI)
  fix q :: nat
  assume q: "q < 32"
  show "bit (if ls_remove L t (Prio p) = [] then g AND NOT (push_bit p 1) else g) q \<longleftrightarrow>
      ls_remove L t (Prio q) \<noteq> []"
  proof (cases "q = p")
    case True
    then show ?thesis
      using assms(1) q by (auto simp: group_ok_def bit_and_not_push_bit ls_remove_def)
  next
    case False
    then have "ls_remove L t (Prio q) = L (Prio q)" using assms(3) by (intro ls_remove_other) auto
    then show ?thesis
      using False assms(1) q by (simp add: group_ok_def bit_and_not_push_bit)
  qed
qed

lemma group_ok_insert:
  assumes "group_ok L g" "xs \<noteq> []"
  shows "group_ok (L(Prio p := xs)) (g OR push_bit p 1)"
  using assms by (auto simp: group_ok_def bit_or_push_bit)

lemma group_ok_frame: "group_ok L g \<Longrightarrow> (\<And>p. L' (Prio p) = L (Prio p)) \<Longrightarrow> group_ok L' g"
  by (simp add: group_ok_def)

lemma group_ok_zero: "group_ok L g \<Longrightarrow> g = 0 \<longleftrightarrow> (\<forall>p<32. L (Prio p) = [])"
  by (simp add: group_ok_def word_eq_0_iff_bits)

subsection \<open>Insertion and removal\<close>

lemma remove_tls [simp]: "tls (rt_sched_remove_thread t s) = ls_remove (tls s) t"
  by (simp add: rt_sched_remove_thread_def Let_def)

lemma remove_frame [simp]:
  "threads (rt_sched_remove_thread t s) = threads s" "current (rt_sched_remove_thread t s) = current s"
  "lock_nest (rt_sched_remove_thread t s) = lock_nest s" "cur_prio (rt_sched_remove_thread t s) = cur_prio s"
  "irq_nest (rt_sched_remove_thread t s) = irq_nest s" "tm (rt_sched_remove_thread t s) = tm s"
  "ipc (rt_sched_remove_thread t s) = ipc s"
  by (simp_all add: rt_sched_remove_thread_def Let_def)

lemma insert_frame [simp]:
  "current (rt_sched_insert_thread t s) = current s" "lock_nest (rt_sched_insert_thread t s) = lock_nest s"
  "cur_prio (rt_sched_insert_thread t s) = cur_prio s" "irq_nest (rt_sched_insert_thread t s) = irq_nest s"
  "tm (rt_sched_insert_thread t s) = tm s" "ipc (rt_sched_insert_thread t s) = ipc s"
  by (simp_all add: rt_sched_insert_thread_def Let_def)

lemma insert_threads [simp]:
  "threads (rt_sched_insert_thread t s) u =
     (if u = t then (threads s t)\<lparr>stat := (if current s = Some t then 3 else 2) OR (stat (threads s t) AND NOT 7)\<rparr>
      else threads s u)"
  by (auto simp: rt_sched_insert_thread_def Let_def)

lemma insert_tls_other [simp]:
  "tls (rt_sched_insert_thread t s) (Susp q) = tls s (Susp q)"
  "tls (rt_sched_insert_thread t s) Defunct = tls s Defunct"
  by (simp_all add: rt_sched_insert_thread_def Let_def ls_insert_before_def ls_insert_after_def)

text \<open>Removal puts a thread in transit; the bitmap follows when its mask is set.\<close>

lemma remove_inv:
  assumes "sched_inv_but X s" "mask_ok (threads s t)"
    "\<forall>p. t \<in> set (tls s (Prio p)) \<longrightarrow> p = prio_of (threads s t)"
  shows "sched_inv_but (insert t X) (rt_sched_remove_thread t s)"
proof -
  have "ready_group (rt_sched_remove_thread t s) =
      (if ls_remove (tls s) t (Prio (prio_of (threads s t))) = []
       then ready_group s AND NOT (push_bit (prio_of (threads s t)) 1) else ready_group s)"
    using assms(2) by (simp add: rt_sched_remove_thread_def Let_def prio_of_def mask_ok_def)
  then have "group_ok (tls (rt_sched_remove_thread t s)) (ready_group (rt_sched_remove_thread t s))"
    using group_ok_remove [OF sched_invD(2) [OF assms(1)] _ assms(3)] assms(2)
    by (simp add: mask_ok_def)
  moreover have "thread_ok (ls_remove (tls s) t) (current s) u (threads s u)" if "u \<notin> insert t X" for u
    using that sched_invD(3) [OF assms(1), of u]
    by (subst thread_ok_list_cong [where L' = "tls s"]) auto
  ultimately show ?thesis
    using sched_invD(1) [OF assms(1)] by (simp add: sched_inv_but_def wf_ls_remove)
qed

lemma remove_inv_ok:
  assumes "sched_inv_but X s" "t \<notin> X" "th_stat (threads s t) \<noteq> RT_THREAD_INIT" "th_stat (threads s t) \<noteq> RT_THREAD_CLOSE"
  shows "sched_inv_but (insert t X) (rt_sched_remove_thread t s)"
  using sched_invD(3) [OF assms(1,2)] assms by (intro remove_inv) (auto simp: thread_ok_def)

lemma insert_tls:
  "current s \<noteq> Some t \<Longrightarrow>
   \<exists>xs ys. tls s (Prio (prio_of (threads s t))) = xs @ ys \<and>
     tls (rt_sched_insert_thread t s) = (tls s)(Prio (prio_of (threads s t)) := xs @ t # ys)"
  by (auto simp: rt_sched_insert_thread_def Let_def prio_of_def ls_insert_before_def
      ls_insert_after_def fun_eq_iff intro: exI [of _ "[]"])

lemma insert_inv:
  assumes "sched_inv_but X s" "unlinked (tls s) t" "mask_ok (threads s t)"
  shows "sched_inv_but (X - {t}) (rt_sched_insert_thread t s)"
proof (cases "current s = Some t")
  case True
  have "rt_sched_insert_thread t s = set_stat t 3 s"
    using True by (simp add: rt_sched_insert_thread_def)
  moreover have "thread_ok (tls s) (Some t) t ((threads s t)\<lparr>stat := 3 OR (stat (threads s t) AND NOT 7)\<rparr>)"
    using assms(2,3)
    by (simp add: thread_ok_when_unlinked th_stat_def mask_ok_def prio_of_def)
  ultimately show ?thesis
    using True assms(1) by (auto simp: sched_inv_but_def)
next
  case False
  let ?p = "prio_of (threads s t)"
  let ?s = "rt_sched_insert_thread t s"
  obtain xs ys where split: "tls s (Prio ?p) = xs @ ys" and tls: "tls ?s = (tls s)(Prio ?p := xs @ t # ys)"
    using insert_tls [OF False] by blast
  have "ready_group ?s = ready_group s OR push_bit ?p 1"
    using False assms(3) by (simp add: rt_sched_insert_thread_def Let_def mask_ok_def)
  then have "group_ok (tls ?s) (ready_group ?s)"
    unfolding tls using group_ok_insert [OF sched_invD(2) [OF assms(1)]] by simp
  moreover have "wf_ls (tls ?s)"
    unfolding tls by (rule wf_ls_split [OF sched_invD(1) [OF assms(1)] split assms(2)])
  moreover have "thread_ok (tls ?s) (current s) t (threads ?s t)"
    using False assms(2,3)
    by (auto simp: thread_ok_def tls unlinked_def th_stat_def mask_ok_def prio_of_def)
  moreover have "thread_ok (tls ?s) (current s) u (threads s u)" if "u \<notin> X" "u \<noteq> t" for u
  proof -
    have "u \<in> set (tls ?s h) \<longleftrightarrow> u \<in> set (tls s h)" for h
      using that(2) split by (auto simp: tls)
    then show ?thesis
      using sched_invD(3) [OF assms(1) that(1)] thread_ok_list_cong by metis
  qed
  ultimately show ?thesis by (auto simp: sched_inv_but_def)
qed

text \<open>A thread leaves the transit when its new record fits its place.\<close>

lemma settle_inv:
  assumes "sched_inv_but (insert t X) s" "thread_ok (tls s) (current s) t (f (threads s t))"
  shows "sched_inv_but (X - {t}) (upd_thread t f s)"
  using assms by (auto simp: sched_inv_but_def)

lemma upd_thread_inv:
  assumes "sched_inv_but X s" "t \<notin> X \<Longrightarrow> th_stat (f (threads s t)) = th_stat (threads s t)"
    "t \<notin> X \<Longrightarrow> current_priority (f (threads s t)) = current_priority (threads s t)"
    "t \<notin> X \<Longrightarrow> number_mask (f (threads s t)) = number_mask (threads s t)"
  shows "sched_inv_but X (upd_thread t f s)"
  using assms thread_ok_cong [OF assms(2-4)] by (auto simp: sched_inv_but_def)

text \<open>The invariant reads only the threads, their lists, the bitmap and the current thread.\<close>

lemma sched_inv_cong:
  "threads s = threads s' \<Longrightarrow> tls s = tls s' \<Longrightarrow> ready_group s = ready_group s' \<Longrightarrow>
   current s = current s' \<Longrightarrow> sched_inv_but X s = sched_inv_but X s'"
  by (simp add: sched_inv_but_def)

lemma sched_inv_frame [simp]:
  "sched_inv_but X (s\<lparr>tm := a\<rparr>) = sched_inv_but X s" "sched_inv_but X (s\<lparr>ipc := b\<rparr>) = sched_inv_but X s"
  "sched_inv_but X (s\<lparr>lock_nest := c\<rparr>) = sched_inv_but X s"
  "sched_inv_but X (s\<lparr>cur_prio := d\<rparr>) = sched_inv_but X s"
  "sched_inv_but X (s\<lparr>irq_nest := e\<rparr>) = sched_inv_but X s"
  "sched_inv_but X (s\<lparr>rt_errno := er\<rparr>) = sched_inv_but X s"
  by (simp_all add: sched_inv_but_def)

subsection \<open>Selection\<close>

lemma highest_some:
  assumes "sched_inv_but X s" "ready_group s \<noteq> 0"
  shows "\<exists>t p ts. scheduler_get_highest_priority_thread s = Some (t, p) \<and> tls s (Prio p) = t # ts \<and>
    p < 32 \<and> (\<forall>q<p. tls s (Prio q) = [])"
proof -
  let ?p = "rt_ffs (ready_group s) - 1"
  have l: "least_set (ready_group s) ?p" by (rule rt_ffs_least [OF assms(2)])
  then have p: "?p < 32" using least_set_less by fastforce
  have g: "group_ok (tls s) (ready_group s)" by (rule sched_invD [OF assms(1)])
  then have "tls s (Prio ?p) \<noteq> []" using l p by (auto simp: group_ok_def least_set_def)
  moreover have "tls s (Prio q) = []" if "q < ?p" for q
    using g l p that by (auto simp: group_ok_def least_set_def)
  ultimately obtain t ts where "tls s (Prio ?p) = t # ts" "\<forall>q<?p. tls s (Prio q) = []"
    by (metis list.exhaust)
  moreover from this have "scheduler_get_highest_priority_thread s = Some (t, ?p)"
    using assms(2) by (simp add: scheduler_get_highest_priority_thread_def)
  ultimately show ?thesis using p by blast
qed

lemma switch_current:
  assumes "sched_inv s" "current s = Some c" "to \<noteq> c"
  shows "sched_inv_but (if th_stat (threads s c) = RT_THREAD_RUNNING then {c, to} else {to})
    (s\<lparr>cur_prio := p, current := Some to\<rparr>)"
proof -
  have "thread_ok (tls s) (Some to) u (threads s u)"
    if "u \<noteq> to" "u \<noteq> c \<or> th_stat (threads s c) \<noteq> RT_THREAD_RUNNING" for u
    using that sched_invD(3) [OF assms(1), of u] assms(2) by (auto simp: thread_ok_def)
  then show ?thesis using sched_invD(1,2) [OF assms(1)] by (simp add: sched_inv_but_def)
qed

lemma switch_inv:
  assumes inv: "sched_inv s" and cur: "current s = Some c" and to: "to \<in> set (tls s (Prio p))"
    and ins: "ins \<longleftrightarrow> th_stat (threads s c) = RT_THREAD_RUNNING"
    and sw: "schedule_switch c to hp ins s = Some s'"
  shows "sched_inv s'"
proof -
  define s1 where "s1 = s\<lparr>cur_prio := of_nat hp, current := Some to\<rparr>"
  define s2 where "s2 = (if ins then rt_sched_insert_thread c s1 else s1)"
  define s3 where "s3 = (if th_yield (threads s2 c)
    then upd_thread c (\<lambda>x. x\<lparr>stat := stat x AND NOT RT_THREAD_STAT_YIELD_MASK\<rparr>) s2 else s2)"
  note tok = sched_invD(3) [OF inv, simplified]
  have ready: "th_stat (threads s to) = RT_THREAD_READY" "mask_ok (threads s to)"
    using thread_okD(1,7) [OF tok [of to]] to by force+
  then have ne: "to \<noteq> c" using thread_okD(6) [OF tok cur] by auto
  have i1: "sched_inv_but (if ins then {c, to} else {to}) s1"
    using switch_current [OF inv cur ne] by (simp add: s1_def ins)
  have i2: "sched_inv_but {to} s2"
  proof (cases ins)
    case True
    then have "unlinked (tls s) c" "mask_ok (threads s c)"
      using thread_ok_unlinked [OF tok [of c]] thread_okD(7) [OF tok [of c]] by (simp_all add: ins)
    then have "sched_inv_but ({c, to} - {c}) (rt_sched_insert_thread c s1)"
      using i1 True by (intro insert_inv) (simp_all add: s1_def)
    then show ?thesis using True ne by (simp add: s2_def insert_Diff_if)
  qed (use i1 in \<open>simp add: s2_def\<close>)
  have i3: "sched_inv_but {to} s3"
    unfolding s3_def using i2 by (auto intro: upd_thread_inv simp: th_stat_def)
  have thr: "threads s3 to = threads s to" and cur3: "current s3 = Some to"
    using ne by (simp_all add: s3_def s2_def s1_def)
  have "to \<in> set (tls s3 (Prio p))"
  proof (cases ins)
    case True
    then obtain xs ys where "tls s (Prio (prio_of (threads s c))) = xs @ ys"
        "tls s3 = (tls s)(Prio (prio_of (threads s c)) := xs @ c # ys)"
      using insert_tls [of s1 c] ne by (auto simp: s3_def s2_def s1_def)
    then show ?thesis using to by auto
  qed (use to in \<open>simp add: s3_def s2_def s1_def\<close>)
  then have "sched_inv_but {to} (rt_sched_remove_thread to s3)"
    using remove_inv [OF i3, of to] ready thr wf_ls_unique [OF sched_invD(1) [OF i3]]
      thread_okD(1) [OF tok to] by fastforce
  then have "sched_inv_but ({} - {to}) (set_stat to RT_THREAD_RUNNING (rt_sched_remove_thread to s3))"
    unfolding set_stat_def using ready(2) thr cur3
    by (intro settle_inv) (simp_all add: thread_ok_when_unlinked th_stat_def mask_ok_def prio_of_def)
  moreover have "s' = set_stat to RT_THREAD_RUNNING (rt_sched_remove_thread to s3)"
    using sw
    unfolding schedule_switch_def Let_def s1_def [symmetric] s2_def [symmetric] s3_def [symmetric] bind_Some
    by simp
  ultimately show ?thesis by simp
qed

lemma ready_list_thread:
  assumes "sched_inv s" "t \<in> set (tls s (Prio p))"
  shows "th_stat (threads s t) = RT_THREAD_READY" "prio_of (threads s t) = p" "current s \<noteq> Some t"
    "mask_ok (threads s t)"
  using sched_invD(3) [OF assms(1), of t] assms(2) by (auto simp: thread_ok_def)

lemma schedule_stay_inv:
  assumes "sched_inv s" "current s = Some c" "th_stat (threads s c) = RT_THREAD_RUNNING"
  shows "sched_inv (set_stat c RT_THREAD_RUNNING (rt_sched_remove_thread c s))"
proof -
  have "mask_ok (threads s c)" using assms thread_okD(7) [OF sched_invD(3) [OF assms(1), of c]] by simp
  then have "sched_inv_but ({} - {c}) (set_stat c RT_THREAD_RUNNING (rt_sched_remove_thread c s))"
    unfolding set_stat_def using remove_inv_ok [OF assms(1), of c] assms(2,3)
    by (intro settle_inv) (simp_all add: thread_ok_when_unlinked th_stat_def mask_ok_def prio_of_def)
  then show ?thesis by simp
qed

text \<open>The three outcomes of \<^const>\<open>rt_schedule\<close>: nothing to do, the current thread stays, a switch.\<close>

lemma schedule_cases [consumes 2, case_names locked stay switch]:
  assumes "rt_schedule s = Some s'" "sched_inv s"
    and locked: "lock_nest s \<noteq> 0 \<or> ready_group s = 0 \<Longrightarrow> s' = s \<Longrightarrow> P"
    and stay: "\<And>c p t ts. lock_nest s = 0 \<Longrightarrow> current s = Some c \<Longrightarrow> tls s (Prio p) = t # ts \<Longrightarrow>
      \<forall>q<p. tls s (Prio q) = [] \<Longrightarrow> th_stat (threads s c) = RT_THREAD_RUNNING \<Longrightarrow>
      prio_of (threads s c) < p \<or> prio_of (threads s c) = p \<and> \<not> th_yield (threads s c) \<Longrightarrow>
      s' = set_stat c RT_THREAD_RUNNING (rt_sched_remove_thread c s) \<Longrightarrow> P"
    and switch: "\<And>c p t ts. lock_nest s = 0 \<Longrightarrow> current s = Some c \<Longrightarrow> tls s (Prio p) = t # ts \<Longrightarrow>
      \<forall>q<p. tls s (Prio q) = [] \<Longrightarrow>
      (th_stat (threads s c) = RT_THREAD_RUNNING \<Longrightarrow>
         p < prio_of (threads s c) \<or> p = prio_of (threads s c) \<and> th_yield (threads s c)) \<Longrightarrow>
      schedule_switch c t p (th_stat (threads s c) = RT_THREAD_RUNNING) s = Some s' \<Longrightarrow> P"
  shows P
proof (cases "lock_nest s = 0 \<and> ready_group s \<noteq> 0")
  case True
  obtain t p ts where h: "scheduler_get_highest_priority_thread s = Some (t, p)"
      "tls s (Prio p) = t # ts" "\<forall>q<p. tls s (Prio q) = []"
    using highest_some [OF assms(2)] True by blast
  obtain c where c: "current s = Some c"
    using assms(1) True h(1) by (auto simp: rt_schedule_def bind_Some)
  have "t \<noteq> c" using ready_list_thread(3) [OF assms(2), of t p] h(2) c by auto
  then show P
    using assms(1) True h c stay [OF _ c h(2,3)] switch [OF _ c h(2,3)]
    by (cases "prio_of (threads s c) = p")
      (auto simp: rt_schedule_def prio_of_def Let_def split: if_splits)
qed (use assms(1) locked in \<open>auto simp: rt_schedule_def split: if_splits\<close>)

lemma rt_schedule_inv:
  assumes "rt_schedule s = Some s'" "sched_inv s"
  shows "sched_inv s'"
  using assms
proof (cases rule: schedule_cases)
  case (switch c p t ts)
  then show ?thesis using switch_inv [OF assms(2), of c t p] by simp
qed (simp_all add: assms(2) schedule_stay_inv)

text \<open>The effect of a switch on the threads.\<close>

lemma switch_result:
  assumes "schedule_switch c t hp ins s = Some s'"
  shows "current s' = Some t" "tm s' = tm s" "ipc s' = ipc s" "lock_nest s' = lock_nest s"
    "irq_nest s' = irq_nest s" "(threads s' u)\<lparr>stat := 0\<rparr> = (threads s u)\<lparr>stat := 0\<rparr>"
    "u \<noteq> c \<Longrightarrow> u \<noteq> t \<Longrightarrow> threads s' u = threads s u"
  using assms by (auto simp: schedule_switch_def Let_def bind_Some)

lemma switch_stat:
  assumes "schedule_switch c t hp ins s = Some s'" "t \<noteq> c"
  shows "th_stat (threads s' u) =
    (if u = t then RT_THREAD_RUNNING else if u = c \<and> ins then RT_THREAD_READY else th_stat (threads s u))"
proof -
  define s2 where "s2 = (if ins then rt_sched_insert_thread c (s\<lparr>cur_prio := of_nat hp, current := Some t\<rparr>)
    else s\<lparr>cur_prio := of_nat hp, current := Some t\<rparr>)"
  have "th_stat (threads s2 u) = (if u = c \<and> ins then 2 else th_stat (threads s u))"
    using assms(2) by (auto simp: s2_def th_stat_def)
  moreover have "th_stat (threads s' u) = (if u = t then 3 else th_stat (threads s2 u))"
    using assms(1)
    unfolding schedule_switch_def Let_def s2_def [symmetric] by (auto simp: bind_Some th_stat_def)
  ultimately show ?thesis by simp
qed

lemma same_but_stat:
  "x\<lparr>stat := 0\<rparr> = y\<lparr>stat := 0\<rparr> \<Longrightarrow> prio_of x = prio_of y"
  by (metis prio_of_def rt_thread.select_convs(13) rt_thread.surjective rt_thread.update_convs(9))

definition runnable :: "rt_thread \<Rightarrow> bool" where
  "runnable x \<longleftrightarrow> th_stat x = RT_THREAD_READY \<or> th_stat x = RT_THREAD_RUNNING"

text \<open>What scheduling leaves alone: everything but the statuses of runnable threads.\<close>

definition sched_frame :: "kst \<Rightarrow> kst \<Rightarrow> bool" where
  "sched_frame s s' \<longleftrightarrow> tm s' = tm s \<and> ipc s' = ipc s \<and> lock_nest s' = lock_nest s \<and>
     irq_nest s' = irq_nest s \<and> (\<forall>q. tls s' (Susp q) = tls s (Susp q)) \<and> tls s' Defunct = tls s Defunct \<and>
     (\<forall>t. (threads s' t)\<lparr>stat := 0\<rparr> = (threads s t)\<lparr>stat := 0\<rparr> \<and>
        runnable (threads s' t) = runnable (threads s t) \<and>
        (\<not> runnable (threads s t) \<longrightarrow> th_stat (threads s' t) = th_stat (threads s t)))"

lemma sched_frame_refl [simp]: "sched_frame s s"
  by (simp add: sched_frame_def)

lemma switch_frame:
  assumes inv: "sched_inv s" and cur: "current s = Some c" and t: "t \<in> set (tls s (Prio p))"
    and sw: "schedule_switch c t hp (th_stat (threads s c) = RT_THREAD_RUNNING) s = Some s'"
  shows "sched_frame s s'"
proof -
  let ?ins = "th_stat (threads s c) = RT_THREAD_RUNNING"
  note ready = ready_list_thread [OF inv t]
  have ne: "t \<noteq> c" using ready(3) cur by simp
  have lists: "t \<notin> set (tls s h)" if "h \<noteq> Prio p" for h
    using wf_ls_unique [OF sched_invD(1) [OF inv] t] that by blast
  have "tls s' h = tls s h" if "\<forall>q. h \<noteq> Prio q" for h
    using sw that lists ne
    by (auto simp: schedule_switch_def Let_def bind_Some rt_sched_insert_thread_def ls_remove_def
        ls_insert_before_def ls_insert_after_def)
  moreover have "runnable (threads s' u) = runnable (threads s u) \<and>
      (\<not> runnable (threads s u) \<longrightarrow> th_stat (threads s' u) = th_stat (threads s u))" for u
    using switch_stat [OF sw ne] ready(1) by (auto simp: runnable_def)
  ultimately show ?thesis using switch_result [OF sw] by (simp add: sched_frame_def)
qed

lemma schedule_frame:
  assumes "rt_schedule s = Some s'" "sched_inv s"
  shows "sched_frame s s'"
  using assms
proof (cases rule: schedule_cases)
  case (stay c p t ts)
  then have "unlinked (tls s) c"
    using thread_ok_unlinked [OF sched_invD(3) [OF assms(2), of c]] by simp
  with stay show ?thesis by (auto simp: sched_frame_def runnable_def th_stat_def)
next
  case (switch c p t ts)
  then show ?thesis using switch_frame [OF assms(2), of c t p] by simp
qed simp

lemma ready_prio_ge:
  assumes "sched_inv s" "\<forall>q<p. tls s (Prio q) = []" "th_stat (threads s u) = RT_THREAD_READY"
  shows "p \<le> prio_of (threads s u)"
proof (rule ccontr)
  assume "\<not> p \<le> prio_of (threads s u)"
  then show False
    using thread_okD(2) [OF sched_invD(3) [OF assms(1), of u]] assms(2,3) by auto
qed

text \<open>
  After scheduling outside a critical section no ready thread has a higher priority than
  the current thread, and the current thread runs if there was any thread to run.
\<close>

lemma schedule_highest:
  assumes "rt_schedule s = Some s'" "sched_inv s" "lock_nest s = 0" "current s = Some c"
  shows "\<exists>c'. current s' = Some c' \<and>
    (runnable (threads s c) \<or> ready_group s \<noteq> 0 \<longrightarrow> th_stat (threads s' c') = RT_THREAD_RUNNING) \<and>
    (\<forall>t. th_stat (threads s' t) = RT_THREAD_READY \<longrightarrow> prio_of (threads s' c') \<le> prio_of (threads s' t))"
  using assms(1,2)
proof (cases rule: schedule_cases)
  case locked
  then have "tls s (Prio p) = []" if "p < 32" for p
    using that assms(3) sched_invD(2) [OF assms(2)] by (simp add: group_ok_def)
  moreover have "t \<in> set (tls s (Prio (prio_of (threads s t)))) \<and> prio_of (threads s t) < 32"
    if "th_stat (threads s t) = RT_THREAD_READY" for t
    using that thread_okD(2,7) [OF sched_invD(3) [OF assms(2), of t]] by (simp add: mask_ok_def)
  ultimately have no: "th_stat (threads s t) \<noteq> RT_THREAD_READY" for t by (metis empty_iff empty_set)
  with locked assms(3,4) show ?thesis by (auto simp: runnable_def)
next
  case (stay c' p t ts)
  have "p \<le> prio_of (threads s u)" if "th_stat (threads s u) = RT_THREAD_READY" for u
    using ready_prio_ge [OF assms(2) stay(4) that] .
  with stay assms(4) show ?thesis by (force simp: th_stat_def prio_of_def)
next
  case (switch c' p t ts)
  have t: "t \<in> set (tls s (Prio p))" using switch by simp
  note ready = ready_list_thread [OF assms(2) t]
  have ne: "t \<noteq> c" and [simp]: "c' = c" using ready(3) assms(4) switch by auto
  have pr: "prio_of (threads s' u) = prio_of (threads s u)" for u
    using switch_result(6) [OF switch(6)] by (rule same_but_stat)
  have "p \<le> prio_of (threads s u)" if "th_stat (threads s' u) = RT_THREAD_READY" for u
    using that ready_prio_ge [OF assms(2) switch(4), of u] switch(5)
    by (auto simp: switch_stat [OF switch(6)] ne split: if_splits)
  then show ?thesis
    using ready(2) switch_result(1) [OF switch(6)] pr by (simp add: switch_stat [OF switch(6)] ne)
qed

text \<open>Scheduling returns unless there is no current thread or the chosen stack is corrupted.\<close>

definition stack_ok :: "rt_thread \<Rightarrow> bool" where
  "stack_ok x \<longleftrightarrow> stack_first x = 0x23 \<and> stack_addr x < sp x \<and> sp x \<le> stack_addr x + ucast (stack_size x)"

lemma stack_ok_cong: "x\<lparr>stat := a\<rparr> = y\<lparr>stat := b\<rparr> \<Longrightarrow> stack_ok x = stack_ok y"
  by (cases x; cases y; simp add: stack_ok_def)

lemma stack_check_ok: "rt_scheduler_stack_check t s = (if stack_ok (threads s t) then Some () else None)"
  by (auto simp: rt_scheduler_stack_check_def stack_ok_def Let_def not_le not_less)

lemma switch_total:
  assumes "stack_ok (threads s t)" "t \<noteq> c"
  shows "\<exists>s'. schedule_switch c t hp ins s = Some s'"
  using assms by (auto simp: schedule_switch_def Let_def stack_check_ok stack_ok_def)

lemma schedule_total:
  assumes "sched_inv s" "current s \<noteq> None" "\<And>t. th_stat (threads s t) = RT_THREAD_READY \<Longrightarrow> stack_ok (threads s t)"
  shows "\<exists>s'. rt_schedule s = Some s'"
proof (cases "lock_nest s = 0 \<and> ready_group s \<noteq> 0")
  case True
  obtain t p ts where h: "scheduler_get_highest_priority_thread s = Some (t, p)" "tls s (Prio p) = t # ts"
    using highest_some [OF assms(1)] True by blast
  obtain c where c: "current s = Some c" using assms(2) by auto
  have "t \<in> set (tls s (Prio p))" using h(2) by simp
  note r = ready_list_thread [OF assms(1) this]
  then have "\<exists>s'. schedule_switch c t p ins s = Some s'" for ins
    using switch_total [of s t c p ins] assms(3) c by auto
  then show ?thesis using True h(1) c by (auto simp: rt_schedule_def Let_def)
qed (auto simp: rt_schedule_def)

end
