(* ===== verification/RT_Susp.thy ===== *)
theory RT_Susp
  imports RT_SchedInv
begin

text \<open>
  Suspending and resuming threads: the suspend lists of the IPC objects
  (\<^verbatim>\<open>rt_susp_list_*\<close> of \<^verbatim>\<open>src/ipc.c\<close>) and \<^verbatim>\<open>rt_thread_suspend_to_list\<close>,
  \<^verbatim>\<open>rt_thread_suspend\<close> and \<^verbatim>\<open>rt_thread_resume\<close> of \<^verbatim>\<open>src/thread.c\<close>. The invariant of
  the kernel is completed with the thread timers: a thread timer is armed exactly while its
  thread is suspended with a timeout.
\<close>

subsection \<open>Suspend lists\<close>

abbreviation (input) RT_IPC_FLAG_FIFO :: int where "RT_IPC_FLAG_FIFO \<equiv> 0"
abbreviation (input) RT_IPC_FLAG_PRIO :: int where "RT_IPC_FLAG_PRIO \<equiv> 1"

definition rt_susp_list_dequeue :: "ipcref \<Rightarrow> rt_err \<Rightarrow> kst \<Rightarrow> (tid option \<times> kst) option" where
  "rt_susp_list_dequeue q thread_error s =
     (case tls s (Susp q) of
        [] \<Rightarrow> Some (None, s)
      | t # _ \<Rightarrow>
          do { (e, s) \<leftarrow> rt_sched_thread_ready t s;
               if e \<noteq> 0 then Some (None, s)
               else Some (Some t, if 0 \<le> thread_error
                                  then upd_thread t (\<lambda>x. x\<lparr>error := thread_error\<rparr>) s else s) })"

lemma thread_ready_suspended:
  "th_suspended (threads s t) \<Longrightarrow> rt_sched_thread_ready t s =
     do { (e, s) \<leftarrow> rt_sched_thread_timer_stop t s;
          if e = 0 then Some (e, rt_sched_insert_thread t (list_remove_thread t s)) else Some (e, s) }"
  by (simp add: rt_sched_thread_ready_def rt_sched_thread_is_suspended_def th_suspended_def
      rt_sched_thread_timer_stop_def)

text \<open>
  A thread is made ready when it is suspended and its timer, if it is set, could be stopped.
\<close>

lemma thread_ready_cases:
  assumes "rt_sched_thread_ready t s = Some (e, s')"
  obtains (not_suspended) "\<not> th_suspended (threads s t)" "e = - RT_EINVAL" "s' = s"
  | (timer) "th_suspended (threads s t)" "ttmr_set (threads s t)" "e \<noteq> 0"
      "rt_sched_thread_timer_stop t s = Some (e, s')"
  | (ready) s1 where "th_suspended (threads s t)" "e = 0"
      "rt_sched_thread_timer_stop t s = Some (0, s1)"
      "s' = rt_sched_insert_thread t (list_remove_thread t s1)"
proof (cases "th_suspended (threads s t)")
  case False
  then have "Some (e, s') = Some (- RT_EINVAL, s)"
    using assms by (simp add: rt_sched_thread_ready_def rt_sched_thread_is_suspended_def th_suspended_def)
  with False show thesis by (intro not_suspended) simp_all
next
  case True
  with assms obtain e1 s1 where st: "rt_sched_thread_timer_stop t s = Some (e1, s1)"
      and r: "(if e1 = 0 then Some (e1, rt_sched_insert_thread t (list_remove_thread t s1)) else Some (e1, s1)) = Some (e, s')"
    by (auto simp: thread_ready_suspended bind_Some)
  show thesis
  proof (cases "e1 = 0")
    case True
    with r st \<open>th_suspended (threads s t)\<close> show thesis by (intro ready [of s1]) simp_all
  next
    case False
    with st have "ttmr_set (threads s t)" by (auto simp: rt_sched_thread_timer_stop_def split: if_splits)
    with False r st \<open>th_suspended (threads s t)\<close> show thesis by (intro timer) simp_all
  qed
qed

lemma timer_stop_frame:
  assumes "rt_sched_thread_timer_stop t s = Some (e, s')"
  shows "tls s' = tls s" "ready_group s' = ready_group s" "current s' = current s"
    "lock_nest s' = lock_nest s" "irq_nest s' = irq_nest s" "ipc s' = ipc s" "cur_prio s' = cur_prio s"
    "threads s' u = (if u = t then (threads s t)\<lparr>ttmr_set := False\<rparr> else threads s u)"
  using assms
  by (auto simp: rt_sched_thread_timer_stop_def on_tm_r_def bind_Some split: if_splits)

lemma thread_ready_shrinks:
  assumes "rt_sched_thread_ready t s = Some (0, s')"
  shows "tls s' (Susp q) = filter (\<lambda>u. u \<noteq> t) (tls s (Susp q))"
  using assms by (cases rule: thread_ready_cases) (auto simp: timer_stop_frame ls_remove_def)

function (sequential) rt_susp_list_resume_all :: "ipcref \<Rightarrow> rt_err \<Rightarrow> kst \<Rightarrow> kst option" where
  "rt_susp_list_resume_all q thread_error s =
     do { (thread, s') \<leftarrow> rt_susp_list_dequeue q thread_error s;
          case thread of
            None \<Rightarrow> Some s'
          | Some _ \<Rightarrow> rt_susp_list_resume_all q thread_error s' }"
  by pat_completeness auto
termination
proof (relation "measure (\<lambda>(q, e, s). length (tls s (Susp q)))")
  fix q e s r u s' t
  assume "rt_susp_list_dequeue q e s = Some r" "(u, s') = r" "u = Some t"
  then have "tls s' (Susp q) = filter (\<lambda>u. u \<noteq> t) (tls s (Susp q))" "t \<in> set (tls s (Susp q))"
    by (auto simp: rt_susp_list_dequeue_def bind_Some dest!: thread_ready_shrinks [of t s _ q]
        split: list.splits if_splits)
  then show "((q, e, s'), (q, e, s)) \<in> measure (\<lambda>(q, e, s). length (tls s (Susp q)))"
    by (auto simp: length_filter_less)
qed simp

declare rt_susp_list_resume_all.simps [simp del]

text \<open>\<^verbatim>\<open>rt_susp_list_resume_all_irq\<close> takes the lock of the object around each dequeue.\<close>

definition rt_susp_list_resume_all_irq :: "ipcref \<Rightarrow> rt_err \<Rightarrow> kst \<Rightarrow> kst option" where
  "rt_susp_list_resume_all_irq q thread_error s = rt_susp_list_resume_all q thread_error s"

fun susp_prio_insert :: "(tid \<Rightarrow> u8) \<Rightarrow> tid \<Rightarrow> tid list \<Rightarrow> tid list" where
  "susp_prio_insert prio t [] = [t]"
| "susp_prio_insert prio t (n # ns) =
     (if prio t < prio n then t # n # ns else n # susp_prio_insert prio t ns)"

definition rt_susp_list_enqueue :: "ipcref \<Rightarrow> tid \<Rightarrow> int \<Rightarrow> kst \<Rightarrow> kst option" where
  "rt_susp_list_enqueue q t ipc_flags s =
     (if ipc_flags = RT_IPC_FLAG_FIFO then
        Some (s\<lparr>tls := ls_insert_before (tls s) (Susp q) t\<rparr>)
      else if ipc_flags = RT_IPC_FLAG_PRIO then
        Some (s\<lparr>tls := (tls s)(Susp q :=
          susp_prio_insert (\<lambda>u. rt_sched_thread_get_curr_prio u s) t (tls s (Susp q)))\<rparr>)
      else None)"

subsection \<open>Suspending and resuming\<close>

definition thread_set_suspend_state :: "tid \<Rightarrow> int \<Rightarrow> kst \<Rightarrow> kst option" where
  "thread_set_suspend_state t suspend_flag s =
     (if suspend_flag = RT_INTERRUPTIBLE then Some (set_stat t RT_THREAD_SUSPEND_INTERRUPTIBLE s)
      else if suspend_flag = RT_KILLABLE then Some (set_stat t RT_THREAD_SUSPEND_KILLABLE s)
      else if suspend_flag = RT_UNINTERRUPTIBLE then
        Some (set_stat t RT_THREAD_SUSPEND_UNINTERRUPTIBLE s)
      else None)"

definition rt_thread_suspend_to_list ::
  "tid \<Rightarrow> ipcref option \<Rightarrow> int \<Rightarrow> int \<Rightarrow> kst \<Rightarrow> (rt_err \<times> kst) option" where
  "rt_thread_suspend_to_list t susp_list ipc_flags suspend_flag s =
     do { rt_assert (rt_object_get_type (th_type (threads s t)) = RT_Object_Class_Thread);
          rt_assert (rt_thread_self s = Some t);
          let st = rt_sched_thread_get_stat t s;
          if st \<noteq> RT_THREAD_READY \<and> st \<noteq> RT_THREAD_RUNNING then Some (- RT_ERROR, s)
          else
            do { let s = rt_sched_remove_thread t s;
                 s \<leftarrow> thread_set_suspend_state t suspend_flag s;
                 s \<leftarrow> (case susp_list of
                         None \<Rightarrow> Some s
                       | Some q \<Rightarrow> rt_susp_list_enqueue q t ipc_flags s);
                 (_, s) \<leftarrow> rt_sched_thread_timer_stop t s;
                 Some (RT_EOK, s) } }"

definition rt_thread_suspend_with_flag :: "tid \<Rightarrow> int \<Rightarrow> kst \<Rightarrow> (rt_err \<times> kst) option" where
  "rt_thread_suspend_with_flag t suspend_flag s =
     rt_thread_suspend_to_list t None 0 suspend_flag s"

definition rt_thread_suspend :: "tid \<Rightarrow> kst \<Rightarrow> (rt_err \<times> kst) option" where
  "rt_thread_suspend t s = rt_thread_suspend_with_flag t RT_UNINTERRUPTIBLE s"

definition rt_thread_resume :: "tid \<Rightarrow> kst \<Rightarrow> (rt_err \<times> kst) option" where
  "rt_thread_resume t s =
     do { rt_assert (rt_object_get_type (th_type (threads s t)) = RT_Object_Class_Thread);
          (e, s) \<leftarrow> rt_sched_thread_ready t s;
          if e = 0 then do { s \<leftarrow> rt_sched_unlock_n_resched s; Some (RT_EOK, s) }
          else Some (e, s) }"

end
