(* ===== verification/RT_KInv.thy ===== *)
theory RT_KInv
  imports RT_Susp
begin

text \<open>
  The invariant of the kernel: the scheduler invariant, the timer invariant, and their link.
  The timer of a thread is armed exactly while the thread is suspended with a timeout, so
  readying a suspended thread never fails on its timer, and an expiring thread timer always
  finds its thread suspended.
\<close>

subsection \<open>The link between threads and their timers\<close>

definition tt_ok :: "tid \<Rightarrow> rt_timer \<Rightarrow> bool" where
  "tt_ok t x \<longleftrightarrow> rt_object_get_type (tm_type x) = RT_Object_Class_Timer \<and>
     rt_object_is_systemobject (tm_type x) \<and>
     tm_flag x AND RT_TIMER_FLAG_PROCESSING = 0 \<and> tm_flag x AND RT_TIMER_FLAG_PERIODIC = 0 \<and>
     tm_flag x AND RT_TIMER_FLAG_SOFT_TIMER = 0 \<and> tm_flag x AND RT_TIMER_FLAG_THREAD_TIMER \<noteq> 0 \<and>
     timeout_func x = Thread_timeout \<and> tm_parameter x = t"

definition link_ok :: "tid \<Rightarrow> rt_timer \<Rightarrow> rt_thread \<Rightarrow> bool" where
  "link_ok t m x \<longleftrightarrow>
     (tm_flag m AND RT_TIMER_FLAG_ACTIVATED \<noteq> 0 \<longleftrightarrow> th_suspended x \<and> ttmr_set x) \<and>
     (th_stat x \<noteq> RT_THREAD_INIT \<and> th_stat x \<noteq> RT_THREAD_CLOSE \<longrightarrow>
        rt_object_get_type (th_type x) = RT_Object_Class_Thread) \<and>
     (rt_object_get_type (th_type x) = RT_Object_Class_Thread \<and> th_stat x \<noteq> RT_THREAD_CLOSE \<longrightarrow>
        tt_ok t m \<and> current_priority x < RT_THREAD_PRIORITY_MAX)"

definition kinv_but :: "tid set \<Rightarrow> kst \<Rightarrow> bool" where
  "kinv_but X s \<longleftrightarrow> sched_inv_but X s \<and> timer_inv (tm s) \<and>
     (\<forall>t. t \<notin> X \<longrightarrow> link_ok t (timers (tm s) (Thread_timer t)) (threads s t))"

abbreviation kinv :: "kst \<Rightarrow> bool" where
  "kinv s \<equiv> kinv_but {} s"

lemma kinvD:
  "kinv_but X s \<Longrightarrow> sched_inv_but X s" "kinv_but X s \<Longrightarrow> timer_inv (tm s)"
  "kinv_but X s \<Longrightarrow> t \<notin> X \<Longrightarrow> link_ok t (timers (tm s) (Thread_timer t)) (threads s t)"
  by (auto simp: kinv_but_def)

lemma kinv_frame [simp]:
  "kinv_but X (s\<lparr>ipc := b\<rparr>) = kinv_but X s" "kinv_but X (s\<lparr>lock_nest := c\<rparr>) = kinv_but X s"
  "kinv_but X (s\<lparr>cur_prio := d\<rparr>) = kinv_but X s" "kinv_but X (s\<lparr>irq_nest := e\<rparr>) = kinv_but X s"
  "kinv_but X (s\<lparr>rt_errno := er\<rparr>) = kinv_but X s"
  by (simp_all add: kinv_but_def)

lemma link_ok_cong:
  "th_stat x = th_stat y \<Longrightarrow> ttmr_set x = ttmr_set y \<Longrightarrow> th_type x = th_type y \<Longrightarrow>
   current_priority x = current_priority y \<Longrightarrow> link_ok t m x = link_ok t m y"
  by (simp add: link_ok_def suspended_stat)

lemma runnable_not_suspended: "runnable x \<Longrightarrow> \<not> th_suspended x"
  by (auto simp: runnable_def suspended_stat)

text \<open>Fields of a thread outside its status, its priority and its timer flag.\<close>

lemma kinv_upd_thread:
  assumes "kinv_but X s" "th_stat (f (threads s t)) = th_stat (threads s t)"
    "current_priority (f (threads s t)) = current_priority (threads s t)"
    "number_mask (f (threads s t)) = number_mask (threads s t)"
    "ttmr_set (f (threads s t)) = ttmr_set (threads s t)" "th_type (f (threads s t)) = th_type (threads s t)"
  shows "kinv_but X (upd_thread t f s)"
  using assms upd_thread_inv [OF kinvD(1) [OF assms(1)], of t f] link_ok_cong [OF assms(2,5,6,3)]
  by (auto simp: kinv_but_def)

lemma link_sched_frame:
  assumes "sched_frame s s'" "link_ok t m (threads s t)"
  shows "link_ok t m (threads s' t)"
proof -
  have eq: "(threads s' t)\<lparr>stat := 0\<rparr> = (threads s t)\<lparr>stat := 0\<rparr>"
    and r: "runnable (threads s' t) = runnable (threads s t)"
    and n: "\<not> runnable (threads s t) \<Longrightarrow> th_stat (threads s' t) = th_stat (threads s t)"
    using assms(1) by (auto simp: sched_frame_def)
  have f: "ttmr_set (threads s' t) = ttmr_set (threads s t)" "th_type (threads s' t) = th_type (threads s t)"
      "current_priority (threads s' t) = current_priority (threads s t)"
    using eq by (metis rt_thread.ext_inject rt_thread.surjective rt_thread.update_convs(9))+
  show ?thesis
  proof (cases "runnable (threads s t)")
    case True
    then have "\<not> th_suspended (threads s t)" "\<not> th_suspended (threads s' t)"
      using r runnable_not_suspended by auto
    then show ?thesis
      using True r f assms(2) by (auto simp: link_ok_def runnable_def)
  next
    case False
    then show ?thesis using n f assms(2) link_ok_cong by metis
  qed
qed

lemma kinv_schedule:
  assumes "rt_schedule s = Some s'" "kinv s"
  shows "kinv s'"
  using rt_schedule_inv [OF assms(1)] schedule_frame [OF assms(1)] kinvD [OF assms(2)]
    link_sched_frame [of s s'] by (auto simp: kinv_but_def sched_frame_def)

lemma kinv_resched: "rt_sched_unlock_n_resched s = Some s' \<Longrightarrow> kinv s \<Longrightarrow> kinv s'"
  by (auto simp: rt_sched_unlock_n_resched_def intro: kinv_schedule split: option.splits)

lemma kinv_exit_critical: "rt_exit_critical s = Some s' \<Longrightarrow> kinv s \<Longrightarrow> kinv s'"
  by (auto simp: rt_exit_critical_def Let_def intro: kinv_schedule split: option.splits if_splits)

lemma kinv_exit_critical_safe: "rt_exit_critical_safe l s = Some s' \<Longrightarrow> kinv s \<Longrightarrow> kinv s'"
  by (auto simp: rt_exit_critical_safe_def intro: kinv_exit_critical split: if_splits)

lemma kinv_enter_critical [simp]: "kinv_but X (snd (rt_enter_critical s)) = kinv_but X s"
  by (simp add: rt_enter_critical_def)

subsection \<open>Readying a suspended thread\<close>

lemma tt_stop_act:
  assumes "timer_inv m" "tm_flag (timers m (Thread_timer t)) AND RT_TIMER_FLAG_ACTIVATED \<noteq> 0"
  shows "rt_timer_stop (Thread_timer t) m =
    Some (0, clr_tm_flag (Thread_timer t) RT_TIMER_FLAG_ACTIVATED (timer_remove (Thread_timer t) m))"
  using assms timer_invD(2) [OF assms(1), of "Thread_timer t"]
  by (auto simp: rt_timer_stop_def timer_ok_def tm_has_def)

text \<open>Stopping the timer of a thread clears the flag and disarms the timer.\<close>

lemma timer_stop_link:
  assumes "timer_inv (tm s)" "link_ok t (timers (tm s) (Thread_timer t)) (threads s t)"
    "ttmr_set (threads s t) \<Longrightarrow> rt_object_get_type (tm_type (timers (tm s) (Thread_timer t))) = RT_Object_Class_Timer"
  shows "\<exists>e s'. rt_sched_thread_timer_stop t s = Some (e, s') \<and> timer_inv (tm s') \<and>
    (th_suspended (threads s t) \<longrightarrow> e = 0) \<and>
    (\<forall>u. u \<noteq> Thread_timer t \<longrightarrow> timers (tm s') u = timers (tm s) u) \<and>
    link_ok t (timers (tm s') (Thread_timer t)) (threads s' t)"
proof (cases "ttmr_set (threads s t)")
  case False
  then show ?thesis using assms by (auto simp: rt_sched_thread_timer_stop_def)
next
  case True
  let ?m = "timers (tm s) (Thread_timer t)"
  show ?thesis
  proof (cases "tm_flag ?m AND RT_TIMER_FLAG_ACTIVATED \<noteq> 0")
    case act: True
    show ?thesis
      using True tt_stop_act [OF assms(1) act] assms(2)
        rt_timer_stop_inv [OF tt_stop_act [OF assms(1) act] assms(1)]
      by (auto simp: rt_sched_thread_timer_stop_def on_tm_r_def link_ok_def tt_ok_def th_suspended_def th_stat_def)
  next
    case False
    then have "rt_timer_stop (Thread_timer t) (tm s) = Some (- 1, tm s)"
      using True assms(3) by (simp add: rt_timer_stop_def tm_has_def)
    then show ?thesis
      using True False assms by (auto simp: rt_sched_thread_timer_stop_def on_tm_r_def link_ok_def th_suspended_def th_stat_def)
  qed
qed

text \<open>
  What waking a set \<open>T\<close> of threads does: they are runnable and off their suspend lists, with
  only status, timer flag and error changed; the rest of the kernel is as before.
\<close>

definition wake_eq :: "rt_thread \<Rightarrow> rt_thread \<Rightarrow> bool" where
  "wake_eq x y \<longleftrightarrow> x\<lparr>stat := 0, ttmr_set := False, error := 0\<rparr> = y\<lparr>stat := 0, ttmr_set := False, error := 0\<rparr>"

definition woken :: "tid set \<Rightarrow> kst \<Rightarrow> kst \<Rightarrow> bool" where
  "woken T s s' \<longleftrightarrow> ipc s' = ipc s \<and> current s' = current s \<and> lock_nest s' = lock_nest s \<and>
     irq_nest s' = irq_nest s \<and> rt_tick (tm s') = rt_tick (tm s) \<and> tls s' Defunct = tls s Defunct \<and>
     (\<forall>q. tls s' (Susp q) = filter (\<lambda>u. u \<notin> T) (tls s (Susp q))) \<and>
     (\<forall>u. u \<notin> T \<longrightarrow> threads s' u = threads s u) \<and>
     (\<forall>u\<in>T. runnable (threads s' u) \<and> wake_eq (threads s' u) (threads s u))"

lemma woken_refl [simp]: "woken {} s s"
  by (simp add: woken_def)

lemma woken_trans:
  assumes "woken T s s'" "woken U s' s''"
  shows "woken (T \<union> U) s s''"
proof -
  have "tls s'' (Susp q) = filter (\<lambda>u. u \<notin> T \<union> U) (tls s (Susp q))" for q
  proof -
    have "tls s'' (Susp q) = filter (\<lambda>u. u \<notin> U) (filter (\<lambda>u. u \<notin> T) (tls s (Susp q)))"
      using assms unfolding woken_def by metis
    then show ?thesis by simp
  qed
  moreover have "threads s'' u = threads s u" if "u \<notin> T \<union> U" for u
    using assms that unfolding woken_def by simp
  moreover have "runnable (threads s'' u) \<and> wake_eq (threads s'' u) (threads s u)" if "u \<in> T \<union> U" for u
  proof (cases "u \<in> U")
    case True
    then have "runnable (threads s'' u)" "wake_eq (threads s'' u) (threads s' u)"
      using assms(2) unfolding woken_def by blast+
    moreover have "wake_eq (threads s' u) (threads s u)"
      using assms(1) unfolding woken_def wake_eq_def by metis
    ultimately show ?thesis unfolding wake_eq_def by simp
  next
    case False
    then show ?thesis using assms that unfolding woken_def by auto
  qed
  ultimately show ?thesis using assms unfolding woken_def by simp
qed

lemma kinv_ready:
  assumes inv: "kinv s" and susp: "th_suspended (threads s t)"
  shows "\<exists>s'. rt_sched_thread_ready t s = Some (0, s') \<and> kinv s' \<and> woken {t} s s' \<and>
    error (threads s' t) = error (threads s t)"
proof -
  note lk = kinvD(3) [OF inv, of t, simplified]
  have st: "th_stat (threads s t) \<noteq> RT_THREAD_INIT" "th_stat (threads s t) \<noteq> RT_THREAD_CLOSE"
    using susp by (auto simp: suspended_stat)
  then have "tt_ok t (timers (tm s) (Thread_timer t))" using lk by (simp add: link_ok_def)
  then obtain s1 where s1: "rt_sched_thread_timer_stop t s = Some (0, s1)" "timer_inv (tm s1)"
      "\<forall>u. u \<noteq> Thread_timer t \<longrightarrow> timers (tm s1) u = timers (tm s) u"
      "link_ok t (timers (tm s1) (Thread_timer t)) (threads s1 t)"
    using timer_stop_link [OF kinvD(2) [OF inv] lk] susp by (auto simp: tt_ok_def)
  note fr = timer_stop_frame [OF s1(1)]
  define s2 where "s2 = list_remove_thread t s1"
  let ?s = "rt_sched_insert_thread t s2"
  have "sched_inv_but {t} s2"
  proof -
    have "sched_inv_but {t} s1"
      using kinvD(1) [OF inv] by (auto simp: sched_inv_but_def fr)
    moreover have "t \<notin> set (tls s1 (Prio p))" for p
      using sched_invD(3) [OF kinvD(1) [OF inv], of t] susp runnable_not_suspended
      by (auto simp: thread_ok_def fr runnable_def)
    ultimately show ?thesis
      by (auto simp: s2_def sched_inv_but_def wf_ls_remove group_ok_def
          thread_ok_list_cong [where L' = "tls s1" and L = "ls_remove (tls s1) t"])
  qed
  moreover have "mask_ok (threads s t)"
    using sched_invD(3) [OF kinvD(1) [OF inv], of t] st by (simp add: thread_ok_def)
  ultimately have "sched_inv ?s"
    using insert_inv [of "{t}" s2 t] by (simp add: s2_def fr mask_ok_def prio_of_def)
  moreover have "link_ok u (timers (tm ?s) (Thread_timer u)) (threads ?s u)" for u
  proof (cases "u = t")
    case True
    then show ?thesis
      using s1(4) lk susp st by (auto simp: s2_def link_ok_def th_suspended_def th_stat_def fr)
  next
    case False
    then show ?thesis using kinvD(3) [OF inv, of u] s1(3) by (simp add: s2_def fr)
  qed
  ultimately have "kinv ?s" using s1(2) by (simp add: kinv_but_def s2_def)
  moreover have "rt_sched_thread_ready t s = Some (0, ?s)"
    using s1(1) by (simp add: thread_ready_suspended [OF susp] s2_def)
  moreover have "rt_tick (tm s1) = rt_tick (tm s)"
    using s1(1) by (auto simp: rt_sched_thread_timer_stop_def on_tm_r_def bind_Some rt_timer_stop_def split: if_splits)
  moreover have "filter (\<lambda>u. u \<noteq> t) (tls s Defunct) = tls s Defunct"
    using thread_okD(4) [OF sched_invD(3) [OF kinvD(1) [OF inv], of t]] st(2) by (auto simp: filter_id_conv)
  moreover from calculation have "woken {t} s ?s"
    by (auto simp: woken_def wake_eq_def s2_def fr ls_remove_def runnable_def th_stat_def)
  ultimately show ?thesis by (auto simp: s2_def fr)
qed

lemma kinv_dequeue_empty [simp]: "tls s (Susp q) = [] \<Longrightarrow> rt_susp_list_dequeue q e s = Some (None, s)"
  by (simp add: rt_susp_list_dequeue_def)

lemma woken_set_error: "woken T s s' \<Longrightarrow> t \<in> T \<Longrightarrow> woken T s (upd_thread t (\<lambda>x. x\<lparr>error := e\<rparr>) s')"
  by (auto simp: woken_def wake_eq_def runnable_def th_stat_def)

lemma kinv_dequeue:
  assumes inv: "kinv s" and q: "tls s (Susp q) = t # ts"
  shows "\<exists>s'. rt_susp_list_dequeue q e s = Some (Some t, s') \<and> kinv s' \<and> woken {t} s s' \<and>
    tls s' (Susp q) = ts \<and> error (threads s' t) = (if 0 \<le> e then e else error (threads s t))"
proof -
  have "t \<in> set (tls s (Susp q))" using q by simp
  then have "th_suspended (threads s t)"
    using sched_invD(3) [OF kinvD(1) [OF inv], of t] by (auto simp: thread_ok_def)
  then obtain s1 where s1: "rt_sched_thread_ready t s = Some (0, s1)" "kinv s1" "woken {t} s s1"
      "error (threads s1 t) = error (threads s t)"
    using kinv_ready [OF inv] by blast
  have "distinct (t # ts)" using wf_ls_distinct [OF sched_invD(1) [OF kinvD(1) [OF inv]], of "Susp q"] q by simp
  then have "tls s1 (Susp q) = ts" using s1(3) q by (auto simp: woken_def filter_id_conv)
  then show ?thesis
    using s1 q kinv_upd_thread [OF s1(2), of "\<lambda>x. x\<lparr>error := e\<rparr>" t] woken_set_error [OF s1(3)]
    by (auto simp: rt_susp_list_dequeue_def th_stat_def)
qed

lemma kinv_resume_all:
  assumes "kinv s"
  shows "\<exists>s'. rt_susp_list_resume_all q e s = Some s' \<and> kinv s' \<and> woken (set (tls s (Susp q))) s s' \<and>
    tls s' (Susp q) = [] \<and>
    (0 \<le> e \<longrightarrow> (\<forall>t\<in>set (tls s (Susp q)). error (threads s' t) = e))"
  using assms
proof (induction "tls s (Susp q)" arbitrary: s)
  case Nil
  then show ?case by (simp add: rt_susp_list_resume_all.simps [of q e s])
next
  case (Cons t ts)
  obtain s1 where s1: "rt_susp_list_dequeue q e s = Some (Some t, s1)" "kinv s1" "woken {t} s s1"
      "tls s1 (Susp q) = ts" "error (threads s1 t) = (if 0 \<le> e then e else error (threads s t))"
    using kinv_dequeue [OF Cons.prems Cons.hyps(2) [symmetric]] by blast
  obtain s2 where s2: "rt_susp_list_resume_all q e s1 = Some s2" "kinv s2" "woken (set ts) s1 s2"
      "tls s2 (Susp q) = []" "0 \<le> e \<longrightarrow> (\<forall>t\<in>set ts. error (threads s2 t) = e)"
    using Cons.hyps(1) [of s1] s1 by auto
  have "distinct (t # ts)"
    using wf_ls_distinct [OF sched_invD(1) [OF kinvD(1) [OF Cons.prems]], of "Susp q"] Cons.hyps(2) by simp
  then have "threads s2 t = threads s1 t" using s2(3) by (simp add: woken_def)
  moreover have "woken (set (t # ts)) s s2" using woken_trans [OF s1(3) s2(3)] by simp
  moreover have "rt_susp_list_resume_all q e s = Some s2"
    using s1(1) s2(1) by (simp add: rt_susp_list_resume_all.simps [of q e s])
  ultimately show ?case
    unfolding Cons.hyps(2) [symmetric] using s1(5) s2(2,4,5) by simp
qed

subsection \<open>Suspending the current thread\<close>

lemma prio_insert_split:
  "\<exists>xs ys. ns = xs @ ys \<and> susp_prio_insert pr t ns = xs @ t # ys"
proof (induction ns)
  case (Cons n ns)
  then obtain xs ys where "ns = xs @ ys" "susp_prio_insert pr t ns = xs @ t # ys" by blast
  then show ?case by (auto intro: exI [of _ "[]"] exI [of _ "n # xs"])
qed simp

lemma set_prio_insert [simp]: "set (susp_prio_insert pr t ns) = insert t (set ns)"
  using prio_insert_split [of ns pr t] by auto

text \<open>The list of the waiting threads stays in the order of the priorities, first come first.\<close>

lemma prio_insert_sorted:
  "sorted (map pr ns) \<Longrightarrow> sorted (map pr (susp_prio_insert pr t ns))"
  by (induction ns) auto

lemma prio_insert_takeWhile:
  "susp_prio_insert pr t ns = takeWhile (\<lambda>u. pr u \<le> pr t) ns @ t # dropWhile (\<lambda>u. pr u \<le> pr t) ns"
  by (induction ns) auto

text \<open>The suspend list a thread joins.\<close>

definition susp_joined :: "int \<Rightarrow> tid \<Rightarrow> kst \<Rightarrow> ipcref \<Rightarrow> tid list" where
  "susp_joined fl t s q = (if fl = RT_IPC_FLAG_FIFO then tls s (Susp q) @ [t]
     else susp_prio_insert (\<lambda>u. current_priority (threads s u)) t (tls s (Susp q)))"

lemma susp_joined_split:
  "\<exists>xs ys. tls s (Susp q) = xs @ ys \<and> susp_joined fl t s q = xs @ t # ys"
proof (cases "fl = RT_IPC_FLAG_FIFO")
  case True
  then show ?thesis by (intro exI [of _ "tls s (Susp q)"] exI [of _ "[]"]) (simp add: susp_joined_def)
next
  case False
  then show ?thesis
    using prio_insert_split [of "tls s (Susp q)" "\<lambda>u. current_priority (threads s u)" t]
    by (simp add: susp_joined_def)
qed

lemma set_susp_joined [simp]: "set (susp_joined fl t s q) = insert t (set (tls s (Susp q)))"
  using susp_joined_split [of s q fl t] by auto

lemma susp_joined_cong:
  assumes "\<And>u. current_priority (threads s u) = current_priority (threads s' u)" "tls s (Susp q) = tls s' (Susp q)"
  shows "susp_joined fl t s q = susp_joined fl t s' q"
  using assms by (simp add: susp_joined_def)

definition asleep :: "tid \<Rightarrow> ipcref option \<Rightarrow> int \<Rightarrow> kst \<Rightarrow> kst \<Rightarrow> bool" where
  "asleep t sl fl s s' \<longleftrightarrow> ipc s' = ipc s \<and> current s' = current s \<and> lock_nest s' = lock_nest s \<and>
     irq_nest s' = irq_nest s \<and> rt_tick (tm s') = rt_tick (tm s) \<and>
     (\<forall>q. tls s' (Susp q) = (if sl = Some q then susp_joined fl t s q else tls s (Susp q))) \<and>
     (\<forall>p. tls s' (Prio p) = tls s (Prio p)) \<and>
     (\<forall>u. u \<noteq> t \<longrightarrow> threads s' u = threads s u) \<and>
     th_suspended (threads s' t) \<and> \<not> ttmr_set (threads s' t) \<and>
     error (threads s' t) = error (threads s t) \<and> wake_eq (threads s' t) (threads s t)"

lemma enqueue_inv:
  assumes "rt_susp_list_enqueue q t fl s = Some s'" "sched_inv_but {t} s" "unlinked (tls s) t"
  shows "sched_inv_but {t} s'" "tls s' = (tls s)(Susp q := susp_joined fl t s q)"
    "threads s' = threads s" "tm s' = tm s" "ipc s' = ipc s" "current s' = current s"
    "lock_nest s' = lock_nest s" "irq_nest s' = irq_nest s"
proof -
  show fr: "tls s' = (tls s)(Susp q := susp_joined fl t s q)"
    "threads s' = threads s" "tm s' = tm s" "ipc s' = ipc s" "current s' = current s"
    "lock_nest s' = lock_nest s" "irq_nest s' = irq_nest s"
    using assms(1)
    by (auto simp: rt_susp_list_enqueue_def susp_joined_def ls_insert_before_def
        rt_sched_thread_get_curr_prio_def split: if_splits)
  have g: "ready_group s' = ready_group s"
    using assms(1) by (auto simp: rt_susp_list_enqueue_def split: if_splits)
  obtain xs ys where split: "tls s (Susp q) = xs @ ys" "susp_joined fl t s q = xs @ t # ys"
    using susp_joined_split by blast
  have "wf_ls (tls s')"
    unfolding fr split(2) by (rule wf_ls_split [OF sched_invD(1) [OF assms(2)] split(1) assms(3)])
  moreover have "thread_ok (tls s') (current s) u (threads s u)" if "u \<noteq> t" for u
  proof -
    have "u \<in> set (tls s' h) \<longleftrightarrow> u \<in> set (tls s h)" for h
      using that split by (simp add: fr(1))
    then show ?thesis
      using sched_invD(3) [OF assms(2), of u] that thread_ok_list_cong [of u "tls s'" "tls s"] by simp
  qed
  ultimately show "sched_inv_but {t} s'"
    using sched_invD(2) [OF assms(2)] by (simp add: sched_inv_but_def fr g group_ok_def)
qed

lemma set_suspend_state:
  assumes "thread_set_suspend_state t sf s = Some s'"
  shows "\<exists>v. s' = set_stat t v s \<and> th_stat (threads s' t) AND 4 \<noteq> 0"
  using assms by (auto simp: thread_set_suspend_state_def th_stat_def split: if_splits)

lemma timer_stop_idle:
  assumes "rt_sched_thread_timer_stop t s = Some (e, s')"
    "tm_flag (timers (tm s) (Thread_timer t)) AND RT_TIMER_FLAG_ACTIVATED = 0"
  shows "tm s' = tm s"
  using assms
  by (auto simp: rt_sched_thread_timer_stop_def on_tm_r_def bind_Some rt_timer_stop_def tm_has_def
      split: if_splits)

text \<open>The running thread up to the point where its timer is stopped.\<close>

lemma suspend_steps:
  assumes inv: "sched_inv s" and running: "th_stat (threads s t) = RT_THREAD_RUNNING"
    and run: "rt_thread_suspend_to_list t sl fl sf s = Some (e, s')"
  obtains s3 v e4 where "rt_sched_thread_timer_stop t s3 = Some (e4, s')" "e = 0" "sched_inv_but {t} s3"
    "tls s3 = (case sl of None \<Rightarrow> tls s | Some q \<Rightarrow> (tls s)(Susp q := susp_joined fl t s q))"
    "threads s3 = (threads s)(t := (threads s t)\<lparr>stat := v\<rparr>)" "v AND 4 \<noteq> 0"
    "tm s3 = tm s" "ipc s3 = ipc s" "current s3 = current s" "lock_nest s3 = lock_nest s" "irq_nest s3 = irq_nest s"
proof -
  define s1 where "s1 = rt_sched_remove_thread t s"
  obtain s2 s3 e4 where s2: "thread_set_suspend_state t sf s1 = Some s2"
      and s3: "(case sl of None \<Rightarrow> Some s2 | Some q \<Rightarrow> rt_susp_list_enqueue q t fl s2) = Some s3"
      and s4: "rt_sched_thread_timer_stop t s3 = Some (e4, s')" and e: "e = 0"
    using run running
    by (auto simp: rt_thread_suspend_to_list_def s1_def rt_sched_thread_get_stat_def th_stat_def
        bind_Some Let_def split: if_splits)
  obtain v where v: "s2 = set_stat t v s1" "th_stat (threads s2 t) AND 4 \<noteq> 0"
    using set_suspend_state [OF s2] by blast
  have ul: "unlinked (tls s) t"
    using thread_ok_unlinked [OF sched_invD(3) [OF inv, of t]] running by simp
  have i1: "sched_inv_but {t} s2"
    using remove_inv_ok [OF inv, of t] running by (simp add: v s1_def sched_inv_but_def)
  have j: "susp_joined fl t s2 q = susp_joined fl t s q" for q
    using ul by (intro susp_joined_cong) (simp_all add: v s1_def)
  have thr: "threads s2 = (threads s)(t := (threads s t)\<lparr>stat := v OR (stat (threads s t) AND NOT 7)\<rparr>)"
    by (simp add: fun_eq_iff v s1_def)
  show thesis
  proof (rule that [OF s4 e])
    show "(v OR (stat (threads s t) AND NOT 7)) AND 4 \<noteq> 0"
      using v(2) by (simp add: thr th_stat_def and.assoc)
  qed (use s3 i1 enqueue_inv [of _ t fl s2 s3] ul j thr in
      \<open>auto simp: v(1) s1_def simp del: fun_upd_apply split: option.splits\<close>)
qed

lemma asleep_ok:
  assumes "kinv s" "th_stat (threads s t) = RT_THREAD_RUNNING"
    "tls s' = (case sl of None \<Rightarrow> tls s | Some q \<Rightarrow> (tls s)(Susp q := susp_joined fl t s q))"
    "threads s' t = (threads s t)\<lparr>stat := v, ttmr_set := False\<rparr>" "v AND 4 \<noteq> 0" "tm s' = tm s"
  shows "thread_ok (tls s') c t (threads s' t)" "th_suspended (threads s' t)"
    "link_ok t (timers (tm s') (Thread_timer t)) (threads s' t)"
proof -
  have susp: "th_suspended (threads s' t)"
    using assms(4,5) by (simp add: suspended_stat th_stat_def and.assoc)
  then have st: "\<not> runnable (threads s' t)" "th_stat (threads s' t) \<noteq> RT_THREAD_CLOSE"
      "th_stat (threads s' t) \<noteq> RT_THREAD_INIT"
    using runnable_not_suspended [of "threads s' t"] by (auto simp: suspended_stat)
  note tok = sched_invD(3) [OF kinvD(1) [OF assms(1)], of t, simplified]
  have "t \<in> set (tls s' h) \<longrightarrow> (\<exists>q. h = Susp q)" for h
    using thread_ok_unlinked [OF tok] assms(2) by (auto simp: assms(3) unlinked_def split: option.splits)
  moreover have "mask_ok (threads s' t)"
    using thread_okD(7) [OF tok] assms(2) by (simp add: assms(4) mask_ok_def prio_of_def)
  ultimately show "thread_ok (tls s') c t (threads s' t)"
    using st susp by (auto simp: thread_ok_def runnable_def)
  have "\<not> th_suspended (threads s t)" using assms(2) by (simp add: suspended_stat)
  then show "link_ok t (timers (tm s') (Thread_timer t)) (threads s' t)"
    using kinvD(3) [OF assms(1), of t] assms(2) st by (auto simp: link_ok_def assms(4,6))
  show "th_suspended (threads s' t)" by (rule susp)
qed

lemma kinv_suspend_running:
  assumes inv: "kinv s" and running: "th_stat (threads s t) = RT_THREAD_RUNNING"
    and run: "rt_thread_suspend_to_list t sl fl sf s = Some (e, s')"
  shows "kinv s' \<and> asleep t sl fl s s' \<and> e = 0"
proof -
  obtain s3 v e4 where s4: "rt_sched_thread_timer_stop t s3 = Some (e4, s')" "e = 0"
    and i3: "sched_inv_but {t} s3"
    and t3: "tls s3 = (case sl of None \<Rightarrow> tls s | Some q \<Rightarrow> (tls s)(Susp q := susp_joined fl t s q))"
    and f3: "threads s3 = (threads s)(t := (threads s t)\<lparr>stat := v\<rparr>)" "v AND 4 \<noteq> 0"
    "tm s3 = tm s" "ipc s3 = ipc s" "current s3 = current s" "lock_nest s3 = lock_nest s" "irq_nest s3 = irq_nest s"
    using suspend_steps [OF kinvD(1) [OF inv] running run] by blast
  have "\<not> th_suspended (threads s t)" using running by (simp add: suspended_stat)
  then have tm: "tm s' = tm s"
    using kinvD(3) [OF inv, of t] timer_stop_idle [OF s4(1)] f3(3) by (simp add: link_ok_def)
  note f4 = timer_stop_frame [OF s4(1)]
  have tls: "tls s' = (case sl of None \<Rightarrow> tls s | Some q \<Rightarrow> (tls s)(Susp q := susp_joined fl t s q))"
    and thr: "threads s' u = (if u = t then (threads s t)\<lparr>stat := v, ttmr_set := False\<rparr> else threads s u)" for u
    by (simp_all add: f4 t3 f3)
  note ok = asleep_ok [OF inv running tls, of v, unfolded thr, simplified, OF f3(2) tm]
  have "sched_inv_but {t} s'" using i3 by (simp add: sched_inv_but_def f4)
  then have "sched_inv s'" using ok(1) by (auto simp: sched_inv_but_def thr)
  moreover have "link_ok u (timers (tm s') (Thread_timer u)) (threads s' u)" for u
    using ok(3) kinvD(3) [OF inv, of u] by (simp add: thr tm)
  ultimately have "kinv s'" using kinvD(2) [OF inv] by (simp add: kinv_but_def tm)
  moreover have "asleep t sl fl s s'"
    using ok(2) t3 by (auto simp: asleep_def f4 f3 tm thr wake_eq_def split: option.splits)
  ultimately show ?thesis using s4(2) by simp
qed

lemma kinv_suspend:
  assumes inv: "kinv s" and run: "rt_thread_suspend_to_list t sl fl sf s = Some (e, s')"
  shows "kinv s'" "e \<noteq> 0 \<Longrightarrow> s' = s"
    "e = 0 \<Longrightarrow> asleep t sl fl s s' \<and> th_stat (threads s t) = RT_THREAD_RUNNING"
proof -
  have cur: "current s = Some t"
    using run by (auto simp: rt_thread_suspend_to_list_def rt_thread_self_def split: if_splits)
  have "s' = s \<and> e \<noteq> 0" if "th_stat (threads s t) \<noteq> RT_THREAD_RUNNING"
    using that run thread_okD(6) [OF sched_invD(3) [OF kinvD(1) [OF inv], of t]] cur
    by (auto simp: rt_thread_suspend_to_list_def rt_sched_thread_get_stat_def th_stat_def split: if_splits)
  then show "kinv s'" "e \<noteq> 0 \<Longrightarrow> s' = s"
    "e = 0 \<Longrightarrow> asleep t sl fl s s' \<and> th_stat (threads s t) = RT_THREAD_RUNNING"
    using inv kinv_suspend_running [OF inv _ run] by blast+
qed

text \<open>The current thread can always be suspended.\<close>

lemma suspend_total:
  assumes inv: "kinv s" and cur: "current s = Some t" and running: "th_stat (threads s t) = RT_THREAD_RUNNING"
    and fl: "fl = RT_IPC_FLAG_FIFO \<or> fl = RT_IPC_FLAG_PRIO"
    and sf: "sf = RT_INTERRUPTIBLE \<or> sf = RT_KILLABLE \<or> sf = RT_UNINTERRUPTIBLE"
  shows "\<exists>s'. rt_thread_suspend_to_list t sl fl sf s = Some (0, s')"
proof -
  have ty: "rt_object_get_type (th_type (threads s t)) = RT_Object_Class_Thread"
    and tt: "tt_ok t (timers (tm s) (Thread_timer t))"
    using kinvD(3) [OF inv, of t] running by (auto simp: link_ok_def)
  define s1 where "s1 = rt_sched_remove_thread t s"
  obtain s2 where s2: "thread_set_suspend_state t sf s1 = Some s2" "tm s2 = tm s"
    using sf by (auto simp: thread_set_suspend_state_def s1_def)
  obtain s3 where s3: "(case sl of None \<Rightarrow> Some s2 | Some q \<Rightarrow> rt_susp_list_enqueue q t fl s2) = Some s3"
      "tm s3 = tm s"
    using fl s2(2) by (cases sl) (auto simp: rt_susp_list_enqueue_def)
  have "\<exists>r. rt_sched_thread_timer_stop t s3 = Some r"
    using tt s3(2) by (simp add: rt_sched_thread_timer_stop_def on_tm_r_def rt_timer_stop_def tt_ok_def)
  then obtain e4 s4 where "rt_sched_thread_timer_stop t s3 = Some (e4, s4)" by auto
  then have "rt_thread_suspend_to_list t sl fl sf s = Some (0, s4)"
    using ty cur running s2(1) s3(1)
    by (simp add: rt_thread_suspend_to_list_def rt_thread_self_def rt_sched_thread_get_stat_def
        th_stat_def s1_def Let_def)
  then show ?thesis by blast
qed

lemma kinv_resume:
  assumes "kinv s" "rt_thread_resume t s = Some (e, s')"
  shows "kinv s'"
proof (cases "th_suspended (threads s t)")
  case True
  then show ?thesis
    using kinv_ready [OF assms(1) True] assms(2)
    by (auto simp: rt_thread_resume_def bind_Some intro: kinv_resched split: if_splits)
next
  case False
  then show ?thesis
    using assms by (auto simp: rt_thread_resume_def bind_Some rt_sched_thread_ready_def
        rt_sched_thread_is_suspended_def th_suspended_def split: if_splits)
qed

text \<open>
  A suspended thread that calls the scheduler outside a critical section loses the processor,
  provided a thread is ready (the idle thread always is).
\<close>

lemma schedule_leaves:
  assumes "kinv s" "rt_schedule s = Some s'" "current s = Some t" "\<not> runnable (threads s t)"
    "lock_nest s = 0" "ready_group s \<noteq> 0"
  shows "\<exists>u. current s' = Some u \<and> u \<noteq> t \<and> th_stat (threads s' u) = RT_THREAD_RUNNING"
  using assms(2) kinvD(1) [OF assms(1)]
proof (cases rule: schedule_cases)
  case (switch c p u us)
  then have "u \<noteq> t"
    using ready_list_thread(3) [OF kinvD(1) [OF assms(1)], of u p] assms(3) by auto
  then show ?thesis
    using switch switch_result(1) [OF switch(6)] switch_stat [OF switch(6), of u] assms(3) by simp
qed (use assms in \<open>auto simp: runnable_def\<close>)

end
