(* ===== verification/RT_Sem.thy ===== *)
theory RT_Sem
  imports RT_KInv
begin

text \<open>
  Semaphores (\<^verbatim>\<open>src/ipc.c\<close>) and \<^verbatim>\<open>rt_timer_start\<close> (\<^verbatim>\<open>src/timer.c\<close>), which posts the
  semaphore of the timer thread when a soft timer is started. A blocking call is cut at
  \<^verbatim>\<open>rt_schedule\<close>: the call returns \<open>Wait\<close> when the scheduler gave the processor to another
  thread, and what the source does after \<^verbatim>\<open>rt_schedule\<close> is a function of its own, applied
  when the thread is the current one again.
\<close>

datatype 'r wres = Ret 'r | Wait

abbreviation (input) RT_IPC_CMD_RESET :: int where "RT_IPC_CMD_RESET \<equiv> 1"
abbreviation (input) RT_IPC_CMD_SET_VLIMIT :: int where "RT_IPC_CMD_SET_VLIMIT \<equiv> 3"
abbreviation (input) RT_SEM_VALUE_MAX :: u16 where "RT_SEM_VALUE_MAX \<equiv> 0xffff"

definition upd_sem :: "nat \<Rightarrow> (rt_semaphore \<Rightarrow> rt_semaphore) \<Rightarrow> kst \<Rightarrow> kst" where
  "upd_sem i f s = s\<lparr>ipc := (ipc s)\<lparr>sems := (sems (ipc s))(i := f (sems (ipc s) i))\<rparr>\<rparr>"

abbreviation sem_of :: "kst \<Rightarrow> nat \<Rightarrow> rt_semaphore" where
  "sem_of s i \<equiv> sems (ipc s) i"

subsection \<open>Initialisation\<close>

definition sem_object_init :: "nat \<Rightarrow> u16 \<Rightarrow> u8 \<Rightarrow> u16 \<Rightarrow> kst \<Rightarrow> kst" where
  "sem_object_init i value flag max_value s =
     (let s = s\<lparr>tls := ls_init (tls s) (Susp (Sem_q i))\<rparr>
      in upd_sem i (\<lambda>x. x\<lparr>sem_max_value := max_value, sem_value := value, sem_flag := flag\<rparr>) s)"

definition rt_sem_init :: "nat \<Rightarrow> u32 \<Rightarrow> u8 \<Rightarrow> kst \<Rightarrow> (rt_err \<times> kst) option" where
  "rt_sem_init i value flag s =
     do { rt_assert (value < 0x10000);
          rt_assert (flag = 0 \<or> flag = 1);
          ty \<leftarrow> object_init RT_Object_Class_Semaphore (sem_type (sem_of s i));
          let s = upd_sem i (\<lambda>x. x\<lparr>sem_type := ty\<rparr>) s;
          Some (RT_EOK, sem_object_init i (ucast value) flag RT_SEM_VALUE_MAX s) }"

definition rt_sem_detach :: "nat \<Rightarrow> kst \<Rightarrow> (rt_err \<times> kst) option" where
  "rt_sem_detach i s =
     do { rt_assert (rt_object_get_type (sem_type (sem_of s i)) = RT_Object_Class_Semaphore);
          rt_assert (rt_object_is_systemobject (sem_type (sem_of s i)));
          s \<leftarrow> rt_susp_list_resume_all (Sem_q i) RT_ERROR s;
          Some (RT_EOK, upd_sem i (\<lambda>x. x\<lparr>sem_type := object_detach (sem_type x)\<rparr>) s) }"

text \<open>\<open>obj\<close> is the object \<^verbatim>\<open>rt_object_allocate\<close> returned.\<close>

definition rt_sem_create :: "nat option \<Rightarrow> u32 \<Rightarrow> u8 \<Rightarrow> kst \<Rightarrow> (nat option \<times> kst) option" where
  "rt_sem_create obj value flag s =
     do { rt_assert (value < 0x10000);
          rt_assert (flag = 0 \<or> flag = 1);
          debug_not_in_interrupt s;
          case obj of
            None \<Rightarrow> Some (None, s)
          | Some i \<Rightarrow>
              let s = upd_sem i (\<lambda>x. x\<lparr>sem_type := object_allocate RT_Object_Class_Semaphore\<rparr>) s
              in Some (Some i, sem_object_init i (ucast value) flag RT_SEM_VALUE_MAX s) }"

definition rt_sem_delete :: "nat \<Rightarrow> kst \<Rightarrow> (rt_err \<times> kst) option" where
  "rt_sem_delete i s =
     do { rt_assert (rt_object_get_type (sem_type (sem_of s i)) = RT_Object_Class_Semaphore);
          rt_assert (\<not> rt_object_is_systemobject (sem_type (sem_of s i)));
          debug_not_in_interrupt s;
          s \<leftarrow> rt_susp_list_resume_all (Sem_q i) RT_ERROR s;
          Some (RT_EOK, upd_sem i (\<lambda>x. x\<lparr>sem_type := object_detach (sem_type x)\<rparr>) s) }"

subsection \<open>Release and control\<close>

definition rt_sem_release :: "nat \<Rightarrow> kst \<Rightarrow> (rt_err \<times> kst) option" where
  "rt_sem_release i s =
     do { rt_assert (rt_object_get_type (sem_type (sem_of s i)) = RT_Object_Class_Semaphore);
          if tls s (Susp (Sem_q i)) \<noteq> [] then
            do { (_, s) \<leftarrow> rt_susp_list_dequeue (Sem_q i) RT_EOK s;
                 s \<leftarrow> rt_schedule s;
                 Some (RT_EOK, s) }
          else if sem_value (sem_of s i) < sem_max_value (sem_of s i) then
            Some (RT_EOK, upd_sem i (\<lambda>x. x\<lparr>sem_value := sem_value x + 1\<rparr>) s)
          else Some (- RT_EFULL, s) }"

definition rt_sem_control :: "nat \<Rightarrow> int \<Rightarrow> u64 \<Rightarrow> kst \<Rightarrow> (rt_err \<times> kst) option" where
  "rt_sem_control i cmd arg s =
     do { rt_assert (rt_object_get_type (sem_type (sem_of s i)) = RT_Object_Class_Semaphore);
          if cmd = RT_IPC_CMD_RESET then
            do { s \<leftarrow> rt_susp_list_resume_all (Sem_q i) RT_ERROR s;
                 let s = upd_sem i (\<lambda>x. x\<lparr>sem_value := ucast arg\<rparr>) s;
                 s \<leftarrow> rt_schedule s;
                 Some (RT_EOK, s) }
          else if cmd = RT_IPC_CMD_SET_VLIMIT then
            (let max_value = ucast arg :: u16
             in if RT_SEM_VALUE_MAX < max_value \<or> max_value < 1 then Some (- RT_EINVAL, s)
                else if max_value < sem_value (sem_of s i) \<and> tls s (Susp (Sem_q i)) \<noteq> [] then
                  do { s \<leftarrow> rt_susp_list_resume_all (Sem_q i) RT_ERROR s;
                       let s = upd_sem i (\<lambda>x. x\<lparr>sem_max_value := max_value\<rparr>) s;
                       s \<leftarrow> rt_schedule s;
                       Some (RT_EOK, s) }
                else Some (RT_EOK, upd_sem i (\<lambda>x. x\<lparr>sem_max_value := max_value\<rparr>) s))
          else Some (- RT_ERROR, s) }"

subsection \<open>Starting a timer\<close>

text \<open>The semaphore \<^verbatim>\<open>_soft_timer_sem\<close> of the timer thread.\<close>

definition soft_timer_sem :: nat where
  "soft_timer_sem = 0"

definition rt_timer_start :: "timerid \<Rightarrow> kst \<Rightarrow> (rt_err \<times> kst) option" where
  "rt_timer_start t s =
     do { rt_assert (rt_object_get_type (tm_type (timers (tm s) t)) = RT_Object_Class_Timer);
          let soft = tm_has (tm s) t RT_TIMER_FLAG_SOFT_TIMER;
          let h = (if soft then Soft_timer_list else Timer_list);
          s \<leftarrow> (if tm_has (tm s) t RT_TIMER_FLAG_THREAD_TIMER then
                  (case t of
                     Thread_timer th \<Rightarrow>
                       do { rt_assert (rt_object_get_type (th_type (threads s th)) = RT_Object_Class_Thread);
                            Some (rt_sched_thread_timer_start th s) }
                   | User_timer _ \<Rightarrow> None)
                else Some s);
          let (e, m) = timer_start h t (tm s);
          let s = s\<lparr>tm := m\<rparr>;
          s \<leftarrow> (if e = RT_EOK \<and> soft
                then do { (_, s) \<leftarrow> rt_sem_release soft_timer_sem s; Some s } else Some s);
          Some (e, s) }"

text \<open>
  \<^verbatim>\<open>SET_TIME\<close> and start of the timer of a thread, as every timed wait does it; \<open>timeout\<close> is
  the bit pattern of the positive \<^verbatim>\<open>rt_int32_t\<close>.
\<close>

definition thread_timer_arm :: "tid \<Rightarrow> u32 \<Rightarrow> kst \<Rightarrow> kst option" where
  "thread_timer_arm t timeout s =
     do { (_, s) \<leftarrow> on_tm_r (\<lambda>m. do { (_, a, m) \<leftarrow> rt_timer_control (Thread_timer t)
            RT_TIMER_CTRL_SET_TIME (Arg_tick timeout) m; Some (a, m) }) s;
          (_, s) \<leftarrow> rt_timer_start (Thread_timer t) s;
          Some s }"

subsection \<open>Take\<close>

text \<open>
  The common tail of the blocking calls, after the thread was suspended on a list: arm its
  timer when the wait is bounded, and schedule.
\<close>

definition thread_block :: "tid \<Rightarrow> int \<Rightarrow> kst \<Rightarrow> kst option" where
  "thread_block t timeout s =
     do { s \<leftarrow> (if 0 < timeout then thread_timer_arm t (of_int timeout) s else Some s);
          rt_schedule s }"

text \<open>What \<^verbatim>\<open>_rt_sem_take\<close> returns once the thread runs again.\<close>

definition sem_take_resume :: "tid \<Rightarrow> kst \<Rightarrow> rt_err" where
  "sem_take_resume t s =
     (let e = error (threads s t)
      in if e \<noteq> RT_EOK then (if 0 < e then - e else e) else RT_EOK)"

definition rt_sem_take' :: "nat \<Rightarrow> int \<Rightarrow> int \<Rightarrow> kst \<Rightarrow> (rt_err wres \<times> kst) option" where
  "rt_sem_take' i timeout suspend_flag s =
     do { rt_assert (rt_object_get_type (sem_type (sem_of s i)) = RT_Object_Class_Semaphore);
          debug_scheduler_available True s;
          if 0 < sem_value (sem_of s i) then
            Some (Ret RT_EOK, upd_sem i (\<lambda>x. x\<lparr>sem_value := sem_value x - 1\<rparr>) s)
          else if timeout = 0 then Some (Ret (- RT_ETIMEOUT), s)
          else
            do { t \<leftarrow> rt_thread_self s;
                 let s = upd_thread t (\<lambda>x. x\<lparr>error := RT_EINTR\<rparr>) s;
                 (ret, s) \<leftarrow> rt_thread_suspend_to_list t (Some (Sem_q i)) (uint (sem_flag (sem_of s i)))
                   suspend_flag s;
                 if ret \<noteq> RT_EOK then Some (Ret ret, s)
                 else
                   do { s \<leftarrow> thread_block t timeout s;
                        Some (if current s = Some t then Ret (sem_take_resume t s) else Wait, s) } } }"

definition rt_sem_take :: "nat \<Rightarrow> int \<Rightarrow> kst \<Rightarrow> (rt_err wres \<times> kst) option" where
  "rt_sem_take i time s = rt_sem_take' i time RT_UNINTERRUPTIBLE s"

definition rt_sem_take_interruptible :: "nat \<Rightarrow> int \<Rightarrow> kst \<Rightarrow> (rt_err wres \<times> kst) option" where
  "rt_sem_take_interruptible i time s = rt_sem_take' i time RT_INTERRUPTIBLE s"

definition rt_sem_take_killable :: "nat \<Rightarrow> int \<Rightarrow> kst \<Rightarrow> (rt_err wres \<times> kst) option" where
  "rt_sem_take_killable i time s = rt_sem_take' i time RT_KILLABLE s"

definition rt_sem_trytake :: "nat \<Rightarrow> kst \<Rightarrow> (rt_err wres \<times> kst) option" where
  "rt_sem_trytake i s = rt_sem_take i 0 s"

subsection \<open>The invariant of the semaphores\<close>

text \<open>
  Threads wait only on an initialised semaphore, and only while its value is 0.
\<close>

definition sem_ok :: "rt_semaphore \<Rightarrow> tid list \<Rightarrow> bool" where
  "sem_ok x ws \<longleftrightarrow>
     (ws \<noteq> [] \<longrightarrow> rt_object_get_type (sem_type x) = RT_Object_Class_Semaphore \<and> sem_value x = 0) \<and>
     (rt_object_get_type (sem_type x) = RT_Object_Class_Semaphore \<longrightarrow> sem_flag x = 0 \<or> sem_flag x = 1)"

definition sem_inv :: "kst \<Rightarrow> bool" where
  "sem_inv s \<longleftrightarrow> (\<forall>i. sem_ok (sem_of s i) (tls s (Susp (Sem_q i))))"

lemma sem_invD: "sem_inv s \<Longrightarrow> sem_ok (sem_of s i) (tls s (Susp (Sem_q i)))"
  by (simp add: sem_inv_def)

lemma sem_inv_lists:
  assumes "sem_inv s" "sems (ipc s') = sems (ipc s)"
    "\<And>i. tls s' (Susp (Sem_q i)) \<noteq> [] \<Longrightarrow> tls s (Susp (Sem_q i)) \<noteq> []"
  shows "sem_inv s'"
  using assms by (auto simp: sem_inv_def sem_ok_def)

lemma sem_inv_schedule: "rt_schedule s = Some s' \<Longrightarrow> sched_inv s \<Longrightarrow> sem_inv s' = sem_inv s"
  using schedule_frame [of s s'] by (auto simp: sem_inv_def sched_frame_def)

lemma sem_inv_woken: "woken T s s' \<Longrightarrow> sem_inv s \<Longrightarrow> sem_inv s'"
  by (erule sem_inv_lists) (auto simp: woken_def filter_empty_conv dest: hd_in_set)

lemma sem_upd_simps [simp]:
  "threads (upd_sem i f s) = threads s" "tls (upd_sem i f s) = tls s" "tm (upd_sem i f s) = tm s"
  "ready_group (upd_sem i f s) = ready_group s"
  "current (upd_sem i f s) = current s" "lock_nest (upd_sem i f s) = lock_nest s"
  "irq_nest (upd_sem i f s) = irq_nest s"
  "sems (ipc (upd_sem i f s)) j = (if j = i then f (sem_of s i) else sem_of s j)"
  "kinv_but X (upd_sem i f s) = kinv_but X s"
  "sched_inv_but X (upd_sem i f s) = sched_inv_but X s"
  by (simp_all add: upd_sem_def)

lemma sem_inv_upd:
  "sem_inv s \<Longrightarrow> sem_ok (f (sem_of s i)) (tls s (Susp (Sem_q i))) \<Longrightarrow> sem_inv (upd_sem i f s)"
  by (simp add: sem_inv_def)

text \<open>The invariant of the kernel with the one of the semaphores.\<close>

definition ksem_inv :: "kst \<Rightarrow> bool" where
  "ksem_inv s \<longleftrightarrow> kinv s \<and> sem_inv s"

lemma ksem_schedule: "rt_schedule s = Some s' \<Longrightarrow> ksem_inv s \<Longrightarrow> ksem_inv s'"
  by (auto simp: ksem_inv_def intro: kinv_schedule dest: sem_inv_schedule kinvD(1))

lemma ksem_resume_all:
  assumes "ksem_inv s"
  shows "\<exists>s'. rt_susp_list_resume_all q e s = Some s' \<and> ksem_inv s' \<and> ipc s' = ipc s \<and> tls s' (Susp q) = [] \<and>
    current s' = current s \<and> lock_nest s' = lock_nest s"
  using kinv_resume_all [of s q e] assms sem_inv_woken by (auto simp: ksem_inv_def woken_def)

lemma ksem_dequeue:
  assumes "ksem_inv s" "rt_susp_list_dequeue q e s = Some (r, s')"
  shows "ksem_inv s'"
  using assms kinv_dequeue [of s q "hd (tls s (Susp q))" "tl (tls s (Susp q))" e]
  by (cases "tls s (Susp q)") (auto simp: ksem_inv_def intro: sem_inv_woken)

subsection \<open>Timed waits\<close>

text \<open>What arming the timer of a thread changes.\<close>

definition armed :: "tid \<Rightarrow> kst \<Rightarrow> kst \<Rightarrow> bool" where
  "armed t s s' \<longleftrightarrow> ipc s' = ipc s \<and> tls s' = tls s \<and> ready_group s' = ready_group s \<and>
     current s' = current s \<and> lock_nest s' = lock_nest s \<and> irq_nest s' = irq_nest s \<and>
     rt_tick (tm s') = rt_tick (tm s) \<and>
     threads s' = (threads s)(t := (threads s t)\<lparr>ttmr_set := True\<rparr>)"

lemma set_time_result:
  assumes "rt_timer_control t RT_TIMER_CTRL_SET_TIME (Arg_tick v) m = Some (e, a, m')"
  shows "v < 0x7fffffff" "rt_tick m' = rt_tick m" "u \<noteq> t \<Longrightarrow> timers m' u = timers m u"
    "tm_init_tick (timers m' t) = v" "tm_type (timers m' t) = tm_type (timers m t)"
    "timeout_func (timers m' t) = timeout_func (timers m t)"
    "tm_parameter (timers m' t) = tm_parameter (timers m t)"
    "tm_flag (timers m' t) AND 2 = tm_flag (timers m t) AND 2"
    "tm_flag (timers m' t) AND 4 = tm_flag (timers m t) AND 4"
    "tm_flag (timers m' t) AND 8 = tm_flag (timers m t) AND 8"
    "tm_flag (timers m' t) AND 16 = tm_flag (timers m t) AND 16"
  using assms by (auto simp: rt_timer_control_def timer_set_time_def bind_Some split: if_splits)

lemma tt_ok_started: "tt_ok t x \<Longrightarrow> tt_ok t (started k x)"
  by (simp add: tt_ok_def)

lemma tt_ok_set_time:
  assumes "rt_timer_control (Thread_timer t) RT_TIMER_CTRL_SET_TIME (Arg_tick v) m = Some (e, a, m')"
    "tt_ok t (timers m (Thread_timer t))"
  shows "tt_ok t (timers m' (Thread_timer t))"
  using assms(2) set_time_result(4-) [OF assms(1)] by (simp add: tt_ok_def)

text \<open>The timer of a suspended thread, started.\<close>

lemma timer_start_thread:
  assumes "tt_ok t (timers (tm s) (Thread_timer t))"
    "rt_object_get_type (th_type (threads s t)) = RT_Object_Class_Thread"
  shows "rt_timer_start (Thread_timer t) s =
    Some (0, (rt_sched_thread_timer_start t s)\<lparr>tm := snd (timer_start Timer_list (Thread_timer t) (tm s))\<rparr>)"
  using assms
  by (simp add: rt_timer_start_def tt_ok_def tm_has_def timer_start_eq rt_sched_thread_timer_start_def Let_def)

lemma arm_result:
  assumes inv: "kinv s" and susp: "th_suspended (threads s t)" and arm: "thread_timer_arm t v s = Some s'"
  shows "kinv s' \<and> armed t s s' \<and> v < 0x7fffffff \<and>
    timeout_tick (timers (tm s') (Thread_timer t)) = rt_tick (tm s) + v"
proof -
  have st: "th_stat (threads s t) \<noteq> RT_THREAD_INIT" "th_stat (threads s t) \<noteq> RT_THREAD_CLOSE"
    using susp by (auto simp: suspended_stat)
  then have ty: "rt_object_get_type (th_type (threads s t)) = RT_Object_Class_Thread"
    and tt: "tt_ok t (timers (tm s) (Thread_timer t))"
    using kinvD(3) [OF inv, of t] by (auto simp: link_ok_def)
  obtain e a m where ctl: "rt_timer_control (Thread_timer t) RT_TIMER_CTRL_SET_TIME (Arg_tick v) (tm s) = Some (e, a, m)"
      and st2: "\<exists>e2. rt_timer_start (Thread_timer t) (s\<lparr>tm := m\<rparr>) = Some (e2, s')"
    using arm by (auto simp: thread_timer_arm_def on_tm_r_def bind_Some)
  have ttm: "tt_ok t (timers m (Thread_timer t))" by (rule tt_ok_set_time [OF ctl tt])
  let ?m = "snd (timer_start Timer_list (Thread_timer t) m)"
  have s': "s' = (rt_sched_thread_timer_start t (s\<lparr>tm := m\<rparr>))\<lparr>tm := ?m\<rparr>"
    using st2 timer_start_thread [of t "s\<lparr>tm := m\<rparr>"] ttm ty by simp
  have tinv: "timer_inv ?m"
    using rt_timer_control_inv [OF ctl kinvD(2) [OF inv]] ttm
    by (intro timer_start_inv) (simp_all add: tt_ok_def tm_list_of_def)
  have eq: "timers ?m = (timers m)(Thread_timer t := started (rt_tick m) (timers m (Thread_timer t)))"
      "rt_tick ?m = rt_tick m"
    using ttm by (simp_all add: timer_start_eq tm_has_def tt_ok_def Let_def)
  have "sched_inv s'"
    unfolding s' rt_sched_thread_timer_start_def sched_inv_frame
    using kinvD(1) [OF inv] by (intro upd_thread_inv) (simp_all add: th_stat_def)
  moreover have "link_ok u (timers (tm s') (Thread_timer u)) (threads s' u)" for u
    using kinvD(3) [OF inv, of u] tt_ok_started [OF ttm] ty susp set_time_result(3) [OF ctl]
    by (auto simp: s' eq rt_sched_thread_timer_start_def link_ok_def th_suspended_def th_stat_def)
  ultimately have "kinv s'" using tinv by (simp add: kinv_but_def s')
  moreover have "armed t s s'"
    using set_time_result(2) [OF ctl] by (auto simp: armed_def s' eq rt_sched_thread_timer_start_def fun_eq_iff)
  ultimately show ?thesis using set_time_result(1,2,4) [OF ctl] by (simp add: s' eq)
qed

subsection \<open>Blocking the current thread\<close>

definition blocked :: "tid \<Rightarrow> ipcref \<Rightarrow> int \<Rightarrow> int \<Rightarrow> kst \<Rightarrow> kst \<Rightarrow> bool" where
  "blocked t q fl timeout s s' \<longleftrightarrow> ipc s' = ipc s \<and> lock_nest s' = lock_nest s \<and> irq_nest s' = irq_nest s \<and>
     rt_tick (tm s') = rt_tick (tm s) \<and>
     (\<forall>r. tls s' (Susp r) = (if r = q then susp_joined fl t s q else tls s (Susp r))) \<and>
     th_suspended (threads s' t) \<and> error (threads s' t) = error (threads s t) \<and>
     wake_eq (threads s' t) (threads s t) \<and>
     (\<forall>u. u \<noteq> t \<longrightarrow> (threads s' u)\<lparr>stat := 0\<rparr> = (threads s u)\<lparr>stat := 0\<rparr>) \<and>
     (ttmr_set (threads s' t) \<longleftrightarrow> 0 < timeout) \<and>
     (0 < timeout \<longrightarrow> timeout_tick (timers (tm s') (Thread_timer t)) = rt_tick (tm s) + of_int timeout)"

lemma same_but_statD:
  assumes "x\<lparr>stat := 0\<rparr> = y\<lparr>stat := 0\<rparr>"
  shows "error x = error y" "ttmr_set x = ttmr_set y" "pending_object x = pending_object y"
    "wake_eq x y" "current_priority x = current_priority y" "init_priority x = init_priority y"
    "th_type x = th_type y" "event_set x = event_set y" "event_info x = event_info y"
  using assms by (cases x; cases y; simp add: wake_eq_def)+

lemma wake_eq_trans: "wake_eq x y \<Longrightarrow> wake_eq y z \<Longrightarrow> wake_eq x z"
  by (simp add: wake_eq_def)

lemma block_arm:
  assumes inv: "kinv s1" and susp: "th_suspended (threads s1 t)" "\<not> ttmr_set (threads s1 t)"
    and arm: "(if 0 < timeout then thread_timer_arm t (of_int timeout) s1 else Some s1) = Some s2"
  shows "kinv s2 \<and> ipc s2 = ipc s1 \<and> tls s2 = tls s1 \<and> current s2 = current s1 \<and> lock_nest s2 = lock_nest s1 \<and>
    irq_nest s2 = irq_nest s1 \<and> rt_tick (tm s2) = rt_tick (tm s1) \<and> ready_group s2 = ready_group s1 \<and>
    threads s2 = (threads s1)(t := (threads s1 t)\<lparr>ttmr_set := 0 < timeout\<rparr>) \<and>
    (0 < timeout \<longrightarrow> timeout_tick (timers (tm s2) (Thread_timer t)) = rt_tick (tm s1) + of_int timeout)"
proof (cases "0 < timeout")
  case True
  then show ?thesis using arm arm_result [OF inv susp(1)] by (simp add: armed_def)
next
  case False
  then show ?thesis using arm inv susp(2) by (auto simp: fun_eq_iff)
qed

lemma block_result:
  assumes inv: "kinv s" and cur: "current s = Some t"
    and sl: "rt_thread_suspend_to_list t (Some q) fl sf s = Some (0, s1)"
    and bl: "thread_block t timeout s1 = Some s'"
  shows "kinv s' \<and> blocked t q fl timeout s s' \<and>
    (lock_nest s = 0 \<and> ready_group s \<noteq> 0 \<longrightarrow> current s' \<noteq> Some t)"
proof -
  have i1: "kinv s1" and as: "asleep t (Some q) fl s s1" and run: "th_stat (threads s t) = RT_THREAD_RUNNING"
    using kinv_suspend [OF inv sl] by auto
  obtain s2 where s2: "(if 0 < timeout then thread_timer_arm t (of_int timeout) s1 else Some s1) = Some s2"
      and s': "rt_schedule s2 = Some s'"
    using bl by (auto simp: thread_block_def bind_Some split: if_splits)
  have su: "th_suspended (threads s1 t)" "\<not> ttmr_set (threads s1 t)" using as by (auto simp: asleep_def)
  note b = block_arm [OF i1 su s2]
  then have i2: "kinv s2" by simp
  have i': "kinv s'" by (rule kinv_schedule [OF s' i2])
  note fr = schedule_frame [OF s' kinvD(1) [OF i2]]
  have nr: "\<not> runnable (threads s2 t)"
    using b su(1) runnable_not_suspended [of "threads s2 t"] by (auto simp: th_suspended_def)
  have "th_stat (threads s' t) = th_stat (threads s2 t)" "(threads s' t)\<lparr>stat := 0\<rparr> = (threads s2 t)\<lparr>stat := 0\<rparr>"
    using fr nr by (auto simp: sched_frame_def)
  note st = this(1) same_but_statD [OF this(2)]
  have "wake_eq (threads s2 t) (threads s t)" "error (threads s2 t) = error (threads s t)"
    using b as by (auto simp: wake_eq_def asleep_def)
  moreover have "th_suspended (threads s' t)"
    using st(1) b su(1) by (simp add: suspended_stat th_stat_def)
  ultimately have "blocked t q fl timeout s s'"
    using st fr as b wake_eq_trans by (auto simp: blocked_def sched_frame_def asleep_def)
  moreover have "current s' \<noteq> Some t" if "lock_nest s = 0" "ready_group s \<noteq> 0"
  proof -
    have "ready_group s1 \<noteq> 0"
      using that as group_ok_zero [OF sched_invD(2) [OF kinvD(1) [OF inv]]]
        group_ok_zero [OF sched_invD(2) [OF kinvD(1) [OF i1]]] by (simp add: asleep_def)
    then show ?thesis
      using schedule_leaves [OF i2 s' _ nr] b as cur that by (auto simp: asleep_def)
  qed
  ultimately show ?thesis using i' by blast
qed

subsection \<open>Semaphore operations keep the invariants\<close>

lemma ksem_upd:
  "ksem_inv s \<Longrightarrow> sem_ok (f (sem_of s i)) (tls s (Susp (Sem_q i))) \<Longrightarrow> ksem_inv (upd_sem i f s)"
  by (simp add: ksem_inv_def sem_inv_upd)

lemma ksem_invD:
  "ksem_inv s \<Longrightarrow> kinv s" "ksem_inv s \<Longrightarrow> sem_inv s" "ksem_inv s \<Longrightarrow> sem_ok (sem_of s i) (tls s (Susp (Sem_q i)))"
  by (simp_all add: ksem_inv_def sem_inv_def)

text \<open>A change of the value with no thread waiting, and a change of the limit.\<close>

lemma ksem_upd_value:
  "ksem_inv s \<Longrightarrow> tls s (Susp (Sem_q i)) = [] \<Longrightarrow> ksem_inv (upd_sem i (\<lambda>x. x\<lparr>sem_value := g x\<rparr>) s)"
  using ksem_invD(3) [of s i] by (auto intro!: ksem_upd simp: sem_ok_def)

lemma ksem_upd_max: "ksem_inv s \<Longrightarrow> ksem_inv (upd_sem i (\<lambda>x. x\<lparr>sem_max_value := v\<rparr>) s)"
  using ksem_invD(3) [of s i] by (auto intro!: ksem_upd simp: sem_ok_def)

lemma ksem_init:
  assumes "rt_sem_init i v fl s = Some (e, s')" "ksem_inv s"
  shows "ksem_inv s'"
proof -
  have "tls s (Susp (Sem_q i)) = []"
    using assms sem_invD [of s i]
    by (auto simp: rt_sem_init_def object_init_def bind_Some ksem_inv_def sem_ok_def split: if_splits)
  then have "ls_init (tls s) (Susp (Sem_q i)) = tls s" by (simp add: ls_init_def fun_upd_idem)
  then have "s' = upd_sem i (\<lambda>x. x\<lparr>sem_type := 130, sem_max_value := 0xffff, sem_value := ucast v, sem_flag := fl\<rparr>) s"
    "fl = 0 \<or> fl = 1"
    using assms(1)
    by (auto simp: rt_sem_init_def sem_object_init_def object_init_def bind_Some upd_sem_def split: if_splits)
  with assms(2) \<open>tls s (Susp (Sem_q i)) = []\<close> show ?thesis
    by (auto intro!: ksem_upd simp: sem_ok_def)
qed

lemma ksem_detach: "rt_sem_detach i s = Some (e, s') \<Longrightarrow> ksem_inv s \<Longrightarrow> ksem_inv s'"
  using ksem_resume_all [of s "Sem_q i" 1]
  by (auto simp: rt_sem_detach_def bind_Some sem_ok_def intro!: ksem_upd split: if_splits)

lemma ksem_delete: "rt_sem_delete i s = Some (e, s') \<Longrightarrow> ksem_inv s \<Longrightarrow> ksem_inv s'"
  using ksem_resume_all [of s "Sem_q i" 1]
  by (auto simp: rt_sem_delete_def bind_Some sem_ok_def intro!: ksem_upd split: if_splits)

lemma ksem_create:
  assumes "rt_sem_create obj v fl s = Some (r, s')" "ksem_inv s"
    "\<forall>i. obj = Some i \<longrightarrow> tls s (Susp (Sem_q i)) = []"
  shows "ksem_inv s'"
proof (cases obj)
  case (Some i)
  then have "ls_init (tls s) (Susp (Sem_q i)) = tls s" using assms(3) by (simp add: ls_init_def fun_upd_idem)
  then have "s' = upd_sem i (\<lambda>x. x\<lparr>sem_type := 2, sem_max_value := 0xffff, sem_value := ucast v, sem_flag := fl\<rparr>) s"
    "fl = 0 \<or> fl = 1"
    using assms(1) Some
    by (auto simp: rt_sem_create_def sem_object_init_def object_allocate_def debug_not_in_interrupt_def
        bind_Some upd_sem_def Let_def split: if_splits)
  with assms Some show ?thesis by (auto intro!: ksem_upd simp: sem_ok_def)
qed (use assms in \<open>auto simp: rt_sem_create_def debug_not_in_interrupt_def split: if_splits\<close>)

lemma ksem_release: "rt_sem_release i s = Some (e, s') \<Longrightarrow> ksem_inv s \<Longrightarrow> ksem_inv s'"
  by (auto simp: rt_sem_release_def bind_Some
      intro: ksem_upd_value ksem_schedule ksem_dequeue split: if_splits)

lemma ksem_control:
  assumes "rt_sem_control i cmd arg s = Some (e, s')" "ksem_inv s"
  shows "ksem_inv s'"
proof -
  obtain s1 where s1: "rt_susp_list_resume_all (Sem_q i) RT_ERROR s = Some s1" "ksem_inv s1"
      "tls s1 (Susp (Sem_q i)) = []"
    using ksem_resume_all [OF assms(2)] by blast
  note upd = ksem_upd_value [OF s1(2,3)] ksem_upd_max [OF s1(2)] ksem_upd_max [OF assms(2)]
  show ?thesis
    using assms s1(1) upd
    by (auto simp: rt_sem_control_def bind_Some Let_def intro: ksem_schedule split: if_splits)
qed

lemma blocked_sem_inv:
  assumes "blocked t (Sem_q i) fl to s s'" "sem_inv s" "sem_value (sem_of s i) = 0"
    "rt_object_get_type (sem_type (sem_of s i)) = RT_Object_Class_Semaphore"
  shows "sem_inv s'"
  using assms by (auto simp: sem_inv_def blocked_def sem_ok_def)

lemma kinv_set_error: "kinv_but X s \<Longrightarrow> kinv_but X (upd_thread t (\<lambda>x. x\<lparr>error := e\<rparr>) s)"
  by (rule kinv_upd_thread) (simp_all add: th_stat_def)

lemma sem_take_cases:
  assumes "rt_sem_take' i to sf s = Some (r, s')"
  obtains (taken) "0 < sem_value (sem_of s i)" "r = Ret RT_EOK"
      "s' = upd_sem i (\<lambda>x. x\<lparr>sem_value := sem_value x - 1\<rparr>) s"
  | (empty) "sem_value (sem_of s i) = 0" "to = 0" "r = Ret (- RT_ETIMEOUT)" "s' = s"
  | (refused) t e where "sem_value (sem_of s i) = 0" "current s = Some t" "e \<noteq> 0" "r = Ret e"
      "rt_thread_suspend_to_list t (Some (Sem_q i)) (uint (sem_flag (sem_of s i))) sf
         (upd_thread t (\<lambda>x. x\<lparr>error := RT_EINTR\<rparr>) s) = Some (e, s')"
  | (wait) t s1 where "sem_value (sem_of s i) = 0" "to \<noteq> 0" "current s = Some t"
      "rt_thread_suspend_to_list t (Some (Sem_q i)) (uint (sem_flag (sem_of s i))) sf
         (upd_thread t (\<lambda>x. x\<lparr>error := RT_EINTR\<rparr>) s) = Some (0, s1)"
      "thread_block t to s1 = Some s'" "lock_nest s = 0"
      "r = (if current s' = Some t then Ret (sem_take_resume t s') else Wait)"
proof (cases "0 < sem_value (sem_of s i)")
  case True
  then show thesis using assms taken
    by (auto simp: rt_sem_take'_def debug_scheduler_available_def bind_Some split: if_splits)
next
  case False
  then have z: "sem_value (sem_of s i) = 0" by (simp add: word_gt_0)
  show thesis
  proof (cases "to = 0")
    case True
    then show thesis using assms z empty
      by (auto simp: rt_sem_take'_def debug_scheduler_available_def bind_Some split: if_splits)
  next
    case False
    obtain t where t: "current s = Some t"
      using assms z False by (auto simp: rt_sem_take'_def bind_Some rt_thread_self_def split: if_splits)
    obtain e s1 where s1: "rt_thread_suspend_to_list t (Some (Sem_q i)) (uint (sem_flag (sem_of s i))) sf
         (upd_thread t (\<lambda>x. x\<lparr>error := RT_EINTR\<rparr>) s) = Some (e, s1)"
      using assms z False t by (auto simp: rt_sem_take'_def bind_Some rt_thread_self_def split: if_splits)
    have l: "lock_nest s = 0"
      using assms by (auto simp: rt_sem_take'_def debug_scheduler_available_def rt_critical_level_def bind_Some split: if_splits)
    show thesis
    proof (cases "e = 0")
      case True
      then obtain s2 where "thread_block t to s1 = Some s2"
          "r = (if current s2 = Some t then Ret (sem_take_resume t s2) else Wait)" "s' = s2"
        using assms z False t s1 by (auto simp: rt_sem_take'_def bind_Some rt_thread_self_def split: if_splits)
      then show thesis using wait [OF z False t] s1 True l by simp
    next
      case False
      then have "r = Ret e" "s' = s1"
        using assms z \<open>to \<noteq> 0\<close> t s1 by (auto simp: rt_sem_take'_def bind_Some rt_thread_self_def split: if_splits)
      then show thesis using refused [OF z t False] s1 by simp
    qed
  qed
qed

lemma ksem_take:
  assumes "rt_sem_take' i to sf s = Some (r, s')" "ksem_inv s"
    "rt_object_get_type (sem_type (sem_of s i)) = RT_Object_Class_Semaphore"
  shows "ksem_inv s'"
  using assms(1)
proof (cases rule: sem_take_cases)
  case taken
  then have "tls s (Susp (Sem_q i)) = []"
    using ksem_invD(3) [OF assms(2), of i] by (auto simp: sem_ok_def)
  then show ?thesis using taken assms(2) by (simp add: ksem_upd_value)
next
  case empty
  then show ?thesis using assms(2) by simp
next
  case (refused t e)
  let ?s = "upd_thread t (\<lambda>x. x\<lparr>error := RT_EINTR\<rparr>) s"
  have "kinv ?s" using assms(2) by (simp add: ksem_inv_def kinv_set_error)
  then show ?thesis
    using kinv_suspend(1,2) [OF _ refused(5)] refused(3) assms(2) by (simp add: ksem_inv_def sem_inv_def)
next
  case (wait t s1)
  let ?s = "upd_thread t (\<lambda>x. x\<lparr>error := RT_EINTR\<rparr>) s"
  have "kinv ?s" using assms(2) by (simp add: ksem_inv_def kinv_set_error)
  note b = block_result [OF this _ wait(4,5)]
  have "kinv s'" "blocked t (Sem_q i) (uint (sem_flag (sem_of s i))) to ?s s'" using b wait(3) by simp_all
  moreover have "sem_inv ?s" using assms(2) by (simp add: ksem_inv_def sem_inv_def)
  ultimately show ?thesis
    using blocked_sem_inv [of t i _ to ?s s'] wait(1) assms(3) by (simp add: ksem_inv_def)
qed

subsection \<open>Refinement of an abstract counting semaphore\<close>

text \<open>Value, limit and waiting threads of a semaphore.\<close>

type_synonym asem = "nat \<times> nat \<times> tid list"

definition asem_of :: "kst \<Rightarrow> nat \<Rightarrow> asem" where
  "asem_of s i = (unat (sem_value (sem_of s i)), unat (sem_max_value (sem_of s i)), tls s (Susp (Sem_q i)))"

fun asem_release :: "asem \<Rightarrow> rt_err \<times> asem" where
  "asem_release (v, m, t # ts) = (RT_EOK, (v, m, ts))"
| "asem_release (v, m, []) = (if v < m then (RT_EOK, (v + 1, m, [])) else (- RT_EFULL, (v, m, [])))"

lemma asem_of_schedule: "rt_schedule s = Some s' \<Longrightarrow> sched_inv s \<Longrightarrow> asem_of s' i = asem_of s i"
  using schedule_frame [of s s'] by (auto simp: asem_of_def sched_frame_def)

lemma release_refines:
  assumes "rt_sem_release i s = Some (e, s')" "ksem_inv s"
  shows "asem_release (asem_of s i) = (e, asem_of s' i)" "j \<noteq> i \<Longrightarrow> asem_of s' j = asem_of s j"
    "tls s (Susp (Sem_q i)) = t # ts \<Longrightarrow> runnable (threads s' t) \<and> sem_take_resume t s' = RT_EOK"
proof -
  have "asem_release (asem_of s i) = (e, asem_of s' i) \<and> (j \<noteq> i \<longrightarrow> asem_of s' j = asem_of s j) \<and>
    (tls s (Susp (Sem_q i)) = t # ts \<longrightarrow> runnable (threads s' t) \<and> sem_take_resume t s' = RT_EOK)"
  proof (cases "tls s (Susp (Sem_q i))")
    case Nil
    then show ?thesis
      using assms(1) unat_plus1 [of "sem_value (sem_of s i)" "sem_max_value (sem_of s i)"]
      by (auto simp: rt_sem_release_def asem_of_def word_less_nat_alt split: if_splits)
  next
    case (Cons u us)
    obtain s1 where s1: "rt_susp_list_dequeue (Sem_q i) 0 s = Some (Some u, s1)" "kinv s1" "woken {u} s s1"
        "tls s1 (Susp (Sem_q i)) = us" "error (threads s1 u) = 0"
      using kinv_dequeue [OF ksem_invD(1) [OF assms(2)] Cons, of 0] by auto
    have s': "rt_schedule s1 = Some s'" "e = 0"
      using assms(1) Cons s1(1) by (auto simp: rt_sem_release_def bind_Some split: if_splits)
    note fr = schedule_frame [OF s'(1) kinvD(1) [OF s1(2)]]
    have "u \<notin> set (tls s (Susp (Sem_q j)))" if "j \<noteq> i"
      using wf_ls_unique [OF sched_invD(1) [OF kinvD(1) [OF ksem_invD(1) [OF assms(2)]]], of u "Susp (Sem_q i)"]
        Cons that by auto
    then have "j \<noteq> i \<longrightarrow> tls s1 (Susp (Sem_q j)) = tls s (Susp (Sem_q j))"
      using s1(3) by (auto simp: woken_def filter_id_conv)
    then show ?thesis
      using Cons s1 s' fr same_but_statD(1) [of "threads s' u" "threads s1 u"]
      by (auto simp: asem_of_def sched_frame_def woken_def sem_take_resume_def)
  qed
  then show "asem_release (asem_of s i) = (e, asem_of s' i)" "j \<noteq> i \<Longrightarrow> asem_of s' j = asem_of s j"
    "tls s (Susp (Sem_q i)) = t # ts \<Longrightarrow> runnable (threads s' t) \<and> sem_take_resume t s' = RT_EOK" by auto
qed

end
