(* ===== verification/RT_Wait.thy ===== *)
theory RT_Wait
  imports RT_Sem
begin

text \<open>
  What the IPC objects share. The invariant of an object class speaks of the objects and of
  the threads waiting on their suspend lists; scheduling and waking only shorten those lists.
  The locale states this once, and every object class interprets it.
\<close>

subsection \<open>Shortened suspend lists\<close>

text \<open>The fields of a waiting thread that the invariants of the objects speak of.\<close>

definition wait_eq :: "rt_thread \<Rightarrow> rt_thread \<Rightarrow> bool" where
  "wait_eq x y \<longleftrightarrow> event_set x = event_set y \<and> event_info x = event_info y \<and>
     pending_object x = pending_object y"

lemma wait_eq_refl [simp]: "wait_eq x x"
  by (simp add: wait_eq_def)

lemma wake_eq_wait: "wake_eq x y \<Longrightarrow> wait_eq x y"
  by (cases x; cases y) (simp add: wake_eq_def wait_eq_def)

lemma same_stat_wait: "x\<lparr>stat := 0\<rparr> = y\<lparr>stat := 0\<rparr> \<Longrightarrow> wait_eq x y"
  by (cases x; cases y) (simp add: wait_eq_def)

definition shrunk :: "(ipcref \<Rightarrow> bool) \<Rightarrow> kst \<Rightarrow> kst \<Rightarrow> bool" where
  "shrunk own s s' \<longleftrightarrow> (\<forall>q. own q \<longrightarrow>
     (\<exists>P. tls s' (Susp q) = filter P (tls s (Susp q))) \<and>
     (\<forall>u\<in>set (tls s' (Susp q)). wait_eq (threads s' u) (threads s u)))"

lemma shrunkD:
  assumes "shrunk own s s'" "own q"
  shows "\<exists>P. tls s' (Susp q) = filter P (tls s (Susp q))"
    "u \<in> set (tls s' (Susp q)) \<Longrightarrow> u \<in> set (tls s (Susp q)) \<and> wait_eq (threads s' u) (threads s u)"
    "tls s (Susp q) = [] \<Longrightarrow> tls s' (Susp q) = []"
proof -
  show *: "\<exists>P. tls s' (Susp q) = filter P (tls s (Susp q))"
    using assms by (auto simp: shrunk_def)
  show "u \<in> set (tls s' (Susp q)) \<Longrightarrow> u \<in> set (tls s (Susp q)) \<and> wait_eq (threads s' u) (threads s u)"
    using * assms by (auto simp: shrunk_def)
  show "tls s (Susp q) = [] \<Longrightarrow> tls s' (Susp q) = []" using * by auto
qed

lemma shrunkI:
  assumes "\<And>q. own q \<Longrightarrow> tls s' (Susp q) = tls s (Susp q)"
    "\<And>q u. own q \<Longrightarrow> u \<in> set (tls s (Susp q)) \<Longrightarrow> wait_eq (threads s' u) (threads s u)"
  shows "shrunk own s s'"
  using assms by (auto simp: shrunk_def intro: exI [of _ "\<lambda>_. True"])

lemma shrunk_refl [simp]: "shrunk own s s"
  by (rule shrunkI) simp_all

lemma shrunk_trans:
  assumes "shrunk own s s'" "shrunk own s' s''"
  shows "shrunk own s s''"
  unfolding shrunk_def
proof (intro allI impI conjI ballI)
  fix q
  assume q: "own q"
  obtain P P' where "tls s' (Susp q) = filter P (tls s (Susp q))" "tls s'' (Susp q) = filter P' (tls s' (Susp q))"
    using shrunkD(1) [OF assms(1) q] shrunkD(1) [OF assms(2) q] by blast
  then show "\<exists>P. tls s'' (Susp q) = filter P (tls s (Susp q))" by auto
  show "wait_eq (threads s'' u) (threads s u)" if "u \<in> set (tls s'' (Susp q))" for u
    using shrunkD(2) [OF assms(2) q that] shrunkD(2) [OF assms(1) q, of u] by (simp add: wait_eq_def)
qed

lemma shrunk_schedule: "rt_schedule s = Some s' \<Longrightarrow> kinv s \<Longrightarrow> shrunk own s s'"
  using schedule_frame [of s s'] by (intro shrunkI) (auto simp: sched_frame_def same_stat_wait dest: kinvD(1))

lemma shrunk_woken: "woken T s s' \<Longrightarrow> shrunk own s s'"
  by (auto simp: woken_def shrunk_def)

lemma woken_ipc: "woken T s s' \<Longrightarrow> ipc s' = ipc s"
  by (simp add: woken_def)

lemma shrunk_upd_thread:
  "(\<And>x. wait_eq (f x) x) \<Longrightarrow> shrunk own s (upd_thread t f s)"
  by (rule shrunkI) simp_all

lemma running_not_waiting:
  assumes "kinv s" "th_stat (threads s t) = RT_THREAD_RUNNING"
  shows "t \<notin> set (tls s (Susp q))"
  using thread_okD(3) [OF sched_invD(3) [OF kinvD(1) [OF assms(1)], of t]] assms(2)
  by (auto simp: suspended_stat)

text \<open>The running thread may change any of its own fields.\<close>

lemma shrunk_upd_running:
  "kinv s \<Longrightarrow> th_stat (threads s t) = RT_THREAD_RUNNING \<Longrightarrow> shrunk own s (upd_thread t f s)"
  by (rule shrunkI) (auto simp: running_not_waiting)

lemma shrunk_ipc [simp]: "shrunk own s (s'\<lparr>ipc := c\<rparr>) = shrunk own s s'"
  "shrunk own s (s'\<lparr>lock_nest := n\<rparr>) = shrunk own s s'" "shrunk own s (s'\<lparr>rt_errno := e\<rparr>) = shrunk own s s'"
  "shrunk own (s\<lparr>ipc := c\<rparr>) s' = shrunk own s s'" "shrunk own (s\<lparr>lock_nest := n\<rparr>) s' = shrunk own s s'"
  by (simp_all add: shrunk_def)

lemma exit_critical_frame:
  assumes "rt_exit_critical s = Some s'" "kinv s"
  shows "shrunk own s s'" "ipc s' = ipc s" "tls s' (Susp q) = tls s (Susp q)"
proof -
  have "shrunk own s s' \<and> ipc s' = ipc s \<and> tls s' (Susp q) = tls s (Susp q)"
    using assms schedule_frame [of "s\<lparr>lock_nest := 0\<rparr>" s'] shrunk_schedule [of "s\<lparr>lock_nest := 0\<rparr>" s' own]
    by (auto simp: rt_exit_critical_def Let_def sched_frame_def kinvD(1) split: if_splits option.splits)
  then show "shrunk own s s'" "ipc s' = ipc s" "tls s' (Susp q) = tls s (Susp q)" by simp_all
qed

lemma shrunk_blocked:
  assumes "blocked t q fl timeout s s'" "kinv s" "th_stat (threads s t) = RT_THREAD_RUNNING" "\<not> own q"
  shows "shrunk own s s'"
proof (rule shrunkI)
  fix r u
  assume "own r" "u \<in> set (tls s (Susp r))"
  moreover from this have "u \<noteq> t" using running_not_waiting [OF assms(2,3), of r] by blast
  ultimately show "wait_eq (threads s' u) (threads s u)"
    using assms(1) by (auto simp: blocked_def intro: same_stat_wait)
qed (use assms in \<open>auto simp: blocked_def\<close>)

subsection \<open>Invariants of object classes\<close>

text \<open>
  \<open>own\<close> are the suspend lists of the class, \<open>part\<close> the part of the IPC state it uses, \<open>ok\<close> its
  invariant.
\<close>

locale object_class =
  fixes own :: "ipcref \<Rightarrow> bool" and part :: "ipcst \<Rightarrow> 'p" and ok :: "kst \<Rightarrow> bool"
  assumes keep: "ok s \<Longrightarrow> part (ipc s') = part (ipc s) \<Longrightarrow> shrunk own s s' \<Longrightarrow> ok s'"
begin

lemma ok_schedule: "rt_schedule s = Some s' \<Longrightarrow> kinv s \<Longrightarrow> ok s \<Longrightarrow> ok s'"
  using schedule_frame [of s s'] shrunk_schedule [of s s' own] keep [of s s']
  by (auto simp: sched_frame_def dest: kinvD(1))

lemma ok_woken: "woken T s s' \<Longrightarrow> ok s \<Longrightarrow> ok s'"
  using shrunk_woken [of T s s' own] keep [of s s'] by (simp add: woken_def)

lemma ok_dequeue:
  assumes "rt_susp_list_dequeue q e s = Some (r, s')" "kinv s" "ok s"
  shows "kinv s' \<and> ok s' \<and> ipc s' = ipc s"
proof (cases "tls s (Susp q)")
  case (Cons t ts)
  then show ?thesis
    using kinv_dequeue [OF assms(2) Cons, of e] assms(1,3) ok_woken woken_ipc by fastforce
qed (use assms in simp)

lemma ok_resume_all:
  assumes "kinv s" "ok s"
  shows "\<exists>s'. rt_susp_list_resume_all q e s = Some s' \<and> kinv s' \<and> ok s' \<and> ipc s' = ipc s \<and>
    woken (set (tls s (Susp q))) s s' \<and> tls s' (Susp q) = [] \<and>
    (0 \<le> e \<longrightarrow> (\<forall>t\<in>set (tls s (Susp q)). error (threads s' t) = e))"
  using kinv_resume_all [OF assms(1), of q e] assms(2) ok_woken woken_ipc by blast

lemma ok_set_error: "ok s \<Longrightarrow> ok (upd_thread t (\<lambda>x. x\<lparr>error := e\<rparr>) s)"
  by (rule keep [of s]) (auto simp: wait_eq_def intro: shrunk_upd_thread)

lemma ok_upd_running:
  "ok s \<Longrightarrow> kinv s \<Longrightarrow> th_stat (threads s t) = RT_THREAD_RUNNING \<Longrightarrow> ok (upd_thread t f s)"
  by (rule keep [of s]) (auto intro: shrunk_upd_running)

lemma ok_lock_nest: "ok (s\<lparr>lock_nest := n\<rparr>) = ok s"
  using keep [of s "s\<lparr>lock_nest := n\<rparr>"] keep [of "s\<lparr>lock_nest := n\<rparr>" s] by auto

lemma ok_exit_critical: "rt_exit_critical s = Some s' \<Longrightarrow> kinv s \<Longrightarrow> ok s \<Longrightarrow> ok s'"
  by (auto simp: rt_exit_critical_def Let_def ok_lock_nest split: if_splits option.splits intro: ok_schedule)

text \<open>Blocking on a list of another class.\<close>

lemma ok_blocked:
  assumes "blocked t q fl timeout s s'" "kinv s" "th_stat (threads s t) = RT_THREAD_RUNNING" "\<not> own q" "ok s"
  shows "ok s'"
  using keep [OF assms(5), of s'] shrunk_blocked [OF assms(1-3), of own] assms(1,4) by (simp add: blocked_def)

end

text \<open>The semaphores are such a class.\<close>

definition is_sem_q :: "ipcref \<Rightarrow> bool" where
  "is_sem_q q \<longleftrightarrow> (\<exists>i. q = Sem_q i)"

interpretation semc: object_class is_sem_q sems sem_inv
proof
  fix s s'
  assume "sem_inv s" "sems (ipc s') = sems (ipc s)" "shrunk is_sem_q s s'"
  then show "sem_inv s'"
    using shrunkD(3) [of is_sem_q s s' "Sem_q _"] by (intro sem_inv_lists [of s s']) (auto simp: is_sem_q_def)
qed

subsection \<open>Waiting in a loop\<close>

text \<open>
  The rest of a timeout after a wait that began at tick \<open>before\<close>, in the 32-bit arithmetic of
  the source.
\<close>

definition timeout_left :: "int \<Rightarrow> u32 \<Rightarrow> u32 \<Rightarrow> int" where
  "timeout_left timeout before now =
     (if 0 < timeout then
        let left = sint (of_int timeout - (now - before))
        in if left < 0 then 0 else left
      else timeout)"

text \<open>A wait of fewer than \<^term>\<open>2 ^ 31 :: int\<close> ticks shortens the timeout by its length and never turns negative.\<close>

lemma timeout_left_exact:
  assumes "0 < timeout" "timeout < 2 ^ 31" "uint (now - before) < 2 ^ 31"
  shows "timeout_left timeout before now = max 0 (timeout - uint (now - before))"
proof -
  define d where "d = now - before"
  have "sint (of_int timeout - d) = timeout - uint d"
  proof -
    have "of_int timeout - d = of_int (timeout - uint d)" by simp
    then have "sint (of_int timeout - d) = signed_take_bit 31 (timeout - uint d)"
      by (simp only: signed_of_int) simp
    also have "\<dots> = timeout - uint d"
    proof (rule signed_take_bit_int_eq_self)
      have "0 \<le> uint d" by simp
      then show "timeout - uint d < 2 ^ 31" using assms(2) by linarith
    qed (use assms in \<open>simp add: d_def\<close>)
    finally show ?thesis .
  qed
  then show ?thesis using assms(1) by (simp add: timeout_left_def Let_def d_def)
qed

text \<open>
  The body of the waiting loops of mailboxes and message queues: suspend the thread on the
  list, note the tick, arm the timer and schedule. The thread was refused, or it sleeps, or it
  still runs and carries the tick it noted.
\<close>

datatype sleep = Refused rt_err | Asleep | Awake u32

definition sleep_on :: "tid \<Rightarrow> ipcref \<Rightarrow> u8 \<Rightarrow> int \<Rightarrow> int \<Rightarrow> kst \<Rightarrow> (sleep \<times> kst) option" where
  "sleep_on t q flag timeout suspend_flag s =
     do { (ret, s) \<leftarrow> rt_thread_suspend_to_list t (Some q) (uint flag) suspend_flag s;
          if ret \<noteq> RT_EOK then Some (Refused ret, s)
          else
            do { let tick_delta = rt_tick_get (tm s);
                 s \<leftarrow> thread_block t timeout s;
                 Some (if current s = Some t then Awake tick_delta else Asleep, s) } }"

lemma sleep_on_cases:
  assumes "sleep_on t q flag timeout sf s = Some (r, s')" "kinv s" "current s = Some t"
  obtains (refused) e where "r = Refused e" "e \<noteq> 0" "s' = s"
  | (slept) "r = Asleep \<or> r = Awake (rt_tick (tm s))" "kinv s'" "blocked t q (uint flag) timeout s s'"
      "th_stat (threads s t) = RT_THREAD_RUNNING"
proof -
  obtain e s1 where s1: "rt_thread_suspend_to_list t (Some q) (uint flag) sf s = Some (e, s1)"
    using assms(1) by (auto simp: sleep_on_def bind_Some)
  note su = kinv_suspend [OF assms(2) s1]
  show thesis
  proof (cases "e = 0")
    case True
    then have as: "asleep t (Some q) (uint flag) s s1" "th_stat (threads s t) = RT_THREAD_RUNNING" using su by auto
    have bl: "thread_block t timeout s1 = Some s'" and r: "r = Asleep \<or> r = Awake (rt_tick (tm s1))"
      using assms(1) s1 True by (auto simp: sleep_on_def bind_Some rt_tick_get_def split: if_splits)
    have "kinv s' \<and> blocked t q (uint flag) timeout s s'"
      using block_result [OF assms(2,3) _ bl] s1 True by blast
    then show thesis using slept r as by (simp add: asleep_def)
  next
    case False
    then show thesis using refused [of e] assms(1) s1 su by (auto simp: sleep_on_def)
  qed
qed

subsection \<open>Waking one thread\<close>

text \<open>Waking the first thread of a list, if there is one, and scheduling.\<close>

definition wake_first :: "ipcref \<Rightarrow> kst \<Rightarrow> kst option" where
  "wake_first q s =
     (if tls s (Susp q) \<noteq> [] then
        do { (_, s) \<leftarrow> rt_susp_list_dequeue q RT_EOK s; rt_schedule s }
      else Some s)"

lemma wake_first_result:
  assumes "wake_first q s = Some s'" "kinv s"
  shows "kinv s'" "ipc s' = ipc s" "shrunk own s s'" "tls s' (Susp q) = tl (tls s (Susp q))"
    "tls s (Susp q) = t # ts \<Longrightarrow> runnable (threads s' t) \<and> error (threads s' t) = RT_EOK"
proof -
  have "kinv s' \<and> ipc s' = ipc s \<and> shrunk own s s' \<and> tls s' (Susp q) = tl (tls s (Susp q)) \<and>
    (tls s (Susp q) = t # ts \<longrightarrow> runnable (threads s' t) \<and> error (threads s' t) = RT_EOK)"
  proof (cases "tls s (Susp q)")
    case (Cons u us)
    obtain s1 where s1: "rt_susp_list_dequeue q 0 s = Some (Some u, s1)" "kinv s1" "woken {u} s s1"
        "tls s1 (Susp q) = us" "error (threads s1 u) = 0"
      using kinv_dequeue [OF assms(2) Cons, of 0] by auto
    have s': "rt_schedule s1 = Some s'" using assms(1) Cons s1(1) by (simp add: wake_first_def)
    note fr = schedule_frame [OF s' kinvD(1) [OF s1(2)]]
    have "runnable (threads s' u) \<and> error (threads s' u) = RT_EOK"
      using fr s1(3,5) same_but_statD(1) [of "threads s' u" "threads s1 u"] by (auto simp: sched_frame_def woken_def)
    then show ?thesis
      using Cons s1(4) fr woken_ipc [OF s1(3)] kinv_schedule [OF s' s1(2)]
        shrunk_trans [OF shrunk_woken [OF s1(3)] shrunk_schedule [OF s' s1(2)]]
      by (auto simp: sched_frame_def)
  qed (use assms in \<open>simp add: wake_first_def\<close>)
  then show "kinv s'" "ipc s' = ipc s" "shrunk own s s'" "tls s' (Susp q) = tl (tls s (Susp q))"
    "tls s (Susp q) = t # ts \<Longrightarrow> runnable (threads s' t) \<and> error (threads s' t) = RT_EOK" by blast+
qed

end
