(* ===== verification/RT_Mutex.thy ===== *)
theory RT_Mutex
  imports RT_Wait
begin

text \<open>
  Mutexes with priority inheritance and priority ceiling (\<^verbatim>\<open>src/ipc.c\<close>). The spin lock of
  a mutex is a critical section on one processor, so \<^verbatim>\<open>rt_spin_unlock\<close> may schedule. The
  propagation of a priority along a chain of waiting owners is a loop that need not end on a
  cyclic chain and is a partial function.
\<close>

abbreviation mtx_of :: "kst \<Rightarrow> nat \<Rightarrow> rt_mutex" where
  "mtx_of s i \<equiv> mutexes (ipc s) i"

abbreviation (input) RT_MUTEX_HOLD_MAX :: u8 where "RT_MUTEX_HOLD_MAX \<equiv> 0xff"

definition upd_mutex :: "nat \<Rightarrow> (rt_mutex \<Rightarrow> rt_mutex) \<Rightarrow> kst \<Rightarrow> kst" where
  "upd_mutex i f s = s\<lparr>ipc := (ipc s)\<lparr>mutexes := (mutexes (ipc s))(i := f (mutexes (ipc s) i))\<rparr>\<rparr>"

definition taken_insert :: "tid \<Rightarrow> nat \<Rightarrow> kst \<Rightarrow> kst" where
  "taken_insert t i s = s\<lparr>ipc := (ipc s)\<lparr>taken := ls_insert_after (taken (ipc s)) t i\<rparr>\<rparr>"

definition taken_remove :: "nat \<Rightarrow> kst \<Rightarrow> kst" where
  "taken_remove i s = s\<lparr>ipc := (ipc s)\<lparr>taken := ls_remove (taken (ipc s)) i\<rparr>\<rparr>"

definition rt_spin_lock :: "kst \<Rightarrow> kst" where
  "rt_spin_lock s = snd (rt_enter_critical s)"

definition rt_spin_unlock :: "kst \<Rightarrow> kst option" where
  "rt_spin_unlock s = rt_exit_critical s"

subsection \<open>Priorities\<close>

text \<open>The priority of the first waiting thread, as every mutex operation reads it.\<close>

definition mutex_update_priority :: "nat \<Rightarrow> kst \<Rightarrow> kst" where
  "mutex_update_priority i s =
     (case tls s (Susp (Mutex_q i)) of
        t # _ \<Rightarrow> upd_mutex i (\<lambda>x. x\<lparr>mtx_priority := rt_sched_thread_get_curr_prio t s\<rparr>) s
      | [] \<Rightarrow> upd_mutex i (\<lambda>x. x\<lparr>mtx_priority := 0xff\<rparr>) s)"

definition thread_get_mutex_priority :: "tid \<Rightarrow> kst \<Rightarrow> u8" where
  "thread_get_mutex_priority t s =
     fold (\<lambda>i priority.
             let m = mtx_of s i;
                 mutex_prio = (if mtx_priority m < ceiling_priority m
                               then mtx_priority m else ceiling_priority m)
             in if mutex_prio < priority then mutex_prio else priority)
       (taken (ipc s) t) (rt_sched_thread_get_init_prio t s)"

text \<open>The loop of \<^verbatim>\<open>_thread_update_priority\<close>, entered with a successful priority change.\<close>

partial_function (option) thread_update_loop :: "tid \<Rightarrow> kst \<Rightarrow> kst option" where
  "thread_update_loop t s =
     (if rt_sched_thread_is_suspended t s then
        (case pending_object (threads s t) of
           None \<Rightarrow> Some s
         | Some i \<Rightarrow>
             if rt_object_get_type (mtx_type (mtx_of s i)) = RT_Object_Class_Mutex then
               do { let s = list_remove_thread t s;
                    s \<leftarrow> rt_susp_list_enqueue (Mutex_q i) t (uint (mtx_flag (mtx_of s i))) s;
                    let s = mutex_update_priority i s;
                    own \<leftarrow> owner (mtx_of s i);
                    let mutex_priority = thread_get_mutex_priority own s;
                    if mutex_priority \<noteq> rt_sched_thread_get_curr_prio own s
                    then do { s \<leftarrow> rt_sched_thread_change_priority own mutex_priority s;
                              thread_update_loop own s }
                    else Some s }
             else Some s)
      else Some s)"

definition thread_update_priority :: "tid \<Rightarrow> u8 \<Rightarrow> kst \<Rightarrow> kst option" where
  "thread_update_priority t priority s =
     do { s \<leftarrow> rt_sched_thread_change_priority t priority s; thread_update_loop t s }"

definition check_and_update_prio :: "tid \<Rightarrow> nat \<Rightarrow> kst \<Rightarrow> (bool \<times> kst) option" where
  "check_and_update_prio t i s =
     (if ceiling_priority (mtx_of s i) \<noteq> 0xff \<or>
         rt_sched_thread_get_curr_prio t s = mtx_priority (mtx_of s i)
      then do { s \<leftarrow> rt_sched_thread_change_priority t (thread_get_mutex_priority t s) s;
                Some (True, s) }
      else Some (False, s))"

text \<open>
  Both the end of an interrupted wait and \<^verbatim>\<open>rt_mutex_drop_thread\<close> lower the priority of
  the owner when the thread that no longer waits has the same priority.
\<close>

definition mutex_unboost :: "nat \<Rightarrow> tid \<Rightarrow> kst \<Rightarrow> kst option" where
  "mutex_unboost i t s =
     (let need_update = (case owner (mtx_of s i) of
            None \<Rightarrow> False
          | Some own \<Rightarrow> rt_sched_thread_get_curr_prio own s = rt_sched_thread_get_curr_prio t s);
          s = mutex_update_priority i s
      in case owner (mtx_of s i) of
           Some own \<Rightarrow>
             (if need_update then
                let priority = thread_get_mutex_priority own s
                in if priority \<noteq> rt_sched_thread_get_curr_prio own s
                   then thread_update_priority own priority s else Some s
              else Some s)
         | None \<Rightarrow> Some s)"

subsection \<open>Creation and deletion\<close>

definition mutex_object_init :: "nat \<Rightarrow> kst \<Rightarrow> kst" where
  "mutex_object_init i s =
     (let s = s\<lparr>tls := ls_init (tls s) (Susp (Mutex_q i))\<rparr>
      in upd_mutex i (\<lambda>x. x\<lparr>owner := None, mtx_priority := 0xff, hold := 0, ceiling_priority := 0xff,
           mtx_flag := 1\<rparr>) s)"

definition rt_mutex_init :: "nat \<Rightarrow> u8 \<Rightarrow> kst \<Rightarrow> (rt_err \<times> kst) option" where
  "rt_mutex_init i flag s =
     do { ty \<leftarrow> object_init RT_Object_Class_Mutex (mtx_type (mtx_of s i));
          let s = upd_mutex i (\<lambda>x. x\<lparr>mtx_type := ty\<rparr>) s;
          Some (RT_EOK, mutex_object_init i s) }"

definition rt_mutex_create :: "nat option \<Rightarrow> u8 \<Rightarrow> kst \<Rightarrow> (nat option \<times> kst) option" where
  "rt_mutex_create obj flag s =
     do { debug_not_in_interrupt s;
          case obj of
            None \<Rightarrow> Some (None, s)
          | Some i \<Rightarrow>
              let s = upd_mutex i (\<lambda>x. x\<lparr>mtx_type := object_allocate RT_Object_Class_Mutex\<rparr>) s
              in Some (Some i, mutex_object_init i s) }"

definition mutex_before_delete_detach :: "nat \<Rightarrow> kst \<Rightarrow> kst option" where
  "mutex_before_delete_detach i s =
     do { let s = rt_spin_lock s;
          s \<leftarrow> rt_susp_list_resume_all (Mutex_q i) RT_ERROR s;
          let s = taken_remove i s;
          s \<leftarrow> (case owner (mtx_of s i) of
                  None \<Rightarrow> Some s
                | Some own \<Rightarrow>
                    do { (need_schedule, s) \<leftarrow> check_and_update_prio own i s;
                         if need_schedule then rt_sched_unlock_n_resched s else Some s });
          rt_spin_unlock s }"

definition rt_mutex_detach :: "nat \<Rightarrow> kst \<Rightarrow> (rt_err \<times> kst) option" where
  "rt_mutex_detach i s =
     do { rt_assert (rt_object_get_type (mtx_type (mtx_of s i)) = RT_Object_Class_Mutex);
          rt_assert (rt_object_is_systemobject (mtx_type (mtx_of s i)));
          s \<leftarrow> mutex_before_delete_detach i s;
          Some (RT_EOK, upd_mutex i (\<lambda>x. x\<lparr>mtx_type := object_detach (mtx_type x)\<rparr>) s) }"

definition rt_mutex_delete :: "nat \<Rightarrow> kst \<Rightarrow> (rt_err \<times> kst) option" where
  "rt_mutex_delete i s =
     do { rt_assert (rt_object_get_type (mtx_type (mtx_of s i)) = RT_Object_Class_Mutex);
          rt_assert (\<not> rt_object_is_systemobject (mtx_type (mtx_of s i)));
          debug_not_in_interrupt s;
          s \<leftarrow> mutex_before_delete_detach i s;
          Some (RT_EOK, upd_mutex i (\<lambda>x. x\<lparr>mtx_type := object_detach (mtx_type x)\<rparr>) s) }"

subsection \<open>Dropping a waiting thread, the ceiling\<close>

definition rt_mutex_drop_thread :: "nat \<Rightarrow> tid \<Rightarrow> kst \<Rightarrow> kst option" where
  "rt_mutex_drop_thread i t s =
     do { debug_in_thread_context s;
          let s = rt_spin_lock s;
          rt_assert (pending_object (threads s t) = Some i);
          let s = list_remove_thread t s;
          s \<leftarrow> mutex_unboost i t s;
          rt_spin_unlock s }"

definition rt_mutex_setprioceiling :: "nat option \<Rightarrow> u8 \<Rightarrow> kst \<Rightarrow> (u8 \<times> kst) option" where
  "rt_mutex_setprioceiling mutex priority s =
     do { debug_in_thread_context s;
          case mutex of
            Some i \<Rightarrow>
              if priority < RT_THREAD_PRIORITY_MAX then
                do { let s = rt_spin_lock s;
                     let ret_priority = ceiling_priority (mtx_of s i);
                     let s = upd_mutex i (\<lambda>x. x\<lparr>ceiling_priority := priority\<rparr>) s;
                     s \<leftarrow> (case owner (mtx_of s i) of
                             None \<Rightarrow> Some s
                           | Some own \<Rightarrow>
                               let highest_prio = thread_get_mutex_priority own s
                               in if highest_prio \<noteq> rt_sched_thread_get_curr_prio own s
                                  then thread_update_priority own highest_prio s else Some s);
                     s \<leftarrow> rt_spin_unlock s;
                     Some (ret_priority, s) }
              else Some (0xff, rt_set_errno (- RT_EINVAL) s)
          | None \<Rightarrow> Some (0xff, rt_set_errno (- RT_EINVAL) s) }"

definition rt_mutex_getprioceiling :: "nat \<Rightarrow> kst \<Rightarrow> (u8 \<times> kst) option" where
  "rt_mutex_getprioceiling i s =
     do { debug_in_thread_context s;
          let s = rt_spin_lock s;
          let prio = ceiling_priority (mtx_of s i);
          s \<leftarrow> rt_spin_unlock s;
          Some (prio, s) }"

subsection \<open>Take\<close>

text \<open>
  What \<^verbatim>\<open>_rt_mutex_take\<close> does when the waiting thread runs again: it calls the scheduler
  once more, and then finds itself the owner, or cleans up after an interrupted wait.
\<close>

definition mutex_take_finish :: "nat \<Rightarrow> tid \<Rightarrow> kst \<Rightarrow> (rt_err \<times> kst) option" where
  "mutex_take_finish i t s =
     do { let s = rt_spin_lock s;
          if error (threads s t) = RT_EOK then
            do { rt_assert (owner (mtx_of s i) = Some t);
                 s \<leftarrow> rt_spin_unlock s;
                 Some (RT_EOK, s) }
          else
            do { rt_assert (owner (mtx_of s i) \<noteq> Some t);
                 let ret = error (threads s t);
                 s \<leftarrow> mutex_unboost i t s;
                 s \<leftarrow> rt_spin_unlock s;
                 let s = upd_thread t (\<lambda>x. x\<lparr>pending_object := None\<rparr>) s;
                 Some (if 0 < ret then - ret else ret, s) } }"

definition mutex_take_wake :: "nat \<Rightarrow> tid \<Rightarrow> kst \<Rightarrow> (rt_err wres \<times> kst) option" where
  "mutex_take_wake i t s =
     do { s \<leftarrow> rt_schedule s;
          if current s = Some t
          then do { (r, s) \<leftarrow> mutex_take_finish i t s; Some (Ret r, s) }
          else Some (Wait, s) }"

text \<open>The waiting thread passes its priority on to the mutex and to the owner.\<close>

definition mutex_pass_on :: "nat \<Rightarrow> u8 \<Rightarrow> tid \<Rightarrow> kst \<Rightarrow> kst option" where
  "mutex_pass_on i priority own s =
     (if priority < mtx_priority (mtx_of s i) then
        do { let s = upd_mutex i (\<lambda>x. x\<lparr>mtx_priority := priority\<rparr>) s;
             if priority < rt_sched_thread_get_curr_prio own s
             then thread_update_priority own priority s else Some s }
      else Some s)"

text \<open>The wait of \<^verbatim>\<open>_rt_mutex_take\<close>: suspend, pass the priority on to the owner, arm the timer.\<close>

definition mutex_wait :: "nat \<Rightarrow> tid \<Rightarrow> tid \<Rightarrow> int \<Rightarrow> int \<Rightarrow> kst \<Rightarrow> (rt_err wres \<times> kst) option" where
  "mutex_wait i t own timeout suspend_flag s =
     do { (ret, s) \<leftarrow> rt_thread_suspend_to_list t (Some (Mutex_q i)) (uint (mtx_flag (mtx_of s i)))
            suspend_flag s;
          if ret \<noteq> RT_EOK then do { s \<leftarrow> rt_spin_unlock s; Some (Ret ret, s) }
          else
            do { let s = upd_thread t (\<lambda>x. x\<lparr>pending_object := Some i\<rparr>) s;
                 let priority = rt_sched_thread_get_curr_prio t s;
                 s \<leftarrow> mutex_pass_on i priority own s;
                 s \<leftarrow> (if 0 < timeout then thread_timer_arm t (of_int timeout) s else Some s);
                 s \<leftarrow> rt_spin_unlock s;
                 if current s = Some t then mutex_take_wake i t s else Some (Wait, s) } }"

definition rt_mutex_take' :: "nat \<Rightarrow> int \<Rightarrow> int \<Rightarrow> kst \<Rightarrow> (rt_err wres \<times> kst) option" where
  "rt_mutex_take' i timeout suspend_flag s =
     do { debug_scheduler_available True s;
          rt_assert (rt_object_get_type (mtx_type (mtx_of s i)) = RT_Object_Class_Mutex);
          t \<leftarrow> rt_thread_self s;
          let s = rt_spin_lock s;
          let s = upd_thread t (\<lambda>x. x\<lparr>error := RT_EOK\<rparr>) s;
          case owner (mtx_of s i) of
            None \<Rightarrow>
              do { let s = upd_mutex i (\<lambda>x. x\<lparr>owner := Some t, mtx_priority := 0xff, hold := 1\<rparr>) s;
                   let ceiling = ceiling_priority (mtx_of s i);
                   s \<leftarrow> (if ceiling \<noteq> 0xff \<and> ceiling < rt_sched_thread_get_curr_prio t s
                         then thread_update_priority t ceiling s else Some s);
                   let s = taken_insert t i s;
                   s \<leftarrow> rt_spin_unlock s;
                   Some (Ret RT_EOK, s) }
          | Some own \<Rightarrow>
              if own = t then
                if hold (mtx_of s i) < RT_MUTEX_HOLD_MAX then
                  do { let s = upd_mutex i (\<lambda>x. x\<lparr>hold := hold x + 1\<rparr>) s;
                       s \<leftarrow> rt_spin_unlock s;
                       Some (Ret RT_EOK, s) }
                else do { s \<leftarrow> rt_spin_unlock s; Some (Ret (- RT_EFULL), s) }
              else if timeout = 0 then
                do { let s = upd_thread t (\<lambda>x. x\<lparr>error := RT_ETIMEOUT\<rparr>) s;
                     s \<leftarrow> rt_spin_unlock s;
                     Some (Ret (- RT_ETIMEOUT), s) }
              else mutex_wait i t own timeout suspend_flag s }"

definition rt_mutex_take :: "nat \<Rightarrow> int \<Rightarrow> kst \<Rightarrow> (rt_err wres \<times> kst) option" where
  "rt_mutex_take i time s = rt_mutex_take' i time RT_UNINTERRUPTIBLE s"

definition rt_mutex_take_interruptible :: "nat \<Rightarrow> int \<Rightarrow> kst \<Rightarrow> (rt_err wres \<times> kst) option" where
  "rt_mutex_take_interruptible i time s = rt_mutex_take' i time RT_INTERRUPTIBLE s"

definition rt_mutex_take_killable :: "nat \<Rightarrow> int \<Rightarrow> kst \<Rightarrow> (rt_err wres \<times> kst) option" where
  "rt_mutex_take_killable i time s = rt_mutex_take' i time RT_KILLABLE s"

definition rt_mutex_trytake :: "nat \<Rightarrow> kst \<Rightarrow> (rt_err wres \<times> kst) option" where
  "rt_mutex_trytake i s = rt_mutex_take i 0 s"

subsection \<open>Release\<close>

text \<open>The loop of \<^verbatim>\<open>rt_mutex_release\<close> that readies the first waiting thread it can.\<close>

lemma thread_ready_fail_tls:
  assumes "rt_sched_thread_ready t s = Some (e, s')" "e \<noteq> 0"
  shows "tls s' = tls s"
  using assms by (cases rule: thread_ready_cases) (auto simp: timer_stop_frame)

function (sequential) mutex_wake_next :: "nat \<Rightarrow> kst \<Rightarrow> (tid option \<times> kst) option" where
  "mutex_wake_next i s =
     (case tls s (Susp (Mutex_q i)) of
        [] \<Rightarrow> Some (None, s)
      | next_thread # _ \<Rightarrow>
          do { rt_assert (rt_sched_thread_is_suspended next_thread s);
               let s = list_remove_thread next_thread s;
               (e, s) \<leftarrow> rt_sched_thread_ready next_thread s;
               if e = 0 then Some (Some next_thread, s) else mutex_wake_next i s })"
  by pat_completeness auto
termination
  by (relation "measure (\<lambda>(i, s). length (tls s (Susp (Mutex_q i))))")
    (auto simp: thread_ready_fail_tls ls_remove_def le_imp_less_Suc)

declare mutex_wake_next.simps [simp del]

definition mutex_hand_over :: "nat \<Rightarrow> kst \<Rightarrow> (bool \<times> kst) option" where
  "mutex_hand_over i s =
     (if tls s (Susp (Mutex_q i)) \<noteq> [] then
        do { (next_thread, s) \<leftarrow> mutex_wake_next i s;
             case next_thread of
               Some n \<Rightarrow>
                 do { let s = upd_mutex i (\<lambda>x. x\<lparr>owner := Some n, hold := 1\<rparr>) s;
                      let s = taken_insert n i s;
                      let s = upd_thread n (\<lambda>x. x\<lparr>pending_object := None\<rparr>) s;
                      Some (True, mutex_update_priority i s) }
             | None \<Rightarrow> Some (False, upd_mutex i (\<lambda>x. x\<lparr>owner := None, mtx_priority := 0xff\<rparr>) s) }
      else Some (False, upd_mutex i (\<lambda>x. x\<lparr>owner := None, mtx_priority := 0xff\<rparr>) s))"

definition rt_mutex_release :: "nat \<Rightarrow> kst \<Rightarrow> (rt_err \<times> kst) option" where
  "rt_mutex_release i s =
     do { rt_assert (rt_object_get_type (mtx_type (mtx_of s i)) = RT_Object_Class_Mutex);
          debug_in_thread_context s;
          t \<leftarrow> rt_thread_self s;
          let s = rt_spin_lock s;
          if owner (mtx_of s i) \<noteq> Some t then
            do { let s = upd_thread t (\<lambda>x. x\<lparr>error := - RT_ERROR\<rparr>) s;
                 s \<leftarrow> rt_spin_unlock s;
                 Some (- RT_ERROR, s) }
          else
            do { let s = upd_mutex i (\<lambda>x. x\<lparr>hold := hold x - 1\<rparr>) s;
                 (need_schedule, s) \<leftarrow>
                   (if hold (mtx_of s i) = 0 then
                      do { let s = taken_remove i s;
                           (b1, s) \<leftarrow> check_and_update_prio t i s;
                           (b2, s) \<leftarrow> mutex_hand_over i s;
                           Some (b1 \<or> b2, s) }
                    else Some (False, s));
                 s \<leftarrow> rt_spin_unlock s;
                 s \<leftarrow> (if need_schedule then rt_schedule s else Some s);
                 Some (RT_EOK, s) } }"

definition rt_mutex_control :: "nat \<Rightarrow> int \<Rightarrow> u64 \<Rightarrow> kst \<Rightarrow> rt_err \<times> kst" where
  "rt_mutex_control i cmd arg s = (- RT_EINVAL, s)"

end
