(* ===== verification/RT_MutexInv.thy ===== *)
theory RT_MutexInv
  imports RT_Mutex
begin

text \<open>
  Correctness of the mutexes. The invariant ties the owner of a mutex to the list of mutexes
  the owner holds, and says that a free mutex has no waiting thread. Changes of priorities,
  including the propagation along a chain of owners, keep the invariants; the propagation
  ends on every chain without a cycle and leaves every owner on the chain at least as urgent
  as the waiting thread.
\<close>

subsection \<open>The invariant\<close>

abbreviation mtx_live :: "kst \<Rightarrow> nat \<Rightarrow> bool" where
  "mtx_live s i \<equiv> rt_object_get_type (mtx_type (mtx_of s i)) = RT_Object_Class_Mutex"

abbreviation mtx_q :: "kst \<Rightarrow> nat \<Rightarrow> tid list" where
  "mtx_q s i \<equiv> tls s (Susp (Mutex_q i))"

definition mutex_ok :: "kst \<Rightarrow> nat \<Rightarrow> bool" where
  "mutex_ok s i \<longleftrightarrow>
     (mtx_live s i \<longrightarrow> mtx_flag (mtx_of s i) = 1 \<and>
        (case owner (mtx_of s i) of
           None \<Rightarrow> hold (mtx_of s i) = 0 \<and> mtx_q s i = []
         | Some t \<Rightarrow> hold (mtx_of s i) \<noteq> 0 \<and> i \<in> set (taken (ipc s) t))) \<and>
     (\<not> mtx_live s i \<longrightarrow> mtx_q s i = []) \<and>
     (\<forall>t. i \<in> set (taken (ipc s) t) \<longrightarrow> mtx_live s i \<and> owner (mtx_of s i) = Some t) \<and>
     (\<forall>u\<in>set (mtx_q s i). pending_object (threads s u) = Some i)"

definition mutex_inv :: "kst \<Rightarrow> bool" where
  "mutex_inv s \<longleftrightarrow> wf_ls (taken (ipc s)) \<and> (\<forall>i. mutex_ok s i)"

lemma mutex_invD: "mutex_inv s \<Longrightarrow> wf_ls (taken (ipc s))" "mutex_inv s \<Longrightarrow> mutex_ok s i"
  by (simp_all add: mutex_inv_def)

definition is_mutex_q :: "ipcref \<Rightarrow> bool" where
  "is_mutex_q q \<longleftrightarrow> (\<exists>i. q = Mutex_q i)"

text \<open>The invariant depends on the queues only through fewer waiting threads.\<close>

lemma mutex_ok_queue:
  assumes "mutex_ok s i" "mtx_of s' i = mtx_of s i" "taken (ipc s') = taken (ipc s)"
    "\<And>u. u \<in> set (mtx_q s' i) \<Longrightarrow> pending_object (threads s' u) = Some i"
    "mtx_q s i = [] \<Longrightarrow> \<not> mtx_live s i \<or> owner (mtx_of s i) = None \<Longrightarrow> mtx_q s' i = []"
  shows "mutex_ok s' i"
  using assms(1,4,5) unfolding mutex_ok_def assms(2,3) by (cases "owner (mtx_of s i)") auto

interpretation mtxc: object_class is_mutex_q "\<lambda>c. (mutexes c, taken c)" mutex_inv
proof
  fix s s'
  assume a: "mutex_inv s" "(mutexes (ipc s'), taken (ipc s')) = (mutexes (ipc s), taken (ipc s))" "shrunk is_mutex_q s s'"
  have "mutex_ok s' i" for i
  proof (rule mutex_ok_queue [of s])
    have own: "is_mutex_q (Mutex_q i)" by (simp add: is_mutex_q_def)
    show "mutex_ok s i" by (rule mutex_invD [OF a(1)])
    show "pending_object (threads s' u) = Some i" if "u \<in> set (mtx_q s' i)" for u
      using shrunkD(2) [OF a(3) own that] mutex_invD(2) [OF a(1), of i] by (auto simp: mutex_ok_def wait_eq_def)
    show "mtx_q s' i = []" if "mtx_q s i = []" by (rule shrunkD(3) [OF a(3) own that])
  qed (use a(2) in simp_all)
  then show "mutex_inv s'" using a by (simp add: mutex_inv_def)
qed

subsection \<open>Changes of priorities\<close>

text \<open>Two thread records that differ in the priority only.\<close>

definition prio_eq :: "rt_thread \<Rightarrow> rt_thread \<Rightarrow> bool" where
  "prio_eq x y \<longleftrightarrow> th_stat x = th_stat y \<and>
     x\<lparr>stat := 0, current_priority := 0, number_mask := 0\<rparr> = y\<lparr>stat := 0, current_priority := 0, number_mask := 0\<rparr>"

lemma prio_eq_refl [simp]: "prio_eq x x"
  by (simp add: prio_eq_def)

lemma prio_eq_trans: "prio_eq x y \<Longrightarrow> prio_eq y z \<Longrightarrow> prio_eq x z"
  by (simp add: prio_eq_def)

lemma prio_eqD:
  assumes "prio_eq x y"
  shows "th_stat x = th_stat y" "pending_object x = pending_object y" "init_priority x = init_priority y"
    "error x = error y" "ttmr_set x = ttmr_set y" "th_type x = th_type y" "wait_eq x y"
    "th_suspended x = th_suspended y" "runnable x = runnable y"
  using assms by (cases x; cases y; simp add: prio_eq_def wait_eq_def suspended_stat runnable_def)+

text \<open>
  What changing priorities does to the kernel: priorities of threads and of mutexes, the
  ready lists, and the places of threads waiting for a mutex.
\<close>

definition mtx_eq :: "rt_mutex \<Rightarrow> rt_mutex \<Rightarrow> bool" where
  "mtx_eq x y \<longleftrightarrow> x\<lparr>mtx_priority := 0\<rparr> = y\<lparr>mtx_priority := 0\<rparr>"

lemma mtx_eqD:
  assumes "mtx_eq x y"
  shows "mtx_type x = mtx_type y" "mtx_flag x = mtx_flag y" "owner x = owner y" "hold x = hold y"
    "ceiling_priority x = ceiling_priority y"
  using assms by (cases x; cases y; simp add: mtx_eq_def)+

definition reprio :: "kst \<Rightarrow> kst \<Rightarrow> bool" where
  "reprio s s' \<longleftrightarrow> (\<exists>M. ipc s' = (ipc s)\<lparr>mutexes := M\<rparr>) \<and> (\<forall>i. mtx_eq (mtx_of s' i) (mtx_of s i)) \<and>
     current s' = current s \<and> lock_nest s' = lock_nest s \<and> irq_nest s' = irq_nest s \<and> tm s' = tm s \<and>
     (\<forall>u. prio_eq (threads s' u) (threads s u)) \<and> tls s' Defunct = tls s Defunct \<and>
     shrunk (\<lambda>q. \<not> is_mutex_q q) s s' \<and>
     (\<forall>i u. u \<in> set (mtx_q s' i) \<longrightarrow> u \<in> set (mtx_q s i) \<or>
        pending_object (threads s u) = Some i \<and> mtx_live s i \<and> owner (mtx_of s i) \<noteq> None)"

lemma reprioD:
  assumes "reprio s s'"
  shows "taken (ipc s') = taken (ipc s)" "mtx_eq (mtx_of s' i) (mtx_of s i)" "current s' = current s"
    "lock_nest s' = lock_nest s" "irq_nest s' = irq_nest s" "tm s' = tm s"
    "prio_eq (threads s' u) (threads s u)" "shrunk (\<lambda>q. \<not> is_mutex_q q) s s'"
    "tls s' Defunct = tls s Defunct"
  using assms by (auto simp: reprio_def)

lemma reprio_refl [simp]: "reprio s s"
  by (auto simp: reprio_def mtx_eq_def intro: exI [of _ "mutexes (ipc s)"])

lemma reprio_trans:
  assumes "reprio s s'" "reprio s' s''"
  shows "reprio s s''"
proof -
  have "u \<in> set (mtx_q s i) \<or> pending_object (threads s u) = Some i \<and> mtx_live s i \<and> owner (mtx_of s i) \<noteq> None"
    if "u \<in> set (mtx_q s'' i)" for i u
    using that assms prio_eqD(2) [OF reprioD(7) [OF assms(1)], of u] mtx_eqD(1,3) [OF reprioD(2) [OF assms(1)], of i]
    unfolding reprio_def by metis
  moreover have "prio_eq (threads s'' u) (threads s u)" for u
    using prio_eq_trans [OF reprioD(7) [OF assms(2)] reprioD(7) [OF assms(1)]] .
  moreover have "mtx_eq (mtx_of s'' i) (mtx_of s i)" for i
    using reprioD(2) [OF assms(1), of i] reprioD(2) [OF assms(2), of i] by (simp add: mtx_eq_def)
  moreover have "\<exists>M. ipc s'' = (ipc s)\<lparr>mutexes := M\<rparr>"
    using assms by (auto simp: reprio_def)
  ultimately show ?thesis
    using shrunk_trans [OF reprioD(8) [OF assms(1)] reprioD(8) [OF assms(2)]] reprioD(3-6,9) [OF assms(1)]
      reprioD(3-6,9) [OF assms(2)] unfolding reprio_def by auto
qed

lemma reprio_mutex_ok:
  assumes "reprio s s'" "mutex_ok s i"
  shows "mutex_ok s' i"
proof -
  have q: "u \<in> set (mtx_q s' i) \<Longrightarrow> u \<in> set (mtx_q s i) \<or>
      pending_object (threads s u) = Some i \<and> mtx_live s i \<and> owner (mtx_of s i) \<noteq> None" for u
    using assms(1) by (auto simp: reprio_def)
  then have e: "mtx_q s i = [] \<Longrightarrow> \<not> mtx_live s i \<or> owner (mtx_of s i) = None \<Longrightarrow> mtx_q s' i = []"
    by (metis empty_iff empty_set last_in_set)
  show ?thesis
    using assms(2) mtx_eqD [OF reprioD(2) [OF assms(1), of i]] q e
      prio_eqD(2) [OF reprioD(7) [OF assms(1)]] reprioD(1) [OF assms(1)]
    by (auto simp: mutex_ok_def split: option.splits)
qed

lemma reprio_mutex_inv: "reprio s s' \<Longrightarrow> mutex_inv s \<Longrightarrow> mutex_inv s'"
  using reprio_mutex_ok [of s s'] reprioD(1) [of s s'] by (simp add: mutex_inv_def)

text \<open>The priority of one thread.\<close>

lemma link_ok_prio:
  "prio_eq x y \<Longrightarrow> link_ok t m y \<Longrightarrow> current_priority x = current_priority y \<or> current_priority x < 32 \<Longrightarrow>
   link_ok t m x"
  using prio_eqD [of x y] by (auto simp: link_ok_def)

lemma shrunk_same_susp:
  assumes "\<And>q. own q \<Longrightarrow> tls s' (Susp q) = tls s (Susp q)" "\<And>u. prio_eq (threads s' u) (threads s u)"
  shows "shrunk own s s'"
  using assms prio_eqD(7) by (intro shrunkI) blast+

lemma reprioI:
  assumes "ipc s' = ipc s" "current s' = current s" "lock_nest s' = lock_nest s" "irq_nest s' = irq_nest s"
    "tm s' = tm s" "\<And>u. prio_eq (threads s' u) (threads s u)" "\<And>q. tls s' (Susp q) = tls s (Susp q)"
    "tls s' Defunct = tls s Defunct"
  shows "reprio s s'"
  unfolding reprio_def using assms shrunk_same_susp [of _ s' s]
  by (auto simp: mtx_eq_def intro: exI [of _ "mutexes (ipc s)"])

lemma change_prio_ready:
  assumes inv: "kinv s" and p: "p < 32" and st: "th_stat (threads s t) = RT_THREAD_READY"
    and run: "rt_sched_thread_change_priority t p s = Some s'"
  shows "kinv s' \<and> reprio s s' \<and> threads s' = (threads s)(t := threads s' t) \<and> current_priority (threads s' t) = p"
proof -
  let ?f = "\<lambda>x. x\<lparr>current_priority := p, number_mask := push_bit (unat p) 1, stat := 0\<rparr>"
  define s1 where "s1 = upd_thread t ?f (rt_sched_remove_thread t s)"
  have s': "s' = rt_sched_insert_thread t s1"
    using run p st by (simp add: rt_sched_thread_change_priority_def s1_def)
  note tok = sched_invD(3) [OF kinvD(1) [OF inv], of t, simplified]
  have cur: "current s \<noteq> Some t" using thread_okD(6) [OF tok] st by auto
  have "sched_inv_but {t} s1"
    using remove_inv_ok [OF kinvD(1) [OF inv], of t] st by (auto simp: s1_def intro: upd_thread_inv)
  moreover have "mask_ok (threads s1 t)"
    using p by (simp add: s1_def mask_ok_def prio_of_def word_less_nat_alt)
  moreover have "unlinked (tls s1) t" by (simp add: s1_def)
  ultimately have "sched_inv s'" using insert_inv [of "{t}" s1 t] by (simp add: s')
  moreover have eq: "prio_eq (threads s' u) (threads s u)" for u
    using cur st by (auto simp: s' s1_def prio_eq_def th_stat_def)
  moreover have "tls s' (Susp q) = tls s (Susp q)" for q
  proof -
    have "t \<notin> set (tls s (Susp q))" using thread_okD(3) [OF tok, of q] st by (auto simp: suspended_stat)
    then show ?thesis by (simp add: s' s1_def)
  qed
  moreover have "t \<notin> set (tls s Defunct)" using thread_okD(4) [OF tok] st by auto
  then have "tls s' Defunct = tls s Defunct" by (simp add: s' s1_def)
  moreover have fr: "tm s' = tm s" "ipc s' = ipc s" "current s' = current s" "lock_nest s' = lock_nest s"
      "irq_nest s' = irq_nest s"
    by (simp_all add: s' s1_def)
  moreover have "link_ok u (timers (tm s') (Thread_timer u)) (threads s' u)" for u
    using kinvD(3) [OF inv, of u] link_ok_prio [OF eq, of u _ u] p by (simp add: s' s1_def)
  ultimately have "kinv s' \<and> reprio s s'"
    using kinvD(2) [OF inv] by (auto simp: kinv_but_def intro: reprioI)
  then show ?thesis by (auto simp: s' s1_def fun_eq_iff)
qed

lemma change_prio_other:
  assumes inv: "kinv s" and p: "p < 32" and st: "th_stat (threads s t) \<noteq> RT_THREAD_READY"
    and run: "rt_sched_thread_change_priority t p s = Some s'"
  shows "kinv s' \<and> reprio s s' \<and> threads s' = (threads s)(t := threads s' t) \<and> current_priority (threads s' t) = p"
proof -
  let ?f = "\<lambda>x. x\<lparr>current_priority := p, number_mask := push_bit (unat p) 1\<rparr>"
  have s': "s' = upd_thread t ?f s"
    using run p st by (simp add: rt_sched_thread_change_priority_def)
  have eq: "prio_eq (threads s' u) (threads s u)" for u
    by (auto simp: s' prio_eq_def th_stat_def)
  have "sched_inv_but ({} - {t}) s'"
    unfolding s'
  proof (rule settle_inv)
    show "sched_inv_but {t} s" using kinvD(1) [OF inv] by (rule sched_inv_but_mono) simp
    show "thread_ok (tls s) (current s) t (?f (threads s t))"
      using sched_invD(3) [OF kinvD(1) [OF inv], of t] st p
      by (auto simp: thread_ok_def th_stat_def th_suspended_def mask_ok_def prio_of_def word_less_nat_alt)
  qed
  moreover have "reprio s s'" by (rule reprioI) (use eq in \<open>auto simp: s'\<close>)
  moreover have "link_ok u (timers (tm s') (Thread_timer u)) (threads s' u)" for u
    using kinvD(3) [OF inv, of u] link_ok_prio [OF eq, of u _ u] p by (simp add: s')
  ultimately show ?thesis
    using kinvD(2) [OF inv] by (auto simp: kinv_but_def s' fun_eq_iff)
qed

lemma change_prio_result:
  assumes "kinv s" "rt_sched_thread_change_priority t p s = Some s'"
  shows "kinv s'" "reprio s s'" "threads s' = (threads s)(t := threads s' t)" "current_priority (threads s' t) = p"
    "p < 32"
proof -
  show p: "p < 32" using assms(2) by (auto simp: rt_sched_thread_change_priority_def split: if_splits)
  show "kinv s'" "reprio s s'" "threads s' = (threads s)(t := threads s' t)" "current_priority (threads s' t) = p"
    using change_prio_ready [OF assms(1) p _ assms(2)] change_prio_other [OF assms(1) p _ assms(2)] by blast+
qed

lemma change_prio_total: "p < 32 \<Longrightarrow> \<exists>s'. rt_sched_thread_change_priority t p s = Some s'"
  by (simp add: rt_sched_thread_change_priority_def)

text \<open>The thread moves to its new place in the queue.\<close>

lemma requeue_result:
  assumes inv: "kinv s" and susp: "th_suspended (threads s t)"
    and pend: "pending_object (threads s t) = Some i" "mtx_live s i" "owner (mtx_of s i) \<noteq> None"
    and run: "rt_susp_list_enqueue (Mutex_q i) t fl (list_remove_thread t s) = Some s'"
  shows "kinv s'" "reprio s s'" "threads s' = threads s" "ipc s' = ipc s"
    "mtx_q s' i = susp_joined fl t (list_remove_thread t s) (Mutex_q i)"
proof -
  let ?s = "list_remove_thread t s"
  note tok = sched_invD(3) [OF kinvD(1) [OF inv], of t, simplified]
  have np: "t \<notin> set (tls s (Prio p))" "t \<notin> set (tls s Defunct)" for p
    using thread_okD(1,4) [OF tok] susp by (force simp: suspended_stat)+
  have "sched_inv_but {t} ?s"
  proof -
    have "thread_ok (ls_remove (tls s) t) (current s) u (threads s u)" if "u \<noteq> t" for u
      using that sched_invD(3) [OF kinvD(1) [OF inv], of u]
      by (subst thread_ok_list_cong [where L' = "tls s"]) auto
    moreover have "group_ok (ls_remove (tls s) t) (ready_group s)"
      using sched_invD(2) [OF kinvD(1) [OF inv]] np(1) by (simp add: group_ok_def)
    ultimately show ?thesis
      using sched_invD(1) [OF kinvD(1) [OF inv]] by (simp add: sched_inv_but_def wf_ls_remove)
  qed
  note e = enqueue_inv [OF run this]
  have ul: "unlinked (tls ?s) t" by simp
  note e = e [OF ul]
  have tls: "t \<in> set (tls s' h) \<longleftrightarrow> h = Susp (Mutex_q i)" for h
    by (auto simp: e(2))
  have "thread_ok (tls s') (current s) t (threads s t)"
    using tok susp by (auto simp: thread_ok_def tls suspended_stat)
  moreover have thr: "threads s' = threads s" using e(3) by simp
  ultimately have si: "sched_inv s'" using e(1,6) by (auto simp: sched_inv_but_def)
  show "threads s' = threads s" "ipc s' = ipc s" using e by simp_all
  show "kinv s'" using si kinvD(2,3) [OF inv] e(3,4) by (simp add: kinv_but_def)
  show "mtx_q s' i = susp_joined fl t ?s (Mutex_q i)" by (simp add: e(2))
  have "shrunk (\<lambda>q. \<not> is_mutex_q q) s s'"
    unfolding shrunk_def by (auto simp: e(2) thr is_mutex_q_def ls_remove_def)
  moreover have "u \<in> set (mtx_q s' j) \<Longrightarrow> u \<in> set (mtx_q s j) \<or> u = t \<and> j = i" for u j
    by (auto simp: e(2) split: if_splits)
  ultimately show "reprio s s'"
    using pend e thr np(2) by (auto simp: reprio_def mtx_eq_def intro: exI [of _ "mutexes (ipc s)"])
qed

subsection \<open>Propagation along a chain of owners\<close>

lemma mutex_upd_simps [simp]:
  "threads (upd_mutex i f s) = threads s" "tls (upd_mutex i f s) = tls s" "tm (upd_mutex i f s) = tm s"
  "current (upd_mutex i f s) = current s" "lock_nest (upd_mutex i f s) = lock_nest s"
  "irq_nest (upd_mutex i f s) = irq_nest s" "ready_group (upd_mutex i f s) = ready_group s"
  "mutexes (ipc (upd_mutex i f s)) j = (if j = i then f (mtx_of s i) else mtx_of s j)"
  "taken (ipc (upd_mutex i f s)) = taken (ipc s)" "kinv_but X (upd_mutex i f s) = kinv_but X s"
  by (simp_all add: upd_mutex_def)

lemma shrunk_upd_mutex [simp]: "shrunk own s (upd_mutex i f s') = shrunk own s s'"
  by (simp add: upd_mutex_def)

lemma reprio_mutex_priority: "reprio s (upd_mutex i (\<lambda>x. x\<lparr>mtx_priority := p\<rparr>) s)"
  by (auto simp: reprio_def mtx_eq_def) (auto simp: upd_mutex_def)

lemma update_priority_result:
  "reprio s (mutex_update_priority i s)" "kinv (mutex_update_priority i s) = kinv s"
  "threads (mutex_update_priority i s) = threads s" "tls (mutex_update_priority i s) = tls s"
  "mtx_priority (mtx_of (mutex_update_priority i s) i) =
     (case mtx_q s i of [] \<Rightarrow> 0xff | u # _ \<Rightarrow> current_priority (threads s u))"
  by (auto simp: mutex_update_priority_def reprio_mutex_priority rt_sched_thread_get_curr_prio_def split: list.split)

text \<open>The priority a thread inherits from the mutexes it holds, and the ceilings.\<close>

lemma min_fold_start:
  fixes f :: "'a \<Rightarrow> u8"
  shows "fold (\<lambda>i p. if f i < p then f i else p) is p \<le> p"
  by (induction "is" arbitrary: p) (auto intro: order_trans [OF _ less_imp_le])

lemma min_fold_elem:
  fixes f :: "'a \<Rightarrow> u8"
  shows "i \<in> set is \<Longrightarrow> fold (\<lambda>i p. if f i < p then f i else p) is p \<le> f i"
  by (induction "is" arbitrary: p) (auto intro: min_fold_start order_trans [OF min_fold_start] simp: not_less)

lemma get_mutex_priority_le:
  "thread_get_mutex_priority t s \<le> init_priority (threads s t)"
  "i \<in> set (taken (ipc s) t) \<Longrightarrow> thread_get_mutex_priority t s \<le> mtx_priority (mtx_of s i)"
  "i \<in> set (taken (ipc s) t) \<Longrightarrow> thread_get_mutex_priority t s \<le> ceiling_priority (mtx_of s i)"
proof -
  define f where "f i = (if mtx_priority (mtx_of s i) < ceiling_priority (mtx_of s i)
    then mtx_priority (mtx_of s i) else ceiling_priority (mtx_of s i))" for i
  have eq: "thread_get_mutex_priority t s =
      fold (\<lambda>i p. if f i < p then f i else p) (taken (ipc s) t) (init_priority (threads s t))"
    unfolding thread_get_mutex_priority_def rt_sched_thread_get_init_prio_def Let_def f_def by (rule refl)
  have f: "f i \<le> mtx_priority (mtx_of s i)" "f i \<le> ceiling_priority (mtx_of s i)" by (auto simp: f_def not_less)
  show "thread_get_mutex_priority t s \<le> init_priority (threads s t)" unfolding eq by (rule min_fold_start)
  assume "i \<in> set (taken (ipc s) t)"
  then have "thread_get_mutex_priority t s \<le> f i" unfolding eq by (rule min_fold_elem)
  then show "thread_get_mutex_priority t s \<le> mtx_priority (mtx_of s i)"
    "thread_get_mutex_priority t s \<le> ceiling_priority (mtx_of s i)" using f order_trans by blast+
qed

text \<open>\<open>t\<close> waits for a mutex of \<open>own\<close>.\<close>

definition waits_for :: "kst \<Rightarrow> tid \<Rightarrow> nat \<Rightarrow> tid \<Rightarrow> bool" where
  "waits_for s t i own \<longleftrightarrow> th_suspended (threads s t) \<and> pending_object (threads s t) = Some i \<and> mtx_live s i \<and>
     owner (mtx_of s i) = Some own"

definition waits :: "kst \<Rightarrow> tid \<Rightarrow> bool" where
  "waits s t \<longleftrightarrow> th_suspended (threads s t) \<and> (\<exists>i. pending_object (threads s t) = Some i \<and> mtx_live s i)"

lemma reprio_waits:
  assumes "reprio s s'"
  shows "waits_for s' t i own = waits_for s t i own" "waits s' t = waits s t"
  using prio_eqD(2,8) [OF reprioD(7) [OF assms, of t]] mtx_eqD(1,3) [OF reprioD(2) [OF assms]]
  by (auto simp: waits_for_def waits_def)

text \<open>The body of the loop, with the recursive call as a parameter.\<close>

definition update_body :: "(tid \<Rightarrow> kst \<Rightarrow> kst option) \<Rightarrow> tid \<Rightarrow> kst \<Rightarrow> kst option" where
  "update_body loop t s =
     (if rt_sched_thread_is_suspended t s then
        (case pending_object (threads s t) of
           None \<Rightarrow> Some s
         | Some i \<Rightarrow>
             if mtx_live s i then
               do { let s = list_remove_thread t s;
                    s \<leftarrow> rt_susp_list_enqueue (Mutex_q i) t (uint (mtx_flag (mtx_of s i))) s;
                    let s = mutex_update_priority i s;
                    own \<leftarrow> owner (mtx_of s i);
                    let mutex_priority = thread_get_mutex_priority own s;
                    if mutex_priority \<noteq> rt_sched_thread_get_curr_prio own s
                    then do { s \<leftarrow> rt_sched_thread_change_priority own mutex_priority s; loop own s }
                    else Some s }
             else Some s)
      else Some s)"

lemma update_loop_body: "thread_update_loop t s = update_body thread_update_loop t s"
  unfolding update_body_def by (rule thread_update_loop.simps)

lemma update_body_end: "\<not> waits s t \<Longrightarrow> update_body loop t s = Some s"
  by (auto simp: update_body_def waits_def rt_sched_thread_is_suspended_def th_suspended_def split: option.splits)

text \<open>One step of the loop, from a waiting thread to the owner.\<close>

definition boost_link :: "tid \<Rightarrow> nat \<Rightarrow> kst \<Rightarrow> kst option" where
  "boost_link t i s = do { s \<leftarrow> rt_susp_list_enqueue (Mutex_q i) t (uint (mtx_flag (mtx_of s i))) (list_remove_thread t s);
     Some (mutex_update_priority i s) }"

lemma boost_link_owner: "boost_link t i s = Some s' \<Longrightarrow> owner (mtx_of s' i) = owner (mtx_of s i)"
  using mtx_eqD(3) [OF reprioD(2) [OF update_priority_result(1)]]
  by (auto simp: boost_link_def rt_susp_list_enqueue_def bind_Some split: if_splits)

lemma update_body_link:
  assumes "waits s t" "pending_object (threads s t) = Some i"
  shows "update_body loop t s =
    do { s \<leftarrow> boost_link t i s;
         own \<leftarrow> owner (mtx_of s i);
         let p = thread_get_mutex_priority own s;
         if p \<noteq> current_priority (threads s own)
         then do { s \<leftarrow> rt_sched_thread_change_priority own p s; loop own s }
         else Some s }"
  using assms
  by (auto simp: update_body_def boost_link_def waits_def rt_sched_thread_is_suspended_def
      th_suspended_def Let_def rt_sched_thread_get_curr_prio_def)

text \<open>The first waiting thread is at least as urgent as the one that was queued again.\<close>

lemma prio_insert_head:
  fixes pr :: "tid \<Rightarrow> u8"
  shows "\<exists>u us. susp_prio_insert pr t ns = u # us \<and> pr u \<le> pr t"
  by (cases ns) (auto simp: not_less)

lemma boost_link_result:
  assumes inv: "kinv s" and w: "waits_for s t i own" and run: "boost_link t i s = Some s'"
  shows "kinv s'" "reprio s s'" "threads s' = threads s" "t \<in> set (mtx_q s' i)"
    "mtx_flag (mtx_of s i) = 1 \<Longrightarrow> mtx_priority (mtx_of s' i) \<le> current_priority (threads s t)"
proof -
  let ?s = "list_remove_thread t s"
  obtain s1 where s1: "rt_susp_list_enqueue (Mutex_q i) t (uint (mtx_flag (mtx_of s i))) ?s = Some s1"
      and s': "s' = mutex_update_priority i s1"
    using run by (auto simp: boost_link_def bind_Some)
  note r = requeue_result [OF inv _ _ _ _ s1]
  have w': "th_suspended (threads s t)" "pending_object (threads s t) = Some i" "mtx_live s i" "owner (mtx_of s i) \<noteq> None"
    using w by (auto simp: waits_for_def)
  note r = r [OF w'] and u = update_priority_result [where s = s1 and i = i]
  show "kinv s'" "threads s' = threads s" "t \<in> set (mtx_q s' i)"
    using r u by (simp_all add: s')
  show "reprio s s'" unfolding s' by (rule reprio_trans [OF r(2) u(1)])
  assume "mtx_flag (mtx_of s i) = 1"
  then have "mtx_q s1 i = susp_prio_insert (\<lambda>u. current_priority (threads s u)) t (tls ?s (Susp (Mutex_q i)))"
    using r(5) by (simp add: susp_joined_def)
  then show "mtx_priority (mtx_of s' i) \<le> current_priority (threads s t)"
    using u(5) r(3) prio_insert_head [of "\<lambda>u. current_priority (threads s u)" t "tls ?s (Susp (Mutex_q i))"]
    by (auto simp: s')
qed

lemma update_loop_result:
  assumes "thread_update_loop t s = Some s'"
  shows "kinv s \<Longrightarrow> kinv s' \<and> reprio s s'"
  using assms
proof (induction rule: thread_update_loop.raw_induct [rotated, consumes 1, case_names step])
  case (step loop t s s')
  have body: "update_body loop t s = Some s'" using step.hyps by (simp only: update_body_def)
  show ?case
  proof (cases "waits s t")
    case True
    then obtain i where i: "pending_object (threads s t) = Some i" by (auto simp: waits_def)
    obtain s1 own where s1: "boost_link t i s = Some s1" "owner (mtx_of s1 i) = Some own"
        "(if thread_get_mutex_priority own s1 \<noteq> current_priority (threads s1 own)
          then do { s \<leftarrow> rt_sched_thread_change_priority own (thread_get_mutex_priority own s1) s1; loop own s }
          else Some s1) = Some s'"
      using body by (auto simp: update_body_link [OF True i] bind_Some Let_def)
    have w: "waits_for s t i own"
      using True i s1(2) boost_link_owner [OF s1(1)] by (auto simp: waits_def waits_for_def)
    note b = boost_link_result(1,2) [OF step.prems w s1(1)]
    show ?thesis
    proof (cases "thread_get_mutex_priority own s1 = current_priority (threads s1 own)")
      case False
      then obtain s2 where s2: "rt_sched_thread_change_priority own (thread_get_mutex_priority own s1) s1 = Some s2"
          "loop own s2 = Some s'"
        using s1(3) by (auto simp: bind_Some)
      note c = change_prio_result(1,2) [OF b(1) s2(1)]
      show ?thesis
        using step.IH [OF s2(2) c(1)] reprio_trans [OF reprio_trans [OF b(2) c(2)]] by blast
    qed (use s1(3) b in simp)
  qed (use body step.prems in \<open>simp add: update_body_end\<close>)
qed

lemma update_priority_loop:
  assumes "thread_update_priority t p s = Some s'" "kinv s"
  shows "kinv s'" "reprio s s'"
proof -
  obtain s1 where s1: "rt_sched_thread_change_priority t p s = Some s1" "thread_update_loop t s1 = Some s'"
    using assms(1) by (auto simp: thread_update_priority_def bind_Some)
  note c = change_prio_result(1,2) [OF assms(2) s1(1)]
  show "kinv s'" "reprio s s'"
    using update_loop_result [OF s1(2) c(1)] reprio_trans [OF c(2)] by blast+
qed

text \<open>The threads that wait for each other's mutexes, from \<open>t\<close> on.\<close>

fun owner_chain :: "kst \<Rightarrow> tid \<Rightarrow> tid list \<Rightarrow> bool" where
  "owner_chain s t [] \<longleftrightarrow> \<not> waits s t"
| "owner_chain s t (u # us) \<longleftrightarrow>
     (case pending_object (threads s t) of None \<Rightarrow> False | Some i \<Rightarrow> waits_for s t i u) \<and> owner_chain s u us"

lemma reprio_chain: "reprio s s' \<Longrightarrow> owner_chain s' t us = owner_chain s t us"
  by (induction us arbitrary: t)
    (simp_all add: reprio_waits prio_eqD(2) [OF reprioD(7)] split: option.split)

lemma waits_for_waits: "waits_for s t i own \<Longrightarrow> waits s t \<and> pending_object (threads s t) = Some i"
  by (simp add: waits_for_def waits_def)

lemma waits_for_mutex:
  assumes "waits_for s t i own" "mutex_inv s"
  shows "mtx_flag (mtx_of s i) = 1" "i \<in> set (taken (ipc s) own)"
  using mutex_invD(2) [OF assms(2), of i] assms(1) by (auto simp: mutex_ok_def waits_for_def)

lemma boost_link_total:
  "mtx_flag (mtx_of s i) = 1 \<Longrightarrow> \<exists>s'. boost_link t i s = Some s'"
  by (simp add: boost_link_def rt_susp_list_enqueue_def)

text \<open>On a chain that ends the loop returns.\<close>

lemma update_loop_total:
  assumes "kinv s" "mutex_inv s" "owner_chain s t us" "\<forall>u\<in>set us. init_priority (threads s u) < 32"
  shows "\<exists>s'. thread_update_loop t s = Some s'"
  using assms
proof (induction us arbitrary: t s)
  case Nil
  then show ?case by (simp add: update_loop_body [of t s] update_body_end)
next
  case (Cons own us)
  then obtain i where w: "waits_for s t i own" by (auto split: option.splits)
  note m = waits_for_mutex [OF w Cons.prems(2)] and ww = waits_for_waits [OF w]
  obtain s1 where s1: "boost_link t i s = Some s1" using boost_link_total [OF m(1)] by blast
  note b = boost_link_result [OF Cons.prems(1) w s1]
  have own: "owner (mtx_of s1 i) = Some own" using boost_link_owner [OF s1] w by (simp add: waits_for_def)
  let ?p = "thread_get_mutex_priority own s1"
  have eq: "thread_update_loop t s = (if ?p \<noteq> current_priority (threads s1 own)
      then do { s \<leftarrow> rt_sched_thread_change_priority own ?p s1; thread_update_loop own s } else Some s1)"
    using ww s1 own by (simp add: update_loop_body [of t s] update_body_link Let_def)
  have "?p < 32"
    using get_mutex_priority_le(1) [of own s1] Cons.prems(4) b(3) by (auto intro: le_less_trans)
  then obtain s2 where s2: "rt_sched_thread_change_priority own ?p s1 = Some s2" using change_prio_total by blast
  note c = change_prio_result [OF b(1) s2] and r = reprio_trans [OF b(2) change_prio_result(2) [OF b(1) s2]]
  have "init_priority (threads s2 u) < 32" if "u \<in> set us" for u
    using Cons.prems(4) that prio_eqD(3) [OF reprioD(7) [OF r, of u]] by simp
  then show ?case
    using Cons.IH [OF c(1) reprio_mutex_inv [OF r Cons.prems(2)]] Cons.prems(3) reprio_chain [OF r] eq s2 by auto
qed

text \<open>
  Every owner on the chain becomes at least as urgent as the thread at its start, provided
  the owners among themselves have inherited their priorities before.
\<close>

lemma update_loop_inherits:
  assumes "kinv s" "mutex_inv s" "owner_chain s t us" "distinct us"
    "sorted_wrt (\<lambda>u v. current_priority (threads s v) \<le> current_priority (threads s u)) us"
    "thread_update_loop t s = Some s'"
  shows "(\<forall>u\<in>set us. current_priority (threads s' u) \<le> current_priority (threads s t)) \<and>
    (\<forall>u. u \<notin> set us \<longrightarrow> threads s' u = threads s u)"
  using assms
proof (induction us arbitrary: t s)
  case Nil
  then show ?case by (simp add: update_loop_body [of t s] update_body_end)
next
  case (Cons own us)
  then obtain i where w: "waits_for s t i own" by (auto split: option.splits)
  note m = waits_for_mutex [OF w Cons.prems(2)] and ww = waits_for_waits [OF w]
  obtain s1 where s1: "boost_link t i s = Some s1" using boost_link_total [OF m(1)] by blast
  note b = boost_link_result [OF Cons.prems(1) w s1]
  have own: "owner (mtx_of s1 i) = Some own" using boost_link_owner [OF s1] w by (simp add: waits_for_def)
  let ?p = "thread_get_mutex_priority own s1"
  have eq: "(if ?p \<noteq> current_priority (threads s1 own)
      then do { s \<leftarrow> rt_sched_thread_change_priority own ?p s1; thread_update_loop own s } else Some s1) = Some s'"
    using ww s1 own Cons.prems(6) by (simp add: update_loop_body [of t s] update_body_link Let_def)
  have "?p \<le> mtx_priority (mtx_of s1 i)"
    using get_mutex_priority_le(2) [of i s1 own] m(2) reprioD(1) [OF b(2)] by simp
  then have le: "?p \<le> current_priority (threads s t)" using b(5) [OF m(1)] by (rule order_trans)
  show ?case
  proof (cases "?p = current_priority (threads s1 own)")
    case True
    then have "current_priority (threads s' u) \<le> current_priority (threads s t)" if "u \<in> set (own # us)" for u
      using that le eq b(3) Cons.prems(5) by (auto intro: order_trans)
    then show ?thesis using True eq b(3) by simp
  next
    case False
    then obtain s2 where s2: "rt_sched_thread_change_priority own ?p s1 = Some s2" "thread_update_loop own s2 = Some s'"
      using eq by (auto simp: bind_Some)
    note c = change_prio_result [OF b(1) s2(1)] and r = reprio_trans [OF b(2) change_prio_result(2) [OF b(1) s2(1)]]
    have same: "u \<noteq> own \<Longrightarrow> threads s2 u = threads s u" for u using fun_cong [OF c(3), of u] b(3) by simp
    have "u \<in> set us \<Longrightarrow> threads s2 u = threads s u" for u using same [of u] Cons.prems(4) by auto
    then have "sorted_wrt (\<lambda>u v. current_priority (threads s2 v) \<le> current_priority (threads s2 u)) us"
      using Cons.prems(5) by (auto elim!: sorted_wrt_mono_rel [rotated])
    then have "(\<forall>u\<in>set us. current_priority (threads s' u) \<le> ?p) \<and> (\<forall>u. u \<notin> set us \<longrightarrow> threads s' u = threads s2 u)"
      using Cons.IH [OF c(1) reprio_mutex_inv [OF r Cons.prems(2)], of own] Cons.prems(3,4) reprio_chain [OF r] s2(2) c(4)
      by simp
    then show ?thesis using le c(4) same Cons.prems(4) by (auto intro: order_trans)
  qed
qed

end
