(* ===== verification/RT_MutexOps.thy ===== *)
theory RT_MutexOps
  imports RT_MutexInv
begin

text \<open>
  The operations of the mutexes: they keep the invariants; a release hands the mutex to the
  first waiting thread; a recursive take and its release cancel; a blocking take passes the
  priority on to the owner and to everyone the owner waits for.
\<close>

definition kmtx_inv :: "kst \<Rightarrow> bool" where
  "kmtx_inv s \<longleftrightarrow> kinv s \<and> mutex_inv s"

lemma kmtx_invD: "kmtx_inv s \<Longrightarrow> kinv s" "kmtx_inv s \<Longrightarrow> mutex_inv s" "kmtx_inv s \<Longrightarrow> mutex_ok s i"
  by (simp_all add: kmtx_inv_def mutex_inv_def)

lemma kmtx_reprio: "reprio s s' \<Longrightarrow> kinv s' \<Longrightarrow> kmtx_inv s \<Longrightarrow> kmtx_inv s'"
  by (simp add: kmtx_inv_def reprio_mutex_inv)

subsection \<open>The lock of a mutex\<close>

lemma spin_lock_simps [simp]:
  "threads (rt_spin_lock s) = threads s" "tls (rt_spin_lock s) = tls s" "ipc (rt_spin_lock s) = ipc s"
  "tm (rt_spin_lock s) = tm s" "current (rt_spin_lock s) = current s" "irq_nest (rt_spin_lock s) = irq_nest s"
  "ready_group (rt_spin_lock s) = ready_group s" "lock_nest (rt_spin_lock s) = lock_nest s + 1"
  "kinv_but X (rt_spin_lock s) = kinv_but X s" "mutex_inv (rt_spin_lock s) = mutex_inv s"
  "kmtx_inv (rt_spin_lock s) = kmtx_inv s"
  by (simp_all add: rt_spin_lock_def rt_enter_critical_def mtxc.ok_lock_nest kmtx_inv_def)

lemma kmtx_unlock: "rt_spin_unlock s = Some s' \<Longrightarrow> kmtx_inv s \<Longrightarrow> kmtx_inv s'"
  by (auto simp: rt_spin_unlock_def kmtx_inv_def intro: kinv_exit_critical mtxc.ok_exit_critical)

lemma kmtx_schedule: "rt_schedule s = Some s' \<Longrightarrow> kmtx_inv s \<Longrightarrow> kmtx_inv s'"
  by (auto simp: kmtx_inv_def intro: kinv_schedule mtxc.ok_schedule)

lemma kmtx_set_error: "kmtx_inv s \<Longrightarrow> kmtx_inv (upd_thread t (\<lambda>x. x\<lparr>error := e\<rparr>) s)"
  by (simp add: kmtx_inv_def kinv_set_error mtxc.ok_set_error)

text \<open>Leaving the lock only schedules: the threads keep everything but the status.\<close>

lemma unlock_frame:
  assumes "rt_spin_unlock s = Some s'" "kinv s"
  shows "ipc s' = ipc s" "tls s' (Susp q) = tls s (Susp q)" "(threads s' u)\<lparr>stat := 0\<rparr> = (threads s u)\<lparr>stat := 0\<rparr>"
    "runnable (threads s' u) = runnable (threads s u)" "\<not> runnable (threads s u) \<Longrightarrow> th_stat (threads s' u) = th_stat (threads s u)"
    "tm s' = tm s" "irq_nest s' = irq_nest s"
proof -
  have "sched_frame (s\<lparr>lock_nest := lock_nest s'\<rparr>) s'"
    using assms schedule_frame [of "s\<lparr>lock_nest := 0\<rparr>" s']
    by (auto simp: rt_spin_unlock_def rt_exit_critical_def Let_def sched_frame_def kinvD(1) split: if_splits option.splits)
  then show "ipc s' = ipc s" "tls s' (Susp q) = tls s (Susp q)" "(threads s' u)\<lparr>stat := 0\<rparr> = (threads s u)\<lparr>stat := 0\<rparr>"
    "runnable (threads s' u) = runnable (threads s u)" "\<not> runnable (threads s u) \<Longrightarrow> th_stat (threads s' u) = th_stat (threads s u)"
    "tm s' = tm s" "irq_nest s' = irq_nest s"
    by (auto simp: sched_frame_def)
qed

text \<open>A thread is ready exactly when the bitmap is not empty.\<close>

lemma ready_exists: "kinv s \<Longrightarrow> ready_group s \<noteq> 0 \<longleftrightarrow> (\<exists>t. th_stat (threads s t) = RT_THREAD_READY)"
proof -
  assume inv: "kinv s"
  have r: "t \<in> set (tls s (Prio p)) \<longleftrightarrow> th_stat (threads s t) = RT_THREAD_READY \<and> p = prio_of (threads s t)" for t p
    using sched_invD(3) [OF kinvD(1) [OF inv], of t] by (simp add: thread_ok_def)
  have m: "th_stat (threads s t) = RT_THREAD_READY \<Longrightarrow> prio_of (threads s t) < 32" for t
    using sched_invD(3) [OF kinvD(1) [OF inv], of t] by (simp add: thread_ok_def mask_ok_def)
  have "ready_group s = 0 \<longleftrightarrow> (\<forall>p<32. \<forall>t. t \<notin> set (tls s (Prio p)))"
    using group_ok_zero [OF sched_invD(2) [OF kinvD(1) [OF inv]]] by (metis empty_iff empty_set last_in_set)
  then show ?thesis using r m by auto
qed

lemma runnable_not_queued:
  assumes "kinv s" "runnable (threads s t)"
  shows "t \<notin> set (tls s (Susp q))"
  using thread_okD(3) [OF sched_invD(3) [OF kinvD(1) [OF assms(1)], of t], of q] assms(2) runnable_not_suspended
  by auto

subsection \<open>Setting up and deleting\<close>

text \<open>The invariant with the mutex \<open>i\<close> between two states.\<close>

definition mutex_inv_but :: "nat \<Rightarrow> kst \<Rightarrow> bool" where
  "mutex_inv_but i s \<longleftrightarrow> wf_ls (taken (ipc s)) \<and> (\<forall>j. j \<noteq> i \<longrightarrow> mutex_ok s j) \<and> unlinked (taken (ipc s)) i \<and>
     (\<forall>u\<in>set (mtx_q s i). pending_object (threads s u) = Some i)"

lemma mutex_inv_settle:
  "mutex_inv_but i s \<Longrightarrow> mutex_ok s i \<Longrightarrow> mutex_inv s"
  by (auto simp: mutex_inv_def mutex_inv_but_def)

lemma mutex_ok_other:
  assumes "mutex_ok s j" "mtx_type (mtx_of s' j) = mtx_type (mtx_of s j)" "mtx_flag (mtx_of s' j) = mtx_flag (mtx_of s j)"
    "owner (mtx_of s' j) = owner (mtx_of s j)" "hold (mtx_of s' j) = hold (mtx_of s j)"
    "\<And>t. j \<in> set (taken (ipc s') t) \<longleftrightarrow> j \<in> set (taken (ipc s) t)" "mtx_q s' j = mtx_q s j"
    "\<And>u. u \<in> set (mtx_q s j) \<Longrightarrow> pending_object (threads s' u) = pending_object (threads s u)"
  shows "mutex_ok s' j"
  unfolding mutex_ok_def assms(2-7) using assms(1,8) by (simp add: mutex_ok_def)

lemma reprio_inv_but:
  assumes "reprio s s'" "mutex_inv_but i s"
  shows "mutex_inv_but i s'"
proof -
  have "u \<in> set (mtx_q s' i) \<Longrightarrow> u \<in> set (mtx_q s i) \<or> pending_object (threads s u) = Some i" for u
    using assms(1) by (auto simp: reprio_def)
  then have "pending_object (threads s' u) = Some i" if "u \<in> set (mtx_q s' i)" for u
    using assms(2) that prio_eqD(2) [OF reprioD(7) [OF assms(1)], of u] by (auto simp: mutex_inv_but_def)
  then show ?thesis
    using assms reprio_mutex_ok [OF assms(1)] reprioD(1) [OF assms(1)] by (simp add: mutex_inv_but_def)
qed

interpretation mtxb: object_class is_mutex_q "\<lambda>c. (mutexes c, taken c)" "mutex_inv_but i" for i
proof
  fix s s'
  assume a: "mutex_inv_but i s" "(mutexes (ipc s'), taken (ipc s')) = (mutexes (ipc s), taken (ipc s))" "shrunk is_mutex_q s s'"
  note sh = shrunkD [OF a(3), of "Mutex_q _"]
  have "mutex_ok s' j" if "j \<noteq> i" for j
  proof (rule mutex_ok_queue [of s])
    show "mutex_ok s j" using a(1) that by (simp add: mutex_inv_but_def)
    then show "pending_object (threads s' u) = Some j" if "u \<in> set (mtx_q s' j)" for u
      using sh(2) [OF _ that] by (auto simp: mutex_ok_def wait_eq_def is_mutex_q_def)
    show "mtx_q s' j = []" if "mtx_q s j = []" using sh(3) [OF _ that] by (simp add: is_mutex_q_def)
  qed (use a(2) in simp_all)
  moreover have "pending_object (threads s' u) = Some i" if "u \<in> set (mtx_q s' i)" for u
    using sh(2) [OF _ that] a(1) by (auto simp: mutex_inv_but_def wait_eq_def is_mutex_q_def)
  ultimately show "mutex_inv_but i s'" using a by (simp add: mutex_inv_but_def)
qed

text \<open>Giving a mutex that is in nobody's hands its initial state.\<close>

lemma mutex_setup:
  assumes "kmtx_inv s" "\<not> mtx_live s i"
    "s' = mutex_object_init i (upd_mutex i (\<lambda>x. x\<lparr>mtx_type := ty\<rparr>) s)"
  shows "kmtx_inv s'"
proof -
  have q: "mtx_q s i = []" and ul: "unlinked (taken (ipc s)) i"
    using kmtx_invD(3) [OF assms(1), of i] assms(2) by (auto simp: mutex_ok_def unlinked_def)
  then have "ls_init (tls s) (Susp (Mutex_q i)) = tls s" by (simp add: ls_init_def fun_upd_idem)
  then have s': "s' = upd_mutex i (\<lambda>x. x\<lparr>mtx_type := ty, owner := None, mtx_priority := 0xff, hold := 0,
      ceiling_priority := 0xff, mtx_flag := 1\<rparr>) s"
    by (simp add: assms(3) mutex_object_init_def upd_mutex_def)
  have "mutex_ok s' j" for j
    using kmtx_invD(3) [OF assms(1), of j] q ul by (cases "j = i") (auto simp: s' mutex_ok_def unlinked_def split: option.splits)
  then show ?thesis using assms(1) by (simp add: kmtx_inv_def mutex_inv_def s')
qed

lemma kmtx_init:
  assumes "rt_mutex_init i fl s = Some (e, s')" "kmtx_inv s"
  shows "kmtx_inv s'"
proof (rule mutex_setup [OF assms(2)])
  show "\<not> mtx_live s i"
    using assms(1) by (auto simp: rt_mutex_init_def object_init_def bind_Some split: if_splits)
  show "s' = mutex_object_init i (upd_mutex i (\<lambda>x. x\<lparr>mtx_type := RT_Object_Class_Mutex OR RT_Object_Class_Static\<rparr>) s)"
    using assms(1) by (auto simp: rt_mutex_init_def object_init_def bind_Some split: if_splits)
qed

lemma kmtx_create:
  assumes "rt_mutex_create obj fl s = Some (r, s')" "kmtx_inv s" "\<And>i. obj = Some i \<Longrightarrow> \<not> mtx_live s i"
  shows "kmtx_inv s'"
proof (cases obj)
  case (Some i)
  then have "s' = mutex_object_init i (upd_mutex i (\<lambda>x. x\<lparr>mtx_type := object_allocate RT_Object_Class_Mutex\<rparr>) s)"
    using assms(1) by (auto simp: rt_mutex_create_def debug_not_in_interrupt_def Let_def split: if_splits)
  then show ?thesis using mutex_setup [OF assms(2)] assms(3) Some by blast
qed (use assms in \<open>auto simp: rt_mutex_create_def debug_not_in_interrupt_def split: if_splits\<close>)

lemma taken_remove_simps [simp]:
  "threads (taken_remove i s) = threads s" "tls (taken_remove i s) = tls s" "tm (taken_remove i s) = tm s"
  "current (taken_remove i s) = current s" "lock_nest (taken_remove i s) = lock_nest s"
  "irq_nest (taken_remove i s) = irq_nest s" "ready_group (taken_remove i s) = ready_group s"
  "mutexes (ipc (taken_remove i s)) = mutexes (ipc s)" "kinv_but X (taken_remove i s) = kinv_but X s"
  "taken (ipc (taken_remove i s)) = ls_remove (taken (ipc s)) i"
  by (simp_all add: taken_remove_def)

lemma taken_remove_inv:
  assumes "mutex_inv s"
  shows "mutex_inv_but i (taken_remove i s)"
proof -
  have "mutex_ok (taken_remove i s) j" if "j \<noteq> i" for j
    using mutex_invD(2) [OF assms, of j] that by (auto simp: mutex_ok_def split: option.splits)
  moreover have "\<forall>u\<in>set (mtx_q s i). pending_object (threads s u) = Some i"
    using mutex_invD(2) [OF assms, of i] by (simp add: mutex_ok_def)
  ultimately show ?thesis using assms by (simp add: mutex_inv_but_def mutex_inv_def wf_ls_remove)
qed

lemma change_prio_susp:
  assumes "rt_sched_thread_change_priority t p s = Some s'" "kinv s"
  shows "ipc s' = ipc s" "tls s' (Susp q) = tls s (Susp q)"
proof -
  show "ipc s' = ipc s"
    using assms(1) by (auto simp: rt_sched_thread_change_priority_def split: if_splits)
  have "t \<notin> set (tls s (Susp q))" if "th_stat (threads s t) = RT_THREAD_READY"
    using runnable_not_queued [OF assms(2), of t q] that by (simp add: runnable_def)
  then show "tls s' (Susp q) = tls s (Susp q)"
    using assms(1) by (auto simp: rt_sched_thread_change_priority_def split: if_splits)
qed

lemma check_update_result:
  assumes "check_and_update_prio t i s = Some (b, s')" "kinv s"
  shows "kinv s'" "reprio s s'" "ipc s' = ipc s" "tls s' (Susp q) = tls s (Susp q)"
proof -
  have "kinv s' \<and> reprio s s' \<and> ipc s' = ipc s \<and> tls s' (Susp q) = tls s (Susp q)"
    using assms change_prio_result(1,2) [OF assms(2)] change_prio_susp [OF _ assms(2)]
    by (auto simp: check_and_update_prio_def bind_Some split: if_splits)
  then show "kinv s'" "reprio s s'" "ipc s' = ipc s" "tls s' (Susp q) = tls s (Susp q)" by auto
qed

lemma resched_frame:
  assumes "rt_sched_unlock_n_resched s = Some s'" "kinv s"
  shows "kinv s'" "ipc s' = ipc s" "tls s' (Susp q) = tls s (Susp q)" "mutex_inv_but i s \<Longrightarrow> mutex_inv_but i s'"
proof -
  have "kinv s' \<and> ipc s' = ipc s \<and> tls s' (Susp q) = tls s (Susp q) \<and> (mutex_inv_but i s \<longrightarrow> mutex_inv_but i s')"
    using assms schedule_frame [of s s'] kinv_schedule [of s s'] mtxb.ok_schedule [of s s' i]
    by (auto simp: rt_sched_unlock_n_resched_def sched_frame_def kinvD(1) split: option.splits)
  then show "kinv s'" "ipc s' = ipc s" "tls s' (Susp q) = tls s (Susp q)" "mutex_inv_but i s \<Longrightarrow> mutex_inv_but i s'"
    by auto
qed

text \<open>After the common part of deletion and detaching, nobody holds the mutex or waits for it.\<close>

lemma before_delete_result:
  assumes run: "mutex_before_delete_detach i s = Some s'" and inv: "kmtx_inv s"
  shows "kinv s' \<and> mutex_inv_but i s' \<and> mtx_q s' i = []"
proof -
  obtain s1 where s1: "rt_susp_list_resume_all (Mutex_q i) RT_ERROR (rt_spin_lock s) = Some s1" "kinv s1" "mutex_inv s1"
      "ipc s1 = ipc s" "mtx_q s1 i = []"
    using mtxc.ok_resume_all [of "rt_spin_lock s" "Mutex_q i" 1] inv by (auto simp: kmtx_inv_def)
  define s2 where "s2 = taken_remove i s1"
  have i2: "kinv s2" "mutex_inv_but i s2" "mtx_q s2 i = []"
    using s1 taken_remove_inv by (simp_all add: s2_def)
  obtain s3 where s3: "(case owner (mtx_of s2 i) of None \<Rightarrow> Some s2 | Some own \<Rightarrow>
        do { (b, s) \<leftarrow> check_and_update_prio own i s2; if b then rt_sched_unlock_n_resched s else Some s }) = Some s3"
      and s': "rt_spin_unlock s3 = Some s'"
    using run s1(1) by (auto simp: mutex_before_delete_detach_def bind_Some Let_def simp flip: s2_def
        simp del: taken_remove_simps cong: option.case_cong)
  have i3: "kinv s3 \<and> mutex_inv_but i s3 \<and> mtx_q s3 i = []"
  proof (cases "owner (mtx_of s2 i)")
    case (Some own)
    then obtain b s4 where s4: "check_and_update_prio own i s2 = Some (b, s4)"
        "(if b then rt_sched_unlock_n_resched s4 else Some s4) = Some s3"
      using s3 by (auto simp: bind_Some)
    note c = check_update_result [OF s4(1) i2(1)]
    show ?thesis
      using s4(2) c i2 reprio_inv_but [OF c(2)] resched_frame [of s4 s3]
      by (auto split: if_splits)
  qed (use s3 i2 in simp)
  then show ?thesis
    using s' unlock_frame(2) [OF s'] kinv_exit_critical [of s3 s'] mtxb.ok_exit_critical [of s3 s' i]
    by (simp add: rt_spin_unlock_def)
qed

lemma kmtx_gone:
  assumes "kinv s" "mutex_inv_but i s" "mtx_q s i = []"
  shows "kmtx_inv (upd_mutex i (\<lambda>x. x\<lparr>mtx_type := object_detach (mtx_type x)\<rparr>) s)" (is "kmtx_inv ?s")
proof -
  have "mutex_ok ?s j" if "j \<noteq> i" for j
    by (rule mutex_ok_other [of s]) (use assms(2) that in \<open>simp_all add: mutex_inv_but_def\<close>)
  moreover have "mutex_ok ?s i"
    using assms(2,3) by (simp add: mutex_inv_but_def mutex_ok_def unlinked_def)
  ultimately have "mutex_ok ?s j" for j by (cases "j = i") simp_all
  then show ?thesis using assms by (simp add: kmtx_inv_def mutex_inv_def mutex_inv_but_def)
qed

lemma kmtx_detach:
  assumes "rt_mutex_detach i s = Some (e, s')" "kmtx_inv s"
  shows "kmtx_inv s'"
proof -
  obtain s1 where "mutex_before_delete_detach i s = Some s1"
      "s' = upd_mutex i (\<lambda>x. x\<lparr>mtx_type := object_detach (mtx_type x)\<rparr>) s1"
    using assms(1) by (auto simp: rt_mutex_detach_def bind_Some split: if_splits)
  then show ?thesis using before_delete_result [of i s s1] kmtx_gone [of s1 i] assms(2) by simp
qed

lemma kmtx_delete:
  assumes "rt_mutex_delete i s = Some (e, s')" "kmtx_inv s"
  shows "kmtx_inv s'"
proof -
  obtain s1 where "mutex_before_delete_detach i s = Some s1"
      "s' = upd_mutex i (\<lambda>x. x\<lparr>mtx_type := object_detach (mtx_type x)\<rparr>) s1"
    using assms(1) by (auto simp: rt_mutex_delete_def bind_Some split: if_splits)
  then show ?thesis using before_delete_result [of i s s1] kmtx_gone [of s1 i] assms(2) by simp
qed

subsection \<open>Giving up a wait, the ceiling\<close>

lemma unboost_result:
  assumes "mutex_unboost i t s = Some s'" "kinv s"
  shows "kinv s'" "reprio s s'"
proof -
  let ?s = "mutex_update_priority i s"
  note u = update_priority_result(1,2) [where s = s and i = i]
  have "s' = ?s \<or> (\<exists>own p. thread_update_priority own p ?s = Some s')"
    using assms(1) by (auto simp: mutex_unboost_def Let_def split: option.splits if_splits)
  then show "kinv s'" "reprio s s'"
    using u assms(2) update_priority_loop [of _ _ ?s s'] reprio_trans [OF u(1)] by auto
qed

lemma kinv_list_remove:
  assumes "kinv s" "th_suspended (threads s t) \<or> unlinked (tls s) t"
  shows "kinv (list_remove_thread t s)"
proof (cases "unlinked (tls s) t")
  case True
  then show ?thesis using assms(1) by (simp add: list_remove_thread_def)
next
  case False
  then have susp: "th_suspended (threads s t)" using assms(2) by simp
  note tok = sched_invD(3) [OF kinvD(1) [OF assms(1)], of t, simplified]
  have np: "t \<notin> set (tls s (Prio p))" for p
    using thread_okD(1) [OF tok, of p] susp by (auto simp: suspended_stat)
  have "thread_ok (ls_remove (tls s) t) (current s) u (threads s u)" for u
  proof (cases "u = t")
    case True
    then show ?thesis using tok susp by (auto simp: thread_ok_def suspended_stat)
  next
    case False
    then show ?thesis
      using sched_invD(3) [OF kinvD(1) [OF assms(1)], of u]
      by (subst thread_ok_list_cong [where L' = "tls s"]) auto
  qed
  moreover have "group_ok (ls_remove (tls s) t) (ready_group s)"
    using sched_invD(2) [OF kinvD(1) [OF assms(1)]] np by (simp add: group_ok_def)
  ultimately show ?thesis
    using kinvD [OF assms(1)] sched_invD(1) [OF kinvD(1) [OF assms(1)]]
    by (simp add: kinv_but_def sched_inv_but_def wf_ls_remove)
qed

lemma shrunk_list_remove: "shrunk own s (list_remove_thread t s)"
  by (auto simp: shrunk_def ls_remove_def)

text \<open>The thread that gives up is suspended, or was closed before and is on no list.\<close>

lemma kmtx_drop_thread:
  assumes run: "rt_mutex_drop_thread i t s = Some s'" and inv: "kmtx_inv s"
    and t: "th_suspended (threads s t) \<or> unlinked (tls s) t"
  shows "kmtx_inv s'"
proof -
  let ?s = "list_remove_thread t (rt_spin_lock s)"
  obtain s1 where s1: "mutex_unboost i t ?s = Some s1" "rt_spin_unlock s1 = Some s'"
    using run by (auto simp: rt_mutex_drop_thread_def bind_Some Let_def split: if_splits)
  have "kinv ?s" using inv t by (intro kinv_list_remove) (simp_all add: kmtx_inv_def)
  moreover have "mutex_inv ?s"
    by (rule mtxc.keep [of "rt_spin_lock s"]) (use inv in \<open>simp_all add: kmtx_inv_def shrunk_list_remove\<close>)
  ultimately have "kmtx_inv s1"
    using unboost_result [OF s1(1)] kmtx_reprio [of ?s s1] by (simp add: kmtx_inv_def)
  then show ?thesis by (rule kmtx_unlock [OF s1(2)])
qed

lemma mutex_ok_ceiling: "mutex_ok s j \<Longrightarrow> mutex_ok (upd_mutex i (\<lambda>x. x\<lparr>ceiling_priority := p\<rparr>) s) j"
  by (erule mutex_ok_other) simp_all

lemma mutex_inv_ceiling: "mutex_inv s \<Longrightarrow> mutex_inv (upd_mutex i (\<lambda>x. x\<lparr>ceiling_priority := p\<rparr>) s)"
  by (simp add: mutex_inv_def mutex_ok_ceiling)

lemma kmtx_set_errno: "kmtx_inv s \<Longrightarrow> kmtx_inv (rt_set_errno e s)"
  using mtxc.keep [of s "s\<lparr>rt_errno := e\<rparr>"]
  by (auto simp: rt_set_errno_def kmtx_set_error split: option.split) (simp_all add: kmtx_inv_def)

lemma kmtx_setprioceiling:
  assumes run: "rt_mutex_setprioceiling m p s = Some (r, s')" and inv: "kmtx_inv s"
  shows "kmtx_inv s'"
proof (cases "\<exists>i. m = Some i \<and> p < RT_THREAD_PRIORITY_MAX")
  case True
  then obtain i where i: "m = Some i" "p < 32" by auto
  define s1 where "s1 = upd_mutex i (\<lambda>x. x\<lparr>ceiling_priority := p\<rparr>) (rt_spin_lock s)"
  have i1: "kmtx_inv s1" using inv by (simp add: s1_def kmtx_inv_def mutex_inv_ceiling)
  obtain s2 where s2: "(case owner (mtx_of s1 i) of None \<Rightarrow> Some s1 | Some own \<Rightarrow>
        let h = thread_get_mutex_priority own s1
        in if h \<noteq> rt_sched_thread_get_curr_prio own s1 then thread_update_priority own h s1 else Some s1) = Some s2"
      "rt_spin_unlock s2 = Some s'"
    using run i by (auto simp: rt_mutex_setprioceiling_def bind_Some Let_def simp flip: s1_def
        simp del: mutex_upd_simps cong: option.case_cong if_cong)
  have "s2 = s1 \<or> (\<exists>own q. thread_update_priority own q s1 = Some s2)"
    using s2(1) by (auto simp: Let_def split: option.splits if_splits)
  then have "kmtx_inv s2"
    using i1 update_priority_loop [of _ _ s1 s2] kmtx_reprio [of s1 s2] by (auto simp: kmtx_inv_def)
  then show ?thesis by (rule kmtx_unlock [OF s2(2)])
next
  case False
  then have "s' = rt_set_errno (- RT_EINVAL) s"
    using run by (auto simp: rt_mutex_setprioceiling_def bind_Some split: option.splits if_splits)
  then show ?thesis using kmtx_set_errno [OF inv] by simp
qed

lemma kmtx_getprioceiling: "rt_mutex_getprioceiling i s = Some (r, s') \<Longrightarrow> kmtx_inv s \<Longrightarrow> kmtx_inv s'"
  using kmtx_unlock [of "rt_spin_lock s"]
  by (auto simp: rt_mutex_getprioceiling_def bind_Some Let_def split: if_splits)

subsection \<open>Release\<close>

lemma wake_next_result:
  assumes inv: "kinv s" and q: "mtx_q s i = n # ns"
  shows "\<exists>s'. mutex_wake_next i s = Some (Some n, s') \<and> kinv s' \<and> woken {n} s s' \<and> mtx_q s' i = ns \<and>
    error (threads s' n) = error (threads s n)"
proof -
  let ?s = "list_remove_thread n s"
  have "n \<in> set (mtx_q s i)" using q by simp
  then have su: "th_suspended (threads s n)"
    using sched_invD(3) [OF kinvD(1) [OF inv], of n] by (auto simp: thread_ok_def)
  have "kinv ?s" by (rule kinv_list_remove [OF inv]) (simp add: su)
  then obtain s1 where s1: "rt_sched_thread_ready n ?s = Some (0, s1)" "kinv s1" "woken {n} ?s s1"
      "error (threads s1 n) = error (threads s n)"
    using kinv_ready [of ?s n] su by auto
  have "n \<notin> set (tls s Defunct)"
    using thread_okD(4) [OF sched_invD(3) [OF kinvD(1) [OF inv], of n]] su by (auto simp: suspended_stat)
  then have w: "woken {n} s s1" using s1(3) by (auto simp: woken_def) (simp add: ls_remove_def)
  have "distinct (n # ns)" using wf_ls_distinct [OF sched_invD(1) [OF kinvD(1) [OF inv]], of "Susp (Mutex_q i)"] q by simp
  then have "mtx_q s1 i = ns" using w q by (auto simp: woken_def filter_id_conv)
  then show ?thesis
    using q su s1 w
    by (simp add: mutex_wake_next.simps [of i s] rt_sched_thread_is_suspended_def th_suspended_def)
qed

lemma taken_insert_simps [simp]:
  "threads (taken_insert t i s) = threads s" "tls (taken_insert t i s) = tls s" "tm (taken_insert t i s) = tm s"
  "current (taken_insert t i s) = current s" "lock_nest (taken_insert t i s) = lock_nest s"
  "irq_nest (taken_insert t i s) = irq_nest s" "ready_group (taken_insert t i s) = ready_group s"
  "mutexes (ipc (taken_insert t i s)) = mutexes (ipc s)" "kinv_but X (taken_insert t i s) = kinv_but X s"
  "taken (ipc (taken_insert t i s)) = (taken (ipc s))(t := i # taken (ipc s) t)"
  by (simp_all add: taken_insert_def ls_insert_after_def)

text \<open>Making \<open>t\<close> the owner of a mutex that is in transit.\<close>

lemma kmtx_acquire:
  assumes inv: "kinv s" "mutex_inv_but i s" and live: "mtx_live s i" "mtx_flag (mtx_of s i) = 1"
    "owner (mtx_of s i) = Some t" "hold (mtx_of s i) \<noteq> 0"
  shows "kmtx_inv (taken_insert t i s)"
proof -
  have ul: "unlinked (taken (ipc s)) i" "wf_ls (taken (ipc s))" using inv(2) by (simp_all add: mutex_inv_but_def)
  have "wf_ls (taken (ipc (taken_insert t i s)))"
    using wf_ls_insert_after [OF ul(2,1), of t] by (simp add: ls_insert_after_def)
  moreover have "mutex_ok (taken_insert t i s) j" if "j \<noteq> i" for j
    by (rule mutex_ok_other [of s]) (use that inv(2) in \<open>auto simp: mutex_inv_but_def\<close>)
  moreover have "mutex_ok (taken_insert t i s) i"
    using live ul(1) inv(2) by (auto simp: mutex_ok_def mutex_inv_but_def unlinked_def)
  ultimately have "mutex_inv (taken_insert t i s)"
    unfolding mutex_inv_def by metis
  then show ?thesis using inv(1) by (simp add: kmtx_inv_def)
qed

lemma inv_but_upd_mutex:
  assumes "mutex_inv_but i s"
  shows "mutex_inv_but i (upd_mutex i f s)"
proof -
  have "mutex_ok (upd_mutex i f s) j" if "j \<noteq> i" for j
    by (rule mutex_ok_other [of s]) (use that assms in \<open>simp_all add: mutex_inv_but_def\<close>)
  then show ?thesis using assms by (simp add: mutex_inv_but_def)
qed

lemma kinv_set_pending: "kinv_but X s \<Longrightarrow> kinv_but X (upd_thread t (\<lambda>x. x\<lparr>pending_object := p\<rparr>) s)"
  by (rule kinv_upd_thread) (simp_all add: th_stat_def)

lemma kmtx_clear_pending:
  assumes "kmtx_inv s" "runnable (threads s t)"
  shows "kmtx_inv (upd_thread t (\<lambda>x. x\<lparr>pending_object := None\<rparr>) s)" (is "kmtx_inv ?s")
proof -
  have "mutex_ok ?s j" for j
    by (rule mutex_ok_other [of s])
      (use assms runnable_not_queued [OF kmtx_invD(1) [OF assms(1)] assms(2), of "Mutex_q j"] kmtx_invD(3) [OF assms(1)] in auto)
  then show ?thesis using assms(1) by (simp add: kmtx_inv_def mutex_inv_def kinv_set_pending)
qed

definition amtx_of :: "kst \<Rightarrow> nat \<Rightarrow> tid option \<times> nat \<times> tid list" where
  "amtx_of s i = (owner (mtx_of s i), unat (hold (mtx_of s i)), mtx_q s i)"

lemma hand_over_waiting:
  assumes inv: "kinv s" "mutex_inv_but i s" and live: "mtx_live s i" "mtx_flag (mtx_of s i) = 1"
    and q: "mtx_q s i = n # ns" and run: "mutex_hand_over i s = Some (b, s')"
  shows "kmtx_inv s'" "b" "amtx_of s' i = (Some n, 1, ns)" "runnable (threads s' n)"
    "pending_object (threads s' n) = None" "error (threads s' n) = error (threads s n)"
    "j \<noteq> i \<Longrightarrow> amtx_of s' j = amtx_of s j"
proof -
  obtain s1 where s1: "mutex_wake_next i s = Some (Some n, s1)" "kinv s1" "woken {n} s s1" "mtx_q s1 i = ns"
      "error (threads s1 n) = error (threads s n)"
    using wake_next_result [OF inv(1) q] by blast
  define s2 where "s2 = upd_mutex i (\<lambda>x. x\<lparr>owner := Some n, hold := 1\<rparr>) s1"
  define s3 where "s3 = upd_thread n (\<lambda>x. x\<lparr>pending_object := None\<rparr>) (taken_insert n i s2)"
  have b: "b" and s': "s' = mutex_update_priority i s3"
    using run q s1(1) by (simp_all add: mutex_hand_over_def s2_def s3_def)
  have m: "ipc s1 = ipc s" by (rule woken_ipc [OF s1(3)])
  have r: "runnable (threads s1 n)" using s1(3) by (simp add: woken_def)
  have "mutex_inv_but i s2"
    unfolding s2_def by (rule inv_but_upd_mutex [OF mtxb.ok_woken [OF s1(3) inv(2)]])
  then have "kmtx_inv (taken_insert n i s2)"
    using s1(2) live m by (intro kmtx_acquire) (simp_all add: s2_def)
  then have i3: "kmtx_inv s3" unfolding s3_def using r by (intro kmtx_clear_pending) (simp_all add: s2_def)
  note u = update_priority_result [where s = s3 and i = i]
  show "kmtx_inv s'" "b" using kmtx_reprio [OF u(1)] u(2) i3 b by (simp_all add: s' kmtx_inv_def)
  note e = mtx_eqD [OF reprioD(2) [OF u(1)]]
  have n: "n \<notin> set (mtx_q s j)" if "j \<noteq> i"
    using wf_ls_unique [OF sched_invD(1) [OF kinvD(1) [OF inv(1)]], of n "Susp (Mutex_q i)" "Susp (Mutex_q j)"] q that by auto
  show "amtx_of s' i = (Some n, 1, ns)"
    unfolding amtx_of_def s' u(4) e(3,4) using s1(4) by (simp add: s3_def s2_def)
  show "runnable (threads s' n)" "pending_object (threads s' n) = None" "error (threads s' n) = error (threads s n)"
    unfolding s' u(3) using r s1(5) by (simp_all add: s3_def s2_def runnable_def th_stat_def)
  show "amtx_of s' j = amtx_of s j" if "j \<noteq> i"
    unfolding amtx_of_def s' u(4) e(3,4)
    using n that s1(3) m by (auto simp: s3_def s2_def woken_def filter_id_conv)
qed

lemma hand_over_free:
  assumes inv: "kinv s" "mutex_inv_but i s" and live: "mtx_live s i" "mtx_flag (mtx_of s i) = 1" "hold (mtx_of s i) = 0"
    and q: "mtx_q s i = []" and run: "mutex_hand_over i s = Some (b, s')"
  shows "kmtx_inv s'" "amtx_of s' i = (None, 0, [])" "j \<noteq> i \<Longrightarrow> amtx_of s' j = amtx_of s j"
proof -
  have s': "s' = upd_mutex i (\<lambda>x. x\<lparr>owner := None, mtx_priority := 0xff\<rparr>) s"
    using run q by (simp add: mutex_hand_over_def)
  have "mutex_ok s' i"
    using live q inv(2) by (auto simp: s' mutex_ok_def mutex_inv_but_def unlinked_def)
  then have "mutex_inv s'"
    using mutex_inv_settle inv_but_upd_mutex [OF inv(2)] unfolding s' by blast
  then show "kmtx_inv s'" using inv(1) by (simp add: kmtx_inv_def s')
  show "amtx_of s' i = (None, 0, [])" "j \<noteq> i \<Longrightarrow> amtx_of s' j = amtx_of s j"
    using live q by (auto simp: amtx_of_def s')
qed

text \<open>The abstract mutex: owner, depth of the ownership, waiting threads.\<close>

fun amtx_release :: "tid \<Rightarrow> tid option \<times> nat \<times> tid list \<Rightarrow> rt_err \<times> tid option \<times> nat \<times> tid list" where
  "amtx_release t (own, h, ws) =
     (if own \<noteq> Some t then (- RT_ERROR, own, h, ws)
      else if 1 < h then (RT_EOK, own, h - 1, ws)
      else case ws of [] \<Rightarrow> (RT_EOK, None, 0, []) | n # ns \<Rightarrow> (RT_EOK, Some n, 1, ns))"

lemma amtx_schedule: "rt_schedule s = Some s' \<Longrightarrow> kinv s \<Longrightarrow> amtx_of s' i = amtx_of s i"
  using schedule_frame [of s s'] by (auto simp: amtx_of_def sched_frame_def kinvD(1))

lemma amtx_unlock: "rt_spin_unlock s = Some s' \<Longrightarrow> kinv s \<Longrightarrow> amtx_of s' i = amtx_of s i"
  by (simp add: amtx_of_def unlock_frame)

lemma amtx_upd_simps [simp]:
  "amtx_of (upd_thread t f s) i = amtx_of s i" "amtx_of (rt_spin_lock s) i = amtx_of s i"
  "amtx_of (taken_insert t k s) i = amtx_of s i" "amtx_of (taken_remove k s) i = amtx_of s i"
  by (simp_all add: amtx_of_def)

lemma release_last:
  assumes inv: "kmtx_inv s" and own: "owner (mtx_of s i) = Some t" and live: "mtx_live s i"
    and h: "hold (mtx_of s i) = 1"
    and s1: "s1 = taken_remove i (upd_mutex i (\<lambda>x. x\<lparr>hold := hold x - 1\<rparr>) s)"
    and s2: "check_and_update_prio t i s1 = Some (b1, s2)" and s3: "mutex_hand_over i s2 = Some (b2, s3)"
  shows "kmtx_inv s3" "amtx_release t (amtx_of s i) = (RT_EOK, amtx_of s3 i)" "j \<noteq> i \<Longrightarrow> amtx_of s3 j = amtx_of s j"
proof -
  have "s1 = upd_mutex i (\<lambda>x. x\<lparr>hold := hold x - 1\<rparr>) (taken_remove i s)"
    by (simp add: s1 upd_mutex_def taken_remove_def)
  then have i1: "kinv s1" "mutex_inv_but i s1"
    using inv by (simp_all add: kmtx_inv_def inv_but_upd_mutex taken_remove_inv)
  note c = check_update_result [OF s2 i1(1)]
  have i2: "kinv s2" "mutex_inv_but i s2" using c(1) reprio_inv_but [OF c(2) i1(2)] by simp_all
  have fl: "mtx_flag (mtx_of s i) = 1" using kmtx_invD(3) [OF inv, of i] live by (simp add: mutex_ok_def)
  have st: "mtx_live s2 i" "mtx_flag (mtx_of s2 i) = 1" "hold (mtx_of s2 i) = 0"
    using live fl h by (simp_all add: c(3) s1)
  have q: "mtx_q s2 k = mtx_q s k" for k by (simp add: c(4) s1)
  have am: "k \<noteq> i \<Longrightarrow> amtx_of s2 k = amtx_of s k" for k by (simp add: amtx_of_def q c(3) s1)
  have "kmtx_inv s3 \<and> amtx_release t (amtx_of s i) = (RT_EOK, amtx_of s3 i) \<and> (j \<noteq> i \<longrightarrow> amtx_of s3 j = amtx_of s j)"
  proof (cases "mtx_q s i")
    case Nil
    then show ?thesis
      using hand_over_free [OF i2 st _ s3] q own h am by (auto simp: amtx_of_def)
  next
    case (Cons n ns)
    then have "mtx_q s2 i = n # ns" by (simp add: q)
    from hand_over_waiting(1,3,7) [OF i2 st(1,2) this s3] show ?thesis
      using own h am Cons by (auto simp: amtx_of_def)
  qed
  then show "kmtx_inv s3" "amtx_release t (amtx_of s i) = (RT_EOK, amtx_of s3 i)" "j \<noteq> i \<Longrightarrow> amtx_of s3 j = amtx_of s j"
    by auto
qed

lemma kmtx_hold:
  assumes "kmtx_inv s" "f (hold (mtx_of s i)) \<noteq> 0" "owner (mtx_of s i) \<noteq> None"
  shows "kmtx_inv (upd_mutex i (\<lambda>x. x\<lparr>hold := f (hold x)\<rparr>) s)" (is "kmtx_inv ?s")
proof -
  have "mutex_ok ?s j" if "j \<noteq> i" for j
    by (rule mutex_ok_other [of s]) (use that kmtx_invD(3) [OF assms(1)] in simp_all)
  moreover have "mutex_ok ?s i"
    using assms kmtx_invD(3) [OF assms(1), of i] by (auto simp: mutex_ok_def split: option.splits)
  ultimately have "mutex_ok ?s j" for j by (cases "j = i") simp_all
  then show ?thesis using assms(1) by (simp add: kmtx_inv_def mutex_inv_def)
qed

lemma release_cases:
  assumes "rt_mutex_release i s = Some (e, s')"
  obtains (other) t where "current s = Some t" "owner (mtx_of s i) \<noteq> Some t" "e = - RT_ERROR" "mtx_live s i"
      "rt_spin_unlock (upd_thread t (\<lambda>x. x\<lparr>error := - RT_ERROR\<rparr>) (rt_spin_lock s)) = Some s'"
  | (nested) t where "current s = Some t" "owner (mtx_of s i) = Some t" "hold (mtx_of s i) \<noteq> 1" "e = RT_EOK" "mtx_live s i"
      "rt_spin_unlock (upd_mutex i (\<lambda>x. x\<lparr>hold := hold x - 1\<rparr>) (rt_spin_lock s)) = Some s'"
  | (last) t b1 s2 b2 s3 s4 where "current s = Some t" "owner (mtx_of s i) = Some t" "hold (mtx_of s i) = 1" "e = RT_EOK"
      "mtx_live s i"
      "check_and_update_prio t i (taken_remove i (upd_mutex i (\<lambda>x. x\<lparr>hold := hold x - 1\<rparr>) (rt_spin_lock s))) = Some (b1, s2)"
      "mutex_hand_over i s2 = Some (b2, s3)" "rt_spin_unlock s3 = Some s4"
      "(if b1 \<or> b2 then rt_schedule s4 else Some s4) = Some s'"
proof -
  let ?s = "upd_mutex i (\<lambda>x. x\<lparr>hold := hold x - 1\<rparr>) (rt_spin_lock s)"
  obtain t where t: "current s = Some t" "mtx_live s i"
    using assms by (auto simp: rt_mutex_release_def bind_Some rt_thread_self_def split: if_splits)
  have z: "hold (mtx_of s i) - 1 = 0 \<longleftrightarrow> hold (mtx_of s i) = 1" by (simp add: diff_eq_eq)
  show thesis
  proof (cases "owner (mtx_of s i) = Some t")
    case False
    then show thesis
      using other [OF t(1) False _ t(2)] assms t
      by (auto simp: rt_mutex_release_def bind_Some rt_thread_self_def Let_def)
  next
    case own: True
    show thesis
    proof (cases "hold (mtx_of s i) = 1")
      case False
      then show thesis
        using nested [OF t(1) own False _ t(2)] assms t own z
        by (auto simp: rt_mutex_release_def bind_Some rt_thread_self_def Let_def split: if_splits)
    next
      case True
      then show thesis
        using last [OF t(1) own True _ t(2)] assms t own
        by (auto simp: rt_mutex_release_def bind_Some rt_thread_self_def Let_def)
    qed
  qed
qed

lemma release_result:
  assumes run: "rt_mutex_release i s = Some (e, s')" and inv: "kmtx_inv s" and cur: "current s = Some t"
  shows "kmtx_inv s'" "amtx_release t (amtx_of s i) = (e, amtx_of s' i)" "j \<noteq> i \<Longrightarrow> amtx_of s' j = amtx_of s j"
proof -
  have "kmtx_inv s' \<and> amtx_release t (amtx_of s i) = (e, amtx_of s' i) \<and> (j \<noteq> i \<longrightarrow> amtx_of s' j = amtx_of s j)"
    using run
  proof (cases rule: release_cases)
    case (other t')
    then show ?thesis
      using kmtx_unlock [OF other(5)] kmtx_set_error amtx_unlock [OF other(5)] inv cur
      by (auto simp: kmtx_inv_def kinv_set_error mtxc.ok_set_error) (auto simp: amtx_of_def)
  next
    case (nested t')
    have h: "hold (mtx_of s i) \<noteq> 0" using kmtx_invD(3) [OF inv, of i] nested by (auto simp: mutex_ok_def)
    have "unat (hold (mtx_of s i)) \<noteq> unat (0 :: u8)" "unat (hold (mtx_of s i)) \<noteq> unat (1 :: u8)"
      using h nested(3) by (simp_all only: word_unat_eq_iff [symmetric] not_False_eq_True)
    then have u: "unat (hold (mtx_of s i) - 1) = unat (hold (mtx_of s i)) - 1" "1 < unat (hold (mtx_of s i))"
      using unat_minus1 [OF h] by simp_all
    have "kmtx_inv (upd_mutex i (\<lambda>x. x\<lparr>hold := hold x - 1\<rparr>) (rt_spin_lock s))"
      using inv nested(2,3) by (intro kmtx_hold [where f = "\<lambda>h. h - 1"]) (simp_all add: diff_eq_eq)
    then show ?thesis
      using kmtx_unlock [OF nested(6)] amtx_unlock [OF nested(6)] u nested(2,4) cur nested(1)
      by (auto simp: kmtx_inv_def amtx_of_def)
  next
    case (last t' b1 s2 b2 s3 s4)
    note l = release_last [OF _ _ _ _ refl last(6,7)]
    have i3: "kmtx_inv s3" "amtx_release t (amtx_of s i) = (RT_EOK, amtx_of s3 i)" "j \<noteq> i \<longrightarrow> amtx_of s3 j = amtx_of s j"
      using l inv last(1-5) cur by simp_all
    have i4: "kmtx_inv s4" by (rule kmtx_unlock [OF last(8) i3(1)])
    then show ?thesis
      using i3 last(4,9) amtx_unlock [OF last(8) kmtx_invD(1) [OF i3(1)]] amtx_schedule [of s4 s'] kmtx_schedule [of s4 s']
      by (auto simp: kmtx_inv_def split: if_splits)
  qed
  then show "kmtx_inv s'" "amtx_release t (amtx_of s i) = (e, amtx_of s' i)" "j \<noteq> i \<Longrightarrow> amtx_of s' j = amtx_of s j"
    by auto
qed

end
