(* ===== verification/RT_MutexTake.thy ===== *)
theory RT_MutexTake
  imports RT_MutexOps
begin

text \<open>
  Taking a mutex: what the call does when the mutex is free, when the caller holds it, and
  when it waits. A waiting thread is suspended in the queue of the mutex and its priority has
  been passed on to the owner, and to every thread the owner waits for.
\<close>

subsection \<open>Passing the priority on\<close>

lemma pass_on_result:
  assumes "mutex_pass_on i p own s = Some s'" "kinv s"
  shows "kinv s'" "reprio s s'"
proof -
  let ?s = "upd_mutex i (\<lambda>x. x\<lparr>mtx_priority := p\<rparr>) s"
  have "s' = s \<or> s' = ?s \<or> thread_update_priority own p ?s = Some s'"
    using assms(1) by (auto simp: mutex_pass_on_def Let_def split: if_splits)
  then show "kinv s'" "reprio s s'"
    using assms(2) reprio_mutex_priority [of s i p] update_priority_loop [of own p ?s s']
      reprio_trans [of s ?s s'] by auto
qed

lemma pass_on_inherits:
  assumes run: "mutex_pass_on i p own s = Some s'" and inv: "kinv s" "mutex_inv s"
    and ch: "owner_chain s own us" "distinct (own # us)"
    and so: "sorted_wrt (\<lambda>u v. current_priority (threads s v) \<le> current_priority (threads s u)) (own # us)"
    and le: "current_priority (threads s own) \<le> mtx_priority (mtx_of s i)"
  shows "\<forall>u\<in>set (own # us). current_priority (threads s' u) \<le> p"
proof -
  let ?s = "upd_mutex i (\<lambda>x. x\<lparr>mtx_priority := p\<rparr>) s"
  have r: "reprio s ?s" by (rule reprio_mutex_priority)
  show ?thesis
  proof (cases "p < mtx_priority (mtx_of s i) \<and> p < current_priority (threads s own)")
    case False
    then have "threads s' = threads s"
      using run by (auto simp: mutex_pass_on_def rt_sched_thread_get_curr_prio_def Let_def split: if_splits)
    moreover have "current_priority (threads s own) \<le> p" using False le by auto
    ultimately show ?thesis using so by (auto intro: order_trans)
  next
    case True
    then obtain s1 where s1: "rt_sched_thread_change_priority own p ?s = Some s1" "thread_update_loop own s1 = Some s'"
      using run by (auto simp: mutex_pass_on_def rt_sched_thread_get_curr_prio_def thread_update_priority_def bind_Some Let_def)
    have k: "kinv ?s" using inv(1) by simp
    note c = change_prio_result [OF k s1(1)]
    have r1: "reprio s s1" by (rule reprio_trans [OF r c(2)])
    have same: "u \<in> set us \<Longrightarrow> threads s1 u = threads s u" for u using fun_cong [OF c(3), of u] ch(2) by auto
    have "sorted_wrt (\<lambda>u v. current_priority (threads s1 v) \<le> current_priority (threads s1 u)) us"
      using so same by (auto elim!: sorted_wrt_mono_rel [rotated])
    then have "(\<forall>u\<in>set us. current_priority (threads s' u) \<le> p) \<and> threads s' own = threads s1 own"
      using update_loop_inherits [OF c(1) reprio_mutex_inv [OF r1 inv(2)], of own us s'] ch reprio_chain [OF r1] s1(2) c(4)
      by simp
    then show ?thesis using c(4) by simp
  qed
qed

subsection \<open>The queues of the mutexes\<close>

text \<open>The queues after one step and after the loop: no waiting thread is lost, and only the queues along the chain change.\<close>

lemma boost_link_queues:
  assumes inv: "kinv s" "mutex_inv s" and w: "waits_for s t j own" and run: "boost_link t j s = Some s'"
  shows "set (mtx_q s k) \<subseteq> set (mtx_q s' k)" "k \<noteq> j \<Longrightarrow> mtx_q s' k = mtx_q s k"
proof -
  have t: "t \<notin> set (mtx_q s k)" if "k \<noteq> j" for k
    using mutex_invD(2) [OF inv(2), of k] w that by (auto simp: mutex_ok_def waits_for_def)
  have q: "mtx_q s' k = (if k = j then susp_joined (uint (mtx_flag (mtx_of s j))) t (list_remove_thread t s) (Mutex_q j)
      else mtx_q (list_remove_thread t s) k)" for k
    using run by (auto simp: boost_link_def bind_Some rt_susp_list_enqueue_def susp_joined_def ls_insert_before_def
        rt_sched_thread_get_curr_prio_def update_priority_result(4) split: if_splits)
  show "k \<noteq> j \<Longrightarrow> mtx_q s' k = mtx_q s k" using q t by (simp add: list_remove_thread_def ls_remove_def)
  then show "set (mtx_q s k) \<subseteq> set (mtx_q s' k)" using q by (cases "k = j") (auto simp: list_remove_thread_def ls_remove_def)
qed

lemma update_loop_queues:
  assumes "kinv s" "mutex_inv s" "owner_chain s t us" "thread_update_loop t s = Some s'"
  shows "(\<forall>k. set (mtx_q s k) \<subseteq> set (mtx_q s' k)) \<and>
    ((\<forall>u\<in>set (t # us). \<forall>own. \<not> waits_for s u i own) \<longrightarrow> mtx_q s' i = mtx_q s i)"
  using assms
proof (induction us arbitrary: t s)
  case Nil
  then show ?case by (simp add: update_loop_body [of t s] update_body_end)
next
  case (Cons own us)
  then obtain j where w: "waits_for s t j own" by (auto split: option.splits)
  note m = waits_for_mutex [OF w Cons.prems(2)] and ww = waits_for_waits [OF w]
  obtain s1 where s1: "boost_link t j s = Some s1" using boost_link_total [OF m(1)] by blast
  note b = boost_link_result [OF Cons.prems(1) w s1] and q = boost_link_queues [OF Cons.prems(1,2) w s1]
  have own: "owner (mtx_of s1 j) = Some own" using boost_link_owner [OF s1] w by (simp add: waits_for_def)
  let ?p = "thread_get_mutex_priority own s1"
  have eq: "(if ?p \<noteq> current_priority (threads s1 own)
      then do { s \<leftarrow> rt_sched_thread_change_priority own ?p s1; thread_update_loop own s } else Some s1) = Some s'"
    using ww s1 own Cons.prems(4) by (simp add: update_loop_body [of t s] update_body_link Let_def)
  show ?case
  proof (cases "?p = current_priority (threads s1 own)")
    case True
    then show ?thesis using eq q w by (cases "i = j") auto
  next
    case False
    then obtain s2 where s2: "rt_sched_thread_change_priority own ?p s1 = Some s2" "thread_update_loop own s2 = Some s'"
      using eq by (auto simp: bind_Some)
    note c = change_prio_result [OF b(1) s2(1)] and r = reprio_trans [OF b(2) change_prio_result(2) [OF b(1) s2(1)]]
    have q2: "mtx_q s2 k = mtx_q s1 k" for k using change_prio_susp(2) [OF s2(1) b(1)] by simp
    have ch: "owner_chain s2 own us" using Cons.prems(3) reprio_chain [OF r] by simp
    note IH = Cons.IH [OF c(1) reprio_mutex_inv [OF r Cons.prems(2)] ch s2(2)]
    have "set (mtx_q s k) \<subseteq> set (mtx_q s' k)" for k using IH q(1) [of k] unfolding q2 by blast
    moreover have "mtx_q s' i = mtx_q s i" if nw: "\<forall>u\<in>set (t # own # us). \<forall>own. \<not> waits_for s u i own"
    proof -
      have "i \<noteq> j" using nw w by auto
      moreover have "mtx_q s' i = mtx_q s2 i" using IH nw reprio_waits(1) [OF r] by auto
      ultimately show ?thesis using q(2) q2 by simp
    qed
    ultimately show ?thesis by blast
  qed
qed

lemma chain_step: "owner_chain s t (u # us) \<longleftrightarrow> (\<exists>i. waits_for s t i u) \<and> owner_chain s u us"
  by (auto simp: waits_for_def split: option.splits)

lemma owner_unique: "waits_for s t i u \<Longrightarrow> waits_for s t j v \<Longrightarrow> u = v"
  by (simp add: waits_for_def)

lemma owner_chain_unique: "owner_chain s t us \<Longrightarrow> owner_chain s t vs \<Longrightarrow> us = vs"
proof (induction us arbitrary: t vs)
  case Nil
  then show ?case using waits_for_waits by (cases vs) (simp, fastforce simp: chain_step simp del: owner_chain.simps(2))
next
  case (Cons u us)
  then obtain i where i: "waits_for s t i u" "owner_chain s u us" unfolding chain_step by blast
  show ?case
  proof (cases vs)
    case Nil
    then show ?thesis using Cons.prems(2) waits_for_waits [OF i(1)] by simp
  next
    case (Cons v ws)
    then obtain j where j: "waits_for s t j v" "owner_chain s v ws" using \<open>owner_chain s t vs\<close> unfolding Cons chain_step by blast
    then show ?thesis using Cons.IH [of u ws] owner_unique [OF i(1) j(1)] i(2) Cons by simp
  qed
qed

lemma chain_suffix: "owner_chain s t us \<Longrightarrow> u \<in> set (t # us) \<Longrightarrow> \<exists>vs. owner_chain s u vs \<and> length vs \<le> length us"
proof (induction us arbitrary: t)
  case (Cons v us)
  show ?case
  proof (cases "u = t")
    case True
    then show ?thesis using Cons.prems(1) by blast
  next
    case False
    then obtain vs where "owner_chain s u vs" "length vs \<le> length us" using Cons.IH [of v] Cons.prems by auto
    then show ?thesis by (auto intro: le_SucI)
  qed
qed auto

text \<open>On a chain that ends nobody waits for a mutex of the thread at its start.\<close>

lemma chain_no_return:
  assumes "owner_chain s own us" "u \<in> set (own # us)" "owner (mtx_of s i) = Some own"
  shows "\<not> waits_for s u i w"
proof
  assume wf: "waits_for s u i w"
  then have w: "w = own" using assms(3) by (simp add: waits_for_def)
  obtain vs where vs: "owner_chain s u vs" "length vs \<le> length us" using chain_suffix [OF assms(1,2)] by blast
  moreover have "owner_chain s u (own # us)" using wf w assms(1) waits_for_waits [OF wf] by simp
  ultimately have "vs = own # us" using owner_chain_unique by blast
  then show False using vs(2) by simp
qed

lemma pass_on_queues:
  assumes run: "mutex_pass_on i p own s = Some s'" and inv: "kinv s" "mutex_inv s"
    and own: "owner (mtx_of s i) = Some own" and ch: "owner_chain s own us"
  shows "set (mtx_q s k) \<subseteq> set (mtx_q s' k)" "mtx_q s' i = mtx_q s i"
proof -
  let ?s = "upd_mutex i (\<lambda>x. x\<lparr>mtx_priority := p\<rparr>) s"
  have r: "reprio s ?s" by (rule reprio_mutex_priority)
  have "s' = s \<or> s' = ?s \<or> thread_update_priority own p ?s = Some s'"
    using run by (auto simp: mutex_pass_on_def Let_def split: if_splits)
  then have "set (mtx_q s k) \<subseteq> set (mtx_q s' k) \<and> mtx_q s' i = mtx_q s i"
  proof (elim disjE)
    assume "thread_update_priority own p ?s = Some s'"
    then obtain s1 where s1: "rt_sched_thread_change_priority own p ?s = Some s1" "thread_update_loop own s1 = Some s'"
      by (auto simp: thread_update_priority_def bind_Some)
    have k: "kinv ?s" using inv(1) by simp
    note c = change_prio_result [OF k s1(1)] and q = change_prio_susp(2) [OF s1(1) k]
    have r1: "reprio s s1" by (rule reprio_trans [OF r c(2)])
    have "owner_chain s1 own us" using ch reprio_chain [OF r1] by simp
    note l = update_loop_queues [OF c(1) reprio_mutex_inv [OF r1 inv(2)] this s1(2), of i]
    have "\<forall>u\<in>set (own # us). \<forall>w. \<not> waits_for s1 u i w"
      using chain_no_return [OF ch _ own] reprio_waits(1) [OF r1] by simp
    then show ?thesis using l q by simp
  qed simp_all
  then show "set (mtx_q s k) \<subseteq> set (mtx_q s' k)" "mtx_q s' i = mtx_q s i" by simp_all
qed

subsection \<open>Waiting\<close>

lemma asleep_mutex_inv:
  assumes inv: "kinv s" "mutex_inv s" and run: "th_stat (threads s t) = RT_THREAD_RUNNING"
    and as: "asleep t (Some (Mutex_q i)) fl s s1" and live: "mtx_live s i" "owner (mtx_of s i) \<noteq> None"
  shows "mutex_inv (upd_thread t (\<lambda>x. x\<lparr>pending_object := Some i\<rparr>) s1)" (is "mutex_inv ?s")
proof -
  have m: "ipc s1 = ipc s" and q: "mtx_q s1 j = (if j = i then susp_joined fl t s (Mutex_q i) else mtx_q s j)" for j
    using as by (auto simp: asleep_def)
  have thr: "u \<noteq> t \<Longrightarrow> threads s1 u = threads s u" for u using as by (simp add: asleep_def)
  have t: "t \<notin> set (mtx_q s j)" for j by (rule running_not_waiting [OF inv(1) run])
  have "mutex_ok ?s j" for j
  proof (rule mutex_ok_queue [of s])
    show "pending_object (threads ?s u) = Some j" if "u \<in> set (mtx_q ?s j)" for u
      using that q [of j] t [of j] thr [of u] mutex_invD(2) [OF inv(2), of j] by (auto simp: mutex_ok_def split: if_splits)
    show "mtx_q ?s j = []" if "mtx_q s j = []" "\<not> mtx_live s j \<or> owner (mtx_of s j) = None"
      using that live q [of j] by auto
  qed (simp_all add: m mutex_invD(2) [OF inv(2)])
  then show ?thesis using inv(2) m by (simp add: mutex_inv_def)
qed

lemma exit_critical_leaves:
  assumes "kinv s" "rt_exit_critical s = Some s'" "current s = Some t" "\<not> runnable (threads s t)"
    "lock_nest s = 1" "ready_group s \<noteq> 0"
  shows "current s' \<noteq> Some t"
proof -
  have "rt_schedule (s\<lparr>lock_nest := 0\<rparr>) = Some s'"
    using assms(2,3,5) by (simp add: rt_exit_critical_def)
  then show ?thesis using schedule_leaves [of "s\<lparr>lock_nest := 0\<rparr>" s' t] assms by auto
qed

text \<open>From the suspension to the scheduler call at the end of the critical section.\<close>

lemma wait_leaves:
  assumes inv: "kinv s" and cur: "current s = Some t" and run: "th_stat (threads s t) = RT_THREAD_RUNNING"
    and lk: "lock_nest s = 1" and idle: "ready_group s \<noteq> 0" and as: "asleep t sl fl s s1"
    and s2: "s2 = upd_thread t (\<lambda>x. x\<lparr>pending_object := Some i\<rparr>) s1" and p: "kinv s3" "reprio s2 s3"
    and s4: "(if 0 < timeout then thread_timer_arm t (of_int timeout) s3 else Some s3) = Some s4"
    and s5: "rt_spin_unlock s4 = Some s5"
  shows "current s5 \<noteq> Some t" "th_suspended (threads s3 t)" "\<not> ttmr_set (threads s3 t)" "rt_tick (tm s3) = rt_tick (tm s)"
proof -
  have q: "prio_eq (threads s3 t) (threads s2 t)" by (rule reprioD(7) [OF p(2)])
  show su: "th_suspended (threads s3 t)" "\<not> ttmr_set (threads s3 t)"
    using prio_eqD(5,8) [OF q] as by (auto simp: s2 asleep_def th_suspended_def)
  note b = block_arm [OF p(1) su s4]
  show "rt_tick (tm s3) = rt_tick (tm s)" using reprioD(6) [OF p(2)] as by (simp add: s2 asleep_def)
  obtain u where u: "th_stat (threads s u) = RT_THREAD_READY" using idle ready_exists [OF inv] by auto
  moreover from this have "u \<noteq> t" using run by auto
  ultimately have "th_stat (threads s3 u) = RT_THREAD_READY"
    using prio_eqD(1) [OF reprioD(7) [OF p(2), of u]] as by (simp add: s2 asleep_def)
  then have "ready_group s4 \<noteq> 0" using b ready_exists [OF p(1)] by auto
  moreover have "\<not> runnable (threads s4 t)"
    using b su(1) runnable_not_suspended [of "threads s4 t"] by (auto simp: th_suspended_def)
  moreover have "current s4 = Some t" "lock_nest s4 = 1"
    using b reprioD(3,4) [OF p(2)] as cur lk by (simp_all add: s2 asleep_def)
  ultimately show "current s5 \<noteq> Some t"
    using exit_critical_leaves [of s4 s5 t] b s5 by (simp add: rt_spin_unlock_def)
qed

text \<open>The states a blocking take passes through, up to the scheduler call.\<close>

lemma mutex_wait_steps:
  assumes inv: "kinv s" "mutex_inv s" and cur: "current s = Some t" and run: "th_stat (threads s t) = RT_THREAD_RUNNING"
    and live: "mtx_live s i" "owner (mtx_of s i) = Some own"
    and lk: "lock_nest s = 1" and idle: "ready_group s \<noteq> 0"
    and w: "mutex_wait i t own timeout sf s = Some (r, s')"
  obtains s1 s2 s3 s4 where "asleep t (Some (Mutex_q i)) 1 s s1" "s2 = upd_thread t (\<lambda>x. x\<lparr>pending_object := Some i\<rparr>) s1"
    "kinv s2" "mutex_inv s2" "mutex_pass_on i (current_priority (threads s t)) own s2 = Some s3" "kinv s3" "reprio s2 s3"
    "kinv s4" "ipc s4 = ipc s3" "tls s4 = tls s3" "threads s4 = (threads s3)(t := (threads s3 t)\<lparr>ttmr_set := 0 < timeout\<rparr>)"
    "0 < timeout \<Longrightarrow> timeout_tick (timers (tm s4) (Thread_timer t)) = rt_tick (tm s) + of_int timeout"
    "rt_spin_unlock s4 = Some s'" "current s' \<noteq> Some t" "r = Wait"
proof -
  have fl: "mtx_flag (mtx_of s i) = 1" using mutex_invD(2) [OF inv(2), of i] live by (simp add: mutex_ok_def)
  obtain e s1 where s1: "rt_thread_suspend_to_list t (Some (Mutex_q i)) 1 sf s = Some (e, s1)"
    using w fl by (auto simp: mutex_wait_def bind_Some)
  have k1: "kinv s1" and as: "asleep t (Some (Mutex_q i)) 1 s s1" and e: "e = 0"
    using kinv_suspend_running [OF inv(1) run s1] by auto
  define s2 where "s2 = upd_thread t (\<lambda>x. x\<lparr>pending_object := Some i\<rparr>) s1"
  have k2: "kinv s2" unfolding s2_def by (rule kinv_set_pending [OF k1])
  have m2: "mutex_inv s2" unfolding s2_def by (rule asleep_mutex_inv [OF inv run as]) (use live in simp_all)
  have pr: "current_priority (threads s1 t) = current_priority (threads s t)"
    using as by (cases "threads s1 t"; cases "threads s t") (auto simp: asleep_def wake_eq_def)
  obtain s3 s4 s5 where s3: "mutex_pass_on i (current_priority (threads s t)) own s2 = Some s3"
      and s4: "(if 0 < timeout then thread_timer_arm t (of_int timeout) s3 else Some s3) = Some s4"
      and s5: "rt_spin_unlock s4 = Some s5" "(if current s5 = Some t then mutex_take_wake i t s5 else Some (Wait, s5)) = Some (r, s')"
    using w fl s1 e pr by (auto simp: mutex_wait_def bind_Some Let_def rt_sched_thread_get_curr_prio_def s2_def)
  note p = pass_on_result [OF s3 k2]
  note l = wait_leaves [OF inv(1) cur run lk idle as s2_def p s4 s5(1)]
  have c5: "current s5 \<noteq> Some t" and tick: "rt_tick (tm s3) = rt_tick (tm s)" by (rule l)+
  note b = block_arm [OF p(1) l(2,3) s4]
  have "s5 = s'" "r = Wait" using s5(2) c5 by simp_all
  with c5 show thesis
    using that [OF as s2_def k2 m2 s3 p] b s5(1) tick by auto
qed

lemma kmtx_wait:
  assumes inv: "kinv s" "mutex_inv s" and cur: "current s = Some t" and run: "th_stat (threads s t) = RT_THREAD_RUNNING"
    and live: "mtx_live s i" "owner (mtx_of s i) = Some own"
    and lk: "lock_nest s = 1" and idle: "ready_group s \<noteq> 0"
    and w: "mutex_wait i t own timeout sf s = Some (r, s')"
  shows "kmtx_inv s'" "r = Wait" "current s' \<noteq> Some t" "th_suspended (threads s' t)"
    "pending_object (threads s' t) = Some i" "owner (mtx_of s' i) = Some own" "hold (mtx_of s' i) = hold (mtx_of s i)"
    "ttmr_set (threads s' t) \<longleftrightarrow> 0 < timeout"
proof -
  obtain s1 s2 s3 s4 where as: "asleep t (Some (Mutex_q i)) 1 s s1"
      and s2: "s2 = upd_thread t (\<lambda>x. x\<lparr>pending_object := Some i\<rparr>) s1"
      and i2: "kinv s2" "mutex_inv s2" and s3: "kinv s3" "reprio s2 s3"
      and s4: "kinv s4" "ipc s4 = ipc s3" "tls s4 = tls s3" "threads s4 = (threads s3)(t := (threads s3 t)\<lparr>ttmr_set := 0 < timeout\<rparr>)"
      and s': "rt_spin_unlock s4 = Some s'" and c: "current s' \<noteq> Some t" "r = Wait"
    using mutex_wait_steps [OF inv cur run live lk idle w] by metis
  have "mutex_inv s4"
  proof (rule mtxc.keep [OF reprio_mutex_inv [OF s3(2) i2(2)]])
    show "shrunk is_mutex_q s3 s4" by (rule shrunkI) (auto simp: s4 wait_eq_def)
  qed (simp add: s4)
  then show "kmtx_inv s'" using kmtx_unlock [OF s'] s4(1) by (simp add: kmtx_inv_def)
  show "r = Wait" "current s' \<noteq> Some t" using c by simp_all
  note u = unlock_frame [OF s' s4(1)]
  note q = prio_eqD [OF reprioD(7) [OF s3(2), of t]] and e = mtx_eqD [OF reprioD(2) [OF s3(2), of i]]
  have nr: "\<not> runnable (threads s4 t)" and su: "th_suspended (threads s4 t)"
    using q(8) as runnable_not_suspended [of "threads s4 t"] by (auto simp: s4 s2 asleep_def th_suspended_def)
  show "th_suspended (threads s' t)" using u(5) [OF nr] su by (simp add: suspended_stat)
  show "pending_object (threads s' t) = Some i" "ttmr_set (threads s' t) \<longleftrightarrow> 0 < timeout"
    using same_but_statD(2,3) [OF u(3) [of t]] q(2) by (simp_all add: s4 s2)
  show "owner (mtx_of s' i) = Some own" "hold (mtx_of s' i) = hold (mtx_of s i)"
    using e(3,4) as live(2) by (simp_all add: u(1) s4(2) s2 asleep_def)
qed

text \<open>The abstract mutex with one more waiting thread, behind the threads that are at least as urgent.\<close>

definition amtx_wait :: "(tid \<Rightarrow> u8) \<Rightarrow> tid \<Rightarrow> tid option \<times> nat \<times> tid list \<Rightarrow> tid option \<times> nat \<times> tid list" where
  "amtx_wait pr t = (\<lambda>(own, h, ws). (own, h, takeWhile (\<lambda>u. pr u \<le> pr t) ws @ t # dropWhile (\<lambda>u. pr u \<le> pr t) ws))"

lemma mutex_wait_queues:
  assumes inv: "kinv s" "mutex_inv s" and cur: "current s = Some t" and run: "th_stat (threads s t) = RT_THREAD_RUNNING"
    and live: "mtx_live s i" "owner (mtx_of s i) = Some own"
    and lk: "lock_nest s = 1" and idle: "ready_group s \<noteq> 0"
    and w: "mutex_wait i t own timeout sf s = Some (r, s')"
    and ch: "owner_chain s own us" "t \<notin> set (own # us)"
  shows "amtx_of s' i = amtx_wait (\<lambda>u. current_priority (threads s u)) t (amtx_of s i)"
    "j \<noteq> i \<Longrightarrow> owner (mtx_of s' j) = owner (mtx_of s j) \<and> hold (mtx_of s' j) = hold (mtx_of s j) \<and> set (mtx_q s j) \<subseteq> set (mtx_q s' j)"
proof -
  obtain s1 s2 s3 s4 where as: "asleep t (Some (Mutex_q i)) 1 s s1"
      and s2: "s2 = upd_thread t (\<lambda>x. x\<lparr>pending_object := Some i\<rparr>) s1"
      and i2: "kinv s2" "mutex_inv s2" and s3: "mutex_pass_on i (current_priority (threads s t)) own s2 = Some s3" "reprio s2 s3"
      and s4: "kinv s4" "ipc s4 = ipc s3" "tls s4 = tls s3" and s': "rt_spin_unlock s4 = Some s'"
    using mutex_wait_steps [OF inv cur run live lk idle w] by metis
  have m: "ipc s2 = ipc s" and q2: "mtx_q s2 k = (if k = i then susp_joined 1 t s (Mutex_q i) else mtx_q s k)" for k
    using as by (auto simp: s2 asleep_def)
  have thr: "u \<noteq> t \<Longrightarrow> threads s2 u = threads s u" for u using as by (simp add: s2 asleep_def)
  have chain: "owner_chain s v vs \<Longrightarrow> t \<notin> set (v # vs) \<Longrightarrow> owner_chain s2 v vs" for v vs
    by (induction vs arbitrary: v) (auto simp: thr m waits_def waits_for_def split: option.splits)
  have own2: "owner (mtx_of s2 i) = Some own" using live(2) m by simp
  note p = pass_on_queues [OF s3(1) i2 own2 chain [OF ch]]
  note u = unlock_frame(1,2) [OF s' s4(1)] and e = mtx_eqD(3,4) [OF reprioD(2) [OF s3(2)]]
  have q: "mtx_q s' k = mtx_q s3 k" for k by (simp add: u s4)
  have oh: "owner (mtx_of s' k) = owner (mtx_of s k)" "hold (mtx_of s' k) = hold (mtx_of s k)" for k
    using e [of k] by (simp_all add: u s4 m)
  show "amtx_of s' i = amtx_wait (\<lambda>u. current_priority (threads s u)) t (amtx_of s i)"
    unfolding amtx_of_def amtx_wait_def q p(2) oh by (simp add: q2 susp_joined_def prio_insert_takeWhile)
  show "j \<noteq> i \<Longrightarrow> owner (mtx_of s' j) = owner (mtx_of s j) \<and> hold (mtx_of s' j) = hold (mtx_of s j) \<and> set (mtx_q s j) \<subseteq> set (mtx_q s' j)"
    using p(1) [of j] by (simp add: q oh q2)
qed

text \<open>Priority inheritance, along the whole chain of owners.\<close>

lemma mutex_wait_inherits:
  assumes inv: "kinv s" "mutex_inv s" and cur: "current s = Some t" and run: "th_stat (threads s t) = RT_THREAD_RUNNING"
    and live: "mtx_live s i" "owner (mtx_of s i) = Some own"
    and lk: "lock_nest s = 1" and idle: "ready_group s \<noteq> 0"
    and w: "mutex_wait i t own timeout sf s = Some (r, s')"
    and ch: "owner_chain s own us" "distinct (t # own # us)"
    and so: "sorted_wrt (\<lambda>u v. current_priority (threads s v) \<le> current_priority (threads s u)) (own # us)"
    and le: "current_priority (threads s own) \<le> mtx_priority (mtx_of s i)"
  shows "\<forall>u\<in>set (own # us). current_priority (threads s' u) \<le> current_priority (threads s t)"
proof -
  obtain s1 s2 s3 s4 where as: "asleep t (Some (Mutex_q i)) 1 s s1"
      and s2: "s2 = upd_thread t (\<lambda>x. x\<lparr>pending_object := Some i\<rparr>) s1"
      and i2: "kinv s2" "mutex_inv s2" and s3: "mutex_pass_on i (current_priority (threads s t)) own s2 = Some s3"
      and s4: "kinv s4" "threads s4 = (threads s3)(t := (threads s3 t)\<lparr>ttmr_set := 0 < timeout\<rparr>)"
      and s': "rt_spin_unlock s4 = Some s'"
    using mutex_wait_steps [OF inv cur run live lk idle w] by metis
  have thr: "u \<noteq> t \<Longrightarrow> threads s2 u = threads s u" for u using as by (simp add: s2 asleep_def)
  have m: "ipc s2 = ipc s" using as by (simp add: s2 asleep_def)
  have chain: "owner_chain s v vs \<Longrightarrow> t \<notin> set (v # vs) \<Longrightarrow> owner_chain s2 v vs" for v vs
    by (induction vs arbitrary: v) (auto simp: thr m waits_def waits_for_def split: option.splits)
  have "owner_chain s2 own us" using chain [OF ch(1)] ch(2) by simp
  moreover have same: "u \<in> set (own # us) \<Longrightarrow> threads s2 u = threads s u" for u using thr [of u] ch(2) by auto
  moreover have "sorted_wrt (\<lambda>u v. current_priority (threads s2 v) \<le> current_priority (threads s2 u)) (own # us)"
    using so same by (auto elim!: sorted_wrt_mono_rel [rotated])
  ultimately have "\<forall>u\<in>set (own # us). current_priority (threads s3 u) \<le> current_priority (threads s t)"
    using pass_on_inherits [OF s3 i2] ch(2) le thr m by auto
  moreover have "current_priority (threads s' u) = current_priority (threads s4 u)" for u
    by (rule same_but_statD(5) [OF unlock_frame(3) [OF s' s4(1)]])
  ultimately show ?thesis using ch(2) by (auto simp: s4(2))
qed

subsection \<open>Taking\<close>

lemma take_cases:
  assumes "rt_mutex_take' i timeout sf s = Some (r, s')"
  obtains (free) t s1 where "current s = Some t" "mtx_live s i" "owner (mtx_of s i) = None" "r = Ret RT_EOK"
      "(let c = ceiling_priority (mtx_of s i);
            s = upd_mutex i (\<lambda>x. x\<lparr>owner := Some t, mtx_priority := 0xff, hold := 1\<rparr>)
                  (upd_thread t (\<lambda>x. x\<lparr>error := RT_EOK\<rparr>) (rt_spin_lock s))
        in if c \<noteq> 0xff \<and> c < current_priority (threads s t) then thread_update_priority t c s else Some s) = Some s1"
      "rt_spin_unlock (taken_insert t i s1) = Some s'"
  | (again) t where "current s = Some t" "mtx_live s i" "owner (mtx_of s i) = Some t" "hold (mtx_of s i) < 0xff" "r = Ret RT_EOK"
      "rt_spin_unlock (upd_mutex i (\<lambda>x. x\<lparr>hold := hold x + 1\<rparr>)
         (upd_thread t (\<lambda>x. x\<lparr>error := RT_EOK\<rparr>) (rt_spin_lock s))) = Some s'"
  | (full) t where "current s = Some t" "mtx_live s i" "owner (mtx_of s i) = Some t" "\<not> hold (mtx_of s i) < 0xff"
      "r = Ret (- RT_EFULL)" "rt_spin_unlock (upd_thread t (\<lambda>x. x\<lparr>error := RT_EOK\<rparr>) (rt_spin_lock s)) = Some s'"
  | (busy) t own where "current s = Some t" "mtx_live s i" "owner (mtx_of s i) = Some own" "own \<noteq> t" "timeout = 0"
      "r = Ret (- RT_ETIMEOUT)"
      "rt_spin_unlock (upd_thread t (\<lambda>x. x\<lparr>error := RT_ETIMEOUT\<rparr>)
         (upd_thread t (\<lambda>x. x\<lparr>error := RT_EOK\<rparr>) (rt_spin_lock s))) = Some s'"
  | (waiting) t own where "current s = Some t" "mtx_live s i" "owner (mtx_of s i) = Some own" "own \<noteq> t" "timeout \<noteq> 0"
      "lock_nest s = 0"
      "mutex_wait i t own timeout sf (upd_thread t (\<lambda>x. x\<lparr>error := RT_EOK\<rparr>) (rt_spin_lock s)) = Some (r, s')"
proof -
  let ?s = "upd_thread t (\<lambda>x. x\<lparr>error := RT_EOK\<rparr>) (rt_spin_lock s)"
  obtain t where t: "current s = Some t" "mtx_live s i" "lock_nest s = 0"
    using assms by (auto simp: rt_mutex_take'_def debug_scheduler_available_def rt_critical_level_def
        bind_Some rt_thread_self_def split: if_splits)
  note d = assms [unfolded rt_mutex_take'_def debug_scheduler_available_def bind_Some]
  show thesis
  proof (cases "owner (mtx_of s i)")
    case None
    then show thesis using free [OF t(1,2) None] d t
      by (auto simp: rt_thread_self_def Let_def rt_sched_thread_get_curr_prio_def bind_Some cong: if_cong)
  next
    case (Some own)
    then show thesis
      using again [OF t(1,2)] full [OF t(1,2)] busy [OF t(1,2) Some] waiting [OF t(1,2) Some] t d
      by (auto simp: rt_thread_self_def Let_def bind_Some split: if_splits)
  qed
qed

lemma take_free:
  assumes inv: "kmtx_inv s" and live: "mtx_live s i" "owner (mtx_of s i) = None"
    and s1: "(let c = ceiling_priority (mtx_of s i);
            s = upd_mutex i (\<lambda>x. x\<lparr>owner := Some t, mtx_priority := 0xff, hold := 1\<rparr>)
                  (upd_thread t (\<lambda>x. x\<lparr>error := RT_EOK\<rparr>) (rt_spin_lock s))
        in if c \<noteq> 0xff \<and> c < current_priority (threads s t) then thread_update_priority t c s else Some s) = Some s1"
  shows "kmtx_inv (taken_insert t i s1)" "owner (mtx_of s1 i) = Some t" "hold (mtx_of s1 i) = 1"
    "\<not> waits s t \<Longrightarrow> mtx_q s1 j = mtx_q s j" "j \<noteq> i \<Longrightarrow> owner (mtx_of s1 j) = owner (mtx_of s j) \<and> hold (mtx_of s1 j) = hold (mtx_of s j)"
proof -
  define s0 where "s0 = upd_thread t (\<lambda>x. x\<lparr>error := RT_EOK\<rparr>) (rt_spin_lock s)"
  define sa where "sa = upd_mutex i (\<lambda>x. x\<lparr>owner := Some t, mtx_priority := 0xff, hold := 1\<rparr>) s0"
  have i0: "kmtx_inv s0" using inv kmtx_set_error [of "rt_spin_lock s" t 0] by (simp add: s0_def)
  have ok: "mutex_ok s i" by (rule kmtx_invD(3) [OF inv])
  have "mutex_inv_but i s0"
    using i0 ok live by (auto simp: kmtx_inv_def mutex_inv_def mutex_inv_but_def s0_def unlinked_def mutex_ok_def)
  then have ia: "kinv sa" "mutex_inv_but i sa" using i0 by (simp_all add: sa_def kmtx_inv_def inv_but_upd_mutex)
  have st: "s1 = sa \<or> (\<exists>c. thread_update_priority t c sa = Some s1)"
    using s1 unfolding Let_def s0_def [symmetric] sa_def [symmetric] by (auto split: if_splits)
  then have r: "reprio sa s1" "kinv s1" using ia(1) update_priority_loop [of t _ sa s1] by auto
  note e = mtx_eqD [OF reprioD(2) [OF r(1)]]
  show own: "owner (mtx_of s1 i) = Some t" "hold (mtx_of s1 i) = 1"
    "j \<noteq> i \<Longrightarrow> owner (mtx_of s1 j) = owner (mtx_of s j) \<and> hold (mtx_of s1 j) = hold (mtx_of s j)"
    unfolding e(3,4) by (simp_all add: sa_def s0_def)
  have "mtx_live s1 i" "mtx_flag (mtx_of s1 i) = 1"
    unfolding e(1,2) using live ok by (simp_all add: sa_def s0_def mutex_ok_def)
  then show "kmtx_inv (taken_insert t i s1)"
    using kmtx_acquire [OF r(2) reprio_inv_but [OF r(1) ia(2)]] own by simp
  assume nw: "\<not> waits s t"
  have "mtx_q s1 j = mtx_q sa j"
    using st
  proof
    assume "\<exists>c. thread_update_priority t c sa = Some s1"
    then obtain c s2 where s2: "rt_sched_thread_change_priority t c sa = Some s2" "thread_update_loop t s2 = Some s1"
      by (auto simp: thread_update_priority_def bind_Some)
    have "\<not> waits sa t" using nw live by (auto simp: waits_def sa_def s0_def th_suspended_def)
    then have "\<not> waits s2 t" using reprio_waits(2) [OF change_prio_result(2) [OF ia(1) s2(1)]] by simp
    then have "s1 = s2" using s2(2) by (simp add: update_loop_body [of t s2] update_body_end)
    then show ?thesis using change_prio_susp(2) [OF s2(1) ia(1)] by simp
  qed simp
  then show "mtx_q s1 j = mtx_q s j" by (simp add: sa_def s0_def)
qed

lemma running_not_waits: "th_stat (threads s t) = RT_THREAD_RUNNING \<Longrightarrow> \<not> waits s t"
  by (simp add: waits_def suspended_stat)

text \<open>The abstract take, when it need not wait.\<close>

fun amtx_take :: "tid \<Rightarrow> tid option \<times> nat \<times> tid list \<Rightarrow> rt_err \<times> tid option \<times> nat \<times> tid list" where
  "amtx_take t (None, h, ws) = (RT_EOK, Some t, 1, ws)"
| "amtx_take t (Some own, h, ws) =
     (if own \<noteq> t then (- RT_ETIMEOUT, Some own, h, ws)
      else if h < 255 then (RT_EOK, Some t, h + 1, ws)
      else (- RT_EFULL, Some t, h, ws))"

lemma take_result:
  assumes run: "rt_mutex_take' i timeout sf s = Some (r, s')" and inv: "kmtx_inv s"
    and cur: "current s = Some t" "th_stat (threads s t) = RT_THREAD_RUNNING" and idle: "ready_group s \<noteq> 0"
  shows "kmtx_inv s'" "r = Ret e \<Longrightarrow> amtx_take t (amtx_of s i) = (e, amtx_of s' i)"
    "r = Wait \<Longrightarrow> th_suspended (threads s' t) \<and> pending_object (threads s' t) = Some i \<and>
       owner (mtx_of s' i) = owner (mtx_of s i) \<and> hold (mtx_of s' i) = hold (mtx_of s i)"
proof -
  define s0 where "s0 = upd_thread t (\<lambda>x. x\<lparr>error := RT_EOK\<rparr>) (rt_spin_lock s)"
  have i0: "kmtx_inv s0" using inv kmtx_set_error [of "rt_spin_lock s" t 0] by (simp add: s0_def)
  have a0: "amtx_of s0 i = amtx_of s i" by (simp add: s0_def)
  have "kmtx_inv s' \<and> (r = Ret e \<longrightarrow> amtx_take t (amtx_of s i) = (e, amtx_of s' i)) \<and>
    (r = Wait \<longrightarrow> th_suspended (threads s' t) \<and> pending_object (threads s' t) = Some i \<and>
       owner (mtx_of s' i) = owner (mtx_of s i) \<and> hold (mtx_of s' i) = hold (mtx_of s i))"
    using run
  proof (cases rule: take_cases)
    case (free t' s1)
    note f = take_free [OF inv free(2,3,5)]
    have "amtx_of s' i = amtx_of s1 i"
      using amtx_unlock [OF free(6) kmtx_invD(1) [OF f(1)], of i] by simp
    then show ?thesis
      using kmtx_unlock [OF free(6) f(1)] f(2-4) running_not_waits [OF cur(2)] free(1,3,4) cur(1) by (auto simp: amtx_of_def)
  next
    case (again t')
    let ?s = "upd_mutex i (\<lambda>x. x\<lparr>hold := hold x + 1\<rparr>) s0"
    have eq: "rt_spin_unlock ?s = Some s'" using again(6) again(1) cur(1) by (simp add: s0_def)
    have h: "unat (hold (mtx_of s i) + 1) = unat (hold (mtx_of s i)) + 1" using unat_plus1 [OF again(4)] .
    then have "hold (mtx_of s i) + 1 \<noteq> 0" by (metis add_is_0 one_neq_zero unat_0)
    then have i1: "kmtx_inv ?s" using kmtx_hold [OF i0, of "\<lambda>h. h + 1" i] again(3) by (simp add: s0_def)
    have "unat (hold (mtx_of s i)) < 255" using again(4) by (simp add: word_less_nat_alt)
    then show ?thesis
      using kmtx_unlock [OF eq i1] amtx_unlock [OF eq kmtx_invD(1) [OF i1], of i] h again(1,3,5) cur(1)
      by (simp add: amtx_of_def s0_def)
  next
    case (full t')
    have eq: "rt_spin_unlock s0 = Some s'" using full(6) full(1) cur(1) by (simp add: s0_def)
    have "\<not> unat (hold (mtx_of s i)) < 255" using full(4) by (simp add: word_less_nat_alt)
    then show ?thesis
      using kmtx_unlock [OF eq i0] amtx_unlock [OF eq kmtx_invD(1) [OF i0], of i] a0 full(1,3,5) cur(1)
      by (simp add: amtx_of_def)
  next
    case (busy t' own)
    have eq: "rt_spin_unlock (upd_thread t (\<lambda>x. x\<lparr>error := RT_ETIMEOUT\<rparr>) s0) = Some s'"
      using busy(7) busy(1) cur(1) by (simp add: s0_def)
    note i1 = kmtx_set_error [OF i0, of t 2]
    show ?thesis
      using kmtx_unlock [OF eq i1] amtx_unlock [OF eq kmtx_invD(1) [OF i1], of i] a0 busy(1,3,4,6) cur(1)
      by (simp add: amtx_of_def)
  next
    case (waiting t' own)
    have w: "mutex_wait i t own timeout sf s0 = Some (r, s')" using waiting(7) waiting(1) cur(1) by (simp add: s0_def)
    have "current s0 = Some t" "th_stat (threads s0 t) = RT_THREAD_RUNNING" "mtx_live s0 i" "owner (mtx_of s0 i) = Some own"
      "lock_nest s0 = 1" "ready_group s0 \<noteq> 0"
      using cur idle waiting(2,3,6) by (simp_all add: s0_def th_stat_def)
    from kmtx_wait [OF kmtx_invD(1,2) [OF i0] this w] show ?thesis
      using waiting(3) by (simp add: s0_def)
  qed
  then show "kmtx_inv s'" "r = Ret e \<Longrightarrow> amtx_take t (amtx_of s i) = (e, amtx_of s' i)"
    "r = Wait \<Longrightarrow> th_suspended (threads s' t) \<and> pending_object (threads s' t) = Some i \<and>
       owner (mtx_of s' i) = owner (mtx_of s i) \<and> hold (mtx_of s' i) = hold (mtx_of s i)" by auto
qed

lemma take_wait_queues:
  assumes run: "rt_mutex_take' i timeout sf s = Some (Wait, s')" and inv: "kmtx_inv s"
    and cur: "current s = Some t" "th_stat (threads s t) = RT_THREAD_RUNNING" and idle: "ready_group s \<noteq> 0"
    and ch: "\<And>own. owner (mtx_of s i) = Some own \<Longrightarrow> own \<noteq> t \<Longrightarrow> owner_chain s own us \<and> t \<notin> set us"
  shows "amtx_of s' i = amtx_wait (\<lambda>u. current_priority (threads s u)) t (amtx_of s i)"
    "j \<noteq> i \<Longrightarrow> owner (mtx_of s' j) = owner (mtx_of s j) \<and> hold (mtx_of s' j) = hold (mtx_of s j) \<and> set (mtx_q s j) \<subseteq> set (mtx_q s' j)"
    "current s' \<noteq> Some t" "ttmr_set (threads s' t) \<longleftrightarrow> 0 < timeout"
proof -
  define s0 where "s0 = upd_thread t (\<lambda>x. x\<lparr>error := RT_EOK\<rparr>) (rt_spin_lock s)"
  have i0: "kmtx_inv s0" using inv kmtx_set_error [of "rt_spin_lock s" t 0] by (simp add: s0_def)
  obtain own where o: "mtx_live s i" "owner (mtx_of s i) = Some own" "own \<noteq> t" "lock_nest s = 0"
      "mutex_wait i t own timeout sf s0 = Some (Wait, s')"
    using run by (cases rule: take_cases) (use cur(1) in \<open>auto simp: s0_def\<close>)
  have h: "current s0 = Some t" "th_stat (threads s0 t) = RT_THREAD_RUNNING" "mtx_live s0 i" "owner (mtx_of s0 i) = Some own"
    "lock_nest s0 = 1" "ready_group s0 \<noteq> 0"
    using cur idle o by (simp_all add: s0_def th_stat_def)
  have "owner_chain s v vs \<Longrightarrow> owner_chain s0 v vs" for v vs
    by (induction vs arbitrary: v) (auto simp: s0_def waits_def waits_for_def th_suspended_def split: option.splits)
  then have c0: "owner_chain s0 own us" "t \<notin> set (own # us)" using ch [OF o(2,3)] o(3) by auto
  have a0: "amtx_of s0 i = amtx_of s i" "(\<lambda>u. current_priority (threads s0 u)) = (\<lambda>u. current_priority (threads s u))"
    by (auto simp: s0_def fun_eq_iff)
  note q = mutex_wait_queues [OF kmtx_invD(1,2) [OF i0] h o(5) c0]
  show "amtx_of s' i = amtx_wait (\<lambda>u. current_priority (threads s u)) t (amtx_of s i)" using q(1) unfolding a0 .
  show "j \<noteq> i \<Longrightarrow> owner (mtx_of s' j) = owner (mtx_of s j) \<and> hold (mtx_of s' j) = hold (mtx_of s j) \<and> set (mtx_q s j) \<subseteq> set (mtx_q s' j)"
    using q(2) [of j] by (simp add: s0_def)
  show "current s' \<noteq> Some t" "ttmr_set (threads s' t) \<longleftrightarrow> 0 < timeout"
    using kmtx_wait(3,8) [OF kmtx_invD(1,2) [OF i0] h o(5)] by simp_all
qed

lemma take_inherits:
  assumes run: "rt_mutex_take' i timeout sf s = Some (Wait, s')" and inv: "kmtx_inv s"
    and cur: "current s = Some t" "th_stat (threads s t) = RT_THREAD_RUNNING" and idle: "ready_group s \<noteq> 0"
    and own: "owner (mtx_of s i) = Some own" and ch: "owner_chain s own us" "distinct (t # own # us)"
    and so: "sorted_wrt (\<lambda>u v. current_priority (threads s v) \<le> current_priority (threads s u)) (own # us)"
    and le: "current_priority (threads s own) \<le> mtx_priority (mtx_of s i)"
  shows "\<forall>u\<in>set (own # us). current_priority (threads s' u) \<le> current_priority (threads s t)"
  using run
proof (cases rule: take_cases)
  case (waiting t' own')
  define s0 where "s0 = upd_thread t (\<lambda>x. x\<lparr>error := RT_EOK\<rparr>) (rt_spin_lock s)"
  have i0: "kmtx_inv s0" using inv kmtx_set_error [of "rt_spin_lock s" t 0] by (simp add: s0_def)
  have w: "mutex_wait i t own timeout sf s0 = Some (Wait, s')"
    using waiting(7) waiting(1,3) cur(1) own by (simp add: s0_def)
  have st: "current s0 = Some t" "th_stat (threads s0 t) = RT_THREAD_RUNNING" "mtx_live s0 i" "owner (mtx_of s0 i) = Some own"
    "lock_nest s0 = 1" "ready_group s0 \<noteq> 0"
    using cur idle waiting(2,6) own by (simp_all add: s0_def th_stat_def)
  have pr: "current_priority (threads s0 u) = current_priority (threads s u)" for u by (simp add: s0_def)
  have "owner_chain s v vs \<Longrightarrow> owner_chain s0 v vs" for v vs
    by (induction vs arbitrary: v) (auto simp: s0_def waits_def waits_for_def th_suspended_def split: option.splits)
  then have "owner_chain s0 own us" using ch(1) by blast
  from mutex_wait_inherits [OF kmtx_invD(1,2) [OF i0] st w this ch(2)] show ?thesis
    using so le unfolding pr by (simp add: s0_def)
qed simp_all

text \<open>The end of a wait, when the thread runs again.\<close>

lemma kmtx_take_finish:
  assumes run: "mutex_take_finish i t s = Some (r, s')" and inv: "kmtx_inv s" and t: "runnable (threads s t)"
  shows "kmtx_inv s'" "error (threads s t) = RT_EOK \<Longrightarrow> r = RT_EOK \<and> owner (mtx_of s i) = Some t"
    "error (threads s t) \<noteq> RT_EOK \<Longrightarrow> r = - \<bar>error (threads s t)\<bar> \<and> pending_object (threads s' t) = None"
proof -
  have "kmtx_inv s' \<and> (error (threads s t) = RT_EOK \<longrightarrow> r = RT_EOK \<and> owner (mtx_of s i) = Some t) \<and>
    (error (threads s t) \<noteq> RT_EOK \<longrightarrow> r = - \<bar>error (threads s t)\<bar> \<and> pending_object (threads s' t) = None)"
  proof (cases "error (threads s t) = RT_EOK")
    case True
    then show ?thesis
      using run kmtx_unlock [of "rt_spin_lock s" s'] inv
      by (auto simp: mutex_take_finish_def bind_Some Let_def split: if_splits)
  next
    case False
    then obtain s1 s2 where s1: "mutex_unboost i t (rt_spin_lock s) = Some s1" and s2: "rt_spin_unlock s1 = Some s2"
        and s': "s' = upd_thread t (\<lambda>x. x\<lparr>pending_object := None\<rparr>) s2"
        and r: "r = (if 0 < error (threads s t) then - error (threads s t) else error (threads s t))"
      using run by (auto simp: mutex_take_finish_def bind_Some Let_def split: if_splits)
    have "kinv (rt_spin_lock s)" using inv by (simp add: kmtx_inv_def)
    note u = unboost_result [OF s1 this]
    have i1: "kmtx_inv s1" using kmtx_reprio [OF u(2,1)] inv by simp
    have "runnable (threads s2 t)"
      using unlock_frame(4) [OF s2 u(1), of t] prio_eqD(9) [OF reprioD(7) [OF u(2), of t]] t by simp
    then show ?thesis
      using kmtx_clear_pending [OF kmtx_unlock [OF s2 i1]] False r by (auto simp: s')
  qed
  then show "kmtx_inv s'" "error (threads s t) = RT_EOK \<Longrightarrow> r = RT_EOK \<and> owner (mtx_of s i) = Some t"
    "error (threads s t) \<noteq> RT_EOK \<Longrightarrow> r = - \<bar>error (threads s t)\<bar> \<and> pending_object (threads s' t) = None" by auto
qed

lemma kmtx_take_wake:
  assumes run: "mutex_take_wake i t s = Some (r, s')" and inv: "kmtx_inv s" and t: "runnable (threads s t)"
  shows "kmtx_inv s'"
proof -
  obtain s1 where s1: "rt_schedule s = Some s1"
      "(if current s1 = Some t then do { (r, s) \<leftarrow> mutex_take_finish i t s1; Some (Ret r, s) } else Some (Wait, s1)) = Some (r, s')"
    using run by (auto simp: mutex_take_wake_def bind_Some)
  have "runnable (threads s1 t)" using schedule_frame [OF s1(1) kinvD(1) [OF kmtx_invD(1) [OF inv]]] t by (simp add: sched_frame_def)
  then show ?thesis
    using s1(2) kmtx_schedule [OF s1(1) inv] kmtx_take_finish(1) [of i t s1] by (auto simp: bind_Some split: if_splits)
qed

end
