(* ===== verification/RT_Thread.thy ===== *)
theory RT_Thread
  imports RT_MutexTake
begin

text \<open>
  The life of a thread (\<^verbatim>\<open>src/thread.c\<close>): initialisation with the first stack frame of the
  port (\<^verbatim>\<open>libcpu/risc-v/virt64/cpuport.c\<close>), start, sleeping, timeouts, control commands, exit
  and detaching; and the idle thread (\<^verbatim>\<open>src/idle.c\<close>), which frees closed threads. Names of
  threads are not part of the state.
\<close>

subsection \<open>The first stack frame\<close>

text \<open>
  A word of the stack: the address of a function or a plain value. The stack is the pointer
  and the words from there on upwards.
\<close>

datatype hwword = Entry_fn nat | Thread_exit_fn | Thread_entry_fn | Val u64

type_synonym hwstack = "u64 \<times> hwword list"

definition hw_push :: "hwword \<Rightarrow> hwstack \<Rightarrow> hwstack" where
  "hw_push w st = (fst st - 8, w # snd st)"

definition rt_hw_stack_init' :: "hwword \<Rightarrow> hwword \<Rightarrow> hwstack \<Rightarrow> hwstack" where
  "rt_hw_stack_init' ra sstatus st =
     (let st = hw_push (Val 0) st;
          st = hw_push ra st;
          st = fold hw_push (replicate 12 (Val 0)) st
      in hw_push sstatus st)"

definition rt_hw_stack_init :: "nat \<Rightarrow> nat \<Rightarrow> u64 \<Rightarrow> hwstack" where
  "rt_hw_stack_init tentry parameter addr =
     (let st = (addr AND NOT 15, []);
          st = hw_push (Entry_fn tentry) st;
          st = hw_push (Val (of_nat parameter)) st;
          st = hw_push Thread_exit_fn st
      in rt_hw_stack_init' Thread_entry_fn (Val 0x46120) st)"

subsection \<open>Initialisation and start\<close>

text \<open>
  \<^verbatim>\<open>_thread_init\<close>. The frame must lie within the stack; the first byte of the stack is the
  filler unless the frame reaches down to it.
\<close>

definition thread_init :: "tid \<Rightarrow> nat \<Rightarrow> nat \<Rightarrow> u64 \<Rightarrow> u32 \<Rightarrow> u8 \<Rightarrow> u32 \<Rightarrow> kst \<Rightarrow> (rt_err \<times> kst) option" where
  "thread_init t entry parameter stack_start stack_sz priority tick s =
     do { s \<leftarrow> rt_sched_thread_init_ctx t tick priority s;
          let st_top = stack_start + ucast stack_sz - 8;
          let fr = rt_hw_stack_init entry parameter st_top;
          rt_assert (stack_start \<le> fst fr \<and> fst fr \<le> st_top);
          let s = upd_thread t (\<lambda>x. x\<lparr>entry_fn := entry, th_parameter := parameter, stack_addr := stack_start,
            stack_size := stack_sz, stack_first := (if fst fr = stack_start then 0x20 else 0x23),
            sp := fst fr\<rparr>) s;
          let s = s\<lparr>ipc := (ipc s)\<lparr>taken := ls_init (taken (ipc s)) t\<rparr>\<rparr>;
          let s = upd_thread t (\<lambda>x. x\<lparr>pending_object := None, event_set := 0, event_info := 0,
            error := RT_EOK, cleanup := None\<rparr>) s;
          s \<leftarrow> on_tm (rt_timer_init (Thread_timer t) Thread_timeout t 0 RT_TIMER_FLAG_THREAD_TIMER) s;
          Some (RT_EOK, s) }"

definition rt_thread_init :: "tid \<Rightarrow> nat \<Rightarrow> nat \<Rightarrow> u64 \<Rightarrow> u32 \<Rightarrow> u8 \<Rightarrow> u32 \<Rightarrow> kst \<Rightarrow> (rt_err \<times> kst) option" where
  "rt_thread_init t entry parameter stack_start stack_sz priority tick s =
     do { rt_assert (stack_start \<noteq> 0);
          rt_assert (tick \<noteq> 0);
          ty \<leftarrow> object_init RT_Object_Class_Thread (th_type (threads s t));
          let s = upd_thread t (\<lambda>x. x\<lparr>th_type := ty\<rparr>) s;
          thread_init t entry parameter stack_start stack_sz priority tick s }"

text \<open>
  \<open>obj\<close> and \<open>mem\<close> are what the allocations of the thread and of its stack returned. The
  memory of an allocated thread, its timer included, is zeroed.
\<close>

definition zero_thread :: rt_thread where
  "zero_thread = \<lparr>th_type = 0, sp = 0, entry_fn = 0, th_parameter = 0, stack_addr = 0, stack_size = 0,
     stack_first = 0, error = 0, stat = 0, ttmr_set = False, init_tick = 0, remaining_tick = 0,
     current_priority = 0, init_priority = 0, number_mask = 0, cleanup = None, pending_object = None,
     event_set = 0, event_info = 0\<rparr>"

definition zero_timer :: rt_timer where
  "zero_timer = \<lparr>tm_type = 0, tm_flag = 0, timeout_func = User_func 0, tm_parameter = 0,
     tm_init_tick = 0, timeout_tick = 0\<rparr>"

definition thread_allocate :: "tid \<Rightarrow> kst \<Rightarrow> kst" where
  "thread_allocate t s =
     upd_thread t (\<lambda>_. zero_thread\<lparr>th_type := object_allocate RT_Object_Class_Thread\<rparr>)
       (s\<lparr>tm := upd_timer (Thread_timer t) (\<lambda>_. zero_timer) (tm s)\<rparr>)"

definition rt_thread_create ::
  "tid option \<Rightarrow> u64 option \<Rightarrow> nat \<Rightarrow> nat \<Rightarrow> u32 \<Rightarrow> u8 \<Rightarrow> u32 \<Rightarrow> kst \<Rightarrow> (tid option \<times> kst) option" where
  "rt_thread_create obj mem entry parameter stack_sz priority tick s =
     do { rt_assert (tick \<noteq> 0);
          case obj of
            None \<Rightarrow> Some (None, s)
          | Some t \<Rightarrow>
              let s = thread_allocate t s
              in (case mem of
                    None \<Rightarrow> Some (None, upd_thread t (\<lambda>x. x\<lparr>th_type := object_detach (th_type x)\<rparr>) s)
                  | Some stack_start \<Rightarrow>
                      do { (_, s) \<leftarrow> thread_init t entry parameter stack_start stack_sz priority tick s;
                           Some (Some t, s) }) }"

definition rt_thread_startup :: "tid \<Rightarrow> kst \<Rightarrow> (rt_err \<times> kst) option" where
  "rt_thread_startup t s =
     do { rt_assert (stat (threads s t) AND RT_THREAD_STAT_MASK = RT_THREAD_INIT);
          rt_assert (rt_object_get_type (th_type (threads s t)) = RT_Object_Class_Thread);
          (_, s) \<leftarrow> rt_thread_resume t (rt_sched_thread_startup t s);
          Some (RT_EOK, s) }"

subsection \<open>Timeouts, sleeping, yielding\<close>

text \<open>\<^verbatim>\<open>_thread_timeout\<close>, the callback of the thread timers.\<close>

definition thread_timeout :: "tid \<Rightarrow> kst \<Rightarrow> kst option" where
  "thread_timeout t s =
     do { rt_assert (rt_object_get_type (th_type (threads s t)) = RT_Object_Class_Thread);
          rt_assert (rt_sched_thread_is_suspended t s);
          let s = upd_thread t (\<lambda>x. x\<lparr>error := - RT_ETIMEOUT\<rparr>) s;
          let s = list_remove_thread t s;
          rt_sched_unlock_n_resched (rt_sched_insert_thread t s) }"

definition rt_thread_yield :: "kst \<Rightarrow> (rt_err \<times> kst) option" where
  "rt_thread_yield s =
     do { t \<leftarrow> rt_thread_self s;
          s \<leftarrow> rt_sched_unlock_n_resched (rt_sched_thread_yield t s);
          Some (RT_EOK, s) }"

text \<open>What the sleeping thread does when it runs again.\<close>

definition thread_sleep_resume :: "tid \<Rightarrow> kst \<Rightarrow> kst" where
  "thread_sleep_resume t s =
     (if error (threads s t) = - RT_ETIMEOUT then upd_thread t (\<lambda>x. x\<lparr>error := RT_EOK\<rparr>) s else s)"

definition thread_sleep :: "u32 \<Rightarrow> kst \<Rightarrow> (rt_err wres \<times> kst) option" where
  "thread_sleep tick s =
     (if tick = 0 then Some (Ret (- RT_EINVAL), s)
      else
        do { t \<leftarrow> rt_thread_self s;
             rt_assert (rt_object_get_type (th_type (threads s t)) = RT_Object_Class_Thread);
             debug_scheduler_available True s;
             let s = upd_thread t (\<lambda>x. x\<lparr>error := RT_EOK\<rparr>) s;
             let (critical_level, s) = rt_enter_critical s;
             (err, s) \<leftarrow> rt_thread_suspend_with_flag t RT_INTERRUPTIBLE s;
             if err = RT_EOK then
               do { s \<leftarrow> thread_timer_arm t tick s;
                    let s = upd_thread t (\<lambda>x. x\<lparr>error := - RT_EINTR\<rparr>) s;
                    s \<leftarrow> rt_schedule s;
                    s \<leftarrow> rt_exit_critical_safe critical_level s;
                    if current s = Some t then Some (Ret err, thread_sleep_resume t s) else Some (Wait, s) }
             else
               do { s \<leftarrow> rt_exit_critical_safe critical_level s;
                    Some (Ret err, s) } })"

definition rt_thread_delay :: "u32 \<Rightarrow> kst \<Rightarrow> (rt_err wres \<times> kst) option" where
  "rt_thread_delay tick s = thread_sleep tick s"

definition rt_thread_mdelay :: "int \<Rightarrow> int \<Rightarrow> kst \<Rightarrow> (rt_err wres \<times> kst) option" where
  "rt_thread_mdelay tps ms s = thread_sleep (rt_tick_from_millisecond tps ms) s"

definition delay_until_resume :: "tid \<Rightarrow> kst \<Rightarrow> rt_err \<times> kst" where
  "delay_until_resume t s = (let s = thread_sleep_resume t s in (error (threads s t), s))"

text \<open>The result carries the new value of \<^verbatim>\<open>*tick\<close>.\<close>

definition rt_thread_delay_until :: "u32 \<Rightarrow> u32 \<Rightarrow> kst \<Rightarrow> ((rt_err wres \<times> u32) \<times> kst) option" where
  "rt_thread_delay_until tick inc_tick s =
     do { t \<leftarrow> rt_thread_self s;
          rt_assert (rt_object_get_type (th_type (threads s t)) = RT_Object_Class_Thread);
          let s = upd_thread t (\<lambda>x. x\<lparr>error := RT_EOK\<rparr>) s;
          let (critical_level, s) = rt_enter_critical s;
          let cur_tick = rt_tick_get (tm s);
          if cur_tick - tick < inc_tick then
            do { let tick = tick + inc_tick;
                 let left_tick = tick - cur_tick;
                 (_, s) \<leftarrow> rt_thread_suspend_with_flag t RT_UNINTERRUPTIBLE s;
                 s \<leftarrow> thread_timer_arm t left_tick s;
                 s \<leftarrow> rt_exit_critical_safe critical_level s;
                 if current s \<noteq> Some t then Some ((Wait, tick), s)
                 else
                   do { s \<leftarrow> rt_schedule s;
                        if current s \<noteq> Some t then Some ((Wait, tick), s)
                        else (let (e, s) = delay_until_resume t s in Some ((Ret e, tick), s)) } }
          else
            do { s \<leftarrow> rt_exit_critical_safe critical_level s;
                 Some ((Ret (error (threads s t)), cur_tick), s) } }"

subsection \<open>Closing\<close>

definition rt_thread_defunct_enqueue :: "tid \<Rightarrow> kst \<Rightarrow> kst" where
  "rt_thread_defunct_enqueue t s = s\<lparr>tls := ls_insert_after (tls s) Defunct t\<rparr>"

definition rt_thread_defunct_dequeue :: "kst \<Rightarrow> tid option \<times> kst" where
  "rt_thread_defunct_dequeue s =
     (case tls s Defunct of
        [] \<Rightarrow> (None, s)
      | t # _ \<Rightarrow> (Some t, list_remove_thread t s))"

text \<open>\<^verbatim>\<open>_thread_exit\<close>, to which the entry function of a thread returns.\<close>

definition thread_exit :: "kst \<Rightarrow> kst option" where
  "thread_exit s =
     do { t \<leftarrow> rt_thread_self s;
          let (critical_level, s) = rt_enter_critical s;
          let s = rt_sched_remove_thread t s;
          s \<leftarrow> on_tm (rt_timer_detach (Thread_timer t)) s;
          let s = rt_sched_thread_close t s;
          let s = rt_thread_defunct_enqueue t s;
          s \<leftarrow> rt_exit_critical_safe critical_level s;
          if current s = Some t then rt_schedule s else Some s }"

text \<open>
  \<^verbatim>\<open>_thread_detach_from_mutex\<close>. A release takes the mutex of the visited node off the list
  or leaves the list alone, so the walk visits the list as it was.
\<close>

fun release_all :: "nat list \<Rightarrow> kst \<Rightarrow> kst option" where
  "release_all [] s = Some s"
| "release_all (i # is) s = do { (_, s) \<leftarrow> rt_mutex_release i s; release_all is s }"

definition thread_detach_from_mutex :: "tid \<Rightarrow> kst \<Rightarrow> kst option" where
  "thread_detach_from_mutex t s =
     do { s \<leftarrow> (case pending_object (threads s t) of
                  Some i \<Rightarrow>
                    if rt_object_get_type (mtx_type (mtx_of s i)) = RT_Object_Class_Mutex
                    then do { s \<leftarrow> rt_mutex_drop_thread i t s;
                              Some (upd_thread t (\<lambda>x. x\<lparr>pending_object := None\<rparr>) s) }
                    else Some s
                | None \<Rightarrow> Some s);
          release_all (taken (ipc s) t) s }"

definition thread_detach :: "tid \<Rightarrow> kst \<Rightarrow> (rt_err \<times> kst) option" where
  "thread_detach t s =
     do { let (critical_level, s) = rt_enter_critical s;
          let thread_status = rt_sched_thread_get_stat t s;
          s \<leftarrow> (if thread_status \<noteq> RT_THREAD_CLOSE then
                  do { let s = (if thread_status \<noteq> RT_THREAD_INIT then rt_sched_remove_thread t s else s);
                       s \<leftarrow> on_tm (rt_timer_detach (Thread_timer t)) s;
                       let s = rt_sched_thread_close t s;
                       s \<leftarrow> thread_detach_from_mutex t s;
                       Some (rt_thread_defunct_enqueue t s) }
                else Some s);
          s \<leftarrow> rt_exit_critical_safe critical_level s;
          Some (RT_EOK, s) }"

definition rt_thread_detach :: "tid \<Rightarrow> kst \<Rightarrow> (rt_err \<times> kst) option" where
  "rt_thread_detach t s =
     do { rt_assert (rt_object_get_type (th_type (threads s t)) = RT_Object_Class_Thread);
          rt_assert (rt_object_is_systemobject (th_type (threads s t)));
          thread_detach t s }"

definition rt_thread_delete :: "tid \<Rightarrow> kst \<Rightarrow> (rt_err \<times> kst) option" where
  "rt_thread_delete t s =
     do { rt_assert (rt_object_get_type (th_type (threads s t)) = RT_Object_Class_Thread);
          rt_assert (\<not> rt_object_is_systemobject (th_type (threads s t)));
          thread_detach t s }"

abbreviation (input) RT_THREAD_CTRL_STARTUP :: int where "RT_THREAD_CTRL_STARTUP \<equiv> 0"
abbreviation (input) RT_THREAD_CTRL_CLOSE :: int where "RT_THREAD_CTRL_CLOSE \<equiv> 1"
abbreviation (input) RT_THREAD_CTRL_CHANGE_PRIORITY :: int where "RT_THREAD_CTRL_CHANGE_PRIORITY \<equiv> 2"
abbreviation (input) RT_THREAD_CTRL_BIND_CPU :: int where "RT_THREAD_CTRL_BIND_CPU \<equiv> 4"

text \<open>\<open>arg\<close> is the byte the argument points to, or the number it is.\<close>

definition rt_thread_control :: "tid \<Rightarrow> int \<Rightarrow> u8 \<Rightarrow> kst \<Rightarrow> (rt_err \<times> kst) option" where
  "rt_thread_control t cmd arg s =
     do { rt_assert (rt_object_get_type (th_type (threads s t)) = RT_Object_Class_Thread);
          if cmd = RT_THREAD_CTRL_CHANGE_PRIORITY then
            do { s \<leftarrow> rt_sched_thread_change_priority t arg s; Some (RT_EOK, s) }
          else if cmd = RT_THREAD_CTRL_STARTUP then rt_thread_startup t s
          else if cmd = RT_THREAD_CTRL_CLOSE then
            do { (e, s) \<leftarrow> (if rt_object_is_systemobject (th_type (threads s t))
                             then rt_thread_detach t s else rt_thread_delete t s);
                 s \<leftarrow> rt_schedule s;
                 Some (e, s) }
          else if cmd = RT_THREAD_CTRL_BIND_CPU then
            Some (rt_sched_thread_bind_cpu t (uint arg) s, s)
          else Some (RT_EOK, s) }"

subsection \<open>The idle thread\<close>

text \<open>
  \<^verbatim>\<open>rt_defunct_execute\<close>. \<open>run\<close> calls the cleanup function of a thread; a closed thread that
  was allocated is freed with its stack.
\<close>

partial_function (option) rt_defunct_execute :: "(nat \<Rightarrow> tid \<Rightarrow> kst \<Rightarrow> kst option) \<Rightarrow> kst \<Rightarrow> kst option" where
  "rt_defunct_execute run s =
     (case rt_thread_defunct_dequeue s of
        (None, s) \<Rightarrow> Some s
      | (Some t, s) \<Rightarrow>
          do { let fn = cleanup (threads s t);
               let system = rt_object_is_systemobject (th_type (threads s t));
               let s = (if system then upd_thread t (\<lambda>x. x\<lparr>th_type := object_detach (th_type x)\<rparr>) s else s);
               s \<leftarrow> (case fn of None \<Rightarrow> Some s | Some f \<Rightarrow> run f t s);
               let s = (if \<not> system then upd_thread t (\<lambda>x. x\<lparr>th_type := object_detach (th_type x)\<rparr>) s else s);
               rt_defunct_execute run s })"

text \<open>The hooks of the idle thread: an array of four places.\<close>

abbreviation (input) RT_IDLE_HOOK_LIST_SIZE :: nat where "RT_IDLE_HOOK_LIST_SIZE \<equiv> 4"

fun replace_first :: "'a \<Rightarrow> 'a \<Rightarrow> 'a list \<Rightarrow> 'a list option" where
  "replace_first a b [] = None"
| "replace_first a b (x # xs) =
     (if x = a then Some (b # xs) else do { ys \<leftarrow> replace_first a b xs; Some (x # ys) })"

definition rt_thread_idle_sethook :: "nat \<Rightarrow> nat option list \<Rightarrow> rt_err \<times> nat option list" where
  "rt_thread_idle_sethook hook hs =
     (case replace_first None (Some hook) hs of
        None \<Rightarrow> (- RT_EFULL, hs)
      | Some hs' \<Rightarrow> (RT_EOK, hs'))"

definition rt_thread_idle_delhook :: "nat \<Rightarrow> nat option list \<Rightarrow> rt_err \<times> nat option list" where
  "rt_thread_idle_delhook hook hs =
     (case replace_first (Some hook) None hs of
        None \<Rightarrow> (- RT_ENOSYS, hs)
      | Some hs' \<Rightarrow> (RT_EOK, hs'))"

text \<open>One round of \<^verbatim>\<open>idle_thread_entry\<close>: the hooks in the order of the array, then the closed threads.\<close>

fun run_hooks :: "(nat \<Rightarrow> kst \<Rightarrow> kst option) \<Rightarrow> nat option list \<Rightarrow> kst \<Rightarrow> kst option" where
  "run_hooks call [] s = Some s"
| "run_hooks call (None # hs) s = run_hooks call hs s"
| "run_hooks call (Some h # hs) s = do { s \<leftarrow> call h s; run_hooks call hs s }"

definition idle_thread_round ::
  "(nat \<Rightarrow> kst \<Rightarrow> kst option) \<Rightarrow> (nat \<Rightarrow> tid \<Rightarrow> kst \<Rightarrow> kst option) \<Rightarrow> nat option list \<Rightarrow> kst \<Rightarrow> kst option" where
  "idle_thread_round call run hs s = do { s \<leftarrow> run_hooks call hs s; rt_defunct_execute run s }"

text \<open>The idle thread is a static thread of the lowest priority; \<open>stack\<close> and \<open>sz\<close> are its stack.\<close>

definition idle_thread :: tid where
  "idle_thread = 0"

definition rt_thread_idle_init :: "nat \<Rightarrow> u64 \<Rightarrow> u32 \<Rightarrow> kst \<Rightarrow> kst option" where
  "rt_thread_idle_init entry stack sz s =
     do { (_, s) \<leftarrow> rt_thread_init idle_thread entry 0 stack sz (RT_THREAD_PRIORITY_MAX - 1) 32 s;
          (_, s) \<leftarrow> rt_thread_startup idle_thread s;
          Some s }"

definition rt_thread_idle_gethandler :: tid where
  "rt_thread_idle_gethandler = idle_thread"

end
