(* ===== verification/RT_Class.thy ===== *)
theory RT_Class
  imports RT_Wait
begin

text \<open>
  The footprint of an operation. An operation on an object of one class may change the objects
  of that class and lengthen their queues; all it does to the other classes is to take threads
  off their queues. The invariants of the other classes are closed under this, so one footprint
  lemma per operation is enough for the invariant of the whole system.
\<close>

datatype cls = C_sem | C_mutex | C_event | C_mb | C_mq | C_mp

fun cls_of :: "ipcref \<Rightarrow> cls" where
  "cls_of (Sem_q i) = C_sem"
| "cls_of (Mutex_q i) = C_mutex"
| "cls_of (Event_q i) = C_event"
| "cls_of (Mb_q i) = C_mb"
| "cls_of (Mb_sender_q i) = C_mb"
| "cls_of (Mq_q i) = C_mq"
| "cls_of (Mq_sender_q i) = C_mq"
| "cls_of (Mp_q i) = C_mp"

text \<open>The part of the IPC state that belongs to other classes.\<close>

definition same_parts :: "cls set \<Rightarrow> ipcst \<Rightarrow> ipcst \<Rightarrow> bool" where
  "same_parts C c c' \<longleftrightarrow>
     (C_sem \<notin> C \<longrightarrow> sems c' = sems c) \<and>
     (C_mutex \<notin> C \<longrightarrow> mutexes c' = mutexes c \<and> taken c' = taken c) \<and>
     (C_event \<notin> C \<longrightarrow> events c' = events c) \<and>
     (C_mb \<notin> C \<longrightarrow> mbs c' = mbs c) \<and>
     (C_mq \<notin> C \<longrightarrow> mqs c' = mqs c) \<and>
     (C_mp \<notin> C \<longrightarrow> mps c' = mps c \<and> mp_words c' = mp_words c)"

definition touches :: "cls set \<Rightarrow> kst \<Rightarrow> kst \<Rightarrow> bool" where
  "touches C s s' \<longleftrightarrow> same_parts C (ipc s) (ipc s') \<and> shrunk (\<lambda>q. cls_of q \<notin> C) s s'"

lemma shrunk_mono: "shrunk own s s' \<Longrightarrow> (\<And>q. own' q \<Longrightarrow> own q) \<Longrightarrow> shrunk own' s s'"
  by (auto simp: shrunk_def)

lemma same_parts_refl [simp]: "same_parts C c c"
  by (simp add: same_parts_def)

lemma touches_refl [simp]: "touches C s s"
  by (simp add: touches_def)

lemma same_parts_trans: "same_parts C c c' \<Longrightarrow> same_parts C c' c'' \<Longrightarrow> same_parts C c c''"
  by (simp add: same_parts_def)

lemma touches_trans [trans]: "touches C s s' \<Longrightarrow> touches C s' s'' \<Longrightarrow> touches C s s''"
  unfolding touches_def using same_parts_trans shrunk_trans by blast

lemma touches_mono:
  assumes "touches C s s'" "C \<subseteq> D"
  shows "touches D s s'"
  using assms shrunk_mono [of "\<lambda>q. cls_of q \<notin> C" s s' "\<lambda>q. cls_of q \<notin> D"]
  by (auto simp: touches_def same_parts_def)

lemma touchesI: "ipc s' = ipc s \<Longrightarrow> shrunk (\<lambda>q. cls_of q \<notin> C) s s' \<Longrightarrow> touches C s s'"
  by (simp add: touches_def)

text \<open>The steps the operations are made of.\<close>

lemma touches_schedule: "rt_schedule s = Some s' \<Longrightarrow> kinv s \<Longrightarrow> touches C s s'"
  using schedule_frame [of s s'] by (intro touchesI shrunk_schedule) (auto simp: sched_frame_def dest: kinvD(1))

lemma touches_woken: "woken T s s' \<Longrightarrow> touches C s s'"
  by (intro touchesI shrunk_woken woken_ipc)

lemma touches_exit_critical: "rt_exit_critical s = Some s' \<Longrightarrow> kinv s \<Longrightarrow> touches C s s'"
  by (intro touchesI exit_critical_frame)

lemma touches_upd_thread: "(\<And>x. wait_eq (f x) x) \<Longrightarrow> touches C s (upd_thread t f s)"
  by (simp add: touchesI shrunk_upd_thread)

lemma touches_set_error: "touches C s (upd_thread t (\<lambda>x. x\<lparr>error := e\<rparr>) s)"
  by (rule touches_upd_thread) (simp add: wait_eq_def)

lemma touches_upd_running:
  "kinv s \<Longrightarrow> th_stat (threads s t) = RT_THREAD_RUNNING \<Longrightarrow> touches C s (upd_thread t f s)"
  by (simp add: touchesI shrunk_upd_running)

lemma touches_blocked:
  "blocked t q fl timeout s s' \<Longrightarrow> kinv s \<Longrightarrow> th_stat (threads s t) = RT_THREAD_RUNNING \<Longrightarrow> cls_of q \<in> C \<Longrightarrow> touches C s s'"
  using shrunk_blocked [of t q fl timeout s s' "\<lambda>q. cls_of q \<notin> C"] by (simp add: touchesI blocked_def)

lemma touches_dequeue:
  assumes "rt_susp_list_dequeue q e s = Some (r, s')" "kinv s"
  shows "kinv s'" "touches C s s'"
proof -
  have "kinv s' \<and> touches C s s'"
    using assms kinv_dequeue [OF assms(2), of q "hd (tls s (Susp q))" "tl (tls s (Susp q))" e] touches_woken
    by (cases "tls s (Susp q)") auto
  then show "kinv s'" "touches C s s'" by simp_all
qed

lemma touches_resume_all:
  assumes "rt_susp_list_resume_all q e s = Some s'" "kinv s"
  shows "kinv s'" "touches C s s'"
  using kinv_resume_all [OF assms(2), of q e] assms(1) touches_woken by auto

lemma touches_wake_first:
  assumes "wake_first q s = Some s'" "kinv s"
  shows "kinv s'" "touches C s s'"
  using wake_first_result(1-3) [OF assms] by (auto intro: touchesI)

lemma touches_set_errno: "touches C s (rt_set_errno e s)"
  using touches_set_error [of C s _ e] by (auto simp: rt_set_errno_def split: option.split) (simp_all add: touches_def)

lemma touches_lock [simp]:
  "touches C s (s'\<lparr>lock_nest := n\<rparr>) = touches C s s'" "touches C (s\<lparr>lock_nest := n\<rparr>) s' = touches C s s'"
  "touches C s (s'\<lparr>rt_errno := e\<rparr>) = touches C s s'"
  by (simp_all add: touches_def)

lemma touches_init_list:
  "cls_of q \<in> C \<Longrightarrow> touches C s (s'\<lparr>tls := ls_init (tls s') (Susp q)\<rparr>) = touches C s s'"
  by (auto simp: touches_def shrunk_def ls_init_def)

end
