(* ===== verification/RT_ThreadInv.thy ===== *)
theory RT_ThreadInv
  imports RT_Thread RT_Class
begin

text \<open>
  The life of a thread keeps the invariant of the kernel. The lemmas follow the states: a new
  thread is off all lists, a started thread is runnable, a sleeping thread leaves the
  processor and comes back by its timeout, a closed thread waits on the defunct list until the
  idle thread frees it.
\<close>

subsection \<open>The first stack frame\<close>

lemma fold_hw_push: "fold hw_push ws (a, st) = (a - 8 * of_nat (length ws), rev ws @ st)"
  by (induction ws arbitrary: a st) (simp_all add: hw_push_def algebra_simps)

lemma stack_frame:
  "rt_hw_stack_init e p a = ((a AND NOT 15) - 144,
     Val 0x46120 # replicate 12 (Val 0) @ [Thread_entry_fn, Val 0, Thread_exit_fn, Val (of_nat p), Entry_fn e])"
  by (simp add: rt_hw_stack_init_def rt_hw_stack_init'_def Let_def fold_hw_push hw_push_def
      numeral_eq_Suc algebra_simps)

subsection \<open>Initialisation and start\<close>

lemma thread_init_steps:
  assumes "thread_init t entry parameter stack sz prio tick s = Some (e, s')"
  shows "e = 0" "prio < 32" "\<exists>m. rt_timer_init (Thread_timer t) Thread_timeout t 0 16 (tm s) = Some m \<and> tm s' = m"
    "tls s' = tls s" "ready_group s' = ready_group s" "current s' = current s" "lock_nest s' = lock_nest s"
    "irq_nest s' = irq_nest s" "ipc s' = (ipc s)\<lparr>taken := (taken (ipc s))(t := [])\<rparr>"
    "u \<noteq> t \<Longrightarrow> threads s' u = threads s u" "stat (threads s' t) = 0" "th_type (threads s' t) = th_type (threads s t)"
    "current_priority (threads s' t) = prio" "init_priority (threads s' t) = prio"
    "ttmr_set (threads s' t) = ttmr_set (threads s t)" "cleanup (threads s' t) = None"
    "pending_object (threads s' t) = None" "entry_fn (threads s' t) = entry" "error (threads s' t) = 0"
  using assms
  by (auto simp: thread_init_def rt_sched_thread_init_ctx_def rt_sched_thread_init_priv_def Let_def on_tm_def
      bind_Some ls_init_def split: if_splits)

lemma timer_init_tt:
  assumes "rt_timer_init (Thread_timer t) Thread_timeout t 0 16 m = Some m'"
  shows "tt_ok t (timers m' (Thread_timer t))" "tm_flag (timers m' (Thread_timer t)) AND 1 = 0"
    "u \<noteq> Thread_timer t \<Longrightarrow> timers m' u = timers m u"
  using assms
  by (auto simp: rt_timer_init_def timer_init_def object_init_def bind_Some tt_ok_def
      rt_object_get_type_def rt_object_is_systemobject_def split: if_splits)

text \<open>A thread in storage that is on no list is new: off all lists, not started.\<close>

lemma thread_init_result:
  assumes "kinv_but {t} s" "unlinked (tls s) t" "rt_object_get_type (th_type (threads s t)) = RT_Object_Class_Thread"
    "thread_init t entry parameter stack sz prio tick s = Some (e, s')"
  shows "kinv s'" "th_stat (threads s' t) = RT_THREAD_INIT"
proof -
  note st = thread_init_steps [OF assms(4)]
  obtain m where m: "rt_timer_init (Thread_timer t) Thread_timeout t 0 16 (tm s) = Some m" "tm s' = m"
    using st(3) by blast
  note tt = timer_init_tt [OF m(1)]
  show i: "th_stat (threads s' t) = RT_THREAD_INIT" by (simp add: th_stat_def st(11))
  have "thread_ok (tls s') (current s') u (threads s' u)" for u
    using assms(2) i sched_invD(3) [OF kinvD(1) [OF assms(1)], of u]
    by (cases "u = t") (simp_all add: st(4,6,10) thread_ok_when_unlinked)
  then have "sched_inv s'"
    using sched_invD(1,2) [OF kinvD(1) [OF assms(1)]] by (simp add: sched_inv_but_def st(4,5))
  moreover have "link_ok u (timers m (Thread_timer u)) (threads s' u)" for u
    using i tt st(2) kinvD(3) [OF assms(1), of u]
    by (cases "u = t") (auto simp: link_ok_def st(10,12,13) suspended_stat)
  ultimately show "kinv s'"
    using rt_timer_init_inv [OF m(1) kinvD(2) [OF assms(1)]] by (simp add: kinv_but_def m(2))
qed


lemma kinv_but_upd: "kinv_but X s \<Longrightarrow> t \<in> X \<Longrightarrow> kinv_but X (upd_thread t f s)"
  by (auto simp: kinv_but_def sched_inv_but_def)

lemma kinv_but_mono: "kinv_but X s \<Longrightarrow> X \<subseteq> Y \<Longrightarrow> kinv_but Y s"
  by (auto simp: kinv_but_def sched_inv_but_def)

lemma touches_upd_unlinked: "unlinked (tls s) t \<Longrightarrow> touches C s (upd_thread t f s)"
  by (auto simp: touches_def shrunk_def unlinked_def intro: exI [of _ "\<lambda>_. True"])

text \<open>A field that is neither a list nor a thread record nor an IPC object.\<close>

lemma touches_tm [simp]: "touches C s (s'\<lparr>tm := m\<rparr>) = touches C s s'" "touches C (s\<lparr>tm := m\<rparr>) s' = touches C s s'"
  by (simp_all add: touches_def shrunk_def)

lemma thread_init_touches:
  assumes "unlinked (tls s) t" "taken (ipc s) t = []"
    "thread_init t entry parameter stack sz prio tick s = Some (e, s')"
  shows "touches C s s'"
proof -
  note st = thread_init_steps [OF assms(3)]
  have "threads s' u = threads s u" if "u \<in> set (tls s (Susp q))" for u q
    using that assms(1) st(10) [of u] by (cases "u = t") (auto simp: unlinked_def)
  moreover have "ipc s' = ipc s" using assms(2) by (simp add: st(9) fun_upd_idem)
  ultimately show ?thesis
    by (auto simp: touches_def shrunk_def st(4) intro: exI [of _ "\<lambda>_. True"])
qed

lemma rt_thread_init_result:
  assumes "kinv s" "unlinked (tls s) t" "rt_thread_init t entry parameter stack sz prio tick s = Some (e, s')"
  shows "kinv s'" "th_stat (threads s' t) = RT_THREAD_INIT" "e = 0" "taken (ipc s) t = [] \<Longrightarrow> touches C s s'"
    "rt_object_get_type (th_type (threads s' t)) = RT_Object_Class_Thread"
    "ttmr_set (threads s' t) = ttmr_set (threads s t)" "current_priority (threads s' t) = prio"
proof -
  define s1 where "s1 = upd_thread t (\<lambda>x. x\<lparr>th_type := 1 OR 128\<rparr>) s"
  have run: "thread_init t entry parameter stack sz prio tick s1 = Some (e, s')"
    using assms(3) by (auto simp: rt_thread_init_def object_init_def bind_Some s1_def split: if_splits)
  have ul: "unlinked (tls s1) t" using assms(2) by (simp add: s1_def)
  have ty: "rt_object_get_type (th_type (threads s1 t)) = RT_Object_Class_Thread"
    by (simp add: s1_def rt_object_get_type_def)
  have "kinv_but {t} s1"
    using kinv_but_mono [OF assms(1), of "{t}"] by (simp add: s1_def kinv_but_upd)
  then show "kinv s'" "th_stat (threads s' t) = RT_THREAD_INIT"
    by (rule thread_init_result [OF _ ul ty run])+
  note st = thread_init_steps [OF run]
  show "e = 0" by (rule st(1))
  show "rt_object_get_type (th_type (threads s' t)) = RT_Object_Class_Thread" using ty by (simp add: st(12))
  show "ttmr_set (threads s' t) = ttmr_set (threads s t)" "current_priority (threads s' t) = prio"
    by (simp_all add: st(13,15) s1_def)
  assume "taken (ipc s) t = []"
  then have "touches C s1 s'" by (intro thread_init_touches [OF ul _ run]) (simp add: s1_def)
  moreover have "touches C s s1" using touches_upd_unlinked [OF assms(2)] by (simp add: s1_def)
  ultimately show "touches C s s'" by (metis touches_trans)
qed

text \<open>The storage of an allocated thread is in no list and its timer is not started.\<close>

definition fresh_thread :: "kst \<Rightarrow> tid \<Rightarrow> bool" where
  "fresh_thread s t \<longleftrightarrow> unlinked (tls s) t \<and> unlinked (tmlist (tm s)) (Thread_timer t) \<and> taken (ipc s) t = []"

lemma thread_allocate_result:
  assumes "kinv s" "fresh_thread s t"
  shows "kinv_but {t} (thread_allocate t s)" "touches C s (thread_allocate t s)"
    "fresh_thread (thread_allocate t s) t"
    "rt_object_get_type (th_type (threads (thread_allocate t s) t)) = RT_Object_Class_Thread"
proof -
  let ?s = "s\<lparr>tm := upd_timer (Thread_timer t) (\<lambda>_. zero_timer) (tm s)\<rparr>"
  have "timer_inv (tm ?s)"
    using assms kinvD(2) [OF assms(1)] by (auto simp: fresh_thread_def zero_timer_def intro: timer_inv_unlinked)
  then have "kinv_but {t} ?s"
    using kinv_but_mono [OF assms(1), of "{t}"] by (auto simp: kinv_but_def sched_inv_but_def)
  then show "kinv_but {t} (thread_allocate t s)" by (simp add: thread_allocate_def kinv_but_upd)
  have "touches C ?s (thread_allocate t s)"
    unfolding thread_allocate_def using assms(2) by (intro touches_upd_unlinked) (simp add: fresh_thread_def)
  then show "touches C s (thread_allocate t s)" by simp
  show "fresh_thread (thread_allocate t s) t"
    using assms(2) by (simp add: fresh_thread_def thread_allocate_def)
  show "rt_object_get_type (th_type (threads (thread_allocate t s) t)) = RT_Object_Class_Thread"
    by (simp add: thread_allocate_def object_allocate_def rt_object_get_type_def)
qed

lemma rt_thread_create_result:
  assumes "kinv s" "\<forall>t. obj = Some t \<longrightarrow> fresh_thread s t"
    "rt_thread_create obj mem entry parameter sz prio tick s = Some (r, s')"
  shows "kinv s' \<and> touches C s s' \<and> (\<forall>t. r = Some t \<longrightarrow> th_stat (threads s' t) = RT_THREAD_INIT \<and> \<not> ttmr_set (threads s' t))"
proof (cases obj)
  case None
  then show ?thesis using assms by (simp add: rt_thread_create_def split: if_splits)
next
  case (Some t)
  let ?s = "thread_allocate t s"
  note al = thread_allocate_result [OF assms(1), of t]
  have fr: "fresh_thread s t" using assms(2) Some by simp
  show ?thesis
  proof (cases mem)
    case None
    then have s': "s' = upd_thread t (\<lambda>x. x\<lparr>th_type := object_detach (th_type x)\<rparr>) ?s" and r: "r = None"
      using assms(3) Some by (simp_all add: rt_thread_create_def split: if_splits)
    have "th_stat (threads s' t) = RT_THREAD_INIT" "\<not> ttmr_set (threads s' t)"
        "tm_flag (timers (tm s') (Thread_timer t)) = 0" "rt_object_get_type (th_type (threads s' t)) = 0"
      by (simp_all add: s' thread_allocate_def zero_thread_def zero_timer_def th_stat_def object_detach_def rt_object_get_type_def)
    moreover have "kinv_but {t} s'" using al(1) fr by (simp add: s' kinv_but_upd)
    moreover have "unlinked (tls s') t" using al(3) [OF fr] by (simp add: s' fresh_thread_def)
    ultimately have "thread_ok (tls s') (current s') u (threads s' u) \<and> link_ok u (timers (tm s') (Thread_timer u)) (threads s' u)" for u
      using kinvD(3) [of "{t}" s' u] sched_invD(3) [OF kinvD(1), of "{t}" s' u]
      by (cases "u = t") (simp_all add: thread_ok_when_unlinked link_ok_def)
    then have "kinv s'" using \<open>kinv_but {t} s'\<close> by (simp add: kinv_but_def sched_inv_but_def)
    moreover have "touches C ?s s'" unfolding s' using al(3) [OF fr]
      by (intro touches_upd_unlinked) (simp add: fresh_thread_def)
    ultimately show ?thesis using r al(2) [OF fr] touches_trans by blast
  next
    case (Some stack)
    then have run: "thread_init t entry parameter stack sz prio tick ?s = Some (0, s')" and r: "r = Some t"
      using assms(3) \<open>obj = Some t\<close> thread_init_steps(1)
      by (fastforce simp: rt_thread_create_def bind_Some split: if_splits)+
    have ul: "unlinked (tls ?s) t" "taken (ipc ?s) t = []" using al(3) [OF fr] by (simp_all add: fresh_thread_def)
    note ti = thread_init_result [OF al(1) [OF fr] ul(1) al(4) [OF fr] run]
    have "\<not> ttmr_set (threads s' t)"
      by (simp add: thread_init_steps(15) [OF run] thread_allocate_def zero_thread_def)
    then show ?thesis
      using ti r touches_trans [OF al(2) [OF fr] thread_init_touches [OF ul run]] by auto
  qed
qed


subsection \<open>Start\<close>

lemma clear_flag_idem: "\<not> ttmr_set (threads s t) \<Longrightarrow> upd_thread t (\<lambda>x. x\<lparr>ttmr_set := False\<rparr>) s = s"
proof -
  assume "\<not> ttmr_set (threads s t)"
  then have "(threads s t)\<lparr>ttmr_set := False\<rparr> = threads s t" by (cases "threads s t") simp
  then show ?thesis by (simp add: upd_thread_def)
qed

lemma upd_thread_tm [simp]: "(upd_thread t f s)\<lparr>tm := tm s\<rparr> = upd_thread t f s"
  by (simp add: upd_thread_def)

text \<open>The state of a new thread as it is started, with the flag of its timer cleared.\<close>

lemma started_state:
  assumes inv: "kinv s" and st: "th_stat (threads s t) = RT_THREAD_INIT"
    and ty: "rt_object_get_type (th_type (threads s t)) = RT_Object_Class_Thread"
    and s1: "s1 = upd_thread t (\<lambda>x. x\<lparr>ttmr_set := False\<rparr>) (rt_sched_thread_startup t s)"
  shows "kinv s1" "touches C s s1" "th_suspended (threads s1 t)" "unlinked (tls s1) t"
    "tm_flag (timers (tm s) (Thread_timer t)) AND RT_TIMER_FLAG_ACTIVATED = 0"
    "rt_object_get_type (tm_type (timers (tm s) (Thread_timer t))) = RT_Object_Class_Timer"
proof -
  have ul: "unlinked (tls s) t"
    using thread_ok_unlinked [OF sched_invD(3) [OF kinvD(1) [OF inv], of t]] st by simp
  note lk = kinvD(3) [OF inv, of t, simplified]
  show act: "tm_flag (timers (tm s) (Thread_timer t)) AND RT_TIMER_FLAG_ACTIVATED = 0"
    and "rt_object_get_type (tm_type (timers (tm s) (Thread_timer t))) = RT_Object_Class_Timer"
    using lk st ty by (auto simp: link_ok_def suspended_stat tt_ok_def)
  show su: "th_suspended (threads s1 t)" by (simp add: s1 rt_sched_thread_startup_def th_suspended_def)
  show "unlinked (tls s1) t" using ul by (simp add: s1 rt_sched_thread_startup_def)
  have "th_stat (threads s1 t) = 4" by (simp add: s1 rt_sched_thread_startup_def th_stat_def)
  moreover have "mask_ok (threads s1 t)"
    using lk st ty by (simp add: s1 rt_sched_thread_startup_def mask_ok_def prio_of_def link_ok_def word_less_nat_alt)
  ultimately have "thread_ok (tls s1) (current s1) u (threads s1 u)" for u
    using ul sched_invD(3) [OF kinvD(1) [OF inv], of u]
    by (cases "u = t") (simp_all add: s1 rt_sched_thread_startup_def thread_ok_when_unlinked)
  moreover have "link_ok u (timers (tm s1) (Thread_timer u)) (threads s1 u)" for u
    using kinvD(3) [OF inv, of u] act lk st ty
    by (cases "u = t") (simp_all add: s1 rt_sched_thread_startup_def link_ok_def suspended_stat th_stat_def)
  ultimately show "kinv s1"
    using kinvD(1,2) [OF inv] by (simp add: kinv_but_def sched_inv_but_def s1 rt_sched_thread_startup_def)
  have "touches C s (rt_sched_thread_startup t s)" "touches C (rt_sched_thread_startup t s) s1"
    unfolding s1 rt_sched_thread_startup_def using ul by (auto intro!: touches_upd_unlinked)
  then show "touches C s s1" by (rule touches_trans)
qed

lemma startup_cases:
  assumes "rt_thread_startup t s = Some (e, s')"
  shows "th_stat (threads s t) = RT_THREAD_INIT"
    "rt_object_get_type (th_type (threads s t)) = RT_Object_Class_Thread" "e = 0"
    "\<exists>e'. rt_thread_resume t (rt_sched_thread_startup t s) = Some (e', s')"
  using assms by (auto simp: rt_thread_startup_def bind_Some th_stat_def split: if_splits)

lemma resume_result:
  assumes "kinv s" "th_suspended (threads s t)" "rt_thread_resume t s = Some (e, s')"
  shows "kinv s'" "touches C s s'" "e = 0" "runnable (threads s' t)"
proof -
  obtain s1 where s1: "rt_sched_thread_ready t s = Some (0, s1)" "kinv s1" "woken {t} s s1"
    using kinv_ready [OF assms(1,2)] by blast
  then have r: "rt_sched_unlock_n_resched s1 = Some s'" and "e = 0"
    using assms(3) by (auto simp: rt_thread_resume_def bind_Some split: if_splits)
  show "e = 0" by fact
  show "kinv s'" by (rule kinv_resched [OF r s1(2)])
  have "touches C s1 s'" "runnable (threads s' t) = runnable (threads s1 t)"
    using r touches_schedule [of s1 s' C] schedule_frame [of s1 s'] s1(2) kinvD(1) [OF s1(2)]
    by (auto simp: rt_sched_unlock_n_resched_def sched_frame_def split: option.splits)
  then show "touches C s s'" "runnable (threads s' t)"
    using s1(3) touches_trans [OF touches_woken [OF s1(3)]] by (auto simp: woken_def)
qed

lemma startup_result:
  assumes inv: "kinv s" and run: "rt_thread_startup t s = Some (e, s')" and set: "\<not> ttmr_set (threads s t)"
  shows "kinv s'" "touches C s s'" "e = 0" "runnable (threads s' t)"
proof -
  note c = startup_cases [OF run]
  define s1 where "s1 = upd_thread t (\<lambda>x. x\<lparr>ttmr_set := False\<rparr>) (rt_sched_thread_startup t s)"
  note st = started_state [OF inv c(1,2) s1_def]
  have "s1 = rt_sched_thread_startup t s"
    unfolding s1_def using set by (intro clear_flag_idem) (simp add: rt_sched_thread_startup_def)
  then obtain e' where "rt_thread_resume t s1 = Some (e', s')" using c(4) by auto
  note r = resume_result [OF st(1,3) this]
  show "kinv s'" "runnable (threads s' t)" by (rule r)+
  show "e = 0" by (rule c(3))
  show "touches C s s'" using touches_trans [OF st(2) r(2)] .
qed

text \<open>
  A stale flag of the thread timer: the timer cannot be stopped, so the thread is not made
  ready, and the call reports success all the same.
\<close>

lemma startup_stale:
  assumes inv: "kinv s" and run: "rt_thread_startup t s = Some (e, s')" and set: "ttmr_set (threads s t)"
  shows "kinv s'" "touches C s s'" "e = 0" "\<not> runnable (threads s' t)" "unlinked (tls s') t"
proof -
  note c = startup_cases [OF run]
  define s1 where "s1 = upd_thread t (\<lambda>x. x\<lparr>ttmr_set := False\<rparr>) (rt_sched_thread_startup t s)"
  note st = started_state [OF inv c(1,2) s1_def]
  have "rt_timer_stop (Thread_timer t) (tm s) = Some (- 1, tm s)"
    using st(5,6) by (simp add: rt_timer_stop_def tm_has_def)
  then have "rt_sched_thread_ready t (rt_sched_thread_startup t s) = Some (- 1, s1)"
    using set by (simp add: rt_sched_thread_ready_def rt_sched_thread_is_suspended_def
        rt_sched_thread_startup_def rt_sched_thread_timer_stop_def on_tm_r_def s1_def)
  then have s': "s' = s1" using c(4) by (auto simp: rt_thread_resume_def bind_Some split: if_splits)
  show "kinv s'" "touches C s s'" "unlinked (tls s') t" using st by (simp_all add: s')
  show "e = 0" by (rule c(3))
  show "\<not> runnable (threads s' t)" using st(3) runnable_not_suspended by (auto simp: s')
qed


subsection \<open>Timeout\<close>

lemma insert_remove_upd:
  assumes "\<And>x. stat (f x) = stat x" "\<And>x. current_priority (f x) = current_priority x"
    "\<And>x. number_mask (f x) = number_mask x" "\<And>x v. f (x\<lparr>stat := v\<rparr>) = (f x)\<lparr>stat := v\<rparr>"
  shows "rt_sched_insert_thread t (list_remove_thread t (upd_thread t f s)) =
    upd_thread t f (rt_sched_insert_thread t (list_remove_thread t s))"
  using assms by (simp add: rt_sched_insert_thread_def list_remove_thread_def set_stat_def upd_thread_def th_yield_def Let_def)

lemma kinv_flag:
  assumes "kinv s" "\<not> th_suspended (threads s t)"
  shows "kinv (upd_thread t (\<lambda>x. x\<lparr>ttmr_set := b\<rparr>) s)"
proof -
  have "sched_inv (upd_thread t (\<lambda>x. x\<lparr>ttmr_set := b\<rparr>) s)"
    using kinvD(1) [OF assms(1)] by (intro upd_thread_inv) (simp_all add: th_stat_def)
  moreover have "link_ok t m ((threads s t)\<lparr>ttmr_set := b\<rparr>) = link_ok t m (threads s t)" for m
    using assms(2) by (simp add: link_ok_def th_suspended_def th_stat_def)
  ultimately show ?thesis using assms by (simp add: kinv_but_def)
qed

text \<open>
  The callback of a thread timer. As it runs, the timer is off its list and the flag of the
  thread is still set; but for the flag, the invariant holds.
\<close>

definition timed_out :: "tid \<Rightarrow> kst \<Rightarrow> kst \<Rightarrow> bool" where
  "timed_out t s s' \<longleftrightarrow> runnable (threads s' t) \<and> error (threads s' t) = - RT_ETIMEOUT \<and>
     ttmr_set (threads s' t) = ttmr_set (threads s t) \<and> tm s' = tm s \<and>
     (\<forall>q. tls s' (Susp q) = filter (\<lambda>u. u \<noteq> t) (tls s (Susp q))) \<and>
     (\<forall>u. u \<noteq> t \<longrightarrow> (threads s' u)\<lparr>stat := 0\<rparr> = (threads s u)\<lparr>stat := 0\<rparr> \<and>
        runnable (threads s' u) = runnable (threads s u) \<and> th_suspended (threads s' u) = th_suspended (threads s u))"

lemma ready_disarmed:
  assumes "th_suspended (threads s t)" "\<not> ttmr_set (threads s t)"
  shows "rt_sched_thread_ready t s = Some (0, rt_sched_insert_thread t (list_remove_thread t s))"
  using assms by (simp add: rt_sched_thread_ready_def rt_sched_thread_is_suspended_def th_suspended_def)

lemma timeout_ready:
  assumes inv: "kinv (upd_thread t (\<lambda>x. x\<lparr>ttmr_set := False\<rparr>) s)" and susp: "th_suspended (threads s t)"
    and s2: "s2 = rt_sched_insert_thread t (list_remove_thread t (upd_thread t (\<lambda>x. x\<lparr>error := - 2\<rparr>) s))"
  shows "kinv s2" "touches C s s2" "timed_out t s s2" "ipc s2 = ipc s" "current s2 = current s"
    "lock_nest s2 = lock_nest s" "irq_nest s2 = irq_nest s"
proof -
  let ?s = "upd_thread t (\<lambda>x. x\<lparr>ttmr_set := False\<rparr>) s"
  let ?r = "rt_sched_insert_thread t (list_remove_thread t ?s)"
  let ?b = "ttmr_set (threads s t)"
  have su: "th_suspended (threads ?s t)" using susp by (simp add: th_suspended_def)
  then have k: "kinv ?r" "woken {t} ?s ?r"
    using kinv_ready [OF inv su] ready_disarmed [OF su] by simp_all
  have "s2 = upd_thread t (\<lambda>x. x\<lparr>error := - 2\<rparr>) (rt_sched_insert_thread t (list_remove_thread t s))"
    unfolding s2 by (rule insert_remove_upd) simp_all
  moreover have "?r = upd_thread t (\<lambda>x. x\<lparr>ttmr_set := False\<rparr>) (rt_sched_insert_thread t (list_remove_thread t s))"
    by (rule insert_remove_upd) simp_all
  ultimately have eq: "s2 = upd_thread t (\<lambda>x. x\<lparr>error := - 2\<rparr>) (upd_thread t (\<lambda>x. x\<lparr>ttmr_set := ?b\<rparr>) ?r)"
    by (simp add: upd_thread_def)
  have nr: "\<not> th_suspended (threads ?r t)" using k(2) runnable_not_suspended by (auto simp: woken_def)
  show "kinv s2" unfolding eq by (intro kinv_set_error kinv_flag k(1) nr)
  have "touches C s ?s" "touches C ?s ?r" "touches C ?r (upd_thread t (\<lambda>x. x\<lparr>ttmr_set := ?b\<rparr>) ?r)"
    by (auto intro!: touches_upd_thread touches_woken [OF k(2)] simp: wait_eq_def)
  then show "touches C s s2" unfolding eq using touches_trans touches_set_error by metis
  show "ipc s2 = ipc s" "current s2 = current s" "lock_nest s2 = lock_nest s" "irq_nest s2 = irq_nest s"
    by (simp_all add: s2)
  show "timed_out t s s2"
    using k(2) by (auto simp: timed_out_def s2 runnable_def th_stat_def ls_remove_def)
qed

lemma sched_frameD:
  assumes "sched_frame s s'"
  shows "th_suspended (threads s' u) = th_suspended (threads s u)" "error (threads s' u) = error (threads s u)"
    "ttmr_set (threads s' u) = ttmr_set (threads s u)" "runnable (threads s' u) = runnable (threads s u)"
    "(threads s' u)\<lparr>stat := 0\<rparr> = (threads s u)\<lparr>stat := 0\<rparr>" "tls s' (Susp q) = tls s (Susp q)" "tm s' = tm s"
    "th_type (threads s' u) = th_type (threads s u)"
proof -
  note f = assms [unfolded sched_frame_def]
  show eq: "(threads s' u)\<lparr>stat := 0\<rparr> = (threads s u)\<lparr>stat := 0\<rparr>" and r: "runnable (threads s' u) = runnable (threads s u)"
    and "tls s' (Susp q) = tls s (Susp q)" "tm s' = tm s"
    using f by simp_all
  show "error (threads s' u) = error (threads s u)" "ttmr_set (threads s' u) = ttmr_set (threads s u)"
    "th_type (threads s' u) = th_type (threads s u)"
    by (rule same_but_statD [OF eq])+
  show "th_suspended (threads s' u) = th_suspended (threads s u)"
  proof (cases "runnable (threads s u)")
    case True
    then show ?thesis using r runnable_not_suspended by blast
  next
    case False
    then have "th_stat (threads s' u) = th_stat (threads s u)" using f by blast
    then show ?thesis by (simp add: suspended_stat)
  qed
qed

lemma timeout_result:
  assumes inv: "kinv (upd_thread t (\<lambda>x. x\<lparr>ttmr_set := False\<rparr>) s)" and run: "thread_timeout t s = Some s'"
  shows "kinv s'" "touches C s s'" "timed_out t s s'" "th_suspended (threads s t)"
proof -
  let ?s = "rt_sched_insert_thread t (list_remove_thread t (upd_thread t (\<lambda>x. x\<lparr>error := - 2\<rparr>) s))"
  have susp: "th_suspended (threads s t)" and r: "rt_sched_unlock_n_resched ?s = Some s'"
    using run by (auto simp: thread_timeout_def rt_sched_thread_is_suspended_def th_suspended_def Let_def split: if_splits)
  show "th_suspended (threads s t)" by (rule susp)
  note t = timeout_ready [OF inv susp refl]
  show "kinv s'" by (rule kinv_resched [OF r t(1)])
  have fr: "sched_frame ?s s'" "touches C ?s s'"
    using r schedule_frame [of ?s s'] touches_schedule [of ?s s'] kinvD(1) [OF t(1)] t(1)
    by (auto simp: rt_sched_unlock_n_resched_def split: option.splits)
  show "touches C s s'" using touches_trans [OF t(2) fr(2)] .
  show "timed_out t s s'"
    using t(3) unfolding timed_out_def sched_frameD [OF fr(1)] .
qed


subsection \<open>Sleeping and yielding\<close>

lemma touches_asleep:
  assumes "asleep t sl fl s s'" "kinv s" "th_stat (threads s t) = RT_THREAD_RUNNING" "\<forall>q. sl = Some q \<longrightarrow> cls_of q \<in> C"
  shows "touches C s s'"
proof -
  have "t \<notin> set (tls s (Susp q))" for q
    using thread_ok_unlinked [OF sched_invD(3) [OF kinvD(1) [OF assms(2)], of t]] assms(3) by (simp add: unlinked_def)
  then have "wait_eq (threads s' u) (threads s u)" if "u \<in> set (tls s (Susp q))" for u q
    using assms(1) that by (cases "u = t") (auto simp: asleep_def)
  moreover have "tls s' (Susp q) = tls s (Susp q)" if "cls_of q \<notin> C" for q
    using assms(1,4) that by (auto simp: asleep_def)
  ultimately show ?thesis
    using assms(1) by (auto simp: touches_def asleep_def shrunk_def intro: exI [of _ "\<lambda>_. True"])
qed

lemma touches_armed: "armed t s s' \<Longrightarrow> touches C s s'"
  by (auto simp: touches_def armed_def shrunk_def wait_eq_def intro: exI [of _ "\<lambda>_. True"])

lemma suspend_result:
  assumes "kinv s" "rt_thread_suspend_with_flag t sf s = Some (e, s')"
  shows "kinv s'" "touches C s s'" "e \<noteq> 0 \<Longrightarrow> s' = s"
    "e = 0 \<Longrightarrow> asleep t None 0 s s'" "e = 0 \<Longrightarrow> th_stat (threads s t) = RT_THREAD_RUNNING"
proof -
  note k = kinv_suspend [OF assms(1), of t None 0 sf e s'] assms(2) [unfolded rt_thread_suspend_with_flag_def]
  show "kinv s'" "e \<noteq> 0 \<Longrightarrow> s' = s" "e = 0 \<Longrightarrow> asleep t None 0 s s'"
    "e = 0 \<Longrightarrow> th_stat (threads s t) = RT_THREAD_RUNNING"
    using k by blast+
  show "touches C s s'"
    using k touches_asleep [of t None 0 s s' C] assms(1) by (cases "e = 0") auto
qed

lemma yield_result:
  assumes "kinv s" "rt_thread_yield s = Some (e, s')"
  shows "kinv s'" "touches C s s'" "e = 0"
proof -
  obtain t where "rt_sched_unlock_n_resched (rt_sched_thread_yield t s) = Some s'" and e: "e = 0"
    using assms(2) by (auto simp: rt_thread_yield_def bind_Some)
  moreover have "kinv (rt_sched_thread_yield t s)"
    unfolding rt_sched_thread_yield_def using assms(1) by (intro kinv_upd_thread) (simp_all add: th_stat_def)
  moreover have "touches C s (rt_sched_thread_yield t s)"
    unfolding rt_sched_thread_yield_def by (rule touches_upd_thread) (simp add: wait_eq_def)
  ultimately show "kinv s'" "touches C s s'" "e = 0"
    using touches_schedule touches_trans by (auto simp: rt_sched_unlock_n_resched_def intro: kinv_schedule split: option.splits)
qed

lemma touches_exit_critical_safe: "rt_exit_critical_safe l s = Some s' \<Longrightarrow> kinv s \<Longrightarrow> touches C s s'"
  using touches_exit_critical by (auto simp: rt_exit_critical_safe_def split: if_splits)

text \<open>A sleep in its steps: suspended, timer armed, and then scheduled away.\<close>

definition sleep_end :: "tid \<Rightarrow> rt_err wres \<Rightarrow> kst \<Rightarrow> kst \<Rightarrow> bool" where
  "sleep_end t r s s' \<longleftrightarrow>
     (if current s = Some t then r = Ret 0 \<and> s' = thread_sleep_resume t s else r = Wait \<and> s' = s)"

lemma sleep_entry:
  assumes "thread_sleep tick s = Some (r, s')" "tick \<noteq> 0"
  obtains t e s1 s2 where "current s = Some t" "lock_nest s = 0" "irq_nest s = 0"
    "s1 = (upd_thread t (\<lambda>x. x\<lparr>error := 0\<rparr>) s)\<lparr>lock_nest := 1\<rparr>" "rt_thread_suspend_with_flag t 0 s1 = Some (e, s2)"
    "(if e = 0 then
        do { s \<leftarrow> thread_timer_arm t tick s2;
             s \<leftarrow> rt_schedule (upd_thread t (\<lambda>x. x\<lparr>error := - 9\<rparr>) s);
             s \<leftarrow> rt_exit_critical_safe 1 s;
             if current s = Some t then Some (Ret e, thread_sleep_resume t s) else Some (Wait, s) }
      else do { s \<leftarrow> rt_exit_critical_safe 1 s2; Some (Ret e, s) }) = Some (r, s')"
proof -
  obtain t where t: "current s = Some t" using assms by (auto simp: thread_sleep_def rt_thread_self_def bind_Some)
  have l: "lock_nest s = 0" "irq_nest s = 0"
    using assms t by (auto simp: thread_sleep_def rt_thread_self_def bind_Some debug_scheduler_available_def
        rt_critical_level_def debug_in_thread_context_def debug_not_in_interrupt_def rt_interrupt_get_nest_def
        split: if_splits)
  have db: "debug_scheduler_available True s = Some ()"
    using l t by (simp add: debug_scheduler_available_def rt_critical_level_def debug_in_thread_context_def
        debug_not_in_interrupt_def rt_interrupt_get_nest_def rt_thread_self_def)
  let ?s = "(upd_thread t (\<lambda>x. x\<lparr>error := 0\<rparr>) s)\<lparr>lock_nest := 1\<rparr>"
  have en: "rt_enter_critical (upd_thread t (\<lambda>x. x\<lparr>error := 0\<rparr>) s) = (1, ?s)"
    using l by (simp add: rt_enter_critical_def)
  obtain e s2 where s2: "rt_thread_suspend_with_flag t 0 ?s = Some (e, s2)"
    using assms t en db by (auto simp: thread_sleep_def rt_thread_self_def bind_Some Let_def split: if_splits)
  show thesis
    by (rule that [OF t l refl s2])
      (use assms t en db s2 in \<open>simp add: thread_sleep_def rt_thread_self_def Let_def split: if_splits\<close>)
qed

lemma sleep_cases [consumes 2, case_names nothing failed sleep]:
  assumes run: "thread_sleep tick s = Some (r, s')" and inv: "kinv s"
  obtains "tick = 0" "r = Ret (- RT_EINVAL)" "s' = s"
  | t e where "tick \<noteq> 0" "current s = Some t" "e \<noteq> 0" "r = Ret e"
      "th_stat (threads s t) \<noteq> RT_THREAD_RUNNING"
      "rt_exit_critical_safe 1 ((upd_thread t (\<lambda>x. x\<lparr>error := 0\<rparr>) s)\<lparr>lock_nest := 1\<rparr>) = Some s'"
  | t s2 s3 s4 where "tick \<noteq> 0" "current s = Some t" "lock_nest s = 0" "irq_nest s = 0"
      "th_stat (threads s t) = RT_THREAD_RUNNING"
      "asleep t None 0 ((upd_thread t (\<lambda>x. x\<lparr>error := 0\<rparr>) s)\<lparr>lock_nest := 1\<rparr>) s2" "kinv s2"
      "kinv s3" "armed t s2 s3" "timeout_tick (timers (tm s3) (Thread_timer t)) = rt_tick (tm s) + tick"
      "rt_exit_critical_safe 1 (upd_thread t (\<lambda>x. x\<lparr>error := - 9\<rparr>) s3) = Some s4" "sleep_end t r s4 s'"
proof (cases "tick = 0")
  case True
  then show thesis using run that(1) by (simp add: thread_sleep_def)
next
  case False
  show thesis
  proof (rule sleep_entry [OF run False])
    fix t e s1 s2
    assume c: "current s = Some t" "lock_nest s = 0" "irq_nest s = 0"
        and s1: "s1 = (upd_thread t (\<lambda>x. x\<lparr>error := 0\<rparr>) s)\<lparr>lock_nest := 1\<rparr>"
        and s2: "rt_thread_suspend_with_flag t 0 s1 = Some (e, s2)"
        and rest: "(if e = 0 then
          do { s \<leftarrow> thread_timer_arm t tick s2;
               s \<leftarrow> rt_schedule (upd_thread t (\<lambda>x. x\<lparr>error := - 9\<rparr>) s);
               s \<leftarrow> rt_exit_critical_safe 1 s;
               if current s = Some t then Some (Ret e, thread_sleep_resume t s) else Some (Wait, s) }
        else do { s \<leftarrow> rt_exit_critical_safe 1 s2; Some (Ret e, s) }) = Some (r, s')"
    have k1: "kinv s1" using inv by (simp add: s1 kinv_set_error)
    note su = suspend_result [OF k1 s2]
    show thesis
    proof (cases "e = 0")
      case True
      then obtain s3 where s3: "thread_timer_arm t tick s2 = Some s3" using rest by (auto simp: bind_Some)
      have a: "asleep t None 0 s1 s2" "th_stat (threads s1 t) = RT_THREAD_RUNNING" using su True by simp_all
      then have "th_suspended (threads s2 t)" by (simp add: asleep_def)
      note ar = arm_result [OF su(1) this s3]
      have "lock_nest s3 = 1" using ar a(1) by (simp add: armed_def asleep_def s1)
      then have sch: "rt_schedule (upd_thread t (\<lambda>x. x\<lparr>error := - 9\<rparr>) s3) = Some (upd_thread t (\<lambda>x. x\<lparr>error := - 9\<rparr>) s3)"
        by (simp add: rt_schedule_def)
      obtain s4 where "rt_exit_critical_safe 1 (upd_thread t (\<lambda>x. x\<lparr>error := - 9\<rparr>) s3) = Some s4" "sleep_end t r s4 s'"
        using rest True s3 sch by (auto simp: bind_Some sleep_end_def split: if_splits)
      moreover have "rt_tick (tm s2) = rt_tick (tm s)" using a(1) by (simp add: asleep_def s1)
      ultimately show thesis
        using that(3) [OF False c, of s2 s3 s4] a ar su(1) by (simp add: s1 th_stat_def)
    next
      case e: False
      have "th_stat (threads s t) \<noteq> RT_THREAD_RUNNING"
        using e kinv_suspend_running [OF k1 _ s2 [unfolded rt_thread_suspend_with_flag_def]] by (auto simp: s1 th_stat_def)
      then show thesis using that(2) [OF False c(1) e] e rest su(3) by (auto simp: s1 bind_Some)
    qed
  qed
qed


lemma sleep_resume_keeps:
  "kinv s \<Longrightarrow> kinv (thread_sleep_resume t s)" "touches C s (thread_sleep_resume t s)"
  by (simp_all add: thread_sleep_resume_def kinv_set_error touches_set_error)

lemma sleep_result:
  assumes "thread_sleep tick s = Some (r, s')" "kinv s"
  shows "kinv s' \<and> touches C s s'"
  using assms
proof (cases rule: sleep_cases)
  case (failed t e)
  have "kinv ((upd_thread t (\<lambda>x. x\<lparr>error := 0\<rparr>) s)\<lparr>lock_nest := 1\<rparr>)"
    "touches C s ((upd_thread t (\<lambda>x. x\<lparr>error := 0\<rparr>) s)\<lparr>lock_nest := 1\<rparr>)"
    using assms(2) by (simp_all add: kinv_set_error touches_set_error)
  then show ?thesis
    using kinv_exit_critical_safe [OF failed(6)] touches_exit_critical_safe [OF failed(6)] touches_trans by blast
next
  case (sleep t s2 s3 s4)
  let ?s = "(upd_thread t (\<lambda>x. x\<lparr>error := 0\<rparr>) s)\<lparr>lock_nest := 1\<rparr>"
  have k: "kinv ?s" using assms(2) by (simp add: kinv_set_error)
  have "touches C ?s s2"
    using sleep(5) by (intro touches_asleep [OF sleep(6) k]) (simp_all add: th_stat_def)
  then have "touches C (upd_thread t (\<lambda>x. x\<lparr>error := 0\<rparr>) s) s2" by simp
  from touches_trans [OF touches_trans [OF touches_set_error this] touches_armed [OF sleep(9)]]
  have "touches C s (upd_thread t (\<lambda>x. x\<lparr>error := - 9\<rparr>) s3)"
    by (rule touches_trans [OF _ touches_set_error])
  moreover have k3: "kinv (upd_thread t (\<lambda>x. x\<lparr>error := - 9\<rparr>) s3)" using sleep(8) by (rule kinv_set_error)
  ultimately have "kinv s4" "touches C s s4"
    using kinv_exit_critical_safe [OF sleep(11) k3] touches_exit_critical_safe [OF sleep(11) k3] touches_trans by blast+
  then show ?thesis
    using sleep(12) sleep_resume_keeps(1) [of s4 t] touches_trans [OF _ sleep_resume_keeps(2) [of C s4 t], of s]
    by (simp add: sleep_end_def split: if_splits)
qed (use assms in simp)

text \<open>
  The caller of a sleep leaves the processor, suspended on no queue, with its timer armed for
  the given number of ticks.
\<close>

lemma sleep_leaves:
  assumes run: "thread_sleep tick s = Some (r, s')" and inv: "kinv s" and cur: "current s = Some t"
    and running: "th_stat (threads s t) = RT_THREAD_RUNNING" and tick: "tick \<noteq> 0" and ready: "ready_group s \<noteq> 0"
  shows "r = Wait \<and> th_suspended (threads s' t) \<and> ttmr_set (threads s' t) \<and> (\<exists>u. current s' = Some u \<and> u \<noteq> t) \<and>
    timeout_tick (timers (tm s') (Thread_timer t)) = rt_tick (tm s) + tick \<and> error (threads s' t) = - RT_EINTR"
  using run inv
proof (cases rule: sleep_cases)
  case (sleep t' s2 s3 s4)
  then have t: "t' = t" using cur by simp
  define s5 where "s5 = (upd_thread t (\<lambda>x. x\<lparr>error := - 9\<rparr>) s3)\<lparr>lock_nest := 0\<rparr>"
  note a = sleep(6) [unfolded asleep_def t, simplified] and ar = sleep(9) [unfolded armed_def t]
  have k: "kinv s5" using sleep(8) by (simp add: s5_def kinv_set_error)
  have "\<exists>u. th_stat (threads s u) = RT_THREAD_READY" using ready ready_exists [OF inv] by simp
  then obtain u where "th_stat (threads s u) = RT_THREAD_READY" by blast
  then have "th_stat (threads s5 u) = RT_THREAD_READY" using a ar running by (cases "u = t") (auto simp: s5_def)
  then have rg: "ready_group s5 \<noteq> 0" using ready_exists [OF k] by blast
  have sch: "rt_schedule s5 = Some s4"
    using sleep(11) a ar cur by (simp add: rt_exit_critical_safe_def rt_exit_critical_def t s5_def split: if_splits)
  have su: "th_suspended (threads s5 t)" using a ar by (simp add: s5_def th_suspended_def)
  then have nr: "\<not> runnable (threads s5 t)" using runnable_not_suspended by blast
  have "current s5 = Some t" "lock_nest s5 = 0" using a ar cur by (simp_all add: s5_def)
  then obtain v where v: "current s4 = Some v" "v \<noteq> t" using schedule_leaves [OF k sch _ nr _ rg] by blast
  then have "r = Wait" "s' = s4" using sleep(12) by (simp_all add: sleep_end_def t)
  moreover have "sched_frame s5 s4" using schedule_frame [OF sch kinvD(1) [OF k]] .
  ultimately show ?thesis
    using v su sleep(10) ar sched_frameD(1,2,3,7) [of s5 s4] by (auto simp: s5_def t)
qed (use assms in auto)

end
