(* ===== verification/RT_Event.thy ===== *)
theory RT_Event
  imports RT_Wait
begin

text \<open>
  Event sets (\<^verbatim>\<open>src/ipc.c\<close>): a thread waits for all or for one of the bits of a set; sending
  bits wakes every thread whose condition they complete. The invariant is that no thread
  sleeps on an event whose bits satisfy its condition.
\<close>

abbreviation (input) RT_EVENT_FLAG_AND :: u8 where "RT_EVENT_FLAG_AND \<equiv> 1"
abbreviation (input) RT_EVENT_FLAG_OR :: u8 where "RT_EVENT_FLAG_OR \<equiv> 2"
abbreviation (input) RT_EVENT_FLAG_CLEAR :: u8 where "RT_EVENT_FLAG_CLEAR \<equiv> 4"

abbreviation ev_of :: "kst \<Rightarrow> nat \<Rightarrow> rt_event" where
  "ev_of s i \<equiv> events (ipc s) i"

definition upd_event :: "nat \<Rightarrow> (rt_event \<Rightarrow> rt_event) \<Rightarrow> kst \<Rightarrow> kst" where
  "upd_event i f s = s\<lparr>ipc := (ipc s)\<lparr>events := (events (ipc s))(i := f (events (ipc s) i))\<rparr>\<rparr>"

subsection \<open>Creation and deletion\<close>

definition rt_event_init :: "nat \<Rightarrow> u8 \<Rightarrow> kst \<Rightarrow> (rt_err \<times> kst) option" where
  "rt_event_init i flag s =
     do { rt_assert (flag = 0 \<or> flag = 1);
          ty \<leftarrow> object_init RT_Object_Class_Event (ev_type (ev_of s i));
          let s = s\<lparr>tls := ls_init (tls s) (Susp (Event_q i))\<rparr>;
          Some (RT_EOK, upd_event i (\<lambda>x. x\<lparr>ev_type := ty, ev_flag := flag, ev_set := 0\<rparr>) s) }"

definition rt_event_detach :: "nat \<Rightarrow> kst \<Rightarrow> (rt_err \<times> kst) option" where
  "rt_event_detach i s =
     do { rt_assert (rt_object_get_type (ev_type (ev_of s i)) = RT_Object_Class_Event);
          rt_assert (rt_object_is_systemobject (ev_type (ev_of s i)));
          s \<leftarrow> rt_susp_list_resume_all (Event_q i) RT_ERROR s;
          Some (RT_EOK, upd_event i (\<lambda>x. x\<lparr>ev_type := object_detach (ev_type x)\<rparr>) s) }"

definition rt_event_create :: "nat option \<Rightarrow> u8 \<Rightarrow> kst \<Rightarrow> (nat option \<times> kst) option" where
  "rt_event_create obj flag s =
     do { rt_assert (flag = 0 \<or> flag = 1);
          debug_not_in_interrupt s;
          case obj of
            None \<Rightarrow> Some (None, s)
          | Some i \<Rightarrow>
              let s = s\<lparr>tls := ls_init (tls s) (Susp (Event_q i))\<rparr>
              in Some (Some i, upd_event i (\<lambda>x. x\<lparr>ev_type := object_allocate RT_Object_Class_Event,
                   ev_flag := flag, ev_set := 0\<rparr>) s) }"

definition rt_event_delete :: "nat \<Rightarrow> kst \<Rightarrow> (rt_err \<times> kst) option" where
  "rt_event_delete i s =
     do { rt_assert (rt_object_get_type (ev_type (ev_of s i)) = RT_Object_Class_Event);
          rt_assert (\<not> rt_object_is_systemobject (ev_type (ev_of s i)));
          debug_not_in_interrupt s;
          let s = snd (rt_enter_critical s);
          s \<leftarrow> rt_susp_list_resume_all (Event_q i) RT_ERROR s;
          s \<leftarrow> rt_exit_critical s;
          Some (RT_EOK, upd_event i (\<lambda>x. x\<lparr>ev_type := object_detach (ev_type x)\<rparr>) s) }"

subsection \<open>Send\<close>

text \<open>
  The walk of \<^verbatim>\<open>rt_event_send\<close> over the waiting threads. The link to the next thread is read
  before the thread is readied, so the walk visits the list as it was. The result is the set
  of bits to clear and whether to schedule, or \<^const>\<open>None\<close> when a thread has neither flag.
\<close>

fun event_send_walk :: "nat \<Rightarrow> tid list \<Rightarrow> u32 \<Rightarrow> bool \<Rightarrow> kst \<Rightarrow> ((u32 \<times> bool) option \<times> kst) option" where
  "event_send_walk i [] clr sched s = Some (Some (clr, sched), s)"
| "event_send_walk i (t # ts) clr sched s =
     (let x = threads s t; S = ev_set (ev_of s i)
      in if event_info x AND RT_EVENT_FLAG_AND = 0 \<and> event_info x AND RT_EVENT_FLAG_OR = 0
         then Some (None, s)
         else
           let anded = event_info x AND RT_EVENT_FLAG_AND \<noteq> 0;
               sat = (if anded then event_set x AND S = event_set x else event_set x AND S \<noteq> 0);
               s = (if sat \<and> \<not> anded then upd_thread t (\<lambda>x. x\<lparr>event_set := event_set x AND S\<rparr>) s else s)
           in if sat then
                do { let clr = (if event_info (threads s t) AND RT_EVENT_FLAG_CLEAR \<noteq> 0
                                then clr OR event_set (threads s t) else clr);
                     (_, s) \<leftarrow> rt_sched_thread_ready t s;
                     let s = upd_thread t (\<lambda>x. x\<lparr>error := RT_EOK\<rparr>) s;
                     event_send_walk i ts clr True s }
              else event_send_walk i ts clr sched s)"

definition rt_event_send :: "nat \<Rightarrow> u32 \<Rightarrow> kst \<Rightarrow> (rt_err \<times> kst) option" where
  "rt_event_send i bits s =
     do { rt_assert (rt_object_get_type (ev_type (ev_of s i)) = RT_Object_Class_Event);
          if bits = 0 then Some (- RT_ERROR, s)
          else
            do { let s = upd_event i (\<lambda>x. x\<lparr>ev_set := ev_set x OR bits\<rparr>) s;
                 (r, s) \<leftarrow> event_send_walk i (tls s (Susp (Event_q i))) 0 False s;
                 case r of
                   None \<Rightarrow> Some (- RT_EINVAL, s)
                 | Some (clr, sched) \<Rightarrow>
                     do { let s = (if clr \<noteq> 0 then upd_event i (\<lambda>x. x\<lparr>ev_set := ev_set x AND NOT clr\<rparr>) s else s);
                          s \<leftarrow> (if sched then rt_schedule s else Some s);
                          Some (RT_EOK, s) } } }"

subsection \<open>Receive\<close>

text \<open>
  \<open>recved\<close> tells whether the caller passed a place for the received bits; the result carries
  what is written there. What \<^verbatim>\<open>_rt_event_recv\<close> does once the thread runs again:
\<close>

definition event_recv_resume :: "bool \<Rightarrow> tid \<Rightarrow> kst \<Rightarrow> rt_err \<times> u32 option" where
  "event_recv_resume recved t s =
     (let x = threads s t
      in if error x \<noteq> RT_EOK then (error x, None)
         else (error x, if recved then Some (event_set x) else None))"

definition rt_event_recv' ::
  "nat \<Rightarrow> u32 \<Rightarrow> u8 \<Rightarrow> int \<Rightarrow> bool \<Rightarrow> int \<Rightarrow> kst \<Rightarrow> ((rt_err \<times> u32 option) wres \<times> kst) option" where
  "rt_event_recv' i bits opt timeout recved suspend_flag s =
     do { rt_assert (rt_object_get_type (ev_type (ev_of s i)) = RT_Object_Class_Event);
          debug_scheduler_available True s;
          if bits = 0 then Some (Ret (- RT_ERROR, None), s)
          else
            do { t \<leftarrow> rt_thread_self s;
                 let s = upd_thread t (\<lambda>x. x\<lparr>error := - RT_EINTR\<rparr>) s;
                 let S = ev_set (ev_of s i);
                 sat \<leftarrow> (if opt AND RT_EVENT_FLAG_AND \<noteq> 0 then Some (S AND bits = bits)
                        else if opt AND RT_EVENT_FLAG_OR \<noteq> 0 then Some (S AND bits \<noteq> 0)
                        else None);
                 if sat then
                   do { let s = upd_thread t (\<lambda>x. x\<lparr>error := RT_EOK, event_set := S AND bits, event_info := opt\<rparr>) s;
                        let s = (if opt AND RT_EVENT_FLAG_CLEAR \<noteq> 0
                                 then upd_event i (\<lambda>x. x\<lparr>ev_set := ev_set x AND NOT bits\<rparr>) s else s);
                        Some (Ret (error (threads s t), if recved then Some (S AND bits) else None), s) }
                 else if timeout = 0 then
                   Some (Ret (- RT_ETIMEOUT, None), upd_thread t (\<lambda>x. x\<lparr>error := - RT_ETIMEOUT\<rparr>) s)
                 else
                   do { let s = upd_thread t (\<lambda>x. x\<lparr>event_set := bits, event_info := opt\<rparr>) s;
                        (ret, s) \<leftarrow> rt_thread_suspend_to_list t (Some (Event_q i)) (uint (ev_flag (ev_of s i)))
                          suspend_flag s;
                        if ret \<noteq> RT_EOK then Some (Ret (ret, None), s)
                        else
                          do { s \<leftarrow> thread_block t timeout s;
                               Some (if current s = Some t then Ret (event_recv_resume recved t s) else Wait, s) } } } }"

definition rt_event_recv ::
  "nat \<Rightarrow> u32 \<Rightarrow> u8 \<Rightarrow> int \<Rightarrow> bool \<Rightarrow> kst \<Rightarrow> ((rt_err \<times> u32 option) wres \<times> kst) option" where
  "rt_event_recv i bits opt timeout recved s = rt_event_recv' i bits opt timeout recved RT_UNINTERRUPTIBLE s"

definition rt_event_recv_interruptible ::
  "nat \<Rightarrow> u32 \<Rightarrow> u8 \<Rightarrow> int \<Rightarrow> bool \<Rightarrow> kst \<Rightarrow> ((rt_err \<times> u32 option) wres \<times> kst) option" where
  "rt_event_recv_interruptible i bits opt timeout recved s = rt_event_recv' i bits opt timeout recved RT_INTERRUPTIBLE s"

definition rt_event_recv_killable ::
  "nat \<Rightarrow> u32 \<Rightarrow> u8 \<Rightarrow> int \<Rightarrow> bool \<Rightarrow> kst \<Rightarrow> ((rt_err \<times> u32 option) wres \<times> kst) option" where
  "rt_event_recv_killable i bits opt timeout recved s = rt_event_recv' i bits opt timeout recved RT_KILLABLE s"

definition rt_event_control :: "nat \<Rightarrow> int \<Rightarrow> kst \<Rightarrow> (rt_err \<times> kst) option" where
  "rt_event_control i cmd s =
     do { rt_assert (rt_object_get_type (ev_type (ev_of s i)) = RT_Object_Class_Event);
          if cmd = RT_IPC_CMD_RESET then
            do { s \<leftarrow> rt_susp_list_resume_all (Event_q i) RT_ERROR s;
                 let s = upd_event i (\<lambda>x. x\<lparr>ev_set := 0\<rparr>) s;
                 s \<leftarrow> rt_schedule s;
                 Some (RT_EOK, s) }
          else Some (- RT_ERROR, s) }"

subsection \<open>The invariant of the events\<close>

definition ev_sat :: "u8 \<Rightarrow> u32 \<Rightarrow> u32 \<Rightarrow> bool" where
  "ev_sat info want S \<longleftrightarrow>
     (if info AND RT_EVENT_FLAG_AND \<noteq> 0 then want AND S = want
      else info AND RT_EVENT_FLAG_OR \<noteq> 0 \<and> want AND S \<noteq> 0)"

text \<open>A thread that waits on bits which do not satisfy its condition.\<close>

definition ev_waits :: "u32 \<Rightarrow> rt_thread \<Rightarrow> bool" where
  "ev_waits S x \<longleftrightarrow> (event_info x AND RT_EVENT_FLAG_AND \<noteq> 0 \<or> event_info x AND RT_EVENT_FLAG_OR \<noteq> 0) \<and>
     \<not> ev_sat (event_info x) (event_set x) S"

definition event_ok :: "rt_event \<Rightarrow> tid list \<Rightarrow> (tid \<Rightarrow> rt_thread) \<Rightarrow> bool" where
  "event_ok e ws thr \<longleftrightarrow>
     (ws \<noteq> [] \<longrightarrow> rt_object_get_type (ev_type e) = RT_Object_Class_Event) \<and>
     (rt_object_get_type (ev_type e) = RT_Object_Class_Event \<longrightarrow> ev_flag e = 0 \<or> ev_flag e = 1) \<and>
     (\<forall>t\<in>set ws. ev_waits (ev_set e) (thr t))"

definition event_inv :: "kst \<Rightarrow> bool" where
  "event_inv s \<longleftrightarrow> (\<forall>i. event_ok (ev_of s i) (tls s (Susp (Event_q i))) (threads s))"

lemma event_invD: "event_inv s \<Longrightarrow> event_ok (ev_of s i) (tls s (Susp (Event_q i))) (threads s)"
  by (simp add: event_inv_def)

definition is_event_q :: "ipcref \<Rightarrow> bool" where
  "is_event_q q \<longleftrightarrow> (\<exists>i. q = Event_q i)"

lemma ev_waits_cong: "wait_eq x y \<Longrightarrow> ev_waits S x = ev_waits S y"
  by (simp add: ev_waits_def wait_eq_def)

text \<open>Clearing bits never completes a condition.\<close>

lemma ev_waits_clear:
  assumes "ev_waits S x"
  shows "ev_waits (S AND m) x"
proof -
  have "w AND S AND m = w \<Longrightarrow> w AND S = w" for w :: u32
    by (metis and.assoc and.commute and.left_idem)
  moreover have "w AND S = 0 \<Longrightarrow> w AND S AND m = 0" for w :: u32
    by (simp flip: and.assoc)
  ultimately show ?thesis
    using assms by (auto simp: ev_waits_def ev_sat_def and.assoc [symmetric] split: if_splits)
qed

interpretation evc: object_class is_event_q events event_inv
proof
  fix s s'
  assume *: "event_inv s" "events (ipc s') = events (ipc s)" "shrunk is_event_q s s'"
  have "event_ok (ev_of s' i) (tls s' (Susp (Event_q i))) (threads s')" for i
  proof -
    have own: "is_event_q (Event_q i)" by (simp add: is_event_q_def)
    show ?thesis
      using event_invD [OF *(1), of i] shrunkD(2,3) [OF *(3) own] ev_waits_cong
      unfolding event_ok_def *(2) by blast
  qed
  then show "event_inv s'" by (simp add: event_inv_def)
qed

lemma upd_event_simps [simp]:
  "threads (upd_event i f s) = threads s" "tls (upd_event i f s) = tls s" "tm (upd_event i f s) = tm s"
  "ready_group (upd_event i f s) = ready_group s"
  "current (upd_event i f s) = current s" "lock_nest (upd_event i f s) = lock_nest s"
  "irq_nest (upd_event i f s) = irq_nest s"
  "events (ipc (upd_event i f s)) j = (if j = i then f (ev_of s i) else ev_of s j)"
  "kinv_but X (upd_event i f s) = kinv_but X s" "shrunk own s' (upd_event i f s) = shrunk own s' s"
  by (simp_all add: upd_event_def)

lemma event_inv_upd:
  "event_inv s \<Longrightarrow> event_ok (f (ev_of s i)) (tls s (Susp (Event_q i))) (threads s) \<Longrightarrow> event_inv (upd_event i f s)"
  by (simp add: event_inv_def)

lemma event_inv_clear: "event_inv s \<Longrightarrow> event_inv (upd_event i (\<lambda>x. x\<lparr>ev_set := ev_set x AND m\<rparr>) s)"
  using event_invD [of s i] by (auto intro!: event_inv_upd simp: event_ok_def ev_waits_clear)

subsection \<open>The walk over the waiting threads\<close>

text \<open>The bits a woken thread receives, and those it has cleared.\<close>

definition ev_got :: "u32 \<Rightarrow> rt_thread \<Rightarrow> u32" where
  "ev_got S x = (if event_info x AND RT_EVENT_FLAG_AND \<noteq> 0 then event_set x else event_set x AND S)"

definition ev_clr :: "u32 \<Rightarrow> rt_thread \<Rightarrow> u32" where
  "ev_clr S x = (if ev_sat (event_info x) (event_set x) S \<and> event_info x AND RT_EVENT_FLAG_CLEAR \<noteq> 0
     then ev_got S x else 0)"

definition ev_woken :: "u32 \<Rightarrow> tid set \<Rightarrow> kst \<Rightarrow> kst \<Rightarrow> bool" where
  "ev_woken S T s s' \<longleftrightarrow> ipc s' = ipc s \<and> current s' = current s \<and> lock_nest s' = lock_nest s \<and>
     irq_nest s' = irq_nest s \<and> rt_tick (tm s') = rt_tick (tm s) \<and>
     (\<forall>q. tls s' (Susp q) = filter (\<lambda>u. u \<notin> T) (tls s (Susp q))) \<and>
     (\<forall>u. u \<notin> T \<longrightarrow> threads s' u = threads s u) \<and>
     (\<forall>u\<in>T. runnable (threads s' u) \<and> error (threads s' u) = RT_EOK \<and>
        event_set (threads s' u) = ev_got S (threads s u))"

lemma ev_woken_refl [simp]: "ev_woken S {} s s"
  by (simp add: ev_woken_def)

lemma ev_woken_shrunk: "ev_woken S T s s' \<Longrightarrow> shrunk own s s'"
  by (auto simp: ev_woken_def shrunk_def)

lemma ev_woken_step:
  assumes "ev_woken S {t} s s'" "ev_woken S U s' s''" "t \<notin> U"
  shows "ev_woken S (insert t U) s s''"
proof -
  have "tls s'' (Susp q) = filter (\<lambda>u. u \<notin> insert t U) (tls s (Susp q))" for q
  proof -
    have "tls s'' (Susp q) = filter (\<lambda>u. u \<notin> U) (filter (\<lambda>u. u \<notin> {t}) (tls s (Susp q)))"
      using assms unfolding ev_woken_def by metis
    then show ?thesis by (simp add: conj_commute)
  qed
  then show ?thesis using assms unfolding ev_woken_def by (auto simp: ball_simps)
qed

lemma ev_wake_one:
  assumes inv: "kinv s" and susp: "th_suspended (threads s t)"
    and sat: "ev_sat (event_info (threads s t)) (event_set (threads s t)) S"
  defines "s0 \<equiv> if event_info (threads s t) AND RT_EVENT_FLAG_AND = 0
    then upd_thread t (\<lambda>x. x\<lparr>event_set := event_set x AND S\<rparr>) s else s"
  shows "\<exists>s1. rt_sched_thread_ready t s0 = Some (0, s1) \<and>
    kinv (upd_thread t (\<lambda>x. x\<lparr>error := RT_EOK\<rparr>) s1) \<and>
    ev_woken S {t} s (upd_thread t (\<lambda>x. x\<lparr>error := RT_EOK\<rparr>) s1)"
proof -
  have "kinv s0" unfolding s0_def using inv by (simp add: kinv_upd_thread th_stat_def)
  moreover have "th_suspended (threads s0 t)" using susp by (simp add: s0_def th_suspended_def)
  ultimately obtain s1 where s1: "rt_sched_thread_ready t s0 = Some (0, s1)" "kinv s1" "woken {t} s0 s1"
    using kinv_ready by blast
  have w: "wait_eq (threads s1 t) (threads s0 t)" "runnable (threads s1 t)"
    using s1(3) wake_eq_wait by (auto simp: woken_def)
  have "ev_woken S {t} s (upd_thread t (\<lambda>x. x\<lparr>error := RT_EOK\<rparr>) s1)"
    using s1(3) w by (auto simp: ev_woken_def woken_def s0_def ev_got_def wait_eq_def runnable_def th_stat_def)
  then show ?thesis using s1 kinv_set_error by blast
qed

abbreviation ev_sat_t :: "u32 \<Rightarrow> rt_thread \<Rightarrow> bool" where
  "ev_sat_t S x \<equiv> ev_sat (event_info x) (event_set x) S"

definition ev_clear_set :: "u32 \<Rightarrow> rt_thread list \<Rightarrow> u32 \<Rightarrow> u32" where
  "ev_clear_set S xs c = fold (\<lambda>x c. c OR ev_clr S x) xs c"

lemma ev_clear_set_simps [simp]:
  "ev_clear_set S [] c = c" "ev_clear_set S (x # xs) c = ev_clear_set S xs (c OR ev_clr S x)"
  by (simp_all add: ev_clear_set_def)

lemma event_walk:
  assumes "kinv s" "distinct ts"
    "\<forall>t\<in>set ts. th_suspended (threads s t) \<and> (event_info (threads s t) AND RT_EVENT_FLAG_AND \<noteq> 0 \<or>
       event_info (threads s t) AND RT_EVENT_FLAG_OR \<noteq> 0)"
    "S = ev_set (ev_of s i)"
  shows "\<exists>s'. event_send_walk i ts c b s =
      Some (Some (ev_clear_set S (map (threads s) ts) c, b \<or> (\<exists>t\<in>set ts. ev_sat_t S (threads s t))), s') \<and>
    kinv s' \<and> ev_woken S {t\<in>set ts. ev_sat_t S (threads s t)} s s'"
  using assms
proof (induction ts arbitrary: s c b)
  case (Cons t ts)
  let ?x = "threads s t"
  have flags: "\<not> (event_info ?x AND RT_EVENT_FLAG_AND = 0 \<and> event_info ?x AND RT_EVENT_FLAG_OR = 0)"
    using Cons.prems(3) by auto
  show ?case
  proof (cases "ev_sat_t S ?x")
    case False
    then have "event_send_walk i (t # ts) c b s = event_send_walk i ts c b s"
      using flags by (auto simp: ev_sat_def Let_def Cons.prems(4))
    moreover have "{u\<in>set (t # ts). ev_sat_t S (threads s u)} = {u\<in>set ts. ev_sat_t S (threads s u)}"
      using False by auto
    ultimately show ?thesis
      using Cons.IH [of s c b] Cons.prems False by (auto simp: ev_clr_def)
  next
    case True
    define s0 where "s0 = (if event_info ?x AND RT_EVENT_FLAG_AND = 0
      then upd_thread t (\<lambda>x. x\<lparr>event_set := event_set x AND S\<rparr>) s else s)"
    obtain s1 where s1: "rt_sched_thread_ready t s0 = Some (0, s1)"
        "kinv (upd_thread t (\<lambda>x. x\<lparr>error := RT_EOK\<rparr>) s1)"
        "ev_woken S {t} s (upd_thread t (\<lambda>x. x\<lparr>error := RT_EOK\<rparr>) s1)"
      using ev_wake_one [OF Cons.prems(1) _ True] Cons.prems(3) unfolding s0_def by auto
    define s2 where "s2 = upd_thread t (\<lambda>x. x\<lparr>error := RT_EOK\<rparr>) s1"
    have thr: "threads s2 u = threads s u" if "u \<in> set ts" for u
      using s1(3) that Cons.prems(2) by (auto simp: ev_woken_def s2_def)
    have walk: "event_send_walk i (t # ts) c b s = event_send_walk i ts (c OR ev_clr S ?x) True s2"
      using True flags s1(1)
      by (auto simp: ev_sat_def Let_def Cons.prems(4) s0_def s2_def ev_clr_def ev_got_def split: if_splits)
    have "S = ev_set (ev_of s2 i)" using s1(3) Cons.prems(4) by (simp add: ev_woken_def s2_def)
    with Cons.IH [of s2 "c OR ev_clr S ?x" True] Cons.prems(2,3) s1(2) thr obtain s' where s':
      "event_send_walk i ts (c OR ev_clr S ?x) True s2 =
        Some (Some (ev_clear_set S (map (threads s2) ts) (c OR ev_clr S ?x), True), s')"
      "kinv s'" "ev_woken S {u\<in>set ts. ev_sat_t S (threads s2 u)} s2 s'"
      by (auto simp: s2_def [symmetric])
    have "ev_woken S (insert t {u\<in>set ts. ev_sat_t S (threads s2 u)}) s s'"
      using ev_woken_step [OF s1(3) [folded s2_def] s'(3)] Cons.prems(2) by simp
    moreover have "insert t {u\<in>set ts. ev_sat_t S (threads s2 u)} = {u\<in>set (t # ts). ev_sat_t S (threads s u)}"
      using True thr by auto
    moreover have "map (threads s2) ts = map (threads s) ts" using thr by simp
    note s'(1) [unfolded this]
    ultimately show ?thesis unfolding walk using s'(2) True by auto
  qed
qed simp

subsection \<open>Event operations keep the invariants\<close>

definition kev_inv :: "kst \<Rightarrow> bool" where
  "kev_inv s \<longleftrightarrow> kinv s \<and> event_inv s"

lemma event_waiting:
  assumes "kev_inv s" "t \<in> set (tls s (Susp (Event_q i)))"
  shows "th_suspended (threads s t)" "ev_waits (ev_set (ev_of s i)) (threads s t)"
  using thread_okD(3) [OF sched_invD(3) [OF kinvD(1), of "{}" s t]] event_invD [of s i] assms
  by (auto simp: kev_inv_def event_ok_def)

text \<open>The state in which \<^verbatim>\<open>rt_event_send\<close> calls the scheduler.\<close>

lemma event_send_result:
  assumes inv: "kev_inv s" and ty: "rt_object_get_type (ev_type (ev_of s i)) = RT_Object_Class_Event"
    and bits: "bits \<noteq> 0"
  defines "S \<equiv> ev_set (ev_of s i) OR bits" and "ws \<equiv> tls s (Susp (Event_q i))"
  shows "\<exists>s1. rt_event_send i bits s =
      do { s \<leftarrow> (if \<exists>t\<in>set ws. ev_sat_t S (threads s t) then rt_schedule s1 else Some s1); Some (RT_EOK, s) } \<and>
    kev_inv s1 \<and>
    ev_set (ev_of s1 i) = S AND NOT (ev_clear_set S (map (threads s) ws) 0) \<and>
    ev_woken S {t\<in>set ws. ev_sat_t S (threads s t)} (s\<lparr>ipc := ipc s1\<rparr>) s1 \<and>
    (ipc s1)\<lparr>events := (events (ipc s))\<rparr> = ipc s"
proof -
  let ?s = "upd_event i (\<lambda>x. x\<lparr>ev_set := ev_set x OR bits\<rparr>) s" let ?T = "{t\<in>set ws. ev_sat_t S (threads s t)}"
  have "kinv ?s" "S = ev_set (ev_of ?s i)" "distinct ws"
    using inv wf_ls_distinct [OF sched_invD(1) [OF kinvD(1)], of "{}" s] by (auto simp: kev_inv_def S_def ws_def)
  moreover have "\<forall>t\<in>set ws. th_suspended (threads ?s t) \<and> (event_info (threads ?s t) AND RT_EVENT_FLAG_AND \<noteq> 0 \<or>
      event_info (threads ?s t) AND RT_EVENT_FLAG_OR \<noteq> 0)"
    using event_waiting [OF inv] by (auto simp: ws_def ev_waits_def)
  ultimately obtain s' where s': "event_send_walk i ws 0 False ?s =
      Some (Some (ev_clear_set S (map (threads s) ws) 0, \<exists>t\<in>set ws. ev_sat_t S (threads s t)), s')"
      "kinv s'" "ev_woken S ?T ?s s'"
    using event_walk [of ?s ws S i 0 False] by auto
  define clr where "clr = ev_clear_set S (map (threads s) ws) 0"
  define s1 where "s1 = upd_event i (\<lambda>x. x\<lparr>ev_set := ev_set x AND NOT clr\<rparr>) s'"
  have s1: "s1 = (if clr \<noteq> 0 then s1 else s')" by (simp add: s1_def upd_event_def)
  have ipc: "ipc s' = ipc ?s" using s'(3) by (simp add: ev_woken_def)
  have ev: "ev_of s1 j = (if j = i then (ev_of s i)\<lparr>ev_set := S AND NOT clr\<rparr> else ev_of s j)" for j
    by (simp add: s1_def ipc S_def)
  have w: "ev_woken S ?T (s\<lparr>ipc := ipc s1\<rparr>) s1"
    using s'(3) by (auto simp: s1_def ev_woken_def)
  have "event_ok (ev_of s1 j) (tls s1 (Susp (Event_q j))) (threads s1)" for j
  proof -
    have old: "event_ok (ev_of s j) (tls s (Susp (Event_q j))) (threads s)"
      using inv event_invD by (simp add: kev_inv_def)
    have sub: "set (tls s1 (Susp (Event_q j))) = set (tls s (Susp (Event_q j))) - ?T"
      "\<And>t. t \<notin> ?T \<Longrightarrow> threads s1 t = threads s t"
      using w by (auto simp: ev_woken_def)
    show ?thesis
    proof (cases "j = i")
      case True
      have "ev_waits S (threads s t)" if "t \<in> set ws" "t \<notin> ?T" for t
        using that event_waiting(2) [OF inv, of t i] by (auto simp: ws_def ev_waits_def)
      then show ?thesis
        using old sub True by (auto simp: event_ok_def ev ws_def intro: ev_waits_clear)
    next
      case False
      then show ?thesis using old sub by (auto simp: event_ok_def ev)
    qed
  qed
  then have "kev_inv s1" using s'(2) by (simp add: kev_inv_def event_inv_def s1_def)
  moreover have "rt_event_send i bits s =
      do { s \<leftarrow> (if \<exists>t\<in>set ws. ev_sat_t S (threads s t) then rt_schedule s1 else Some s1); Some (RT_EOK, s) }"
    using ty bits s'(1) s1 by (auto simp: rt_event_send_def ws_def [symmetric] clr_def [symmetric] s1_def [symmetric])
  moreover have "(ipc s1)\<lparr>events := events (ipc s)\<rparr> = ipc s" by (simp add: s1_def upd_event_def ipc)
  moreover have "ev_set (ev_of s1 i) = S AND NOT (ev_clear_set S (map (threads s) ws) 0)"
    by (simp add: ev clr_def)
  ultimately show ?thesis using w by blast
qed

lemma kev_schedule: "rt_schedule s = Some s' \<Longrightarrow> kev_inv s \<Longrightarrow> kev_inv s'"
  by (auto simp: kev_inv_def intro: kinv_schedule evc.ok_schedule)

lemma kev_send:
  assumes "rt_event_send i bits s = Some (e, s')" "kev_inv s"
  shows "kev_inv s'"
proof (cases "bits = 0")
  case True
  then show ?thesis using assms by (auto simp: rt_event_send_def split: if_splits)
next
  case False
  have "rt_object_get_type (ev_type (ev_of s i)) = RT_Object_Class_Event"
    using assms(1) by (simp add: rt_event_send_def split: if_splits)
  from event_send_result [OF assms(2) this False] obtain b s1 where
    eq: "rt_event_send i bits s = do { s \<leftarrow> (if b then rt_schedule s1 else Some s1); Some (RT_EOK, s) }"
    and "kev_inv s1" by blast
  then show ?thesis using assms(1) [unfolded eq] kev_schedule [of s1] by (auto simp: bind_Some split: if_splits)
qed

lemma kev_init:
  assumes "rt_event_init i fl s = Some (e, s')" "kev_inv s"
  shows "kev_inv s'"
proof -
  have "tls s (Susp (Event_q i)) = []"
    using assms event_invD [of s i]
    by (auto simp: rt_event_init_def object_init_def bind_Some kev_inv_def event_ok_def split: if_splits)
  then have "ls_init (tls s) (Susp (Event_q i)) = tls s" by (simp add: ls_init_def fun_upd_idem)
  then have "s' = upd_event i (\<lambda>x. x\<lparr>ev_type := 132, ev_flag := fl, ev_set := 0\<rparr>) s" "fl = 0 \<or> fl = 1"
    using assms(1) by (auto simp: rt_event_init_def object_init_def bind_Some split: if_splits)
  with assms(2) \<open>tls s (Susp (Event_q i)) = []\<close> show ?thesis
    by (auto intro!: event_inv_upd simp: event_ok_def kev_inv_def)
qed

lemma kev_create:
  assumes "rt_event_create obj fl s = Some (r, s')" "kev_inv s"
    "\<forall>i. obj = Some i \<longrightarrow> tls s (Susp (Event_q i)) = []"
  shows "kev_inv s'"
proof (cases obj)
  case (Some i)
  then have "ls_init (tls s) (Susp (Event_q i)) = tls s" using assms(3) by (simp add: ls_init_def fun_upd_idem)
  then have "s' = upd_event i (\<lambda>x. x\<lparr>ev_type := 4, ev_flag := fl, ev_set := 0\<rparr>) s" "fl = 0 \<or> fl = 1"
    using assms(1) Some
    by (auto simp: rt_event_create_def object_allocate_def debug_not_in_interrupt_def bind_Some Let_def
        split: if_splits)
  with assms Some show ?thesis by (auto intro!: event_inv_upd simp: event_ok_def kev_inv_def)
qed (use assms in \<open>auto simp: rt_event_create_def debug_not_in_interrupt_def split: if_splits\<close>)

text \<open>Resetting or deleting an event wakes its threads first.\<close>

lemma kev_resume_all:
  assumes "kev_inv s"
  shows "\<exists>s'. rt_susp_list_resume_all q e s = Some s' \<and> kev_inv s' \<and> ipc s' = ipc s \<and> tls s' (Susp q) = []"
  using evc.ok_resume_all [of s q e] assms by (auto simp: kev_inv_def)

lemma kev_upd_empty:
  assumes "kev_inv s" "tls s (Susp (Event_q i)) = []"
    "rt_object_get_type (ev_type (f (ev_of s i))) = RT_Object_Class_Event \<longrightarrow>
       ev_flag (f (ev_of s i)) = 0 \<or> ev_flag (f (ev_of s i)) = 1"
  shows "kev_inv (upd_event i f s)"
  using assms by (auto simp: kev_inv_def event_ok_def intro!: event_inv_upd)

lemma kev_exit_critical: "rt_exit_critical s = Some s' \<Longrightarrow> kev_inv s \<Longrightarrow> kev_inv s'"
  by (auto simp: kev_inv_def intro: kinv_exit_critical evc.ok_exit_critical)

lemma kev_detach: "rt_event_detach i s = Some (e, s') \<Longrightarrow> kev_inv s \<Longrightarrow> kev_inv s'"
  using kev_resume_all [of s "Event_q i" 1]
  by (auto simp: rt_event_detach_def bind_Some intro!: kev_upd_empty split: if_splits)

lemma kev_control:
  assumes "rt_event_control i cmd s = Some (e, s')" "kev_inv s"
  shows "kev_inv s'"
proof -
  obtain s1 where s1: "rt_susp_list_resume_all (Event_q i) RT_ERROR s = Some s1" "kev_inv s1"
      "tls s1 (Susp (Event_q i)) = []"
    using kev_resume_all [OF assms(2)] by blast
  have "kev_inv (upd_event i (\<lambda>x. x\<lparr>ev_set := 0\<rparr>) s1)"
    using event_invD [of s1 i] s1 by (intro kev_upd_empty) (auto simp: kev_inv_def event_ok_def)
  then show ?thesis
    using assms s1(1) kev_schedule by (auto simp: rt_event_control_def bind_Some split: if_splits)
qed

lemma kev_delete:
  assumes "rt_event_delete i s = Some (e, s')" "kev_inv s"
  shows "kev_inv s'"
proof -
  let ?s = "snd (rt_enter_critical s)"
  have "kev_inv ?s" using assms(2) by (simp add: kev_inv_def rt_enter_critical_def evc.ok_lock_nest)
  then obtain s1 where s1: "rt_susp_list_resume_all (Event_q i) RT_ERROR ?s = Some s1" "kev_inv s1"
      "tls s1 (Susp (Event_q i)) = []"
    using kev_resume_all by blast
  then obtain s2 where s2: "rt_exit_critical s1 = Some s2"
      "s' = upd_event i (\<lambda>x. x\<lparr>ev_type := object_detach (ev_type x)\<rparr>) s2"
    using assms(1) by (auto simp: rt_event_delete_def bind_Some split: if_splits)
  have "kev_inv s2" "tls s2 (Susp (Event_q i)) = []"
    using kev_exit_critical [OF s2(1) s1(2)] exit_critical_frame(3) [OF s2(1)] s1 by (auto simp: kev_inv_def)
  then show ?thesis unfolding s2(2) by (rule kev_upd_empty) simp
qed

lemma blocked_event_inv:
  assumes b: "blocked t (Event_q i) fl timeout s s'" and inv: "kev_inv s"
    and ty: "rt_object_get_type (ev_type (ev_of s i)) = RT_Object_Class_Event"
    and w: "ev_waits (ev_set (ev_of s i)) (threads s t)"
  shows "event_inv s'"
proof -
  have eq: "wait_eq (threads s' u) (threads s u)" for u
    using b wake_eq_wait same_stat_wait by (cases "u = t") (auto simp: blocked_def)
  have "event_ok (ev_of s' j) (tls s' (Susp (Event_q j))) (threads s')" for j
    using inv event_invD [of s j] b ty w ev_waits_cong [OF eq]
    by (auto simp: kev_inv_def event_ok_def blocked_def)
  then show ?thesis by (simp add: event_inv_def)
qed

lemma kev_upd_running:
  "kev_inv s \<Longrightarrow> th_stat (threads s t) = RT_THREAD_RUNNING \<Longrightarrow>
   kev_inv (upd_thread t (\<lambda>x. x\<lparr>error := e, event_set := b, event_info := o'\<rparr>) s)"
  "kev_inv s \<Longrightarrow> kev_inv (upd_thread t (\<lambda>x. x\<lparr>error := e\<rparr>) s)"
  "kev_inv s \<Longrightarrow> th_stat (threads s t) = RT_THREAD_RUNNING \<Longrightarrow>
   kev_inv (upd_thread t (\<lambda>x. x\<lparr>event_set := b, event_info := o'\<rparr>) s)"
  by (auto simp: kev_inv_def th_stat_def
      intro!: evc.ok_upd_running evc.ok_set_error kinv_upd_thread)

lemma kev_recv:
  assumes run: "rt_event_recv' i bits opt timeout recved sf s = Some (r, s')" and inv: "kev_inv s"
    and cur: "current s = Some t" and st: "th_stat (threads s t) = RT_THREAD_RUNNING"
  shows "kev_inv s'"
proof -
  define s0 where "s0 = upd_thread t (\<lambda>x. x\<lparr>error := - RT_EINTR\<rparr>) s"
  define s1 where "s1 = upd_thread t (\<lambda>x. x\<lparr>event_set := bits, event_info := opt\<rparr>) s0"
  let ?S = "ev_set (ev_of s i)"
  have ty: "rt_object_get_type (ev_type (ev_of s i)) = RT_Object_Class_Event"
    using run by (simp add: rt_event_recv'_def split: if_splits)
  have i0: "kev_inv s0" using inv by (simp add: s0_def kev_upd_running)
  have st0: "th_stat (threads s0 t) = RT_THREAD_RUNNING" using st by (simp add: s0_def th_stat_def)
  have i1: "kev_inv s1" using i0 st0 by (simp add: s1_def kev_upd_running)
  consider (early) "s' = s"
    | (keep) "s' = upd_thread t (\<lambda>x. x\<lparr>error := RT_EOK, event_set := ?S AND bits, event_info := opt\<rparr>) s0"
    | (sat) m where "s' = upd_event i (\<lambda>x. x\<lparr>ev_set := ev_set x AND m\<rparr>)
        (upd_thread t (\<lambda>x. x\<lparr>error := RT_EOK, event_set := ?S AND bits, event_info := opt\<rparr>) s0)"
    | (timeout) "s' = upd_thread t (\<lambda>x. x\<lparr>error := - RT_ETIMEOUT\<rparr>) s0"
    | (refused) ret where "rt_thread_suspend_to_list t (Some (Event_q i)) (uint (ev_flag (ev_of s1 i))) sf s1 = Some (ret, s')"
        "ret \<noteq> 0"
    | (wait) s2 where "rt_thread_suspend_to_list t (Some (Event_q i)) (uint (ev_flag (ev_of s1 i))) sf s1 = Some (0, s2)"
        "thread_block t timeout s2 = Some s'" "ev_waits ?S (threads s1 t)"
  proof -
    have fr: "ipc s0 = ipc s" "ipc s1 = ipc s" by (simp_all add: s0_def s1_def)
    have w: "ev_waits ?S (threads s1 t) \<longleftrightarrow> (opt AND RT_EVENT_FLAG_AND \<noteq> 0 \<or> opt AND RT_EVENT_FLAG_OR \<noteq> 0) \<and>
        \<not> (if opt AND RT_EVENT_FLAG_AND \<noteq> 0 then ?S AND bits = bits
           else opt AND RT_EVENT_FLAG_OR \<noteq> 0 \<and> ?S AND bits \<noteq> 0)"
      by (simp add: s1_def ev_waits_def ev_sat_def and.commute)
    show thesis
      using run cur early keep sat [of "NOT bits"] timeout refused wait
      by (auto simp: rt_event_recv'_def rt_thread_self_def Let_def s0_def [symmetric] s1_def [symmetric] fr
          bind_Some w split: if_splits)
  qed
  then show ?thesis
  proof cases
    case early
    then show ?thesis using inv by simp
  next
    case keep
    then show ?thesis using kev_upd_running(1) [OF i0 st0] by simp
  next
    case sat
    then show ?thesis
      using kev_upd_running(1) [OF i0 st0] event_inv_clear by (simp add: kev_inv_def)
  next
    case timeout
    then show ?thesis using i0 by (simp add: kev_upd_running)
  next
    case refused
    then show ?thesis using kinv_suspend(2) [OF _ refused(1)] i1 by (simp add: kev_inv_def)
  next
    case wait
    have "current s1 = Some t" using cur by (simp add: s1_def s0_def)
    then have "kinv s'" "blocked t (Event_q i) (uint (ev_flag (ev_of s1 i))) timeout s1 s'"
      using block_result [OF _ _ wait(1,2)] i1 by (auto simp: kev_inv_def)
    moreover have "ipc s1 = ipc s" by (simp add: s1_def s0_def)
    ultimately show ?thesis
      using blocked_event_inv [of t i _ timeout s1 s'] i1 ty wait(3) by (simp add: kev_inv_def)
  qed
qed

subsection \<open>Refinement of an abstract event\<close>

text \<open>The bits of an event, and its waiting threads with their flags and wanted bits.\<close>

type_synonym aevent = "u32 \<times> (tid \<times> u8 \<times> u32) list"

definition aev_of :: "kst \<Rightarrow> nat \<Rightarrow> aevent" where
  "aev_of s i = (ev_set (ev_of s i),
     map (\<lambda>t. (t, event_info (threads s t), event_set (threads s t))) (tls s (Susp (Event_q i))))"

text \<open>
  Sending wakes the threads whose condition holds, in one go, on the bits before any is
  cleared; afterwards the bits received by the woken threads that asked for it are cleared.
\<close>

definition awant :: "u8 \<Rightarrow> u32 \<Rightarrow> u32 \<Rightarrow> u32" where
  "awant info want S = (if info AND RT_EVENT_FLAG_AND \<noteq> 0 then want else want AND S)"

definition aev_send :: "u32 \<Rightarrow> aevent \<Rightarrow> (tid \<times> u32) list \<times> aevent" where
  "aev_send bits e =
     (let S = fst e OR bits;
          wake = filter (\<lambda>(t, info, want). ev_sat info want S) (snd e);
          clr = fold (\<lambda>(t, info, want) c. if info AND RT_EVENT_FLAG_CLEAR \<noteq> 0 then c OR awant info want S else c) wake 0
      in (map (\<lambda>(t, info, want). (t, awant info want S)) wake,
          (S AND NOT clr, filter (\<lambda>(t, info, want). \<not> ev_sat info want S) (snd e))))"

lemma ev_clear_set_fold:
  "ev_clear_set S (map f ts) c =
     fold (\<lambda>(t, info, want) c. if info AND RT_EVENT_FLAG_CLEAR \<noteq> 0 then c OR awant info want S else c)
       (filter (\<lambda>(t, info, want). ev_sat info want S) (map (\<lambda>t. (t, event_info (f t), event_set (f t))) ts)) c"
  by (induction ts arbitrary: c) (auto simp: ev_clr_def ev_got_def awant_def)

lemma aev_of_schedule:
  assumes "rt_schedule s = Some s'" "kinv s"
  shows "aev_of s' i = aev_of s i"
proof -
  note fr = schedule_frame [OF assms(1) kinvD(1) [OF assms(2)]]
  have "event_info (threads s' t) = event_info (threads s t)" "event_set (threads s' t) = event_set (threads s t)" for t
    using fr same_but_statD(8,9) [of "threads s' t" "threads s t"] by (simp_all add: sched_frame_def)
  then show ?thesis using fr by (simp add: aev_of_def sched_frame_def)
qed

lemma event_send_refines:
  assumes send: "rt_event_send i bits s = Some (e, s')" and inv: "kev_inv s" and bits: "bits \<noteq> 0"
  shows "e = RT_EOK" "aev_of s' i = snd (aev_send bits (aev_of s i))"
    "(t, got) \<in> set (fst (aev_send bits (aev_of s i))) \<Longrightarrow>
       runnable (threads s' t) \<and> event_recv_resume True t s' = (RT_EOK, Some got)"
proof -
  let ?S = "ev_set (ev_of s i) OR bits" let ?ws = "tls s (Susp (Event_q i))"
  let ?T = "{t\<in>set ?ws. ev_sat_t ?S (threads s t)}"
  have ty: "rt_object_get_type (ev_type (ev_of s i)) = RT_Object_Class_Event"
    using send by (simp add: rt_event_send_def split: if_splits)
  obtain b s1 where eq: "rt_event_send i bits s =
      do { s \<leftarrow> (if b then rt_schedule s1 else Some s1); Some (RT_EOK, s) }" "kev_inv s1"
    and set1: "ev_set (ev_of s1 i) = ?S AND NOT (ev_clear_set ?S (map (threads s) ?ws) 0)"
    and w: "ev_woken ?S ?T (s\<lparr>ipc := ipc s1\<rparr>) s1"
    using event_send_result [OF inv ty bits] by blast
  have s': "s' = s1 \<or> rt_schedule s1 = Some s'" and e: "e = RT_EOK"
    using send [unfolded eq(1)] by (auto simp: bind_Some split: if_splits)
  have k1: "kinv s1" using eq(2) by (simp add: kev_inv_def)
  show "e = RT_EOK" by (rule e)
  have ws1: "tls s1 (Susp (Event_q i)) = filter (\<lambda>t. \<not> ev_sat_t ?S (threads s t)) ?ws"
    using w by (auto simp: ev_woken_def intro: filter_cong)
  have "threads s1 t = threads s t" if "\<not> ev_sat_t ?S (threads s t)" for t
    using w that by (simp add: ev_woken_def)
  then have "map (\<lambda>t. (t, event_info (threads s1 t), event_set (threads s1 t))) (tls s1 (Susp (Event_q i))) =
      map (\<lambda>t. (t, event_info (threads s t), event_set (threads s t))) (filter (\<lambda>t. \<not> ev_sat_t ?S (threads s t)) ?ws)"
    unfolding ws1 by (intro map_cong) auto
  then have "aev_of s1 i = snd (aev_send bits (aev_of s i))"
    by (simp add: aev_of_def aev_send_def set1 ev_clear_set_fold filter_map o_def Let_def)
  then show "aev_of s' i = snd (aev_send bits (aev_of s i))"
    using s' aev_of_schedule [OF _ k1] by auto
  assume "(t, got) \<in> set (fst (aev_send bits (aev_of s i)))"
  then have t: "t \<in> ?T" "got = ev_got ?S (threads s t)"
    by (auto simp: aev_send_def aev_of_def Let_def awant_def ev_got_def)
  then have "runnable (threads s1 t)" "error (threads s1 t) = RT_EOK" "event_set (threads s1 t) = got"
    using w by (auto simp: ev_woken_def)
  moreover have "runnable (threads s' t) = runnable (threads s1 t)" "error (threads s' t) = error (threads s1 t)"
      "event_set (threads s' t) = event_set (threads s1 t)"
    using s' schedule_frame [of s1 s'] kinvD(1) [OF k1] same_but_statD(1,8) [of "threads s' t" "threads s1 t"]
    by (auto simp: sched_frame_def)
  ultimately show "runnable (threads s' t) \<and> event_recv_resume True t s' = (RT_EOK, Some got)"
    by (simp add: event_recv_resume_def)
qed

end
