(* ===== verification/RT_Fifo.thy ===== *)
theory RT_Fifo
  imports RT_Prelude
begin

text \<open>
  Bounded first-in first-out buffers: the interface the mailboxes, message queues and ring
  buffers provide, and the list a circular array holds.
\<close>

subsection \<open>The interface\<close>

datatype 'v fifo_op = Put 'v | Get

locale bounded_fifo =
  fixes inv :: "'q \<Rightarrow> bool" and abs :: "'q \<Rightarrow> 'v list" and cap :: "'q \<Rightarrow> nat"
    and fits :: "'v \<Rightarrow> 'q \<Rightarrow> bool" and put :: "'v \<Rightarrow> 'q \<Rightarrow> 'q" and get :: "'q \<Rightarrow> 'v \<times> 'q"
  assumes put_law: "inv q \<Longrightarrow> length (abs q) < cap q \<Longrightarrow> fits v q \<Longrightarrow>
      inv (put v q) \<and> abs (put v q) = abs q @ [v] \<and> cap (put v q) = cap q"
    and get_law: "inv q \<Longrightarrow> abs q \<noteq> [] \<Longrightarrow>
      inv (snd (get q)) \<and> abs q = fst (get q) # abs (snd (get q)) \<and> cap (snd (get q)) = cap q"
begin

text \<open>A full buffer refuses a value, and so does any buffer when the value does not fit; an empty one yields none.\<close>

fun exec :: "'v fifo_op list \<Rightarrow> 'q \<Rightarrow> 'v list \<times> 'v list \<times> 'q" where
  "exec [] q = ([], [], q)"
| "exec (Put v # ops) q =
     (if length (abs q) < cap q \<and> fits v q
      then (case exec ops (put v q) of (ins, outs, q') \<Rightarrow> (v # ins, outs, q'))
      else exec ops q)"
| "exec (Get # ops) q =
     (if abs q = [] then exec ops q
      else (case exec ops (snd (get q)) of (ins, outs, q') \<Rightarrow> (ins, fst (get q) # outs, q')))"

text \<open>
  No value is lost, duplicated or reordered: the values taken out, followed by those still
  stored, are the values stored at first followed by those accepted.
\<close>

lemma fifo_order:
  assumes "inv q" "exec ops q = (ins, outs, q')"
  shows "inv q' \<and> outs @ abs q' = abs q @ ins"
  using assms
proof (induction ops q arbitrary: ins outs q' rule: exec.induct)
  case (2 v ops q)
  show ?case
  proof (cases "length (abs q) < cap q \<and> fits v q")
    case True
    then show ?thesis
      using 2(1) [OF True] 2(3,4) put_law [OF 2(3), of v] by (auto split: prod.splits)
  next
    case False
    then show ?thesis using 2(2) [OF False] 2(3,4) by (auto split: if_splits)
  qed
next
  case (3 ops q)
  show ?case
  proof (cases "abs q = []")
    case True
    then show ?thesis using 3(1) [OF True] 3(3,4) by simp
  next
    case False
    obtain outs' where "exec ops (snd (get q)) = (ins, outs', q')" "outs = fst (get q) # outs'"
      using 3(4) False by (auto split: prod.splits)
    then show ?thesis
      using 3(2) [OF False] get_law [OF 3(3) False] by (metis append_Cons)
  qed
qed simp

lemma capacity_bound:
  assumes "inv q" "length (abs q) \<le> cap q" "exec ops q = (ins, outs, q')"
  shows "length (abs q') \<le> cap q'"
  using assms
proof (induction ops q arbitrary: ins outs q' rule: exec.induct)
  case (2 v ops q)
  show ?case
  proof (cases "length (abs q) < cap q \<and> fits v q")
    case True
    then show ?thesis
      using 2(1) [OF True] 2(3-5) put_law [OF 2(3), of v] by (auto split: prod.splits)
  next
    case False
    then show ?thesis using 2(2) [OF False] 2(3-5) by (auto split: if_splits)
  qed
next
  case (3 ops q)
  show ?case
  proof (cases "abs q = []")
    case True
    then show ?thesis using 3(1) [OF True] 3(3-5) by simp
  next
    case False
    then have "length (abs (snd (get q))) \<le> cap (snd (get q))"
      using get_law [OF 3(3) False] 3(4) by (metis length_Cons Suc_leD)
    then show ?thesis
      using 3(2) [OF False] get_law [OF 3(3) False] 3(5) False by (auto split: prod.splits)
  qed
qed simp

end

subsection \<open>Circular arrays\<close>

text \<open>The \<open>n\<close> values from index \<open>out\<close> on in a circular array of \<open>sz\<close> cells.\<close>

definition ring_abs :: "'a list \<Rightarrow> nat \<Rightarrow> nat \<Rightarrow> nat \<Rightarrow> 'a list" where
  "ring_abs pool out n sz = map (\<lambda>k. pool ! ((out + k) mod sz)) [0..<n]"

lemma length_ring_abs [simp]: "length (ring_abs pool out n sz) = n"
  by (simp add: ring_abs_def)

lemma ring_abs_0 [simp]: "ring_abs pool out 0 sz = []"
  by (simp add: ring_abs_def)

lemma ring_mod_neq:
  assumes "(a :: nat) < b" "b < a + sz"
  shows "a mod sz \<noteq> b mod sz"
proof
  assume "a mod sz = b mod sz"
  then have "sz dvd b - a" using assms(1) by (metis less_imp_le mod_eq_dvd_iff_nat)
  moreover have "0 < b - a" "b - a < sz" using assms by linarith+
  ultimately show False using nat_dvd_not_less by blast
qed

lemma ring_abs_other:
  assumes "\<And>k. k < n \<Longrightarrow> (out + k) mod sz \<noteq> p"
  shows "ring_abs (pool[p := v]) out n sz = ring_abs pool out n sz"
proof -
  have "pool[p := v] ! ((out + k) mod sz) = pool ! ((out + k) mod sz)" if "k < n" for k
    using assms [OF that] by (metis nth_list_update_neq)
  then show ?thesis by (simp add: ring_abs_def)
qed

lemma ring_put:
  assumes "n < sz" "sz \<le> length pool"
  shows "ring_abs (pool[(out + n) mod sz := v]) out (Suc n) sz = ring_abs pool out n sz @ [v]"
proof -
  have "(out + n) mod sz < length pool" using assms mod_less_divisor [of sz "out + n"] by linarith
  moreover have "(out + k) mod sz \<noteq> (out + n) mod sz" if "k < n" for k
    using ring_mod_neq [of "out + k" "out + n" sz] that assms by simp
  then have "ring_abs (pool[(out + n) mod sz := v]) out n sz = ring_abs pool out n sz"
    by (rule ring_abs_other)
  ultimately show ?thesis by (simp add: ring_abs_def)
qed

lemma ring_get:
  assumes "out < sz"
  shows "ring_abs pool out (Suc n) sz = pool ! out # ring_abs pool ((out + 1) mod sz) n sz"
proof -
  have "ring_abs pool out (Suc n) sz = pool ! out # map (\<lambda>k. pool ! ((out + Suc k) mod sz)) [0..<n]"
    using assms by (simp add: ring_abs_def upt_conv_Cons map_Suc_upt [symmetric] del: upt_Suc)
  also have "map (\<lambda>k. pool ! ((out + Suc k) mod sz)) [0..<n] = ring_abs pool ((out + 1) mod sz) n sz"
    by (simp add: ring_abs_def mod_add_left_eq)
  finally show ?thesis .
qed

text \<open>Storing in front of the first value.\<close>

lemma ring_push_front:
  assumes "n < sz" "sz \<le> length pool" "out < sz" "p = (if out = 0 then sz - 1 else out - 1)"
  shows "ring_abs (pool[p := v]) p (Suc n) sz = v # ring_abs pool out n sz"
proof -
  have p: "p < sz" "(p + 1) mod sz = out" using assms by auto
  have "(out + k) mod sz \<noteq> p" if "k < n" for k
  proof -
    have "(out + k) mod sz \<noteq> (out + (sz - 1)) mod sz"
      using ring_mod_neq [of "out + k" "out + (sz - 1)" sz] that assms by simp
    moreover have "(out + (sz - 1)) mod sz = p"
      using assms by (auto simp: mod_if)
    ultimately show ?thesis by simp
  qed
  then have "ring_abs (pool[p := v]) out n sz = ring_abs pool out n sz" by (rule ring_abs_other)
  then show ?thesis using p assms(2) by (simp add: ring_get)
qed

text \<open>The index after an increment that returns to 0 at the end of the array.\<close>

definition ring_next :: "u16 \<Rightarrow> u16 \<Rightarrow> u16" where
  "ring_next sz i = (if sz \<le> i + 1 then 0 else i + 1)"

lemma unat_ring_next:
  assumes "i < sz"
  shows "unat (ring_next sz i) = (unat i + 1) mod unat sz"
proof -
  have "unat (i + 1) = unat i + 1" by (rule unat_plus1 [OF assms])
  moreover have "unat i < unat sz" using assms by (simp add: word_less_nat_alt)
  ultimately show ?thesis by (auto simp: ring_next_def word_le_nat_alt mod_if)
qed

lemma u16_le_max: "w \<le> 0xffff" for w :: u16
proof -
  have "unat w < 2 ^ 16" using unsigned_less [of w] by simp
  then show ?thesis by (simp add: word_le_nat_alt)
qed

lemma ring_next_less: "i < sz \<Longrightarrow> ring_next sz i < sz"
  by (simp add: word_less_nat_alt unat_ring_next)

end
