(* ===== verification/RT_Mailbox.thy ===== *)
theory RT_Mailbox
  imports RT_Wait RT_Fifo
begin

text \<open>
  Mailboxes (\<^verbatim>\<open>src/ipc.c\<close>): a circular array of words with threads waiting to send and threads
  waiting to receive. The waiting loops are partial functions. The message pool is the list of
  the words it has; an access outside of it is \<^const>\<open>None\<close>.
\<close>

abbreviation (input) RT_MB_ENTRY_MAX :: u16 where "RT_MB_ENTRY_MAX \<equiv> 0xffff"

abbreviation mb_of :: "kst \<Rightarrow> nat \<Rightarrow> rt_mailbox" where
  "mb_of s i \<equiv> mbs (ipc s) i"

definition upd_mb :: "nat \<Rightarrow> (rt_mailbox \<Rightarrow> rt_mailbox) \<Rightarrow> kst \<Rightarrow> kst" where
  "upd_mb i f s = s\<lparr>ipc := (ipc s)\<lparr>mbs := (mbs (ipc s))(i := f (mbs (ipc s) i))\<rparr>\<rparr>"

subsection \<open>Creation and deletion\<close>

text \<open>Both creation functions set the fields and the two lists alike.\<close>

definition mb_setup :: "nat \<Rightarrow> u8 \<Rightarrow> u8 \<Rightarrow> u64 list \<Rightarrow> u16 \<Rightarrow> kst \<Rightarrow> kst" where
  "mb_setup i ty flag pool sz s =
     (let s = s\<lparr>tls := ls_init (ls_init (tls s) (Susp (Mb_q i))) (Susp (Mb_sender_q i))\<rparr>
      in upd_mb i (\<lambda>x. x\<lparr>mb_type := ty, mb_flag := flag, mb_pool := pool, mb_size := sz, mb_entry := 0,
           mb_in := 0, mb_out := 0\<rparr>) s)"

definition rt_mb_init :: "nat \<Rightarrow> u64 list \<Rightarrow> u64 \<Rightarrow> u8 \<Rightarrow> kst \<Rightarrow> (rt_err \<times> kst) option" where
  "rt_mb_init i msgpool sz flag s =
     do { rt_assert (flag = 0 \<or> flag = 1);
          ty \<leftarrow> object_init RT_Object_Class_MailBox (mb_type (mb_of s i));
          Some (RT_EOK, mb_setup i ty flag msgpool (ucast sz) s) }"

definition mb_wake_all :: "nat \<Rightarrow> kst \<Rightarrow> kst option" where
  "mb_wake_all i s =
     do { s \<leftarrow> rt_susp_list_resume_all (Mb_q i) RT_ERROR s;
          rt_susp_list_resume_all (Mb_sender_q i) RT_ERROR s }"

definition rt_mb_detach :: "nat \<Rightarrow> kst \<Rightarrow> (rt_err \<times> kst) option" where
  "rt_mb_detach i s =
     do { rt_assert (rt_object_get_type (mb_type (mb_of s i)) = RT_Object_Class_MailBox);
          rt_assert (rt_object_is_systemobject (mb_type (mb_of s i)));
          s \<leftarrow> mb_wake_all i s;
          Some (RT_EOK, upd_mb i (\<lambda>x. x\<lparr>mb_type := object_detach (mb_type x)\<rparr>) s) }"

text \<open>
  \<open>obj\<close> is the object \<^verbatim>\<open>rt_object_allocate\<close> returned and \<open>mem\<close> the words
  \<^verbatim>\<open>RT_KERNEL_MALLOC\<close> returned.
\<close>

definition rt_mb_create :: "nat option \<Rightarrow> u64 list option \<Rightarrow> u64 \<Rightarrow> u8 \<Rightarrow> kst \<Rightarrow> (nat option \<times> kst) option" where
  "rt_mb_create obj mem sz flag s =
     do { rt_assert (flag = 0 \<or> flag = 1);
          debug_not_in_interrupt s;
          case obj of
            None \<Rightarrow> Some (None, s)
          | Some i \<Rightarrow>
              (case mem of
                 None \<Rightarrow>
                   Some (None, upd_mb i (\<lambda>x. x\<lparr>mb_type := object_detach (object_allocate RT_Object_Class_MailBox),
                     mb_flag := flag, mb_pool := [], mb_size := ucast sz\<rparr>)
                     (s\<lparr>tls := ls_init (tls s) (Susp (Mb_q i))\<rparr>))
               | Some pool \<Rightarrow>
                   Some (Some i, mb_setup i (object_allocate RT_Object_Class_MailBox) flag pool (ucast sz) s)) }"

definition rt_mb_delete :: "nat \<Rightarrow> kst \<Rightarrow> (rt_err \<times> kst) option" where
  "rt_mb_delete i s =
     do { rt_assert (rt_object_get_type (mb_type (mb_of s i)) = RT_Object_Class_MailBox);
          rt_assert (\<not> rt_object_is_systemobject (mb_type (mb_of s i)));
          debug_not_in_interrupt s;
          let s = snd (rt_enter_critical s);
          s \<leftarrow> mb_wake_all i s;
          s \<leftarrow> rt_exit_critical s;
          Some (RT_EOK, upd_mb i (\<lambda>x. x\<lparr>mb_pool := [], mb_type := object_detach (mb_type x)\<rparr>) s) }"

subsection \<open>Send\<close>

text \<open>Storing a word at the end and at the front of the array.\<close>

definition mb_put :: "u64 \<Rightarrow> rt_mailbox \<Rightarrow> rt_mailbox" where
  "mb_put value x = x\<lparr>mb_pool := (mb_pool x)[unat (mb_in x) := value],
     mb_in := ring_next (mb_size x) (mb_in x), mb_entry := mb_entry x + 1\<rparr>"

definition mb_push :: "u64 \<Rightarrow> rt_mailbox \<Rightarrow> rt_mailbox" where
  "mb_push value x =
     (let out = (if 0 < mb_out x then mb_out x - 1 else mb_size x - 1)
      in x\<lparr>mb_out := out, mb_pool := (mb_pool x)[unat out := value], mb_entry := mb_entry x + 1\<rparr>)"

text \<open>
  The end of \<^verbatim>\<open>_rt_mb_send_wait\<close>, once there is room. With a full counter the word and the
  index are written all the same.
\<close>

definition mb_send_finish :: "nat \<Rightarrow> u64 \<Rightarrow> kst \<Rightarrow> (rt_err \<times> kst) option" where
  "mb_send_finish i value s =
     do { let x = mb_of s i;
          rt_assert (unat (mb_in x) < length (mb_pool x));
          if mb_entry x < RT_MB_ENTRY_MAX then
            do { s \<leftarrow> wake_first (Mb_q i) (upd_mb i (mb_put value) s); Some (RT_EOK, s) }
          else Some (- RT_EFULL, upd_mb i (\<lambda>x. x\<lparr>mb_pool := (mb_pool x)[unat (mb_in x) := value],
                 mb_in := ring_next (mb_size x) (mb_in x)\<rparr>) s) }"

partial_function (option) mb_send_loop ::
  "nat \<Rightarrow> u64 \<Rightarrow> int \<Rightarrow> int \<Rightarrow> kst \<Rightarrow> (rt_err wres \<times> kst) option" where
  "mb_send_loop i value timeout suspend_flag s =
     (if mb_entry (mb_of s i) = mb_size (mb_of s i) then
        do { t \<leftarrow> rt_thread_self s;
             let s = upd_thread t (\<lambda>x. x\<lparr>error := - RT_EINTR\<rparr>) s;
             if timeout = 0 then Some (Ret (- RT_EFULL), s)
             else
               do { (r, s) \<leftarrow> sleep_on t (Mb_sender_q i) (mb_flag (mb_of s i)) timeout suspend_flag s;
                    case r of
                      Refused ret \<Rightarrow> Some (Ret ret, s)
                    | Asleep \<Rightarrow> Some (Wait, s)
                    | Awake before \<Rightarrow>
                        if error (threads s t) \<noteq> RT_EOK then Some (Ret (error (threads s t)), s)
                        else mb_send_loop i value (timeout_left timeout before (rt_tick_get (tm s)))
                               suspend_flag s } }
      else do { (e, s) \<leftarrow> mb_send_finish i value s; Some (Ret e, s) })"

text \<open>What the call does when the thread \<open>t\<close> runs again after it slept from tick \<open>before\<close> on.\<close>

definition mb_send_resume ::
  "nat \<Rightarrow> u64 \<Rightarrow> int \<Rightarrow> int \<Rightarrow> tid \<Rightarrow> u32 \<Rightarrow> kst \<Rightarrow> (rt_err wres \<times> kst) option" where
  "mb_send_resume i value timeout suspend_flag t before s =
     (if error (threads s t) \<noteq> RT_EOK then Some (Ret (error (threads s t)), s)
      else mb_send_loop i value (timeout_left timeout before (rt_tick_get (tm s))) suspend_flag s)"

definition rt_mb_send_wait' :: "nat \<Rightarrow> u64 \<Rightarrow> int \<Rightarrow> int \<Rightarrow> kst \<Rightarrow> (rt_err wres \<times> kst) option" where
  "rt_mb_send_wait' i value timeout suspend_flag s =
     do { rt_assert (rt_object_get_type (mb_type (mb_of s i)) = RT_Object_Class_MailBox);
          debug_scheduler_available (timeout \<noteq> 0) s;
          if mb_entry (mb_of s i) = mb_size (mb_of s i) \<and> timeout = 0 then Some (Ret (- RT_EFULL), s)
          else mb_send_loop i value timeout suspend_flag s }"

definition rt_mb_send_wait :: "nat \<Rightarrow> u64 \<Rightarrow> int \<Rightarrow> kst \<Rightarrow> (rt_err wres \<times> kst) option" where
  "rt_mb_send_wait i value timeout s = rt_mb_send_wait' i value timeout RT_UNINTERRUPTIBLE s"

definition rt_mb_send_wait_interruptible :: "nat \<Rightarrow> u64 \<Rightarrow> int \<Rightarrow> kst \<Rightarrow> (rt_err wres \<times> kst) option" where
  "rt_mb_send_wait_interruptible i value timeout s = rt_mb_send_wait' i value timeout RT_INTERRUPTIBLE s"

definition rt_mb_send_wait_killable :: "nat \<Rightarrow> u64 \<Rightarrow> int \<Rightarrow> kst \<Rightarrow> (rt_err wres \<times> kst) option" where
  "rt_mb_send_wait_killable i value timeout s = rt_mb_send_wait' i value timeout RT_KILLABLE s"

definition rt_mb_send :: "nat \<Rightarrow> u64 \<Rightarrow> kst \<Rightarrow> (rt_err wres \<times> kst) option" where
  "rt_mb_send i value s = rt_mb_send_wait i value 0 s"

definition rt_mb_send_interruptible :: "nat \<Rightarrow> u64 \<Rightarrow> kst \<Rightarrow> (rt_err wres \<times> kst) option" where
  "rt_mb_send_interruptible i value s = rt_mb_send_wait_interruptible i value 0 s"

definition rt_mb_send_killable :: "nat \<Rightarrow> u64 \<Rightarrow> kst \<Rightarrow> (rt_err wres \<times> kst) option" where
  "rt_mb_send_killable i value s = rt_mb_send_wait_killable i value 0 s"

definition rt_mb_urgent :: "nat \<Rightarrow> u64 \<Rightarrow> kst \<Rightarrow> (rt_err \<times> kst) option" where
  "rt_mb_urgent i value s =
     do { rt_assert (rt_object_get_type (mb_type (mb_of s i)) = RT_Object_Class_MailBox);
          if mb_entry (mb_of s i) = mb_size (mb_of s i) then Some (- RT_EFULL, s)
          else
            do { let s = upd_mb i (mb_push value) s;
                 rt_assert (unat (mb_out (mb_of s i)) < length (mb_pool (mb_of s i)));
                 s \<leftarrow> wake_first (Mb_q i) s;
                 Some (RT_EOK, s) } }"

subsection \<open>Receive\<close>

text \<open>Taking the first word; the result carries the word written to the caller.\<close>

definition mb_get :: "rt_mailbox \<Rightarrow> u64 \<times> rt_mailbox" where
  "mb_get x = (mb_pool x ! unat (mb_out x),
     x\<lparr>mb_out := ring_next (mb_size x) (mb_out x),
       mb_entry := (if 0 < mb_entry x then mb_entry x - 1 else mb_entry x)\<rparr>)"

definition mb_recv_finish :: "nat \<Rightarrow> kst \<Rightarrow> ((rt_err \<times> u64 option) \<times> kst) option" where
  "mb_recv_finish i s =
     do { rt_assert (unat (mb_out (mb_of s i)) < length (mb_pool (mb_of s i)));
          let (value, x) = mb_get (mb_of s i);
          s \<leftarrow> wake_first (Mb_sender_q i) (upd_mb i (\<lambda>_. x) s);
          Some ((RT_EOK, Some value), s) }"

partial_function (option) mb_recv_loop ::
  "nat \<Rightarrow> int \<Rightarrow> int \<Rightarrow> kst \<Rightarrow> ((rt_err \<times> u64 option) wres \<times> kst) option" where
  "mb_recv_loop i timeout suspend_flag s =
     (if mb_entry (mb_of s i) = 0 then
        do { t \<leftarrow> rt_thread_self s;
             let s = upd_thread t (\<lambda>x. x\<lparr>error := - RT_EINTR\<rparr>) s;
             if timeout = 0 then
               Some (Ret (- RT_ETIMEOUT, None), upd_thread t (\<lambda>x. x\<lparr>error := - RT_ETIMEOUT\<rparr>) s)
             else
               do { (r, s) \<leftarrow> sleep_on t (Mb_q i) (mb_flag (mb_of s i)) timeout suspend_flag s;
                    case r of
                      Refused ret \<Rightarrow> Some (Ret (ret, None), s)
                    | Asleep \<Rightarrow> Some (Wait, s)
                    | Awake before \<Rightarrow>
                        if error (threads s t) \<noteq> RT_EOK then Some (Ret (error (threads s t), None), s)
                        else mb_recv_loop i (timeout_left timeout before (rt_tick_get (tm s))) suspend_flag s } }
      else do { (r, s) \<leftarrow> mb_recv_finish i s; Some (Ret r, s) })"

definition mb_recv_resume ::
  "nat \<Rightarrow> int \<Rightarrow> int \<Rightarrow> tid \<Rightarrow> u32 \<Rightarrow> kst \<Rightarrow> ((rt_err \<times> u64 option) wres \<times> kst) option" where
  "mb_recv_resume i timeout suspend_flag t before s =
     (if error (threads s t) \<noteq> RT_EOK then Some (Ret (error (threads s t), None), s)
      else mb_recv_loop i (timeout_left timeout before (rt_tick_get (tm s))) suspend_flag s)"

definition rt_mb_recv' :: "nat \<Rightarrow> int \<Rightarrow> int \<Rightarrow> kst \<Rightarrow> ((rt_err \<times> u64 option) wres \<times> kst) option" where
  "rt_mb_recv' i timeout suspend_flag s =
     do { rt_assert (rt_object_get_type (mb_type (mb_of s i)) = RT_Object_Class_MailBox);
          debug_scheduler_available (timeout \<noteq> 0) s;
          if mb_entry (mb_of s i) = 0 \<and> timeout = 0 then Some (Ret (- RT_ETIMEOUT, None), s)
          else mb_recv_loop i timeout suspend_flag s }"

definition rt_mb_recv :: "nat \<Rightarrow> int \<Rightarrow> kst \<Rightarrow> ((rt_err \<times> u64 option) wres \<times> kst) option" where
  "rt_mb_recv i timeout s = rt_mb_recv' i timeout RT_UNINTERRUPTIBLE s"

definition rt_mb_recv_interruptible :: "nat \<Rightarrow> int \<Rightarrow> kst \<Rightarrow> ((rt_err \<times> u64 option) wres \<times> kst) option" where
  "rt_mb_recv_interruptible i timeout s = rt_mb_recv' i timeout RT_INTERRUPTIBLE s"

definition rt_mb_recv_killable :: "nat \<Rightarrow> int \<Rightarrow> kst \<Rightarrow> ((rt_err \<times> u64 option) wres \<times> kst) option" where
  "rt_mb_recv_killable i timeout s = rt_mb_recv' i timeout RT_KILLABLE s"

definition rt_mb_control :: "nat \<Rightarrow> int \<Rightarrow> kst \<Rightarrow> (rt_err \<times> kst) option" where
  "rt_mb_control i cmd s =
     do { rt_assert (rt_object_get_type (mb_type (mb_of s i)) = RT_Object_Class_MailBox);
          if cmd = RT_IPC_CMD_RESET then
            do { s \<leftarrow> mb_wake_all i s;
                 let s = upd_mb i (\<lambda>x. x\<lparr>mb_entry := 0, mb_in := 0, mb_out := 0\<rparr>) s;
                 s \<leftarrow> rt_schedule s;
                 Some (RT_EOK, s) }
          else Some (- RT_ERROR, s) }"

subsection \<open>The stored words as a queue\<close>

definition mb_ring :: "rt_mailbox \<Rightarrow> bool" where
  "mb_ring x \<longleftrightarrow> unat (mb_size x) \<le> length (mb_pool x) \<and> mb_entry x \<le> mb_size x \<and>
     (0 < mb_size x \<longrightarrow> mb_in x < mb_size x \<and> mb_out x < mb_size x \<and>
        unat (mb_in x) = (unat (mb_out x) + unat (mb_entry x)) mod unat (mb_size x))"

definition mb_queue :: "rt_mailbox \<Rightarrow> u64 list" where
  "mb_queue x = ring_abs (mb_pool x) (unat (mb_out x)) (unat (mb_entry x)) (unat (mb_size x))"

lemma mb_queue_length [simp]: "length (mb_queue x) = unat (mb_entry x)"
  by (simp add: mb_queue_def)

lemma mb_put_law:
  assumes "mb_ring x" "mb_entry x < mb_size x"
  shows "mb_ring (mb_put v x) \<and> mb_queue (mb_put v x) = mb_queue x @ [v] \<and> mb_size (mb_put v x) = mb_size x"
proof -
  have sz: "0 < mb_size x" by (rule le_less_trans [OF word_zero_le assms(2)])
  have e: "unat (mb_entry x + 1) = Suc (unat (mb_entry x))" using unat_plus1 [OF assms(2)] by simp
  have lt: "unat (mb_entry x) < unat (mb_size x)" using assms(2) by (simp add: word_less_nat_alt)
  have i: "unat (mb_in x) = (unat (mb_out x) + unat (mb_entry x)) mod unat (mb_size x)" "mb_in x < mb_size x"
      "mb_out x < mb_size x" "unat (mb_size x) \<le> length (mb_pool x)"
    using assms(1) sz by (auto simp: mb_ring_def)
  have "mb_queue (mb_put v x) = mb_queue x @ [v]"
    using ring_put [OF lt i(4), of "unat (mb_out x)" v] by (simp add: mb_queue_def mb_put_def e i(1))
  moreover have "mb_ring (mb_put v x)"
    using i e lt ring_next_less [OF i(2)]
    by (auto simp: mb_ring_def mb_put_def unat_ring_next [OF i(2)] word_le_nat_alt mod_Suc_eq)
  ultimately show ?thesis by (simp add: mb_put_def)
qed

lemma mb_get_law:
  assumes "mb_ring x" "mb_entry x \<noteq> 0"
  shows "mb_ring (snd (mb_get x)) \<and> mb_queue x = fst (mb_get x) # mb_queue (snd (mb_get x)) \<and>
    mb_size (snd (mb_get x)) = mb_size x"
proof -
  have e: "unat (mb_entry x) = Suc (unat (mb_entry x - 1))" "0 < mb_entry x"
    using assms(2) unat_minus1 [OF assms(2)] by (simp_all add: unat_gt_0 word_gt_0)
  have sz: "0 < mb_size x" using e(2) assms(1) by (auto simp: mb_ring_def)
  have i: "unat (mb_in x) = (unat (mb_out x) + unat (mb_entry x)) mod unat (mb_size x)" "mb_in x < mb_size x"
      "mb_out x < mb_size x" "unat (mb_size x) \<le> length (mb_pool x)" "mb_entry x \<le> mb_size x"
    using assms(1) sz by (auto simp: mb_ring_def)
  have out: "unat (mb_out x) < unat (mb_size x)" using i(3) by (simp add: word_less_nat_alt)
  have "mb_queue x = fst (mb_get x) # mb_queue (snd (mb_get x))"
    using ring_get [OF out, of "mb_pool x" "unat (mb_entry x - 1)"] e
    by (simp add: mb_queue_def mb_get_def unat_ring_next [OF i(3)])
  moreover have "mb_ring (snd (mb_get x))"
    using i e ring_next_less [OF i(3)]
    by (auto simp: mb_ring_def mb_get_def unat_ring_next [OF i(3)] word_le_nat_alt mod_simps)
  ultimately show ?thesis by (simp add: mb_get_def)
qed

text \<open>An urgent word goes to the front.\<close>

lemma mb_push_law:
  assumes "mb_ring x" "mb_entry x < mb_size x"
  shows "mb_ring (mb_push v x) \<and> mb_queue (mb_push v x) = v # mb_queue x \<and> mb_size (mb_push v x) = mb_size x \<and>
    unat (mb_out (mb_push v x)) < length (mb_pool x)"
proof -
  have e: "unat (mb_entry x + 1) = Suc (unat (mb_entry x))" using unat_plus1 [OF assms(2)] by simp
  have lt: "unat (mb_entry x) < unat (mb_size x)" using assms(2) by (simp add: word_less_nat_alt)
  have sz: "0 < mb_size x" by (rule le_less_trans [OF word_zero_le assms(2)])
  have i: "unat (mb_in x) = (unat (mb_out x) + unat (mb_entry x)) mod unat (mb_size x)" "mb_in x < mb_size x"
      "mb_out x < mb_size x" "unat (mb_size x) \<le> length (mb_pool x)"
    using assms(1) sz by (auto simp: mb_ring_def)
  define p where "p = (if 0 < mb_out x then mb_out x - 1 else mb_size x - 1)"
  have push: "mb_push v x = x\<lparr>mb_out := p, mb_pool := (mb_pool x)[unat p := v], mb_entry := mb_entry x + 1\<rparr>"
    by (simp add: mb_push_def p_def Let_def)
  have up: "unat p = (if unat (mb_out x) = 0 then unat (mb_size x) - 1 else unat (mb_out x) - 1)"
    using sz by (auto simp: p_def word_gt_0 unat_minus1 unat_eq_zero)
  have out: "unat (mb_out x) < unat (mb_size x)" using i(3) by (simp add: word_less_nat_alt)
  then have p: "unat p < unat (mb_size x)" using up by auto
  have "mb_queue (mb_push v x) = v # mb_queue x"
    using ring_push_front [OF lt i(4) out up, of v] by (simp add: mb_queue_def push e)
  moreover have "(unat p + Suc (unat (mb_entry x))) mod unat (mb_size x) =
      (unat (mb_out x) + unat (mb_entry x)) mod unat (mb_size x)"
    using out by (auto simp: up)
  then have "mb_ring (mb_push v x)"
    using i e lt p by (auto simp: mb_ring_def push word_le_nat_alt word_less_nat_alt)
  ultimately show ?thesis using p i(4) by (simp add: push)
qed

interpretation mbf: bounded_fifo mb_ring mb_queue "\<lambda>x. unat (mb_size x)" "\<lambda>_ _. True" mb_put mb_get
proof
  show "mb_ring (mb_put v q) \<and> mb_queue (mb_put v q) = mb_queue q @ [v] \<and> unat (mb_size (mb_put v q)) = unat (mb_size q)"
    if "mb_ring q" "length (mb_queue q) < unat (mb_size q)" for q v
    using mb_put_law [OF that(1)] that(2) by (simp add: word_less_nat_alt)
  show "mb_ring (snd (mb_get q)) \<and> mb_queue q = fst (mb_get q) # mb_queue (snd (mb_get q)) \<and>
      unat (mb_size (snd (mb_get q))) = unat (mb_size q)" if "mb_ring q" "mb_queue q \<noteq> []" for q
    using mb_get_law [OF that(1)] that(2) mb_queue_length [of q] by (metis length_0_conv unat_0)
qed

subsection \<open>The invariant of the mailboxes\<close>

definition mb_ok :: "rt_mailbox \<Rightarrow> tid list \<Rightarrow> tid list \<Rightarrow> bool" where
  "mb_ok x ws ss \<longleftrightarrow>
     (ws \<noteq> [] \<or> ss \<noteq> [] \<longrightarrow> rt_object_get_type (mb_type x) = RT_Object_Class_MailBox) \<and>
     (rt_object_get_type (mb_type x) = RT_Object_Class_MailBox \<longrightarrow>
        (mb_flag x = 0 \<or> mb_flag x = 1) \<and> mb_ring x)"

definition mb_inv :: "kst \<Rightarrow> bool" where
  "mb_inv s \<longleftrightarrow> (\<forall>i. mb_ok (mb_of s i) (tls s (Susp (Mb_q i))) (tls s (Susp (Mb_sender_q i))))"

definition is_mb_q :: "ipcref \<Rightarrow> bool" where
  "is_mb_q q \<longleftrightarrow> (\<exists>i. q = Mb_q i \<or> q = Mb_sender_q i)"

lemma mb_invD: "mb_inv s \<Longrightarrow> mb_ok (mb_of s i) (tls s (Susp (Mb_q i))) (tls s (Susp (Mb_sender_q i)))"
  by (simp add: mb_inv_def)

interpretation mbc: object_class is_mb_q mbs mb_inv
proof
  fix s s'
  assume *: "mb_inv s" "mbs (ipc s') = mbs (ipc s)" "shrunk is_mb_q s s'"
  have "tls s (Susp (Mb_q i)) = [] \<Longrightarrow> tls s' (Susp (Mb_q i)) = []"
    "tls s (Susp (Mb_sender_q i)) = [] \<Longrightarrow> tls s' (Susp (Mb_sender_q i)) = []" for i
    using shrunkD(3) [OF *(3)] by (auto simp: is_mb_q_def)
  then show "mb_inv s'" using *(1,2) unfolding mb_inv_def mb_ok_def by metis
qed

lemma upd_mb_simps [simp]:
  "threads (upd_mb i f s) = threads s" "tls (upd_mb i f s) = tls s" "tm (upd_mb i f s) = tm s"
  "ready_group (upd_mb i f s) = ready_group s"
  "current (upd_mb i f s) = current s" "lock_nest (upd_mb i f s) = lock_nest s"
  "irq_nest (upd_mb i f s) = irq_nest s"
  "mbs (ipc (upd_mb i f s)) j = (if j = i then f (mb_of s i) else mb_of s j)"
  "kinv_but X (upd_mb i f s) = kinv_but X s" "shrunk own s' (upd_mb i f s) = shrunk own s' s"
  by (simp_all add: upd_mb_def)

definition kmb_inv :: "kst \<Rightarrow> bool" where
  "kmb_inv s \<longleftrightarrow> kinv s \<and> mb_inv s"

lemma kmb_invD:
  assumes "kmb_inv s" "rt_object_get_type (mb_type (mb_of s i)) = RT_Object_Class_MailBox"
  shows "mb_ring (mb_of s i)" "mb_flag (mb_of s i) = 0 \<or> mb_flag (mb_of s i) = 1"
  using assms mb_invD [of s i] by (auto simp: kmb_inv_def mb_ok_def)

text \<open>A change of the ring, and a change of the whole object with no thread waiting.\<close>

lemma kmb_upd_ring:
  assumes "kmb_inv s" "mb_type (f (mb_of s i)) = mb_type (mb_of s i)" "mb_flag (f (mb_of s i)) = mb_flag (mb_of s i)"
    "rt_object_get_type (mb_type (mb_of s i)) = RT_Object_Class_MailBox \<Longrightarrow> mb_ring (f (mb_of s i))"
  shows "kmb_inv (upd_mb i f s)"
proof -
  have "mb_ok (f (mb_of s i)) (tls s (Susp (Mb_q i))) (tls s (Susp (Mb_sender_q i)))"
    using assms mb_invD [of s i] unfolding kmb_inv_def mb_ok_def by metis
  then show ?thesis using assms(1) by (simp add: kmb_inv_def mb_inv_def)
qed

lemma kmb_upd_empty:
  assumes "kmb_inv s" "tls s (Susp (Mb_q i)) = []" "tls s (Susp (Mb_sender_q i)) = []"
    "mb_ok (f (mb_of s i)) [] []"
  shows "kmb_inv (upd_mb i f s)"
  using assms by (simp add: kmb_inv_def mb_inv_def)

lemma kmb_schedule: "rt_schedule s = Some s' \<Longrightarrow> kmb_inv s \<Longrightarrow> kmb_inv s'"
  by (auto simp: kmb_inv_def intro: kinv_schedule mbc.ok_schedule)

lemma kmb_exit_critical: "rt_exit_critical s = Some s' \<Longrightarrow> kmb_inv s \<Longrightarrow> kmb_inv s'"
  by (auto simp: kmb_inv_def intro: kinv_exit_critical mbc.ok_exit_critical)

lemma kmb_wake_first: "wake_first q s = Some s' \<Longrightarrow> kmb_inv s \<Longrightarrow> kmb_inv s'"
  using wake_first_result [of q s s'] mbc.keep [of s s'] by (auto simp: kmb_inv_def)

lemma kmb_wake_all:
  assumes "kmb_inv s"
  shows "\<exists>s'. mb_wake_all i s = Some s' \<and> kmb_inv s' \<and> ipc s' = ipc s \<and>
    tls s' (Susp (Mb_q i)) = [] \<and> tls s' (Susp (Mb_sender_q i)) = []"
proof -
  obtain s1 where s1: "rt_susp_list_resume_all (Mb_q i) RT_ERROR s = Some s1" "kinv s1" "mb_inv s1"
      "ipc s1 = ipc s" "tls s1 (Susp (Mb_q i)) = []"
    using mbc.ok_resume_all [of s "Mb_q i" 1] assms by (auto simp: kmb_inv_def)
  obtain s2 where s2: "rt_susp_list_resume_all (Mb_sender_q i) RT_ERROR s1 = Some s2" "kinv s2" "mb_inv s2"
      "ipc s2 = ipc s1" "tls s2 (Susp (Mb_sender_q i)) = []" "woken (set (tls s1 (Susp (Mb_sender_q i)))) s1 s2"
    using mbc.ok_resume_all [OF s1(2,3), of "Mb_sender_q i" 1] by blast
  have "tls s2 (Susp (Mb_q i)) = []" using s1(5) s2(6) by (simp add: woken_def)
  then show ?thesis using s1 s2 by (simp add: mb_wake_all_def kmb_inv_def)
qed

lemma mb_ring_reset: "unat (mb_size x) \<le> length (mb_pool x) \<Longrightarrow> mb_entry x = 0 \<Longrightarrow> mb_in x = 0 \<Longrightarrow> mb_out x = 0 \<Longrightarrow>
  mb_ring x"
  by (simp add: mb_ring_def)

lemma kmb_setup:
  assumes "kmb_inv s" "tls s (Susp (Mb_q i)) = []" "tls s (Susp (Mb_sender_q i)) = []"
    "fl = 0 \<or> fl = 1" "unat sz \<le> length pool"
  shows "kmb_inv (mb_setup i ty fl pool sz s)"
proof -
  have "ls_init (ls_init (tls s) (Susp (Mb_q i))) (Susp (Mb_sender_q i)) = tls s"
    using assms(2,3) by (simp add: ls_init_def fun_upd_idem)
  then show ?thesis
    using assms by (auto simp: mb_setup_def mb_ok_def intro!: kmb_upd_empty mb_ring_reset)
qed

lemma kmb_init:
  assumes "rt_mb_init i pool sz fl s = Some (e, s')" "kmb_inv s" "unat (ucast sz :: u16) \<le> length pool"
  shows "kmb_inv s'"
proof -
  have "tls s (Susp (Mb_q i)) = []" "tls s (Susp (Mb_sender_q i)) = []"
    using assms mb_invD [of s i]
    by (auto simp: rt_mb_init_def object_init_def bind_Some kmb_inv_def mb_ok_def split: if_splits)
  then show ?thesis
    using assms kmb_setup [OF assms(2)] by (auto simp: rt_mb_init_def bind_Some split: if_splits)
qed

lemma kmb_detach: "rt_mb_detach i s = Some (e, s') \<Longrightarrow> kmb_inv s \<Longrightarrow> kmb_inv s'"
  using kmb_wake_all [of s i]
  by (auto simp: rt_mb_detach_def bind_Some mb_ok_def intro!: kmb_upd_empty split: if_splits)

lemma kmb_delete:
  assumes "rt_mb_delete i s = Some (e, s')" "kmb_inv s"
  shows "kmb_inv s'"
proof -
  let ?s = "snd (rt_enter_critical s)"
  have "kmb_inv ?s" using assms(2) by (simp add: kmb_inv_def rt_enter_critical_def mbc.ok_lock_nest)
  then obtain s1 where s1: "mb_wake_all i ?s = Some s1" "kmb_inv s1"
      "tls s1 (Susp (Mb_q i)) = []" "tls s1 (Susp (Mb_sender_q i)) = []"
    using kmb_wake_all by blast
  then obtain s2 where s2: "rt_exit_critical s1 = Some s2"
      "s' = upd_mb i (\<lambda>x. x\<lparr>mb_pool := [], mb_type := object_detach (mb_type x)\<rparr>) s2"
    using assms(1) by (auto simp: rt_mb_delete_def bind_Some split: if_splits)
  have k1: "kinv s1" using s1(2) by (simp add: kmb_inv_def)
  show ?thesis
    unfolding s2(2) using kmb_exit_critical [OF s2(1) s1(2)] exit_critical_frame(3) [OF s2(1) k1] s1(3,4)
    by (intro kmb_upd_empty) (auto simp: mb_ok_def)
qed

lemma kmb_control:
  assumes "rt_mb_control i cmd s = Some (e, s')" "kmb_inv s"
  shows "kmb_inv s'"
proof -
  obtain s1 where s1: "mb_wake_all i s = Some s1" "kmb_inv s1" using kmb_wake_all [OF assms(2)] by blast
  have "kmb_inv (upd_mb i (\<lambda>x. x\<lparr>mb_entry := 0, mb_in := 0, mb_out := 0\<rparr>) s1)"
    using s1(2) kmb_invD(1) [OF s1(2), of i] by (intro kmb_upd_ring) (simp_all add: mb_ring_def)
  then show ?thesis
    using assms s1(1) kmb_schedule by (auto simp: rt_mb_control_def bind_Some split: if_splits)
qed

subsection \<open>Sending and receiving\<close>

lemma mb_room:
  assumes "mb_ring x" "mb_entry x \<noteq> mb_size x"
  shows "mb_entry x < mb_size x" "mb_entry x < RT_MB_ENTRY_MAX" "unat (mb_in x) < length (mb_pool x)"
proof -
  show *: "mb_entry x < mb_size x" using assms by (auto simp: mb_ring_def intro: le_neq_trans)
  then have "0 < mb_size x" by (rule le_less_trans [OF word_zero_le])
  then show "unat (mb_in x) < length (mb_pool x)"
    using assms(1) by (auto simp: mb_ring_def word_less_nat_alt)
  have "mb_size x \<le> 0xffff" by (rule u16_le_max)
  with * show "mb_entry x < RT_MB_ENTRY_MAX" by simp
qed

lemma mb_send_cases:
  assumes run: "rt_mb_send_wait' i v timeout sf s = Some (r, s')" and inv: "kmb_inv s"
  obtains (sent) "mb_entry (mb_of s i) < mb_size (mb_of s i)" "r = Ret RT_EOK"
      "wake_first (Mb_q i) (upd_mb i (mb_put v) s) = Some s'"
  | (full) "mb_entry (mb_of s i) = mb_size (mb_of s i)" "timeout = 0" "r = Ret (- RT_EFULL)" "s' = s"
  | (refused) t e where "mb_entry (mb_of s i) = mb_size (mb_of s i)" "e \<noteq> 0" "r = Ret e"
      "s' = upd_thread t (\<lambda>x. x\<lparr>error := - RT_EINTR\<rparr>) s"
  | (slept) t where "mb_entry (mb_of s i) = mb_size (mb_of s i)" "timeout \<noteq> 0" "current s = Some t"
      "r = Wait \<or> r = Ret (- RT_EINTR)" "kinv s'" "th_stat (threads s t) = RT_THREAD_RUNNING"
      "blocked t (Mb_sender_q i) (uint (mb_flag (mb_of s i))) timeout
         (upd_thread t (\<lambda>x. x\<lparr>error := - RT_EINTR\<rparr>) s) s'"
proof (cases "mb_entry (mb_of s i) = mb_size (mb_of s i)")
  case False
  have ty: "rt_object_get_type (mb_type (mb_of s i)) = RT_Object_Class_MailBox"
    using run by (simp add: rt_mb_send_wait'_def split: if_splits)
  note room = mb_room [OF kmb_invD(1) [OF inv ty] False]
  have "mb_send_loop i v timeout sf s = Some (r, s')"
    using run False by (auto simp: rt_mb_send_wait'_def bind_Some split: if_splits)
  then show thesis
    using False room sent
    by (auto simp: mb_send_loop.simps [of i v timeout sf s] mb_send_finish_def bind_Some)
next
  case True
  show thesis
  proof (cases "timeout = 0")
    case zero: True
    then show thesis using run True full by (auto simp: rt_mb_send_wait'_def bind_Some split: if_splits)
  next
    case False
    then obtain t where t: "current s = Some t" and loop: "mb_send_loop i v timeout sf s = Some (r, s')"
      using run True by (auto simp: rt_mb_send_wait'_def bind_Some mb_send_loop.simps [of i v timeout sf s]
          rt_thread_self_def split: if_splits)
    let ?s = "upd_thread t (\<lambda>x. x\<lparr>error := - RT_EINTR\<rparr>) s"
    have k: "kinv ?s" using inv by (simp add: kmb_inv_def kinv_set_error)
    obtain z s1 where z: "sleep_on t (Mb_sender_q i) (mb_flag (mb_of s i)) timeout sf ?s = Some (z, s1)"
      and rest: "(case z of Refused ret \<Rightarrow> Some (Ret ret, s1) | Asleep \<Rightarrow> Some (Wait, s1)
          | Awake before \<Rightarrow> if error (threads s1 t) \<noteq> RT_EOK then Some (Ret (error (threads s1 t)), s1)
              else mb_send_loop i v (timeout_left timeout before (rt_tick_get (tm s1))) sf s1) = Some (r, s')"
      using loop True False t
      by (auto simp: mb_send_loop.simps [of i v timeout sf s] rt_thread_self_def bind_Some Let_def)
    have "current ?s = Some t" using t by simp
    with z k show thesis
    proof (cases rule: sleep_on_cases)
      case (refused e)
      then show thesis using that(3) [of e t] True rest by simp
    next
      case slept
      have "error (threads s1 t) = - RT_EINTR" using slept(3) by (simp add: blocked_def)
      then have "s' = s1" "r = Wait \<or> r = Ret (- RT_EINTR)" using rest slept(1) by (auto split: if_splits)
      then show thesis using that(4) [of t] True False t slept by (simp add: th_stat_def)
    qed
  qed
qed

lemma blocked_mb_inv:
  assumes "blocked t q fl timeout s s'" "mb_inv s" "q = Mb_q i \<or> q = Mb_sender_q i"
    "rt_object_get_type (mb_type (mb_of s i)) = RT_Object_Class_MailBox"
  shows "mb_inv s'"
  unfolding mb_inv_def
proof
  fix j
  show "mb_ok (mb_of s' j) (tls s' (Susp (Mb_q j))) (tls s' (Susp (Mb_sender_q j)))"
    using assms mb_invD [of s j] by (cases "j = i") (auto simp: mb_ok_def blocked_def split: if_splits)
qed

lemma kmb_set_error: "kmb_inv s \<Longrightarrow> kmb_inv (upd_thread t (\<lambda>x. x\<lparr>error := e\<rparr>) s)"
  by (simp add: kmb_inv_def kinv_set_error mbc.ok_set_error)

lemma kmb_send:
  assumes run: "rt_mb_send_wait' i v timeout sf s = Some (r, s')" and inv: "kmb_inv s"
  shows "kmb_inv s'"
proof -
  have ty: "rt_object_get_type (mb_type (mb_of s i)) = RT_Object_Class_MailBox"
    using run by (simp add: rt_mb_send_wait'_def split: if_splits)
  from run inv show ?thesis
  proof (cases rule: mb_send_cases)
    case sent
    have "kmb_inv (upd_mb i (mb_put v) s)"
      using inv mb_put_law [OF kmb_invD(1) [OF inv ty] sent(1), of v]
      by (intro kmb_upd_ring) (simp_all add: mb_put_def)
    then show ?thesis using kmb_wake_first [OF sent(3)] by simp
  next
    case (slept t)
    then show ?thesis
      using blocked_mb_inv [OF slept(7), of i] kmb_set_error [OF inv, of t "- RT_EINTR"] ty
      by (simp add: kmb_inv_def)
  qed (use inv kmb_set_error in auto)
qed

text \<open>A word sent is appended to the stored words, and the first waiting receiver is woken.\<close>

lemma mb_send_refines:
  assumes "rt_mb_send_wait' i v timeout sf s = Some (r, s')" "kmb_inv s"
  shows "mb_queue (mb_of s' i) =
      (if r = Ret RT_EOK then mb_queue (mb_of s i) @ [v] else mb_queue (mb_of s i))"
    "r = Ret RT_EOK \<longleftrightarrow> mb_entry (mb_of s i) < mb_size (mb_of s i)"
    "r = Ret RT_EOK \<Longrightarrow> tls s (Susp (Mb_q i)) = t # ts \<Longrightarrow>
       runnable (threads s' t) \<and> error (threads s' t) = RT_EOK \<and> tls s' (Susp (Mb_q i)) = ts"
proof -
  have ty: "rt_object_get_type (mb_type (mb_of s i)) = RT_Object_Class_MailBox"
    using assms(1) by (simp add: rt_mb_send_wait'_def split: if_splits)
  have "mb_queue (mb_of s' i) = (if r = Ret RT_EOK then mb_queue (mb_of s i) @ [v] else mb_queue (mb_of s i)) \<and>
    (r = Ret RT_EOK \<longleftrightarrow> mb_entry (mb_of s i) < mb_size (mb_of s i)) \<and>
    (r = Ret RT_EOK \<longrightarrow> tls s (Susp (Mb_q i)) = t # ts \<longrightarrow>
       runnable (threads s' t) \<and> error (threads s' t) = RT_EOK \<and> tls s' (Susp (Mb_q i)) = ts)"
    using assms
  proof (cases rule: mb_send_cases)
    case sent
    have k: "kinv (upd_mb i (mb_put v) s)" using assms(2) by (simp add: kmb_inv_def)
    show ?thesis
      using sent wake_first_result(2,4,5) [OF sent(3) k] mb_put_law [OF kmb_invD(1) [OF assms(2) ty] sent(1), of v]
      by auto
  next
    case (slept u)
    then show ?thesis by (auto simp: blocked_def)
  qed auto
  then show "mb_queue (mb_of s' i) =
      (if r = Ret RT_EOK then mb_queue (mb_of s i) @ [v] else mb_queue (mb_of s i))"
    "r = Ret RT_EOK \<longleftrightarrow> mb_entry (mb_of s i) < mb_size (mb_of s i)"
    "r = Ret RT_EOK \<Longrightarrow> tls s (Susp (Mb_q i)) = t # ts \<Longrightarrow>
       runnable (threads s' t) \<and> error (threads s' t) = RT_EOK \<and> tls s' (Susp (Mb_q i)) = ts" by blast+
qed

lemma mb_recv_cases:
  assumes run: "rt_mb_recv' i timeout sf s = Some (r, s')" and inv: "kmb_inv s"
  obtains (got) "mb_entry (mb_of s i) \<noteq> 0" "r = Ret (RT_EOK, Some (fst (mb_get (mb_of s i))))"
      "wake_first (Mb_sender_q i) (upd_mb i (\<lambda>_. snd (mb_get (mb_of s i))) s) = Some s'"
  | (empty) "mb_entry (mb_of s i) = 0" "timeout = 0" "r = Ret (- RT_ETIMEOUT, None)" "s' = s"
  | (refused) t e where "mb_entry (mb_of s i) = 0" "e \<noteq> 0" "r = Ret (e, None)"
      "s' = upd_thread t (\<lambda>x. x\<lparr>error := - RT_EINTR\<rparr>) s"
  | (slept) t where "mb_entry (mb_of s i) = 0" "timeout \<noteq> 0" "current s = Some t"
      "r = Wait \<or> r = Ret (- RT_EINTR, None)" "kinv s'" "th_stat (threads s t) = RT_THREAD_RUNNING"
      "blocked t (Mb_q i) (uint (mb_flag (mb_of s i))) timeout
         (upd_thread t (\<lambda>x. x\<lparr>error := - RT_EINTR\<rparr>) s) s'"
proof (cases "mb_entry (mb_of s i) = 0")
  case False
  have "mb_recv_loop i timeout sf s = Some (r, s')"
    using run False by (auto simp: rt_mb_recv'_def bind_Some split: if_splits)
  then show thesis
    using False got
    by (auto simp: mb_recv_loop.simps [of i timeout sf s] mb_recv_finish_def bind_Some
        split: prod.splits if_splits)
next
  case True
  show thesis
  proof (cases "timeout = 0")
    case zero: True
    then show thesis using run True empty by (auto simp: rt_mb_recv'_def bind_Some split: if_splits)
  next
    case False
    then obtain t where t: "current s = Some t" and loop: "mb_recv_loop i timeout sf s = Some (r, s')"
      using run True by (auto simp: rt_mb_recv'_def bind_Some mb_recv_loop.simps [of i timeout sf s]
          rt_thread_self_def split: if_splits)
    let ?s = "upd_thread t (\<lambda>x. x\<lparr>error := - RT_EINTR\<rparr>) s"
    have k: "kinv ?s" "current ?s = Some t" using inv t by (simp_all add: kmb_inv_def kinv_set_error)
    obtain z s1 where z: "sleep_on t (Mb_q i) (mb_flag (mb_of s i)) timeout sf ?s = Some (z, s1)"
      and rest: "(case z of Refused ret \<Rightarrow> Some (Ret (ret, None), s1) | Asleep \<Rightarrow> Some (Wait, s1)
          | Awake before \<Rightarrow> if error (threads s1 t) \<noteq> RT_EOK then Some (Ret (error (threads s1 t), None), s1)
              else mb_recv_loop i (timeout_left timeout before (rt_tick_get (tm s1))) sf s1) = Some (r, s')"
      using loop True False t
      by (auto simp: mb_recv_loop.simps [of i timeout sf s] rt_thread_self_def bind_Some Let_def)
    from z k show thesis
    proof (cases rule: sleep_on_cases)
      case (refused e)
      then show thesis using that(3) [of e t] True rest by simp
    next
      case slept
      have "error (threads s1 t) = - RT_EINTR" using slept(3) by (simp add: blocked_def)
      then have "s' = s1" "r = Wait \<or> r = Ret (- RT_EINTR, None)" using rest slept(1) by (auto split: if_splits)
      then show thesis using that(4) [of t] True False t slept by (simp add: th_stat_def)
    qed
  qed
qed

lemma kmb_recv:
  assumes run: "rt_mb_recv' i timeout sf s = Some (r, s')" and inv: "kmb_inv s"
  shows "kmb_inv s'"
proof -
  have ty: "rt_object_get_type (mb_type (mb_of s i)) = RT_Object_Class_MailBox"
    using run by (simp add: rt_mb_recv'_def split: if_splits)
  from run inv show ?thesis
  proof (cases rule: mb_recv_cases)
    case got
    have "kmb_inv (upd_mb i (\<lambda>_. snd (mb_get (mb_of s i))) s)"
      using inv mb_get_law [OF kmb_invD(1) [OF inv ty] got(1)]
      by (intro kmb_upd_ring) (simp_all add: mb_get_def)
    then show ?thesis using kmb_wake_first [OF got(3)] by simp
  next
    case (slept t)
    then show ?thesis
      using blocked_mb_inv [OF slept(7), of i] kmb_set_error [OF inv, of t "- RT_EINTR"] ty
      by (simp add: kmb_inv_def)
  qed (use inv kmb_set_error in auto)
qed

text \<open>A receive takes the first stored word and wakes the first waiting sender.\<close>

lemma mb_recv_refines:
  assumes "rt_mb_recv' i timeout sf s = Some (r, s')" "kmb_inv s"
  shows "(case mb_queue (mb_of s i) of
        v # vs \<Rightarrow> r = Ret (RT_EOK, Some v) \<and> mb_queue (mb_of s' i) = vs
      | [] \<Rightarrow> (\<forall>v. r \<noteq> Ret (RT_EOK, v)) \<and> mb_queue (mb_of s' i) = [])"
    "mb_queue (mb_of s i) \<noteq> [] \<Longrightarrow> tls s (Susp (Mb_sender_q i)) = t # ts \<Longrightarrow>
       runnable (threads s' t) \<and> error (threads s' t) = RT_EOK \<and> tls s' (Susp (Mb_sender_q i)) = ts"
proof -
  have ty: "rt_object_get_type (mb_type (mb_of s i)) = RT_Object_Class_MailBox"
    using assms(1) by (simp add: rt_mb_recv'_def split: if_splits)
  have empty: "mb_entry (mb_of s i) = 0 \<Longrightarrow> mb_queue (mb_of s i) = []" by (simp add: mb_queue_def)
  have "(case mb_queue (mb_of s i) of
        v # vs \<Rightarrow> r = Ret (RT_EOK, Some v) \<and> mb_queue (mb_of s' i) = vs
      | [] \<Rightarrow> (\<forall>v. r \<noteq> Ret (RT_EOK, v)) \<and> mb_queue (mb_of s' i) = []) \<and>
    (mb_queue (mb_of s i) \<noteq> [] \<longrightarrow> tls s (Susp (Mb_sender_q i)) = t # ts \<longrightarrow>
       runnable (threads s' t) \<and> error (threads s' t) = RT_EOK \<and> tls s' (Susp (Mb_sender_q i)) = ts)"
    using assms
  proof (cases rule: mb_recv_cases)
    case got
    have k: "kinv (upd_mb i (\<lambda>_. snd (mb_get (mb_of s i))) s)" using assms(2) by (simp add: kmb_inv_def)
    show ?thesis
      using got wake_first_result(2,4,5) [OF got(3) k] mb_get_law [OF kmb_invD(1) [OF assms(2) ty] got(1)]
      by auto
  next
    case (slept u)
    then show ?thesis using empty by (auto simp: blocked_def)
  qed (use empty in auto)
  then show "(case mb_queue (mb_of s i) of
        v # vs \<Rightarrow> r = Ret (RT_EOK, Some v) \<and> mb_queue (mb_of s' i) = vs
      | [] \<Rightarrow> (\<forall>v. r \<noteq> Ret (RT_EOK, v)) \<and> mb_queue (mb_of s' i) = [])"
    "mb_queue (mb_of s i) \<noteq> [] \<Longrightarrow> tls s (Susp (Mb_sender_q i)) = t # ts \<Longrightarrow>
       runnable (threads s' t) \<and> error (threads s' t) = RT_EOK \<and> tls s' (Susp (Mb_sender_q i)) = ts" by blast+
qed

lemma mb_urgent_result:
  assumes "rt_mb_urgent i v s = Some (e, s')" "kmb_inv s"
  shows "kmb_inv s'" "mb_queue (mb_of s' i) = (if e = RT_EOK then v # mb_queue (mb_of s i) else mb_queue (mb_of s i))"
    "e = RT_EOK \<longleftrightarrow> mb_entry (mb_of s i) < mb_size (mb_of s i)"
proof -
  have ty: "rt_object_get_type (mb_type (mb_of s i)) = RT_Object_Class_MailBox"
    using assms(1) by (simp add: rt_mb_urgent_def split: if_splits)
  have "kmb_inv s' \<and> mb_queue (mb_of s' i) = (if e = RT_EOK then v # mb_queue (mb_of s i) else mb_queue (mb_of s i)) \<and>
    (e = RT_EOK \<longleftrightarrow> mb_entry (mb_of s i) < mb_size (mb_of s i))"
  proof (cases "mb_entry (mb_of s i) = mb_size (mb_of s i)")
    case False
    have lt: "mb_entry (mb_of s i) < mb_size (mb_of s i)" by (rule mb_room(1) [OF kmb_invD(1) [OF assms(2) ty] False])
    note law = mb_push_law [OF kmb_invD(1) [OF assms(2) ty] lt, of v]
    have w: "wake_first (Mb_q i) (upd_mb i (mb_push v) s) = Some s'" "e = RT_EOK"
      using assms(1) False by (auto simp: rt_mb_urgent_def bind_Some Let_def split: if_splits)
    have k: "kmb_inv (upd_mb i (mb_push v) s)"
      using assms(2) law by (intro kmb_upd_ring) (simp_all add: mb_push_def Let_def)
    then have "mb_of s' i = mb_push v (mb_of s i)"
      using wake_first_result(2) [OF w(1)] by (simp add: kmb_inv_def)
    then show ?thesis using kmb_wake_first [OF w(1) k] law lt w(2) by simp
  qed (use assms in \<open>auto simp: rt_mb_urgent_def split: if_splits\<close>)
  then show "kmb_inv s'" "mb_queue (mb_of s' i) = (if e = RT_EOK then v # mb_queue (mb_of s i) else mb_queue (mb_of s i))"
    "e = RT_EOK \<longleftrightarrow> mb_entry (mb_of s i) < mb_size (mb_of s i)" by blast+
qed

end
