(* ===== verification/RT_MsgQueue.thy ===== *)
theory RT_MsgQueue
  imports RT_Wait RT_Fifo
begin

text \<open>
  Message queues (\<^verbatim>\<open>src/ipc.c\<close>): blocks of a pool that are linked either on the chain of
  free blocks or on the chain of queued messages. A message is copied into its block with the
  lock released, between taking the block off the free chain and queueing it; the model has
  both halves, and a block between them is on neither chain. Blocks are numbered in the order
  of their addresses in the pool.
\<close>

abbreviation (input) RT_MQ_ENTRY_MAX :: u16 where "RT_MQ_ENTRY_MAX \<equiv> 0xffff"

abbreviation mq_of :: "kst \<Rightarrow> nat \<Rightarrow> rt_messagequeue" where
  "mq_of s i \<equiv> mqs (ipc s) i"

definition upd_mq :: "nat \<Rightarrow> (rt_messagequeue \<Rightarrow> rt_messagequeue) \<Rightarrow> kst \<Rightarrow> kst" where
  "upd_mq i f s = s\<lparr>ipc := (ipc s)\<lparr>mqs := (mqs (ipc s))(i := f (mqs (ipc s) i))\<rparr>\<rparr>"

definition set_next :: "nat \<Rightarrow> nat option \<Rightarrow> rt_messagequeue \<Rightarrow> rt_messagequeue" where
  "set_next b n x = x\<lparr>mq_pool := (mq_pool x)(b := (mq_pool x b)\<lparr>mq_next := n\<rparr>)\<rparr>"

subsection \<open>Creation and deletion\<close>

text \<open>A message header has 16 bytes.\<close>

definition mq_block_bytes :: "u64 \<Rightarrow> u64" where
  "mq_block_bytes msg_size = rt_align msg_size + 16"

text \<open>The loop that links all blocks into the free chain.\<close>

definition mq_link_free :: "nat \<Rightarrow> rt_messagequeue \<Rightarrow> rt_messagequeue" where
  "mq_link_free n x =
     fold (\<lambda>temp x. (set_next temp (mq_free x) x)\<lparr>mq_free := Some temp\<rparr>) [0..<n] (x\<lparr>mq_free := None\<rparr>)"

definition mq_setup :: "nat \<Rightarrow> kst \<Rightarrow> kst" where
  "mq_setup i s =
     (let s = upd_mq i (\<lambda>x. (mq_link_free (unat (mq_max_msgs x)) (x\<lparr>mq_head := None, mq_tail := None\<rparr>))
           \<lparr>mq_entry := 0\<rparr>) s
      in s\<lparr>tls := ls_init (tls s) (Susp (Mq_sender_q i))\<rparr>)"

definition rt_mq_init :: "nat \<Rightarrow> u64 \<Rightarrow> u64 \<Rightarrow> u8 \<Rightarrow> kst \<Rightarrow> (rt_err \<times> kst) option" where
  "rt_mq_init i msg_size pool_size flag s =
     do { rt_assert (flag = 0 \<or> flag = 1);
          ty \<leftarrow> object_init RT_Object_Class_MessageQueue (mq_type (mq_of s i));
          let s = s\<lparr>tls := ls_init (tls s) (Susp (Mq_q i))\<rparr>;
          let s = upd_mq i (\<lambda>x. x\<lparr>mq_type := ty, mq_flag := flag, mq_msg_size := ucast msg_size,
            mq_max_msgs := ucast (pool_size div mq_block_bytes msg_size)\<rparr>) s;
          if mq_max_msgs (mq_of s i) = 0 then Some (- RT_EINVAL, s)
          else Some (RT_EOK, mq_setup i s) }"

definition mq_wake_all :: "nat \<Rightarrow> kst \<Rightarrow> kst option" where
  "mq_wake_all i s =
     do { s \<leftarrow> rt_susp_list_resume_all (Mq_q i) RT_ERROR s;
          rt_susp_list_resume_all (Mq_sender_q i) RT_ERROR s }"

definition rt_mq_detach :: "nat \<Rightarrow> kst \<Rightarrow> (rt_err \<times> kst) option" where
  "rt_mq_detach i s =
     do { rt_assert (rt_object_get_type (mq_type (mq_of s i)) = RT_Object_Class_MessageQueue);
          rt_assert (rt_object_is_systemobject (mq_type (mq_of s i)));
          s \<leftarrow> mq_wake_all i s;
          Some (RT_EOK, upd_mq i (\<lambda>x. x\<lparr>mq_type := object_detach (mq_type x)\<rparr>) s) }"

text \<open>\<open>obj\<close> and \<open>mem\<close> tell whether the object and the pool could be allocated.\<close>

definition rt_mq_create :: "nat option \<Rightarrow> bool \<Rightarrow> u64 \<Rightarrow> u64 \<Rightarrow> u8 \<Rightarrow> kst \<Rightarrow> (nat option \<times> kst) option" where
  "rt_mq_create obj mem msg_size max_msgs flag s =
     do { rt_assert (flag = 0 \<or> flag = 1);
          debug_not_in_interrupt s;
          case obj of
            None \<Rightarrow> Some (None, s)
          | Some i \<Rightarrow>
              let s = s\<lparr>tls := ls_init (tls s) (Susp (Mq_q i))\<rparr>;
                  s = upd_mq i (\<lambda>x. x\<lparr>mq_type := object_allocate RT_Object_Class_MessageQueue, mq_flag := flag,
                        mq_msg_size := ucast msg_size, mq_max_msgs := ucast max_msgs\<rparr>) s
              in if mem then Some (Some i, mq_setup i s)
                 else Some (None, upd_mq i (\<lambda>x. x\<lparr>mq_type := object_detach (mq_type x)\<rparr>) s) }"

definition rt_mq_delete :: "nat \<Rightarrow> kst \<Rightarrow> (rt_err \<times> kst) option" where
  "rt_mq_delete i s =
     do { rt_assert (rt_object_get_type (mq_type (mq_of s i)) = RT_Object_Class_MessageQueue);
          rt_assert (\<not> rt_object_is_systemobject (mq_type (mq_of s i)));
          debug_not_in_interrupt s;
          let s = snd (rt_enter_critical s);
          s \<leftarrow> mq_wake_all i s;
          s \<leftarrow> rt_exit_critical s;
          Some (RT_EOK, upd_mq i (\<lambda>x. x\<lparr>mq_type := object_detach (mq_type x)\<rparr>) s) }"

subsection \<open>Send\<close>

text \<open>Taking the first free block, filling it, and queueing it at the end or at the front.\<close>

definition mq_take_free :: "rt_messagequeue \<Rightarrow> (nat \<times> rt_messagequeue) option" where
  "mq_take_free x =
     (case mq_free x of
        None \<Rightarrow> None
      | Some b \<Rightarrow> Some (b, x\<lparr>mq_free := mq_next (mq_pool x b)\<rparr>))"

definition mq_fill :: "nat \<Rightarrow> u8 list \<Rightarrow> u64 \<Rightarrow> rt_messagequeue \<Rightarrow> rt_messagequeue" where
  "mq_fill b buffer sz x =
     x\<lparr>mq_pool := (mq_pool x)(b := (mq_pool x b)\<lparr>mq_length := sz,
        mq_data := take (unat sz) buffer @ drop (unat sz) (mq_data (mq_pool x b))\<rparr>)\<rparr>"

definition mq_append :: "nat \<Rightarrow> rt_messagequeue \<Rightarrow> rt_messagequeue" where
  "mq_append b x =
     (let x = (case mq_tail x of None \<Rightarrow> x | Some l \<Rightarrow> set_next l (Some b) x);
          x = x\<lparr>mq_tail := Some b\<rparr>
      in if mq_head x = None then x\<lparr>mq_head := Some b\<rparr> else x)"

definition mq_prepend :: "nat \<Rightarrow> rt_messagequeue \<Rightarrow> rt_messagequeue" where
  "mq_prepend b x =
     (let x = (set_next b (mq_head x) x)\<lparr>mq_head := Some b\<rparr>
      in if mq_tail x = None then x\<lparr>mq_tail := Some b\<rparr> else x)"

text \<open>The second locked section: count the message and wake a receiver.\<close>

definition mq_count_in :: "nat \<Rightarrow> kst \<Rightarrow> (rt_err \<times> kst) option" where
  "mq_count_in i s =
     (if mq_entry (mq_of s i) < RT_MQ_ENTRY_MAX then
        do { s \<leftarrow> wake_first (Mq_q i) (upd_mq i (\<lambda>x. x\<lparr>mq_entry := mq_entry x + 1\<rparr>) s); Some (RT_EOK, s) }
      else Some (- RT_EFULL, s))"

definition mq_send_finish :: "nat \<Rightarrow> u8 list \<Rightarrow> u64 \<Rightarrow> kst \<Rightarrow> (rt_err \<times> kst) option" where
  "mq_send_finish i buffer sz s =
     do { (b, x) \<leftarrow> mq_take_free (mq_of s i);
          rt_assert (unat sz \<le> length buffer);
          let s = upd_mq i (\<lambda>_. mq_fill b buffer sz (set_next b None x)) s;
          mq_count_in i (upd_mq i (mq_append b) s) }"

partial_function (option) mq_send_loop ::
  "nat \<Rightarrow> u8 list \<Rightarrow> u64 \<Rightarrow> int \<Rightarrow> int \<Rightarrow> kst \<Rightarrow> (rt_err wres \<times> kst) option" where
  "mq_send_loop i buffer sz timeout suspend_flag s =
     (if mq_free (mq_of s i) = None then
        do { t \<leftarrow> rt_thread_self s;
             let s = upd_thread t (\<lambda>x. x\<lparr>error := - RT_EINTR\<rparr>) s;
             if timeout = 0 then Some (Ret (- RT_EFULL), s)
             else
               do { (r, s) \<leftarrow> sleep_on t (Mq_sender_q i) (mq_flag (mq_of s i)) timeout suspend_flag s;
                    case r of
                      Refused ret \<Rightarrow> Some (Ret ret, s)
                    | Asleep \<Rightarrow> Some (Wait, s)
                    | Awake before \<Rightarrow>
                        if error (threads s t) \<noteq> RT_EOK then Some (Ret (error (threads s t)), s)
                        else mq_send_loop i buffer sz (timeout_left timeout before (rt_tick_get (tm s)))
                               suspend_flag s } }
      else do { (e, s) \<leftarrow> mq_send_finish i buffer sz s; Some (Ret e, s) })"

definition mq_send_resume ::
  "nat \<Rightarrow> u8 list \<Rightarrow> u64 \<Rightarrow> int \<Rightarrow> int \<Rightarrow> tid \<Rightarrow> u32 \<Rightarrow> kst \<Rightarrow> (rt_err wres \<times> kst) option" where
  "mq_send_resume i buffer sz timeout suspend_flag t before s =
     (if error (threads s t) \<noteq> RT_EOK then Some (Ret (error (threads s t)), s)
      else mq_send_loop i buffer sz (timeout_left timeout before (rt_tick_get (tm s))) suspend_flag s)"

definition rt_mq_send_wait' ::
  "nat \<Rightarrow> u8 list \<Rightarrow> u64 \<Rightarrow> int \<Rightarrow> int \<Rightarrow> kst \<Rightarrow> (rt_err wres \<times> kst) option" where
  "rt_mq_send_wait' i buffer sz timeout suspend_flag s =
     do { rt_assert (rt_object_get_type (mq_type (mq_of s i)) = RT_Object_Class_MessageQueue);
          rt_assert (sz \<noteq> 0);
          debug_scheduler_available (timeout \<noteq> 0) s;
          if ucast (mq_msg_size (mq_of s i)) < sz then Some (Ret (- RT_ERROR), s)
          else if mq_free (mq_of s i) = None \<and> timeout = 0 then Some (Ret (- RT_EFULL), s)
          else mq_send_loop i buffer sz timeout suspend_flag s }"

definition rt_mq_send_wait :: "nat \<Rightarrow> u8 list \<Rightarrow> u64 \<Rightarrow> int \<Rightarrow> kst \<Rightarrow> (rt_err wres \<times> kst) option" where
  "rt_mq_send_wait i buffer sz timeout s = rt_mq_send_wait' i buffer sz timeout RT_UNINTERRUPTIBLE s"

definition rt_mq_send_wait_interruptible :: "nat \<Rightarrow> u8 list \<Rightarrow> u64 \<Rightarrow> int \<Rightarrow> kst \<Rightarrow> (rt_err wres \<times> kst) option" where
  "rt_mq_send_wait_interruptible i buffer sz timeout s = rt_mq_send_wait' i buffer sz timeout RT_INTERRUPTIBLE s"

definition rt_mq_send_wait_killable :: "nat \<Rightarrow> u8 list \<Rightarrow> u64 \<Rightarrow> int \<Rightarrow> kst \<Rightarrow> (rt_err wres \<times> kst) option" where
  "rt_mq_send_wait_killable i buffer sz timeout s = rt_mq_send_wait' i buffer sz timeout RT_KILLABLE s"

definition rt_mq_send :: "nat \<Rightarrow> u8 list \<Rightarrow> u64 \<Rightarrow> kst \<Rightarrow> (rt_err wres \<times> kst) option" where
  "rt_mq_send i buffer sz s = rt_mq_send_wait i buffer sz 0 s"

definition rt_mq_send_interruptible :: "nat \<Rightarrow> u8 list \<Rightarrow> u64 \<Rightarrow> kst \<Rightarrow> (rt_err wres \<times> kst) option" where
  "rt_mq_send_interruptible i buffer sz s = rt_mq_send_wait_interruptible i buffer sz 0 s"

definition rt_mq_send_killable :: "nat \<Rightarrow> u8 list \<Rightarrow> u64 \<Rightarrow> kst \<Rightarrow> (rt_err wres \<times> kst) option" where
  "rt_mq_send_killable i buffer sz s = rt_mq_send_wait_killable i buffer sz 0 s"

definition rt_mq_urgent :: "nat \<Rightarrow> u8 list \<Rightarrow> u64 \<Rightarrow> kst \<Rightarrow> (rt_err \<times> kst) option" where
  "rt_mq_urgent i buffer sz s =
     do { rt_assert (rt_object_get_type (mq_type (mq_of s i)) = RT_Object_Class_MessageQueue);
          rt_assert (sz \<noteq> 0);
          if ucast (mq_msg_size (mq_of s i)) < sz then Some (- RT_ERROR, s)
          else
            case mq_take_free (mq_of s i) of
              None \<Rightarrow> Some (- RT_EFULL, s)
            | Some (b, x) \<Rightarrow>
                do { rt_assert (unat sz \<le> length buffer);
                     let s = upd_mq i (\<lambda>_. mq_fill b buffer sz x) s;
                     mq_count_in i (upd_mq i (mq_prepend b) s) } }"

subsection \<open>Receive\<close>

text \<open>Taking the first message off the queue, and returning its block to the free chain.\<close>

definition mq_take_head :: "rt_messagequeue \<Rightarrow> (nat \<times> rt_messagequeue) option" where
  "mq_take_head x =
     (case mq_head x of
        None \<Rightarrow> None
      | Some b \<Rightarrow>
          Some (b, x\<lparr>mq_head := mq_next (mq_pool x b),
            mq_tail := (if mq_tail x = Some b then None else mq_tail x),
            mq_entry := (if 0 < mq_entry x then mq_entry x - 1 else mq_entry x)\<rparr>))"

definition mq_put_free :: "nat \<Rightarrow> rt_messagequeue \<Rightarrow> rt_messagequeue" where
  "mq_put_free b x = (set_next b (mq_free x) x)\<lparr>mq_free := Some b\<rparr>"

text \<open>The result is the number of bytes copied and the bytes, or a negative error code.\<close>

definition mq_recv_finish :: "nat \<Rightarrow> u64 \<Rightarrow> kst \<Rightarrow> ((int \<times> u8 list option) \<times> kst) option" where
  "mq_recv_finish i sz s =
     do { (b, x) \<leftarrow> mq_take_head (mq_of s i);
          let s = upd_mq i (\<lambda>_. x) s;
          let m = mq_pool (mq_of s i) b;
          let len = (if sz < mq_length m then sz else mq_length m);
          let bytes = take (unat len) (mq_data m);
          s \<leftarrow> wake_first (Mq_sender_q i) (upd_mq i (mq_put_free b) s);
          Some ((uint len, Some bytes), s) }"

partial_function (option) mq_recv_loop ::
  "nat \<Rightarrow> u64 \<Rightarrow> int \<Rightarrow> int \<Rightarrow> kst \<Rightarrow> ((int \<times> u8 list option) wres \<times> kst) option" where
  "mq_recv_loop i sz timeout suspend_flag s =
     (if mq_entry (mq_of s i) = 0 then
        do { t \<leftarrow> rt_thread_self s;
             let s = upd_thread t (\<lambda>x. x\<lparr>error := - RT_EINTR\<rparr>) s;
             if timeout = 0 then
               Some (Ret (- RT_ETIMEOUT, None), upd_thread t (\<lambda>x. x\<lparr>error := - RT_ETIMEOUT\<rparr>) s)
             else
               do { (r, s) \<leftarrow> sleep_on t (Mq_q i) (mq_flag (mq_of s i)) timeout suspend_flag s;
                    case r of
                      Refused ret \<Rightarrow> Some (Ret (ret, None), s)
                    | Asleep \<Rightarrow> Some (Wait, s)
                    | Awake before \<Rightarrow>
                        if error (threads s t) \<noteq> RT_EOK then Some (Ret (error (threads s t), None), s)
                        else mq_recv_loop i sz (timeout_left timeout before (rt_tick_get (tm s))) suspend_flag s } }
      else do { (r, s) \<leftarrow> mq_recv_finish i sz s; Some (Ret r, s) })"

definition mq_recv_resume ::
  "nat \<Rightarrow> u64 \<Rightarrow> int \<Rightarrow> int \<Rightarrow> tid \<Rightarrow> u32 \<Rightarrow> kst \<Rightarrow> ((int \<times> u8 list option) wres \<times> kst) option" where
  "mq_recv_resume i sz timeout suspend_flag t before s =
     (if error (threads s t) \<noteq> RT_EOK then Some (Ret (error (threads s t), None), s)
      else mq_recv_loop i sz (timeout_left timeout before (rt_tick_get (tm s))) suspend_flag s)"

definition rt_mq_recv' :: "nat \<Rightarrow> u64 \<Rightarrow> int \<Rightarrow> int \<Rightarrow> kst \<Rightarrow> ((int \<times> u8 list option) wres \<times> kst) option" where
  "rt_mq_recv' i sz timeout suspend_flag s =
     do { rt_assert (rt_object_get_type (mq_type (mq_of s i)) = RT_Object_Class_MessageQueue);
          rt_assert (sz \<noteq> 0);
          debug_scheduler_available (timeout \<noteq> 0) s;
          if mq_entry (mq_of s i) = 0 \<and> timeout = 0 then Some (Ret (- RT_ETIMEOUT, None), s)
          else mq_recv_loop i sz timeout suspend_flag s }"

definition rt_mq_recv :: "nat \<Rightarrow> u64 \<Rightarrow> int \<Rightarrow> kst \<Rightarrow> ((int \<times> u8 list option) wres \<times> kst) option" where
  "rt_mq_recv i sz timeout s = rt_mq_recv' i sz timeout RT_UNINTERRUPTIBLE s"

definition rt_mq_recv_interruptible :: "nat \<Rightarrow> u64 \<Rightarrow> int \<Rightarrow> kst \<Rightarrow> ((int \<times> u8 list option) wres \<times> kst) option" where
  "rt_mq_recv_interruptible i sz timeout s = rt_mq_recv' i sz timeout RT_INTERRUPTIBLE s"

definition rt_mq_recv_killable :: "nat \<Rightarrow> u64 \<Rightarrow> int \<Rightarrow> kst \<Rightarrow> ((int \<times> u8 list option) wres \<times> kst) option" where
  "rt_mq_recv_killable i sz timeout s = rt_mq_recv' i sz timeout RT_KILLABLE s"

text \<open>
  The loop of the reset moves the queued messages to the free chain one by one; on a circular
  chain it would not end.
\<close>

partial_function (option) mq_flush :: "rt_messagequeue \<Rightarrow> rt_messagequeue option" where
  "mq_flush x =
     (case mq_head x of
        None \<Rightarrow> Some x
      | Some b \<Rightarrow>
          let x = x\<lparr>mq_head := mq_next (mq_pool x b), mq_tail := (if mq_tail x = Some b then None else mq_tail x)\<rparr>
          in mq_flush (mq_put_free b x))"

definition rt_mq_control :: "nat \<Rightarrow> int \<Rightarrow> kst \<Rightarrow> (rt_err \<times> kst) option" where
  "rt_mq_control i cmd s =
     do { rt_assert (rt_object_get_type (mq_type (mq_of s i)) = RT_Object_Class_MessageQueue);
          if cmd = RT_IPC_CMD_RESET then
            do { s \<leftarrow> mq_wake_all i s;
                 x \<leftarrow> mq_flush (mq_of s i);
                 let s = upd_mq i (\<lambda>_. x\<lparr>mq_entry := 0\<rparr>) s;
                 s \<leftarrow> rt_schedule s;
                 Some (RT_EOK, s) }
          else Some (- RT_ERROR, s) }"

subsection \<open>Chains of blocks\<close>

fun mq_chain :: "(nat \<Rightarrow> rt_mq_message) \<Rightarrow> nat option \<Rightarrow> nat list \<Rightarrow> bool" where
  "mq_chain p h [] \<longleftrightarrow> h = None"
| "mq_chain p h (b # bs) \<longleftrightarrow> h = Some b \<and> mq_chain p (mq_next (p b)) bs"

lemma mq_chain_None [simp]: "mq_chain p None bs \<longleftrightarrow> bs = []"
  by (cases bs) auto

lemma mq_chain_cong:
  "(\<And>b. b \<in> set bs \<Longrightarrow> mq_next (p b) = mq_next (q b)) \<Longrightarrow> mq_chain p h bs = mq_chain q h bs"
  by (induction bs arbitrary: h) auto

lemma mq_chain_upd [simp]: "b \<notin> set bs \<Longrightarrow> mq_chain (p(b := m)) h bs = mq_chain p h bs"
  by (rule mq_chain_cong) auto

lemma mq_chain_snoc:
  assumes "mq_chain p h bs" "bs \<noteq> []" "distinct (bs @ [b])" "mq_next (p b) = None"
  shows "mq_chain (p(last bs := (p (last bs))\<lparr>mq_next := Some b\<rparr>)) h (bs @ [b])"
  using assms
proof (induction bs arbitrary: h)
  case (Cons a bs)
  show ?case
  proof (cases bs)
    case Nil
    then show ?thesis using Cons.prems by simp
  next
    case (Cons c cs)
    then have "a \<noteq> last bs" using Cons.prems(3) last_in_set [of bs] by auto
    then show ?thesis using Cons.IH [of "mq_next (p a)"] Cons.prems Cons by simp
  qed
qed simp

text \<open>The blocks of the queue, followed from the head.\<close>

fun mq_blocks :: "nat \<Rightarrow> (nat \<Rightarrow> rt_mq_message) \<Rightarrow> nat option \<Rightarrow> nat list" where
  "mq_blocks 0 p h = []"
| "mq_blocks (Suc n) p h = (case h of None \<Rightarrow> [] | Some b \<Rightarrow> b # mq_blocks n p (mq_next (p b)))"

lemma mq_blocks_chain: "mq_chain p h bs \<Longrightarrow> mq_blocks (length bs) p h = bs"
  by (induction bs arbitrary: h) auto

definition mq_payload :: "rt_mq_message \<Rightarrow> u8 list" where
  "mq_payload m = take (unat (mq_length m)) (mq_data m)"

definition mq_msgs :: "rt_messagequeue \<Rightarrow> u8 list list" where
  "mq_msgs x = map (\<lambda>b. mq_payload (mq_pool x b)) (mq_blocks (unat (mq_entry x)) (mq_pool x) (mq_head x))"

text \<open>
  The blocks are divided among the queue \<open>qs\<close>, the free chain \<open>fs\<close> and \<open>n\<close> blocks being
  copied to or from.
\<close>

definition mq_msg_ok :: "rt_messagequeue \<Rightarrow> nat \<Rightarrow> bool" where
  "mq_msg_ok x b \<longleftrightarrow> unat (mq_length (mq_pool x b)) \<le> length (mq_data (mq_pool x b)) \<and>
     unat (mq_length (mq_pool x b)) \<le> unat (mq_msg_size x)"

definition mq_parts :: "rt_messagequeue \<Rightarrow> nat list \<Rightarrow> nat list \<Rightarrow> nat \<Rightarrow> bool" where
  "mq_parts x qs fs n \<longleftrightarrow> mq_chain (mq_pool x) (mq_head x) qs \<and> mq_chain (mq_pool x) (mq_free x) fs \<and>
     distinct (qs @ fs) \<and> set (qs @ fs) \<subseteq> {..<unat (mq_max_msgs x)} \<and>
     length qs + length fs + n = unat (mq_max_msgs x) \<and>
     mq_tail x = (if qs = [] then None else Some (last qs)) \<and> (\<forall>b\<in>set qs. mq_msg_ok x b)"

lemma mq_parts_free: "mq_parts x qs fs n \<Longrightarrow> mq_free x = None \<longleftrightarrow> fs = []"
  by (cases fs) (auto simp: mq_parts_def)

lemma set_next_simps [simp]:
  "mq_pool (set_next b m x) = (mq_pool x)(b := (mq_pool x b)\<lparr>mq_next := m\<rparr>)"
  "mq_head (set_next b m x) = mq_head x" "mq_tail (set_next b m x) = mq_tail x"
  "mq_free (set_next b m x) = mq_free x" "mq_entry (set_next b m x) = mq_entry x"
  "mq_max_msgs (set_next b m x) = mq_max_msgs x" "mq_msg_size (set_next b m x) = mq_msg_size x"
  "mq_type (set_next b m x) = mq_type x" "mq_flag (set_next b m x) = mq_flag x"
  by (simp_all add: set_next_def)

lemma mq_take_free_law:
  assumes "mq_parts x qs (b # fs) n"
  shows "\<exists>x'. mq_take_free x = Some (b, x') \<and> x' = x\<lparr>mq_free := mq_free x'\<rparr> \<and> mq_parts x' qs fs (Suc n) \<and>
    b \<notin> set (qs @ fs) \<and> b < unat (mq_max_msgs x)"
  using assms by (auto simp: mq_take_free_def mq_parts_def mq_msg_ok_def)

lemma mq_fill_law:
  assumes "mq_parts x qs fs n" "b \<notin> set (qs @ fs)"
  shows "mq_parts (mq_fill b buf sz x) qs fs n" "mq_parts (set_next b m x) qs fs n"
proof -
  have "\<forall>c\<in>set qs. mq_msg_ok (mq_fill b buf sz x) c" "\<forall>c\<in>set qs. mq_msg_ok (set_next b m x) c"
    using assms by (auto simp: mq_msg_ok_def mq_parts_def mq_fill_def)
  then show "mq_parts (mq_fill b buf sz x) qs fs n" "mq_parts (set_next b m x) qs fs n"
    using assms by (auto simp: mq_parts_def mq_fill_def)
qed

lemma mq_append_law:
  assumes "mq_parts x qs fs (Suc n)" "b \<notin> set (qs @ fs)" "b < unat (mq_max_msgs x)"
    "mq_next (mq_pool x b) = None" "mq_msg_ok x b"
  shows "mq_parts (mq_append b x) (qs @ [b]) fs n"
    "mq_payload (mq_pool (mq_append b x) c) = mq_payload (mq_pool x c)"
proof -
  show "mq_payload (mq_pool (mq_append b x) c) = mq_payload (mq_pool x c)"
    by (simp add: mq_append_def mq_payload_def Let_def split: option.split)
  show "mq_parts (mq_append b x) (qs @ [b]) fs n"
  proof (cases "qs = []")
    case True
    then show ?thesis using assms by (auto simp: mq_parts_def mq_append_def mq_msg_ok_def Let_def)
  next
    case False
    let ?x = "mq_append b x"
    have eq: "?x = (set_next (last qs) (Some b) x)\<lparr>mq_tail := Some b\<rparr>"
      using assms(1) False by (cases qs) (auto simp: mq_append_def mq_parts_def)
    have l: "last qs \<in> set qs" "last qs \<notin> set fs"
      using False assms(1) last_in_set [OF False] by (auto simp: mq_parts_def disjoint_iff)
    then have "mq_chain (mq_pool ?x) (mq_head ?x) (qs @ [b])" "mq_chain (mq_pool ?x) (mq_free ?x) fs"
      using assms mq_chain_snoc [of "mq_pool x" "mq_head x" qs b] False by (auto simp: eq mq_parts_def)
    then show ?thesis using assms l by (auto simp: mq_parts_def eq mq_msg_ok_def)
  qed
qed

lemma mq_prepend_law:
  assumes "mq_parts x qs fs (Suc n)" "b \<notin> set (qs @ fs)" "b < unat (mq_max_msgs x)" "mq_msg_ok x b"
  shows "mq_parts (mq_prepend b x) (b # qs) fs n"
    "mq_payload (mq_pool (mq_prepend b x) c) = mq_payload (mq_pool x c)"
proof -
  show "mq_payload (mq_pool (mq_prepend b x) c) = mq_payload (mq_pool x c)"
    by (simp add: mq_prepend_def mq_payload_def Let_def)
  show "mq_parts (mq_prepend b x) (b # qs) fs n"
    using assms by (auto simp: mq_parts_def mq_prepend_def mq_msg_ok_def Let_def)
qed

lemma mq_take_head_law:
  assumes "mq_parts x (b # qs) fs n" "mq_entry x \<noteq> 0"
  shows "\<exists>x'. mq_take_head x = Some (b, x') \<and> mq_parts x' qs fs (Suc n) \<and> b \<notin> set (qs @ fs) \<and>
    b < unat (mq_max_msgs x) \<and> mq_pool x' = mq_pool x \<and> mq_entry x' = mq_entry x - 1 \<and>
    mq_type x' = mq_type x \<and> mq_flag x' = mq_flag x \<and> mq_max_msgs x' = mq_max_msgs x \<and> mq_msg_size x' = mq_msg_size x"
proof -
  have "last (b # qs) = b \<longleftrightarrow> qs = []" using assms(1) by (auto simp: mq_parts_def dest: last_in_set)
  then show ?thesis
    using assms by (auto simp: mq_take_head_def mq_parts_def mq_msg_ok_def word_gt_0)
qed

lemma mq_put_free_law:
  assumes "mq_parts x qs fs (Suc n)" "b \<notin> set (qs @ fs)" "b < unat (mq_max_msgs x)"
  shows "mq_parts (mq_put_free b x) qs (b # fs) n"
    "mq_payload (mq_pool (mq_put_free b x) c) = mq_payload (mq_pool x c)"
proof -
  show "mq_payload (mq_pool (mq_put_free b x) c) = mq_payload (mq_pool x c)"
    by (simp add: mq_put_free_def mq_payload_def)
  show "mq_parts (mq_put_free b x) qs (b # fs) n"
    using assms by (auto simp: mq_parts_def mq_put_free_def mq_msg_ok_def)
qed

text \<open>The reset ends and frees every block.\<close>

lemma mq_flush_law:
  assumes "mq_parts x qs fs n"
  shows "\<exists>x'. mq_flush x = Some x' \<and> mq_parts x' [] (rev qs @ fs) n \<and> mq_type x' = mq_type x \<and>
    mq_flag x' = mq_flag x \<and> mq_max_msgs x' = mq_max_msgs x \<and> mq_msg_size x' = mq_msg_size x"
  using assms
proof (induction qs arbitrary: x fs)
  case Nil
  then show ?case by (simp add: mq_parts_def mq_flush.simps [of x])
next
  case (Cons b qs)
  define y where "y = x\<lparr>mq_head := mq_next (mq_pool x b), mq_tail := (if mq_tail x = Some b then None else mq_tail x)\<rparr>"
  have "last (b # qs) = b \<longleftrightarrow> qs = []" using Cons.prems by (auto simp: mq_parts_def dest: last_in_set)
  then have y: "mq_parts y qs fs (Suc n)" "b \<notin> set (qs @ fs)" "b < unat (mq_max_msgs y)"
    using Cons.prems by (auto simp: mq_parts_def y_def mq_msg_ok_def)
  have "mq_flush x = mq_flush (mq_put_free b y)"
    using Cons.prems by (simp add: mq_parts_def mq_flush.simps [of x] y_def)
  then show ?case
    using Cons.IH [OF mq_put_free_law(1) [OF y]] by (simp add: mq_put_free_def y_def)
qed

lemma mq_link_free_law:
  "mq_chain (mq_pool (mq_link_free n x)) (mq_free (mq_link_free n x)) (rev [0..<n])"
  "mq_head (mq_link_free n x) = mq_head x" "mq_tail (mq_link_free n x) = mq_tail x"
  "mq_max_msgs (mq_link_free n x) = mq_max_msgs x" "mq_type (mq_link_free n x) = mq_type x"
  "mq_flag (mq_link_free n x) = mq_flag x" "mq_msg_size (mq_link_free n x) = mq_msg_size x"
  by (induction n) (simp_all add: mq_link_free_def)

subsection \<open>The messages as a queue\<close>

definition mq_wf :: "rt_messagequeue \<Rightarrow> bool" where
  "mq_wf x \<longleftrightarrow> (\<exists>qs fs. mq_parts x qs fs 0 \<and> length qs = unat (mq_entry x))"

lemma mq_msgs_parts:
  "mq_parts x qs fs n \<Longrightarrow> length qs = unat (mq_entry x) \<Longrightarrow> mq_msgs x = map (\<lambda>b. mq_payload (mq_pool x b)) qs"
  using mq_blocks_chain [of "mq_pool x" "mq_head x" qs] by (simp add: mq_msgs_def mq_parts_def)

text \<open>A whole send without waiting, a whole urgent send, a whole receive of a full message.\<close>

definition mq_put :: "u8 list \<Rightarrow> u64 \<Rightarrow> rt_messagequeue \<Rightarrow> rt_messagequeue" where
  "mq_put buf sz x =
     (case mq_take_free x of
        None \<Rightarrow> x
      | Some (b, y) \<Rightarrow> (mq_append b (mq_fill b buf sz (set_next b None y)))\<lparr>mq_entry := mq_entry x + 1\<rparr>)"

definition mq_push :: "u8 list \<Rightarrow> u64 \<Rightarrow> rt_messagequeue \<Rightarrow> rt_messagequeue" where
  "mq_push buf sz x =
     (case mq_take_free x of
        None \<Rightarrow> x
      | Some (b, y) \<Rightarrow> (mq_prepend b (mq_fill b buf sz y))\<lparr>mq_entry := mq_entry x + 1\<rparr>)"

definition mq_get :: "rt_messagequeue \<Rightarrow> u8 list \<times> rt_messagequeue" where
  "mq_get x =
     (case mq_take_head x of
        None \<Rightarrow> ([], x)
      | Some (b, y) \<Rightarrow> (mq_payload (mq_pool y b), mq_put_free b y))"

definition mq_same :: "rt_messagequeue \<Rightarrow> rt_messagequeue \<Rightarrow> bool" where
  "mq_same x y \<longleftrightarrow> mq_type x = mq_type y \<and> mq_flag x = mq_flag y \<and> mq_max_msgs x = mq_max_msgs y \<and>
     mq_msg_size x = mq_msg_size y"

lemma mq_wf_room:
  assumes "mq_wf x"
  shows "mq_free x \<noteq> None \<longleftrightarrow> mq_entry x < mq_max_msgs x" "mq_entry x \<le> mq_max_msgs x"
proof -
  obtain qs fs where p: "mq_parts x qs fs 0" "length qs = unat (mq_entry x)" using assms by (auto simp: mq_wf_def)
  then have "length qs + length fs = unat (mq_max_msgs x)" by (simp add: mq_parts_def)
  then show "mq_free x \<noteq> None \<longleftrightarrow> mq_entry x < mq_max_msgs x" "mq_entry x \<le> mq_max_msgs x"
    using p(2) mq_parts_free [OF p(1)] by (cases fs; auto simp: word_less_nat_alt word_le_nat_alt)+
qed

lemma mq_fill_ok:
  assumes "unat sz \<le> length buf" "unat sz \<le> unat (mq_msg_size x)"
  shows "mq_msg_ok (mq_fill b buf sz x) b" "mq_payload (mq_pool (mq_fill b buf sz x) b) = take (unat sz) buf"
    "c \<noteq> b \<Longrightarrow> mq_pool (mq_fill b buf sz x) c = mq_pool x c"
  using assms by (auto simp: mq_msg_ok_def mq_fill_def mq_payload_def)

lemma mq_put_law:
  assumes "mq_wf x" "mq_entry x < mq_max_msgs x" "unat sz \<le> length buf" "unat sz \<le> unat (mq_msg_size x)"
  shows "mq_wf (mq_put buf sz x)" "mq_msgs (mq_put buf sz x) = mq_msgs x @ [take (unat sz) buf]"
    "mq_same (mq_put buf sz x) x"
proof -
  obtain qs fs where p: "mq_parts x qs fs 0" "length qs = unat (mq_entry x)" using assms(1) by (auto simp: mq_wf_def)
  have "fs \<noteq> []" using mq_wf_room(1) [OF assms(1)] assms(2) mq_parts_free [OF p(1)] by auto
  then obtain b gs where fs: "fs = b # gs" by (cases fs) auto
  obtain y where y: "mq_take_free x = Some (b, y)" "y = x\<lparr>mq_free := mq_free y\<rparr>" "mq_parts y qs gs 1"
      "b \<notin> set (qs @ gs)" "b < unat (mq_max_msgs x)"
    using mq_take_free_law [OF p(1) [unfolded fs]] by auto
  define z where "z = mq_fill b buf sz (set_next b None y)"
  have max: "mq_max_msgs y = mq_max_msgs x" "mq_msg_size y = mq_msg_size x" "mq_pool y = mq_pool x"
      "mq_type y = mq_type x" "mq_flag y = mq_flag x"
    by (subst y(2), simp)+
  have z: "mq_parts z qs gs (Suc 0)" "mq_next (mq_pool z b) = None" "mq_msg_ok z b" "b < unat (mq_max_msgs z)"
      "mq_payload (mq_pool z b) = take (unat sz) buf" "mq_same z x"
    "\<And>c. c \<noteq> b \<Longrightarrow> mq_pool z c = mq_pool x c"
    using y(3-5) mq_fill_law [of "set_next b None y" qs gs 1 b] mq_fill_law(2) [of y qs gs 1 b None] assms(3,4)
      mq_fill_ok [of sz buf "set_next b None y" b]
    by (auto simp: z_def max mq_same_def mq_fill_def)
  note app = mq_append_law [OF z(1) y(4) z(4) z(2,3)]
  define w where "w = mq_append b z"
  have put: "mq_put buf sz x = w\<lparr>mq_entry := mq_entry x + 1\<rparr>" by (simp add: mq_put_def y(1) z_def w_def)
  have w: "mq_same w z" by (simp add: w_def mq_append_def mq_same_def Let_def split: option.split)
  have e: "length (qs @ [b]) = unat (mq_entry x + 1)" using p(2) unat_plus1 [OF assms(2)] by simp
  have parts: "mq_parts (mq_put buf sz x) (qs @ [b]) gs 0"
    using app(1) by (simp add: put mq_parts_def mq_msg_ok_def w_def)
  then show "mq_wf (mq_put buf sz x)" using e by (auto simp: mq_wf_def put)
  have "mq_payload (mq_pool w c) = mq_payload (mq_pool x c)" if "c \<in> set qs" for c
  proof -
    have "c \<noteq> b" using y(4) that by auto
    then show ?thesis using app(2) [of c] z(7) [of c] by (simp add: w_def)
  qed
  then have "map (\<lambda>c. mq_payload (mq_pool w c)) qs = map (\<lambda>c. mq_payload (mq_pool x c)) qs" by simp
  then show "mq_msgs (mq_put buf sz x) = mq_msgs x @ [take (unat sz) buf]"
    using mq_msgs_parts [OF parts] mq_msgs_parts [OF p] e app(2) [of b] z(5) by (simp add: put w_def)
  show "mq_same (mq_put buf sz x) x" using w z(6) by (simp add: put mq_same_def)
qed

lemma mq_push_law:
  assumes "mq_wf x" "mq_entry x < mq_max_msgs x" "unat sz \<le> length buf" "unat sz \<le> unat (mq_msg_size x)"
  shows "mq_wf (mq_push buf sz x)" "mq_msgs (mq_push buf sz x) = take (unat sz) buf # mq_msgs x"
    "mq_same (mq_push buf sz x) x"
proof -
  obtain qs fs where p: "mq_parts x qs fs 0" "length qs = unat (mq_entry x)" using assms(1) by (auto simp: mq_wf_def)
  have "fs \<noteq> []" using mq_wf_room(1) [OF assms(1)] assms(2) mq_parts_free [OF p(1)] by auto
  then obtain b gs where fs: "fs = b # gs" by (cases fs) auto
  obtain y where y: "mq_take_free x = Some (b, y)" "y = x\<lparr>mq_free := mq_free y\<rparr>" "mq_parts y qs gs 1"
      "b \<notin> set (qs @ gs)" "b < unat (mq_max_msgs x)"
    using mq_take_free_law [OF p(1) [unfolded fs]] by auto
  define z where "z = mq_fill b buf sz y"
  have max: "mq_max_msgs y = mq_max_msgs x" "mq_msg_size y = mq_msg_size x" "mq_pool y = mq_pool x"
      "mq_type y = mq_type x" "mq_flag y = mq_flag x"
    by (subst y(2), simp)+
  have z: "mq_parts z qs gs (Suc 0)" "mq_msg_ok z b" "b < unat (mq_max_msgs z)"
      "mq_payload (mq_pool z b) = take (unat sz) buf" "mq_same z x"
    "\<And>c. c \<noteq> b \<Longrightarrow> mq_pool z c = mq_pool x c"
    using y(3-5) mq_fill_law [of y qs gs 1 b] assms(3,4) mq_fill_ok [of sz buf y b]
    by (auto simp: z_def max mq_same_def mq_fill_def)
  note pre = mq_prepend_law [OF z(1) y(4) z(3) z(2)]
  define w where "w = mq_prepend b z"
  have put: "mq_push buf sz x = w\<lparr>mq_entry := mq_entry x + 1\<rparr>" by (simp add: mq_push_def y(1) z_def w_def)
  have w: "mq_same w z" by (simp add: w_def mq_prepend_def mq_same_def Let_def)
  have e: "length (b # qs) = unat (mq_entry x + 1)" using p(2) unat_plus1 [OF assms(2)] by simp
  have parts: "mq_parts (mq_push buf sz x) (b # qs) gs 0"
    using pre(1) by (simp add: put mq_parts_def mq_msg_ok_def w_def)
  then show "mq_wf (mq_push buf sz x)" using e by (auto simp: mq_wf_def put)
  have "mq_payload (mq_pool w c) = mq_payload (mq_pool x c)" if "c \<in> set qs" for c
  proof -
    have "c \<noteq> b" using y(4) that by auto
    then show ?thesis using pre(2) [of c] z(6) [of c] by (simp add: w_def)
  qed
  then have "map (\<lambda>c. mq_payload (mq_pool w c)) qs = map (\<lambda>c. mq_payload (mq_pool x c)) qs" by simp
  then show "mq_msgs (mq_push buf sz x) = take (unat sz) buf # mq_msgs x"
    using mq_msgs_parts [OF parts] mq_msgs_parts [OF p] e pre(2) [of b] z(4) by (simp add: put w_def)
  show "mq_same (mq_push buf sz x) x" using w z(5) by (simp add: put mq_same_def)
qed

lemma mq_get_law:
  assumes "mq_wf x" "mq_entry x \<noteq> 0"
  shows "\<exists>b y. mq_take_head x = Some (b, y) \<and> mq_wf (mq_put_free b y) \<and> mq_same (mq_put_free b y) x \<and>
    mq_msgs x = mq_payload (mq_pool y b) # mq_msgs (mq_put_free b y) \<and> mq_msg_ok y b"
proof -
  obtain qs fs where p: "mq_parts x qs fs 0" "length qs = unat (mq_entry x)" using assms(1) by (auto simp: mq_wf_def)
  then obtain b rs where qs: "qs = b # rs" using assms(2) by (cases qs) (auto simp: unat_eq_zero)
  obtain y where y: "mq_take_head x = Some (b, y)" "mq_parts y rs fs 1" "b \<notin> set (rs @ fs)"
      "b < unat (mq_max_msgs x)" "mq_pool y = mq_pool x" "mq_entry y = mq_entry x - 1" "mq_same y x"
    using mq_take_head_law [OF p(1) [unfolded qs] assms(2)] by (auto simp: mq_same_def)
  have b: "b < unat (mq_max_msgs y)" using y(4,7) by (simp add: mq_same_def)
  have parts: "mq_parts (mq_put_free b y) rs (b # fs) 0"
    using mq_put_free_law(1) [OF _ y(3) b, of 0] y(2) by simp
  have pay: "mq_payload (mq_pool (mq_put_free b y) c) = mq_payload (mq_pool x c)" for c
    by (simp add: mq_put_free_def mq_payload_def y(5))
  have e: "mq_entry (mq_put_free b y) = mq_entry x - 1" by (simp add: mq_put_free_def y(6))
  have l: "length rs = unat (mq_entry (mq_put_free b y))"
    unfolding e using p(2) qs unat_minus1 [OF assms(2)] by simp
  have "mq_msgs x = mq_payload (mq_pool y b) # mq_msgs (mq_put_free b y)"
    using mq_msgs_parts [OF p] mq_msgs_parts [OF parts l] by (simp add: qs y(5) pay)
  moreover have "mq_same (mq_put_free b y) x" using y(7) by (simp add: mq_same_def mq_put_free_def)
  moreover have "mq_msg_ok y b" using p(1) qs y(5,7) by (simp add: mq_parts_def mq_msg_ok_def mq_same_def)
  ultimately show ?thesis using y(1) parts l by (auto simp: mq_wf_def)
qed

interpretation mqf: bounded_fifo mq_wf mq_msgs "\<lambda>x. unat (mq_max_msgs x)"
  "\<lambda>v x. length v \<le> unat (mq_msg_size x)" "\<lambda>v. mq_put v (of_nat (length v))" mq_get
proof
  fix q and v :: "u8 list"
  assume *: "mq_wf q" "length (mq_msgs q) < unat (mq_max_msgs q)" "length v \<le> unat (mq_msg_size q)"
  have "length (mq_msgs q) = unat (mq_entry q)" using *(1) mq_msgs_parts by (auto simp: mq_wf_def)
  then have "mq_entry q < mq_max_msgs q" using *(2) by (simp add: word_less_nat_alt)
  moreover have "unat (mq_msg_size q) < 2 ^ 16" using unsigned_less [of "mq_msg_size q"] by simp
  then have "unat (of_nat (length v) :: u64) = length v" using *(3) by (simp add: unat_of_nat)
  ultimately show "mq_wf (mq_put v (of_nat (length v)) q) \<and>
      mq_msgs (mq_put v (of_nat (length v)) q) = mq_msgs q @ [v] \<and>
      unat (mq_max_msgs (mq_put v (of_nat (length v)) q)) = unat (mq_max_msgs q)"
    using mq_put_law [OF *(1), of "of_nat (length v)" v] *(3) by (simp add: mq_same_def)
next
  fix q
  assume *: "mq_wf q" "mq_msgs q \<noteq> []"
  then have "mq_entry q \<noteq> 0" by (auto simp: mq_msgs_def)
  then show "mq_wf (snd (mq_get q)) \<and> mq_msgs q = fst (mq_get q) # mq_msgs (snd (mq_get q)) \<and>
      unat (mq_max_msgs (snd (mq_get q))) = unat (mq_max_msgs q)"
    using mq_get_law [OF *(1)] by (auto simp: mq_get_def mq_same_def)
qed

subsection \<open>The invariant of the message queues\<close>

definition mq_ok :: "rt_messagequeue \<Rightarrow> tid list \<Rightarrow> tid list \<Rightarrow> bool" where
  "mq_ok x ws ss \<longleftrightarrow>
     (ws \<noteq> [] \<or> ss \<noteq> [] \<longrightarrow> rt_object_get_type (mq_type x) = RT_Object_Class_MessageQueue \<and> mq_max_msgs x \<noteq> 0) \<and>
     (rt_object_get_type (mq_type x) = RT_Object_Class_MessageQueue \<and> mq_max_msgs x \<noteq> 0 \<longrightarrow>
        (mq_flag x = 0 \<or> mq_flag x = 1) \<and> mq_wf x)"

text \<open>
  \<^verbatim>\<open>rt_mq_init\<close> leaves an object of the class with no block behind when it fails, so the
  invariant speaks of the objects with at least one block.
\<close>

definition mq_inv :: "kst \<Rightarrow> bool" where
  "mq_inv s \<longleftrightarrow> (\<forall>i. mq_ok (mq_of s i) (tls s (Susp (Mq_q i))) (tls s (Susp (Mq_sender_q i))))"

definition is_mq_q :: "ipcref \<Rightarrow> bool" where
  "is_mq_q q \<longleftrightarrow> (\<exists>i. q = Mq_q i \<or> q = Mq_sender_q i)"

lemma mq_invD: "mq_inv s \<Longrightarrow> mq_ok (mq_of s i) (tls s (Susp (Mq_q i))) (tls s (Susp (Mq_sender_q i)))"
  by (simp add: mq_inv_def)

interpretation mqc: object_class is_mq_q mqs mq_inv
proof
  fix s s'
  assume *: "mq_inv s" "mqs (ipc s') = mqs (ipc s)" "shrunk is_mq_q s s'"
  have "tls s (Susp (Mq_q i)) = [] \<Longrightarrow> tls s' (Susp (Mq_q i)) = []"
    "tls s (Susp (Mq_sender_q i)) = [] \<Longrightarrow> tls s' (Susp (Mq_sender_q i)) = []" for i
    using shrunkD(3) [OF *(3)] by (auto simp: is_mq_q_def)
  then show "mq_inv s'" using *(1,2) unfolding mq_inv_def mq_ok_def by metis
qed

lemma upd_mq_simps [simp]:
  "threads (upd_mq i f s) = threads s" "tls (upd_mq i f s) = tls s" "tm (upd_mq i f s) = tm s"
  "ready_group (upd_mq i f s) = ready_group s"
  "current (upd_mq i f s) = current s" "lock_nest (upd_mq i f s) = lock_nest s"
  "irq_nest (upd_mq i f s) = irq_nest s"
  "mqs (ipc (upd_mq i f s)) j = (if j = i then f (mq_of s i) else mq_of s j)"
  "kinv_but X (upd_mq i f s) = kinv_but X s" "shrunk own s' (upd_mq i f s) = shrunk own s' s"
  by (simp_all add: upd_mq_def)

lemma upd_mq_twice [simp]: "upd_mq i f (upd_mq i g s) = upd_mq i (\<lambda>x. f (g x)) s"
  by (simp add: upd_mq_def)

definition kmq_inv :: "kst \<Rightarrow> bool" where
  "kmq_inv s \<longleftrightarrow> kinv s \<and> mq_inv s"

abbreviation mq_live :: "rt_messagequeue \<Rightarrow> bool" where
  "mq_live x \<equiv> rt_object_get_type (mq_type x) = RT_Object_Class_MessageQueue \<and> mq_max_msgs x \<noteq> 0"

lemma kmq_invD:
  assumes "kmq_inv s" "mq_live (mq_of s i)"
  shows "mq_wf (mq_of s i)" "mq_flag (mq_of s i) = 0 \<or> mq_flag (mq_of s i) = 1"
  using assms mq_invD [of s i] by (auto simp: kmq_inv_def mq_ok_def)

lemma kmq_upd_wf:
  assumes "kmq_inv s" "mq_same (f (mq_of s i)) (mq_of s i)" "mq_live (mq_of s i) \<Longrightarrow> mq_wf (f (mq_of s i))"
  shows "kmq_inv (upd_mq i f s)"
proof -
  have "mq_ok (f (mq_of s i)) (tls s (Susp (Mq_q i))) (tls s (Susp (Mq_sender_q i)))"
    using assms mq_invD [of s i] unfolding kmq_inv_def mq_ok_def mq_same_def by metis
  then show ?thesis using assms(1) by (simp add: kmq_inv_def mq_inv_def)
qed

lemma kmq_upd_empty:
  assumes "kmq_inv s" "tls s (Susp (Mq_q i)) = []" "tls s (Susp (Mq_sender_q i)) = []" "mq_ok (f (mq_of s i)) [] []"
  shows "kmq_inv (upd_mq i f s)"
  using assms by (simp add: kmq_inv_def mq_inv_def)

lemma kmq_schedule: "rt_schedule s = Some s' \<Longrightarrow> kmq_inv s \<Longrightarrow> kmq_inv s'"
  by (auto simp: kmq_inv_def intro: kinv_schedule mqc.ok_schedule)

lemma kmq_exit_critical: "rt_exit_critical s = Some s' \<Longrightarrow> kmq_inv s \<Longrightarrow> kmq_inv s'"
  by (auto simp: kmq_inv_def intro: kinv_exit_critical mqc.ok_exit_critical)

lemma kmq_wake_first: "wake_first q s = Some s' \<Longrightarrow> kmq_inv s \<Longrightarrow> kmq_inv s'"
  using wake_first_result [of q s s'] mqc.keep [of s s'] by (auto simp: kmq_inv_def)

lemma kmq_set_error: "kmq_inv s \<Longrightarrow> kmq_inv (upd_thread t (\<lambda>x. x\<lparr>error := e\<rparr>) s)"
  by (simp add: kmq_inv_def kinv_set_error mqc.ok_set_error)

lemma kmq_wake_all:
  assumes "kmq_inv s"
  shows "\<exists>s'. mq_wake_all i s = Some s' \<and> kmq_inv s' \<and> ipc s' = ipc s \<and>
    tls s' (Susp (Mq_q i)) = [] \<and> tls s' (Susp (Mq_sender_q i)) = []"
proof -
  obtain s1 where s1: "rt_susp_list_resume_all (Mq_q i) RT_ERROR s = Some s1" "kinv s1" "mq_inv s1"
      "ipc s1 = ipc s" "tls s1 (Susp (Mq_q i)) = []"
    using mqc.ok_resume_all [of s "Mq_q i" 1] assms by (auto simp: kmq_inv_def)
  obtain s2 where s2: "rt_susp_list_resume_all (Mq_sender_q i) RT_ERROR s1 = Some s2" "kinv s2" "mq_inv s2"
      "ipc s2 = ipc s1" "tls s2 (Susp (Mq_sender_q i)) = []" "woken (set (tls s1 (Susp (Mq_sender_q i)))) s1 s2"
    using mqc.ok_resume_all [OF s1(2,3), of "Mq_sender_q i" 1] by blast
  have "tls s2 (Susp (Mq_q i)) = []" using s1(5) s2(6) by (simp add: woken_def)
  then show ?thesis using s1 s2 by (simp add: mq_wake_all_def kmq_inv_def)
qed

text \<open>A new queue: all blocks are free.\<close>

lemma mq_setup_wf:
  fixes x :: rt_messagequeue
  defines "y \<equiv> (mq_link_free (unat (mq_max_msgs x)) (x\<lparr>mq_head := None, mq_tail := None\<rparr>))\<lparr>mq_entry := 0\<rparr>"
  shows "mq_wf y" "mq_msgs y = []" "mq_same y x"
proof -
  have "mq_parts y [] (rev [0..<unat (mq_max_msgs x)]) 0"
    using mq_link_free_law [of "unat (mq_max_msgs x)" "x\<lparr>mq_head := None, mq_tail := None\<rparr>"]
    by (auto simp: mq_parts_def y_def)
  then show "mq_wf y" by (auto simp: mq_wf_def y_def)
  show "mq_msgs y = []" by (simp add: mq_msgs_def y_def)
  show "mq_same y x" by (simp add: mq_same_def y_def mq_link_free_law)
qed

lemma kmq_init:
  assumes "rt_mq_init i msg_size pool_size fl s = Some (e, s')" "kmq_inv s"
    "tls s (Susp (Mq_q i)) = []" "tls s (Susp (Mq_sender_q i)) = []"
  shows "kmq_inv s'" "e = RT_EOK \<Longrightarrow> mq_msgs (mq_of s' i) = []"
proof -
  have tls: "ls_init (tls s) (Susp (Mq_q i)) = tls s" "ls_init (tls s) (Susp (Mq_sender_q i)) = tls s"
    using assms(3,4) by (simp_all add: ls_init_def fun_upd_idem)
  have fl: "fl = 0 \<or> fl = 1" using assms(1) by (auto simp: rt_mq_init_def split: if_splits)
  define g where "g = (\<lambda>x :: rt_messagequeue. x\<lparr>mq_type := 134, mq_flag := fl, mq_msg_size := ucast msg_size,
            mq_max_msgs := ucast (pool_size div mq_block_bytes msg_size)\<rparr>)"
  define h where "h = (\<lambda>x. (mq_link_free (unat (mq_max_msgs x)) (x\<lparr>mq_head := None, mq_tail := None\<rparr>))\<lparr>mq_entry := 0\<rparr>)"
  have g: "mq_flag (g x) = fl" for x by (simp add: g_def)
  have h: "mq_wf (h x)" "mq_msgs (h x) = []" "mq_same (h x) x" for x
    using mq_setup_wf [of x] by (simp_all add: h_def)
  have "(e = - RT_EINVAL \<and> s' = upd_mq i g s \<and> mq_max_msgs (g (mq_of s i)) = 0) \<or>
      (e = RT_EOK \<and> s' = upd_mq i (\<lambda>x. h (g x)) s)"
    using assms(1) by (auto simp: rt_mq_init_def object_init_def mq_setup_def tls g_def h_def bind_Some Let_def
        split: if_splits)
  moreover have "mq_ok (h (g (mq_of s i))) [] []" using fl g h(1,3) by (auto simp: mq_ok_def mq_same_def)
  moreover have "mq_ok (g (mq_of s i)) [] []" if "mq_max_msgs (g (mq_of s i)) = 0" using that by (simp add: mq_ok_def)
  ultimately show "kmq_inv s'" "e = RT_EOK \<Longrightarrow> mq_msgs (mq_of s' i) = []"
    using assms(2-4) h(2) by (auto intro: kmq_upd_empty)
qed

lemma kmq_detach: "rt_mq_detach i s = Some (e, s') \<Longrightarrow> kmq_inv s \<Longrightarrow> kmq_inv s'"
  using kmq_wake_all [of s i]
  by (auto simp: rt_mq_detach_def bind_Some mq_ok_def intro!: kmq_upd_empty split: if_splits)

lemma kmq_delete:
  assumes "rt_mq_delete i s = Some (e, s')" "kmq_inv s"
  shows "kmq_inv s'"
proof -
  let ?s = "snd (rt_enter_critical s)"
  have "kmq_inv ?s" using assms(2) by (simp add: kmq_inv_def rt_enter_critical_def mqc.ok_lock_nest)
  then obtain s1 where s1: "mq_wake_all i ?s = Some s1" "kmq_inv s1"
      "tls s1 (Susp (Mq_q i)) = []" "tls s1 (Susp (Mq_sender_q i)) = []"
    using kmq_wake_all by blast
  then obtain s2 where s2: "rt_exit_critical s1 = Some s2"
      "s' = upd_mq i (\<lambda>x. x\<lparr>mq_type := object_detach (mq_type x)\<rparr>) s2"
    using assms(1) by (auto simp: rt_mq_delete_def bind_Some split: if_splits)
  have k1: "kinv s1" using s1(2) by (simp add: kmq_inv_def)
  show ?thesis
    unfolding s2(2) using kmq_exit_critical [OF s2(1) s1(2)] exit_critical_frame(3) [OF s2(1) k1] s1(3,4)
    by (intro kmq_upd_empty) (auto simp: mq_ok_def)
qed

lemma kmq_control:
  assumes "rt_mq_control i cmd s = Some (e, s')" "kmq_inv s"
    "mq_live (mq_of s i)"
  shows "kmq_inv s'" "cmd = RT_IPC_CMD_RESET \<Longrightarrow> mq_msgs (mq_of s' i) = []"
proof -
  obtain s1 where s1: "mq_wake_all i s = Some s1" "kmq_inv s1" "ipc s1 = ipc s"
    using kmq_wake_all [OF assms(2)] by blast
  obtain qs fs where p: "mq_parts (mq_of s i) qs fs 0"
    using kmq_invD(1) [OF assms(2,3)] by (auto simp: mq_wf_def)
  obtain x where x: "mq_flush (mq_of s i) = Some x" "mq_parts x [] (rev qs @ fs) 0" "mq_same x (mq_of s i)"
    using mq_flush_law [OF p] by (auto simp: mq_same_def)
  have "mq_parts (x\<lparr>mq_entry := 0\<rparr>) [] (rev qs @ fs) 0" using x(2) by (simp add: mq_parts_def)
  then have wf: "mq_wf (x\<lparr>mq_entry := 0\<rparr>)" by (auto simp: mq_wf_def)
  let ?s = "upd_mq i (\<lambda>_. x\<lparr>mq_entry := 0\<rparr>) s1"
  have k: "kmq_inv ?s"
    using s1(2,3) x(3) wf by (intro kmq_upd_wf) (simp_all add: mq_same_def)
  have sch: "rt_schedule ?s = Some s'" if "cmd = RT_IPC_CMD_RESET"
    using assms(1) that s1(1,3) x(1) by (auto simp: rt_mq_control_def bind_Some split: if_splits)
  show "kmq_inv s'"
    using assms(1,2) kmq_schedule [OF sch k] by (cases "cmd = RT_IPC_CMD_RESET") (auto simp: rt_mq_control_def split: if_splits)
  show "mq_msgs (mq_of s' i) = []" if "cmd = RT_IPC_CMD_RESET"
    using schedule_frame [OF sch [OF that]] k by (simp add: kmq_inv_def kinvD(1) sched_frame_def mq_msgs_def)
qed

subsection \<open>Sending and receiving\<close>

lemma unat_ucast_16_64: "unat (ucast w :: u64) = unat w" for w :: u16
proof -
  have "unat w < 2 ^ 64" using unsigned_less [of w] by (rule less_le_trans) simp
  then show ?thesis by (simp add: unsigned_ucast_eq take_bit_nat_eq_self)
qed

lemma mq_put_finish:
  assumes "mq_wf (mq_of s i)" "mq_entry (mq_of s i) < mq_max_msgs (mq_of s i)" "unat sz \<le> length buf"
  shows "mq_send_finish i buf sz s =
    do { s \<leftarrow> wake_first (Mq_q i) (upd_mq i (mq_put buf sz) s); Some (RT_EOK, s) }"
proof -
  obtain b where f: "mq_free (mq_of s i) = Some b" using mq_wf_room(1) [OF assms(1)] assms(2) by auto
  have "mq_max_msgs (mq_of s i) \<le> 0xffff" by (rule u16_le_max)
  with assms(2) have "mq_entry (mq_of s i) < RT_MQ_ENTRY_MAX" by simp
  moreover have "mq_entry (mq_append b (mq_fill b buf sz (set_next b None y))) = mq_entry y" for y
    by (simp add: mq_append_def mq_fill_def Let_def split: option.split)
  ultimately show ?thesis
    using assms(3) f
    by (simp add: mq_send_finish_def mq_count_in_def mq_take_free_def upd_mq_def mq_put_def)
qed

lemma mq_send_cases:
  assumes run: "rt_mq_send_wait' i buf sz timeout sf s = Some (r, s')" and inv: "kmq_inv s"
    and live: "mq_live (mq_of s i)"
  obtains (too_long) "unat (mq_msg_size (mq_of s i)) < unat sz" "r = Ret (- RT_ERROR)" "s' = s"
  | (sent) "mq_entry (mq_of s i) < mq_max_msgs (mq_of s i)" "unat sz \<le> unat (mq_msg_size (mq_of s i))"
      "unat sz \<le> length buf" "r = Ret RT_EOK" "wake_first (Mq_q i) (upd_mq i (mq_put buf sz) s) = Some s'"
  | (full) "mq_entry (mq_of s i) = mq_max_msgs (mq_of s i)" "timeout = 0" "r = Ret (- RT_EFULL)" "s' = s"
  | (refused) t e where "mq_entry (mq_of s i) = mq_max_msgs (mq_of s i)" "e \<noteq> 0" "r = Ret e"
      "s' = upd_thread t (\<lambda>x. x\<lparr>error := - RT_EINTR\<rparr>) s"
  | (slept) t where "mq_entry (mq_of s i) = mq_max_msgs (mq_of s i)" "timeout \<noteq> 0" "current s = Some t"
      "r = Wait \<or> r = Ret (- RT_EINTR)" "kinv s'" "th_stat (threads s t) = RT_THREAD_RUNNING"
      "blocked t (Mq_sender_q i) (uint (mq_flag (mq_of s i))) timeout
         (upd_thread t (\<lambda>x. x\<lparr>error := - RT_EINTR\<rparr>) s) s'"
proof (cases "ucast (mq_msg_size (mq_of s i)) < sz")
  case True
  then have "unat (mq_msg_size (mq_of s i)) < unat sz"
    by (simp add: word_less_nat_alt unat_ucast_16_64)
  then show thesis using True run too_long by (auto simp: rt_mq_send_wait'_def bind_Some split: if_splits)
next
  case fits: False
  then have sz: "unat sz \<le> unat (mq_msg_size (mq_of s i))"
    by (simp add: word_less_nat_alt unat_ucast_16_64)
  note wf = kmq_invD(1) [OF inv live]
  show thesis
  proof (cases "mq_free (mq_of s i) = None")
    case False
    have room: "mq_entry (mq_of s i) < mq_max_msgs (mq_of s i)" using mq_wf_room(1) [OF wf] False by simp
    have loop: "mq_send_loop i buf sz timeout sf s = Some (r, s')"
      using run fits False by (auto simp: rt_mq_send_wait'_def bind_Some split: if_splits)
    then have len: "unat sz \<le> length buf"
      using False by (auto simp: mq_send_loop.simps [of i buf sz timeout sf s] mq_send_finish_def bind_Some split: if_splits)
    then show thesis
      using sent [OF room sz len] loop False mq_put_finish [OF wf room len]
      by (auto simp: mq_send_loop.simps [of i buf sz timeout sf s] bind_Some)
  next
    case True
    have eq: "mq_entry (mq_of s i) = mq_max_msgs (mq_of s i)"
      using mq_wf_room [OF wf] True by (metis le_neq_trans)
    show thesis
    proof (cases "timeout = 0")
      case zero: True
      then show thesis using run fits True full eq by (auto simp: rt_mq_send_wait'_def bind_Some split: if_splits)
    next
      case False
      then obtain t where t: "current s = Some t" and loop: "mq_send_loop i buf sz timeout sf s = Some (r, s')"
        using run fits True by (auto simp: rt_mq_send_wait'_def bind_Some mq_send_loop.simps [of i buf sz timeout sf s]
            rt_thread_self_def split: if_splits)
      let ?s = "upd_thread t (\<lambda>x. x\<lparr>error := - RT_EINTR\<rparr>) s"
      have k: "kinv ?s" "current ?s = Some t" using inv t by (simp_all add: kmq_inv_def kinv_set_error)
      obtain z s1 where z: "sleep_on t (Mq_sender_q i) (mq_flag (mq_of s i)) timeout sf ?s = Some (z, s1)"
        and rest: "(case z of Refused ret \<Rightarrow> Some (Ret ret, s1) | Asleep \<Rightarrow> Some (Wait, s1)
          | Awake before \<Rightarrow> if error (threads s1 t) \<noteq> RT_EOK then Some (Ret (error (threads s1 t)), s1)
              else mq_send_loop i buf sz (timeout_left timeout before (rt_tick_get (tm s1))) sf s1) = Some (r, s')"
        using loop True False t
        by (auto simp: mq_send_loop.simps [of i buf sz timeout sf s] rt_thread_self_def bind_Some Let_def)
      from z k show thesis
      proof (cases rule: sleep_on_cases)
        case (refused e)
        then show thesis using that(4) [of e t] eq rest by simp
      next
        case slept
        have "error (threads s1 t) = - RT_EINTR" using slept(3) by (simp add: blocked_def)
        then have "s' = s1" "r = Wait \<or> r = Ret (- RT_EINTR)" using rest slept(1) by (auto split: if_splits)
        then show thesis using that(5) [of t] eq False t slept by (simp add: th_stat_def)
      qed
    qed
  qed
qed

lemma blocked_mq_inv:
  assumes "blocked t q fl timeout s s'" "mq_inv s" "q = Mq_q i \<or> q = Mq_sender_q i" "mq_live (mq_of s i)"
  shows "mq_inv s'"
  unfolding mq_inv_def
proof
  fix j
  show "mq_ok (mq_of s' j) (tls s' (Susp (Mq_q j))) (tls s' (Susp (Mq_sender_q j)))"
    using assms mq_invD [of s j] by (cases "j = i") (auto simp: mq_ok_def blocked_def split: if_splits)
qed

text \<open>A message sent is appended to the queued messages, and the first waiting receiver is woken.\<close>

lemma mq_send_result:
  assumes run: "rt_mq_send_wait' i buf sz timeout sf s = Some (r, s')" and inv: "kmq_inv s" and live: "mq_live (mq_of s i)"
  shows "kmq_inv s'" "mq_msgs (mq_of s' i) =
      (if r = Ret RT_EOK then mq_msgs (mq_of s i) @ [take (unat sz) buf] else mq_msgs (mq_of s i))"
    "r = Ret RT_EOK \<longleftrightarrow> unat sz \<le> unat (mq_msg_size (mq_of s i)) \<and> mq_entry (mq_of s i) < mq_max_msgs (mq_of s i)"
    "r = Ret RT_EOK \<Longrightarrow> tls s (Susp (Mq_q i)) = t # ts \<Longrightarrow>
       runnable (threads s' t) \<and> error (threads s' t) = RT_EOK \<and> tls s' (Susp (Mq_q i)) = ts"
proof -
  note wf = kmq_invD(1) [OF inv live]
  have "kmq_inv s' \<and> mq_msgs (mq_of s' i) =
      (if r = Ret RT_EOK then mq_msgs (mq_of s i) @ [take (unat sz) buf] else mq_msgs (mq_of s i)) \<and>
    (r = Ret RT_EOK \<longleftrightarrow> unat sz \<le> unat (mq_msg_size (mq_of s i)) \<and> mq_entry (mq_of s i) < mq_max_msgs (mq_of s i)) \<and>
    (r = Ret RT_EOK \<longrightarrow> tls s (Susp (Mq_q i)) = t # ts \<longrightarrow>
       runnable (threads s' t) \<and> error (threads s' t) = RT_EOK \<and> tls s' (Susp (Mq_q i)) = ts)"
    using run inv live
  proof (cases rule: mq_send_cases)
    case sent
    note law = mq_put_law [OF wf sent(1,3,2)]
    have k: "kmq_inv (upd_mq i (mq_put buf sz) s)" using inv law by (intro kmq_upd_wf) simp_all
    then have "kinv (upd_mq i (mq_put buf sz) s)" by (simp add: kmq_inv_def)
    note w = wake_first_result(2,4,5) [OF sent(5) this]
    show ?thesis using kmq_wake_first [OF sent(5) k] law sent w by auto
  next
    case (slept u)
    have "kmq_inv s'"
      using blocked_mq_inv [OF slept(7), of i] kmq_set_error [OF inv, of u "- RT_EINTR"] live slept(5)
      by (simp add: kmq_inv_def)
    then show ?thesis using slept by (auto simp: blocked_def)
  qed (use inv kmq_set_error in auto)
  then show "kmq_inv s'" "mq_msgs (mq_of s' i) =
      (if r = Ret RT_EOK then mq_msgs (mq_of s i) @ [take (unat sz) buf] else mq_msgs (mq_of s i))"
    "r = Ret RT_EOK \<longleftrightarrow> unat sz \<le> unat (mq_msg_size (mq_of s i)) \<and> mq_entry (mq_of s i) < mq_max_msgs (mq_of s i)"
    "r = Ret RT_EOK \<Longrightarrow> tls s (Susp (Mq_q i)) = t # ts \<Longrightarrow>
       runnable (threads s' t) \<and> error (threads s' t) = RT_EOK \<and> tls s' (Susp (Mq_q i)) = ts" by blast+
qed

lemma mq_recv_cases:
  assumes run: "rt_mq_recv' i sz timeout sf s = Some (r, s')" and inv: "kmq_inv s" and live: "mq_live (mq_of s i)"
  obtains (got) m ms where "mq_msgs (mq_of s i) = m # ms" "r = Ret (min (uint sz) (int (length m)), Some (take (unat sz) m))"
      "wake_first (Mq_sender_q i) (upd_mq i (\<lambda>_. snd (mq_get (mq_of s i))) s) = Some s'"
  | (empty) "mq_msgs (mq_of s i) = []" "timeout = 0" "r = Ret (- RT_ETIMEOUT, None)" "s' = s"
  | (refused) t e where "mq_msgs (mq_of s i) = []" "e \<noteq> 0" "r = Ret (e, None)"
      "s' = upd_thread t (\<lambda>x. x\<lparr>error := - RT_EINTR\<rparr>) s"
  | (slept) t where "mq_msgs (mq_of s i) = []" "timeout \<noteq> 0" "current s = Some t"
      "r = Wait \<or> r = Ret (- RT_EINTR, None)" "kinv s'" "th_stat (threads s t) = RT_THREAD_RUNNING"
      "blocked t (Mq_q i) (uint (mq_flag (mq_of s i))) timeout
         (upd_thread t (\<lambda>x. x\<lparr>error := - RT_EINTR\<rparr>) s) s'"
proof (cases "mq_entry (mq_of s i) = 0")
  case False
  obtain b y where y: "mq_take_head (mq_of s i) = Some (b, y)"
      "mq_msgs (mq_of s i) = mq_payload (mq_pool y b) # mq_msgs (mq_put_free b y)" "mq_msg_ok y b"
    using mq_get_law [OF kmq_invD(1) [OF inv live] False] by blast
  let ?m = "mq_pool y b"
  have "mq_recv_loop i sz timeout sf s = Some (r, s')"
    using run False by (auto simp: rt_mq_recv'_def bind_Some split: if_splits)
  then obtain len where len: "len = (if sz < mq_length ?m then sz else mq_length ?m)"
      and r: "r = Ret (uint len, Some (take (unat len) (mq_data ?m)))"
      and w: "wake_first (Mq_sender_q i) (upd_mq i (\<lambda>_. mq_put_free b y) s) = Some s'"
    using False y(1) by (auto simp: mq_recv_loop.simps [of i sz timeout sf s] mq_recv_finish_def bind_Some Let_def)
  have u: "unat len = min (unat sz) (length (mq_payload ?m))"
    using y(3) by (auto simp: len mq_payload_def mq_msg_ok_def word_less_nat_alt min_def)
  have "take (unat len) (mq_data ?m) = take (unat sz) (mq_payload ?m)"
    using y(3) by (auto simp: len mq_payload_def mq_msg_ok_def word_less_nat_alt min_def)
  moreover have "uint len = min (uint sz) (int (length (mq_payload ?m)))"
    using u by (metis of_nat_min uint_nat)
  ultimately show thesis
    using got [OF y(2)] w r by (simp add: mq_get_def y(1))
next
  case True
  then have e: "mq_msgs (mq_of s i) = []" by (simp add: mq_msgs_def)
  show thesis
  proof (cases "timeout = 0")
    case zero: True
    then show thesis using run True e empty by (auto simp: rt_mq_recv'_def bind_Some split: if_splits)
  next
    case False
    then obtain t where t: "current s = Some t" and loop: "mq_recv_loop i sz timeout sf s = Some (r, s')"
      using run True by (auto simp: rt_mq_recv'_def bind_Some mq_recv_loop.simps [of i sz timeout sf s]
          rt_thread_self_def split: if_splits)
    let ?s = "upd_thread t (\<lambda>x. x\<lparr>error := - RT_EINTR\<rparr>) s"
    have k: "kinv ?s" "current ?s = Some t" using inv t by (simp_all add: kmq_inv_def kinv_set_error)
    obtain z s1 where z: "sleep_on t (Mq_q i) (mq_flag (mq_of s i)) timeout sf ?s = Some (z, s1)"
      and rest: "(case z of Refused ret \<Rightarrow> Some (Ret (ret, None), s1) | Asleep \<Rightarrow> Some (Wait, s1)
          | Awake before \<Rightarrow> if error (threads s1 t) \<noteq> RT_EOK then Some (Ret (error (threads s1 t), None), s1)
              else mq_recv_loop i sz (timeout_left timeout before (rt_tick_get (tm s1))) sf s1) = Some (r, s')"
      using loop True False t
      by (auto simp: mq_recv_loop.simps [of i sz timeout sf s] rt_thread_self_def bind_Some Let_def)
    from z k show thesis
    proof (cases rule: sleep_on_cases)
      case (refused e')
      then show thesis using that(3) [of e' t] e rest by simp
    next
      case slept
      have "error (threads s1 t) = - RT_EINTR" using slept(3) by (simp add: blocked_def)
      then have "s' = s1" "r = Wait \<or> r = Ret (- RT_EINTR, None)" using rest slept(1) by (auto split: if_splits)
      then show thesis using that(4) [of t] e False t slept by (simp add: th_stat_def)
    qed
  qed
qed

text \<open>A receive takes the first message, cut to the size of the buffer, and wakes the first waiting sender.\<close>

lemma mq_recv_result:
  assumes run: "rt_mq_recv' i sz timeout sf s = Some (r, s')" and inv: "kmq_inv s" and live: "mq_live (mq_of s i)"
  shows "kmq_inv s'" "case mq_msgs (mq_of s i) of
        m # ms \<Rightarrow> r = Ret (min (uint sz) (int (length m)), Some (take (unat sz) m)) \<and> mq_msgs (mq_of s' i) = ms
      | [] \<Rightarrow> (r = Wait \<or> (\<exists>e. e \<noteq> 0 \<and> r = Ret (e, None))) \<and> mq_msgs (mq_of s' i) = []"
    "mq_msgs (mq_of s i) \<noteq> [] \<Longrightarrow> tls s (Susp (Mq_sender_q i)) = t # ts \<Longrightarrow>
       runnable (threads s' t) \<and> error (threads s' t) = RT_EOK \<and> tls s' (Susp (Mq_sender_q i)) = ts"
proof -
  have "kmq_inv s' \<and> (case mq_msgs (mq_of s i) of
        m # ms \<Rightarrow> r = Ret (min (uint sz) (int (length m)), Some (take (unat sz) m)) \<and> mq_msgs (mq_of s' i) = ms
      | [] \<Rightarrow> (r = Wait \<or> (\<exists>e. e \<noteq> 0 \<and> r = Ret (e, None))) \<and> mq_msgs (mq_of s' i) = []) \<and>
    (mq_msgs (mq_of s i) \<noteq> [] \<longrightarrow> tls s (Susp (Mq_sender_q i)) = t # ts \<longrightarrow>
       runnable (threads s' t) \<and> error (threads s' t) = RT_EOK \<and> tls s' (Susp (Mq_sender_q i)) = ts)"
    using run inv live
  proof (cases rule: mq_recv_cases)
    case (got m ms)
    let ?y = "snd (mq_get (mq_of s i))"
    have "mq_entry (mq_of s i) \<noteq> 0" using got(1) by (auto simp: mq_msgs_def)
    then have law: "mq_wf ?y" "mq_same ?y (mq_of s i)" "mq_msgs ?y = ms"
      using mq_get_law [OF kmq_invD(1) [OF inv live]] got(1) by (auto simp: mq_get_def)
    have k: "kmq_inv (upd_mq i (\<lambda>_. ?y) s)" using inv law by (intro kmq_upd_wf) simp_all
    then have "kinv (upd_mq i (\<lambda>_. ?y) s)" by (simp add: kmq_inv_def)
    note w = wake_first_result(2,4,5) [OF got(3) this]
    show ?thesis using kmq_wake_first [OF got(3) k] law(3) got(1,2) w by auto
  next
    case (slept u)
    have "kmq_inv s'"
      using blocked_mq_inv [OF slept(7), of i] kmq_set_error [OF inv, of u "- RT_EINTR"] live slept(5)
      by (simp add: kmq_inv_def)
    then show ?thesis using slept by (auto simp: blocked_def)
  qed (use inv kmq_set_error in auto)
  then show "kmq_inv s'" "case mq_msgs (mq_of s i) of
        m # ms \<Rightarrow> r = Ret (min (uint sz) (int (length m)), Some (take (unat sz) m)) \<and> mq_msgs (mq_of s' i) = ms
      | [] \<Rightarrow> (r = Wait \<or> (\<exists>e. e \<noteq> 0 \<and> r = Ret (e, None))) \<and> mq_msgs (mq_of s' i) = []"
    "mq_msgs (mq_of s i) \<noteq> [] \<Longrightarrow> tls s (Susp (Mq_sender_q i)) = t # ts \<Longrightarrow>
       runnable (threads s' t) \<and> error (threads s' t) = RT_EOK \<and> tls s' (Susp (Mq_sender_q i)) = ts" by blast+
qed

lemma mq_urgent_result:
  assumes run: "rt_mq_urgent i buf sz s = Some (e, s')" and inv: "kmq_inv s" and live: "mq_live (mq_of s i)"
  shows "kmq_inv s'" "mq_msgs (mq_of s' i) =
      (if e = RT_EOK then take (unat sz) buf # mq_msgs (mq_of s i) else mq_msgs (mq_of s i))"
    "e = RT_EOK \<longleftrightarrow> unat sz \<le> unat (mq_msg_size (mq_of s i)) \<and> mq_entry (mq_of s i) < mq_max_msgs (mq_of s i)"
proof -
  note wf = kmq_invD(1) [OF inv live]
  have sz: "ucast (mq_msg_size (mq_of s i)) < sz \<longleftrightarrow> \<not> unat sz \<le> unat (mq_msg_size (mq_of s i))"
    by (auto simp: word_less_nat_alt unat_ucast_16_64)
  have "kmq_inv s' \<and> mq_msgs (mq_of s' i) =
      (if e = RT_EOK then take (unat sz) buf # mq_msgs (mq_of s i) else mq_msgs (mq_of s i)) \<and>
    (e = RT_EOK \<longleftrightarrow> unat sz \<le> unat (mq_msg_size (mq_of s i)) \<and> mq_entry (mq_of s i) < mq_max_msgs (mq_of s i))"
  proof (cases "unat sz \<le> unat (mq_msg_size (mq_of s i)) \<and> mq_entry (mq_of s i) < mq_max_msgs (mq_of s i)")
    case True
    obtain b where f: "mq_free (mq_of s i) = Some b" using mq_wf_room(1) [OF wf] True by auto
    have len: "unat sz \<le> length buf"
      using run True f by (auto simp: rt_mq_urgent_def sz mq_take_free_def split: if_splits)
    have max: "mq_entry (mq_of s i) < RT_MQ_ENTRY_MAX" using True less_le_trans [OF _ u16_le_max] by blast
    have w: "wake_first (Mq_q i) (upd_mq i (mq_push buf sz) s) = Some s'" "e = RT_EOK"
      using run True f len max
      by (auto simp: rt_mq_urgent_def sz mq_take_free_def mq_count_in_def mq_push_def upd_mq_def bind_Some
          mq_prepend_def mq_fill_def Let_def split: if_splits)
    note law = mq_push_law [OF wf _ len]
    have k: "kmq_inv (upd_mq i (mq_push buf sz) s)" using inv law True by (intro kmq_upd_wf) simp_all
    then have "kinv (upd_mq i (mq_push buf sz) s)" by (simp add: kmq_inv_def)
    from wake_first_result(2) [OF w(1) this] show ?thesis
      using kmq_wake_first [OF w(1) k] law True w(2) by simp
  next
    case False
    have "mq_free (mq_of s i) = None" if "\<not> mq_entry (mq_of s i) < mq_max_msgs (mq_of s i)"
      using mq_wf_room(1) [OF wf] that by simp
    then have "s' = s \<and> e \<noteq> RT_EOK"
      using run False by (auto simp: rt_mq_urgent_def sz mq_take_free_def split: if_splits)
    then show ?thesis using False inv by simp
  qed
  then show "kmq_inv s'" "mq_msgs (mq_of s' i) =
      (if e = RT_EOK then take (unat sz) buf # mq_msgs (mq_of s i) else mq_msgs (mq_of s i))"
    "e = RT_EOK \<longleftrightarrow> unat sz \<le> unat (mq_msg_size (mq_of s i)) \<and> mq_entry (mq_of s i) < mq_max_msgs (mq_of s i)"
    by blast+
qed

end
