(* ===== verification/RT_Mempool.thy ===== *)
theory RT_Mempool
  imports RT_Wait
begin

text \<open>
  Memory pools of fixed-size blocks (\<^verbatim>\<open>src/mempool.c\<close>). The word in front of a block links
  the free blocks; in an allocated block it names the pool, which is how \<^verbatim>\<open>rt_mp_free\<close> finds
  it. Freeing a block whose word is a link, which is a double free, is \<^const>\<open>None\<close>.
\<close>

abbreviation mp_of :: "kst \<Rightarrow> nat \<Rightarrow> rt_mempool" where
  "mp_of s i \<equiv> mps (ipc s) i"

abbreviation mpw :: "kst \<Rightarrow> mpblock \<Rightarrow> mpword" where
  "mpw s \<equiv> mp_words (ipc s)"

definition upd_mp :: "nat \<Rightarrow> (rt_mempool \<Rightarrow> rt_mempool) \<Rightarrow> kst \<Rightarrow> kst" where
  "upd_mp i f s = s\<lparr>ipc := (ipc s)\<lparr>mps := (mps (ipc s))(i := f (mps (ipc s) i))\<rparr>\<rparr>"

definition set_word :: "mpblock \<Rightarrow> mpword \<Rightarrow> kst \<Rightarrow> kst" where
  "set_word b w s = s\<lparr>ipc := (ipc s)\<lparr>mp_words := (mp_words (ipc s))(b := w)\<rparr>\<rparr>"

subsection \<open>Creation and deletion\<close>

text \<open>
  Linking the blocks: every block to its successor, then the last one to \<^verbatim>\<open>RT_NULL\<close>. With no
  block at all the last write would lie before the area.
\<close>

definition mp_link_blocks :: "nat \<Rightarrow> kst \<Rightarrow> kst option" where
  "mp_link_blocks i s =
     do { let n = unat (block_total_count (mp_of s i));
          let s = fold (\<lambda>offset s. set_word (i, offset) (Next_free (Some (i, Suc offset))) s) [0..<n] s;
          rt_assert (0 < n);
          let s = set_word (i, n - 1) (Next_free None) s;
          Some (upd_mp i (\<lambda>x. x\<lparr>block_list := Some (i, 0)\<rparr>) s) }"

definition rt_mp_init :: "nat \<Rightarrow> u64 \<Rightarrow> u64 \<Rightarrow> kst \<Rightarrow> (rt_err \<times> kst) option" where
  "rt_mp_init i sz block_size s =
     do { rt_assert (0 < sz \<and> 0 < block_size);
          ty \<leftarrow> object_init RT_Object_Class_MemPool (mp_type (mp_of s i));
          let block_size = rt_align block_size;
          let total = (sz AND NOT 7) div (block_size + 8);
          let s = upd_mp i (\<lambda>x. x\<lparr>mp_type := ty, mp_size := sz AND NOT 7, mp_block_size := block_size,
            block_total_count := total, block_free_count := total\<rparr>) s;
          let s = s\<lparr>tls := ls_init (tls s) (Susp (Mp_q i))\<rparr>;
          s \<leftarrow> mp_link_blocks i s;
          Some (RT_EOK, s) }"

definition rt_mp_detach :: "nat \<Rightarrow> kst \<Rightarrow> (rt_err \<times> kst) option" where
  "rt_mp_detach i s =
     do { rt_assert (rt_object_get_type (mp_type (mp_of s i)) = RT_Object_Class_MemPool);
          rt_assert (rt_object_is_systemobject (mp_type (mp_of s i)));
          s \<leftarrow> rt_susp_list_resume_all (Mp_q i) RT_ERROR s;
          Some (RT_EOK, upd_mp i (\<lambda>x. x\<lparr>mp_type := object_detach (mp_type x)\<rparr>) s) }"

text \<open>\<open>obj\<close> and \<open>mem\<close> tell whether the object and the area could be allocated.\<close>

definition rt_mp_create :: "nat option \<Rightarrow> bool \<Rightarrow> u64 \<Rightarrow> u64 \<Rightarrow> kst \<Rightarrow> (nat option \<times> kst) option" where
  "rt_mp_create obj mem block_count block_size s =
     do { debug_not_in_interrupt s;
          rt_assert (0 < block_count \<and> 0 < block_size);
          case obj of
            None \<Rightarrow> Some (None, s)
          | Some i \<Rightarrow>
              let bs = rt_align block_size;
                  s = upd_mp i (\<lambda>x. x\<lparr>mp_type := object_allocate RT_Object_Class_MemPool, mp_block_size := bs,
                        mp_size := (bs + 8) * block_count\<rparr>) s
              in if mem then
                   do { let s = upd_mp i (\<lambda>x. x\<lparr>block_total_count := block_count, block_free_count := block_count\<rparr>) s;
                        let s = s\<lparr>tls := ls_init (tls s) (Susp (Mp_q i))\<rparr>;
                        s \<leftarrow> mp_link_blocks i s;
                        Some (Some i, s) }
                 else Some (None, upd_mp i (\<lambda>x. x\<lparr>mp_type := object_detach (mp_type x)\<rparr>) s) }"

definition rt_mp_delete :: "nat \<Rightarrow> kst \<Rightarrow> (rt_err \<times> kst) option" where
  "rt_mp_delete i s =
     do { debug_not_in_interrupt s;
          rt_assert (rt_object_get_type (mp_type (mp_of s i)) = RT_Object_Class_MemPool);
          rt_assert (\<not> rt_object_is_systemobject (mp_type (mp_of s i)));
          s \<leftarrow> rt_susp_list_resume_all (Mp_q i) RT_ERROR s;
          Some (RT_EOK, upd_mp i (\<lambda>x. x\<lparr>mp_type := object_detach (mp_type x)\<rparr>) s) }"

subsection \<open>Allocating and freeing\<close>

definition mp_take :: "nat \<Rightarrow> kst \<Rightarrow> (mpblock \<times> kst) option" where
  "mp_take i s =
     do { let s = upd_mp i (\<lambda>x. x\<lparr>block_free_count := block_free_count x - 1\<rparr>) s;
          b \<leftarrow> block_list (mp_of s i);
          nxt \<leftarrow> (case mpw s b of Next_free n \<Rightarrow> Some n | Owned_by _ \<Rightarrow> None);
          let s = upd_mp i (\<lambda>x. x\<lparr>block_list := nxt\<rparr>) s;
          Some (b, set_word b (Owned_by i) s) }"

text \<open>The loop ignores the result of the suspension, as the source does.\<close>

partial_function (option) rt_mp_alloc :: "nat \<Rightarrow> int \<Rightarrow> kst \<Rightarrow> (mpblock option wres \<times> kst) option" where
  "rt_mp_alloc i time s =
     (if block_free_count (mp_of s i) = 0 then
        if time = 0 then Some (Ret None, rt_set_errno (- RT_ETIMEOUT) s)
        else
          do { debug_not_in_interrupt s;
               t \<leftarrow> rt_thread_self s;
               let s = upd_thread t (\<lambda>x. x\<lparr>error := RT_EOK\<rparr>) s;
               (_, s) \<leftarrow> rt_thread_suspend_to_list t (Some (Mp_q i)) RT_IPC_FLAG_FIFO RT_UNINTERRUPTIBLE s;
               let before_sleep = rt_tick_get (tm s);
               s \<leftarrow> thread_block t time s;
               if current s \<noteq> Some t then Some (Wait, s)
               else if error (threads s t) \<noteq> RT_EOK then Some (Ret None, s)
               else rt_mp_alloc i (timeout_left time before_sleep (rt_tick_get (tm s))) s }
      else do { (b, s) \<leftarrow> mp_take i s; Some (Ret (Some b), s) })"

definition mp_alloc_resume :: "nat \<Rightarrow> int \<Rightarrow> tid \<Rightarrow> u32 \<Rightarrow> kst \<Rightarrow> (mpblock option wres \<times> kst) option" where
  "mp_alloc_resume i time t before_sleep s =
     (if error (threads s t) \<noteq> RT_EOK then Some (Ret None, s)
      else rt_mp_alloc i (timeout_left time before_sleep (rt_tick_get (tm s))) s)"

definition mp_give :: "nat \<Rightarrow> mpblock \<Rightarrow> kst \<Rightarrow> kst" where
  "mp_give i b s =
     (let s = upd_mp i (\<lambda>x. x\<lparr>block_free_count := block_free_count x + 1\<rparr>) s;
          s = set_word b (Next_free (block_list (mp_of s i))) s
      in upd_mp i (\<lambda>x. x\<lparr>block_list := Some b\<rparr>) s)"

definition rt_mp_free :: "mpblock option \<Rightarrow> kst \<Rightarrow> kst option" where
  "rt_mp_free block s =
     (case block of
        None \<Rightarrow> Some s
      | Some b \<Rightarrow>
          do { i \<leftarrow> (case mpw s b of Owned_by i \<Rightarrow> Some i | Next_free _ \<Rightarrow> None);
               (thread, s) \<leftarrow> rt_susp_list_dequeue (Mp_q i) RT_EOK (mp_give i b s);
               if thread \<noteq> None then rt_schedule s else Some s })"

subsection \<open>Free and allocated blocks\<close>

fun mp_chain :: "(mpblock \<Rightarrow> mpword) \<Rightarrow> mpblock option \<Rightarrow> mpblock list \<Rightarrow> bool" where
  "mp_chain w h [] \<longleftrightarrow> h = None"
| "mp_chain w h (b # bs) \<longleftrightarrow> h = Some b \<and> (case w b of Next_free n \<Rightarrow> mp_chain w n bs | Owned_by _ \<Rightarrow> False)"

lemma mp_chain_cong: "(\<And>b. b \<in> set bs \<Longrightarrow> w b = w' b) \<Longrightarrow> mp_chain w h bs = mp_chain w' h bs"
  by (induction bs arbitrary: h) (auto split: mpword.split)

lemma mp_chain_upd [simp]: "b \<notin> set bs \<Longrightarrow> mp_chain (w(b := v)) h bs = mp_chain w h bs"
  by (rule mp_chain_cong) auto

lemma mp_chain_links: "mp_chain w h bs \<Longrightarrow> b \<in> set bs \<Longrightarrow> \<exists>n. w b = Next_free n"
  by (induction bs arbitrary: h) (auto split: mpword.splits)

lemma mp_chain_upto:
  "k \<le> n \<Longrightarrow> (\<And>j. k \<le> j \<Longrightarrow> j < n \<Longrightarrow> w (i, j) = Next_free (if Suc j = n then None else Some (i, Suc j))) \<Longrightarrow>
   mp_chain w (if k = n then None else Some (i, k)) (map (Pair i) [k..<n])"
proof (induction "n - k" arbitrary: k)
  case (Suc d)
  then have lt: "k < n" by simp
  have "mp_chain w (if Suc k = n then None else Some (i, Suc k)) (map (Pair i) [Suc k..<n])"
    using Suc.hyps(1) [of "Suc k"] Suc.hyps(2) Suc.prems lt by simp
  then show ?case using lt Suc.prems(2) [of k] by (simp add: upt_conv_Cons)
qed simp

definition mp_area :: "kst \<Rightarrow> nat \<Rightarrow> mpblock set" where
  "mp_area s i = Pair i ` {..<unat (block_total_count (mp_of s i))}"

definition mp_state :: "kst \<Rightarrow> nat \<Rightarrow> mpblock list \<Rightarrow> bool" where
  "mp_state s i fs \<longleftrightarrow> mp_chain (mpw s) (block_list (mp_of s i)) fs \<and> distinct fs \<and> set fs \<subseteq> mp_area s i \<and>
     length fs = unat (block_free_count (mp_of s i)) \<and>
     (\<forall>b \<in> mp_area s i - set fs. mpw s b = Owned_by i)"

definition mp_ok :: "kst \<Rightarrow> nat \<Rightarrow> bool" where
  "mp_ok s i \<longleftrightarrow>
     (tls s (Susp (Mp_q i)) \<noteq> [] \<longrightarrow> rt_object_get_type (mp_type (mp_of s i)) = RT_Object_Class_MemPool) \<and>
     (rt_object_get_type (mp_type (mp_of s i)) = RT_Object_Class_MemPool \<longrightarrow> (\<exists>fs. mp_state s i fs))"

definition mp_inv :: "kst \<Rightarrow> bool" where
  "mp_inv s \<longleftrightarrow> (\<forall>i. mp_ok s i)"

definition is_mp_q :: "ipcref \<Rightarrow> bool" where
  "is_mp_q q \<longleftrightarrow> (\<exists>i. q = Mp_q i)"

lemma mp_state_ipc: "mps (ipc s') = mps (ipc s) \<Longrightarrow> mpw s' = mpw s \<Longrightarrow> mp_state s' i fs = mp_state s i fs"
  by (simp add: mp_state_def mp_area_def)

interpretation mpc: object_class is_mp_q "\<lambda>c. (mps c, mp_words c)" mp_inv
proof
  fix s s'
  assume *: "mp_inv s" "(mps (ipc s'), mpw s') = (mps (ipc s), mpw s)" "shrunk is_mp_q s s'"
  have "tls s (Susp (Mp_q i)) = [] \<Longrightarrow> tls s' (Susp (Mp_q i)) = []" for i
    using shrunkD(3) [OF *(3)] by (auto simp: is_mp_q_def)
  moreover have "mp_state s' = mp_state s" using *(2) mp_state_ipc [of s' s] by (intro ext) auto
  ultimately show "mp_inv s'" using *(1,2) unfolding mp_inv_def mp_ok_def by auto
qed

lemma upd_mp_simps [simp]:
  "threads (upd_mp i f s) = threads s" "tls (upd_mp i f s) = tls s" "tm (upd_mp i f s) = tm s"
  "ready_group (upd_mp i f s) = ready_group s"
  "current (upd_mp i f s) = current s" "lock_nest (upd_mp i f s) = lock_nest s"
  "irq_nest (upd_mp i f s) = irq_nest s" "mpw (upd_mp i f s) = mpw s"
  "mps (ipc (upd_mp i f s)) j = (if j = i then f (mp_of s i) else mp_of s j)"
  "kinv_but X (upd_mp i f s) = kinv_but X s" "shrunk own s' (upd_mp i f s) = shrunk own s' s"
  by (simp_all add: upd_mp_def)

lemma set_word_simps [simp]:
  "threads (set_word b v s) = threads s" "tls (set_word b v s) = tls s" "tm (set_word b v s) = tm s"
  "ready_group (set_word b v s) = ready_group s"
  "current (set_word b v s) = current s" "lock_nest (set_word b v s) = lock_nest s"
  "irq_nest (set_word b v s) = irq_nest s" "mpw (set_word b v s) = (mpw s)(b := v)"
  "mps (ipc (set_word b v s)) = mps (ipc s)"
  "kinv_but X (set_word b v s) = kinv_but X s" "shrunk own s' (set_word b v s) = shrunk own s' s"
  by (simp_all add: set_word_def)

text \<open>The areas of two pools are disjoint, so a change of one pool leaves the others alone.\<close>

lemma mp_state_other:
  assumes "\<And>b. fst b \<noteq> i \<Longrightarrow> mpw s' b = mpw s b" "mp_of s' j = mp_of s j" "j \<noteq> i" "mp_state s j fs"
  shows "mp_state s' j fs"
proof -
  have "mpw s' b = mpw s b" if "b \<in> mp_area s j" for b
    using that assms(1) [of b] assms(3) by (auto simp: mp_area_def)
  moreover have "mp_area s' j = mp_area s j" by (simp add: mp_area_def assms(2))
  moreover have "mp_chain (mpw s') (block_list (mp_of s j)) fs = mp_chain (mpw s) (block_list (mp_of s j)) fs"
    using assms(4) calculation(1) by (intro mp_chain_cong) (auto simp: mp_state_def)
  ultimately show ?thesis using assms(2,4) by (auto simp: mp_state_def)
qed

lemma mp_take_law:
  assumes "mp_state s i fs" "block_free_count (mp_of s i) \<noteq> 0"
  shows "\<exists>b bs s'. fs = b # bs \<and> mp_take i s = Some (b, s') \<and> mp_state s' i bs \<and> b \<in> mp_area s i \<and>
    mp_area s' i = mp_area s i \<and> mp_type (mp_of s' i) = mp_type (mp_of s i) \<and>
    (\<forall>j. j \<noteq> i \<longrightarrow> mp_of s' j = mp_of s j) \<and> (\<forall>c. c \<noteq> b \<longrightarrow> mpw s' c = mpw s c) \<and>
    threads s' = threads s \<and> tls s' = tls s \<and> current s' = current s \<and> kinv_but X s' = kinv_but X s"
proof -
  obtain b bs where fs: "fs = b # bs"
    using assms by (cases fs) (auto simp: mp_state_def unat_eq_zero)
  obtain n where n: "mpw s b = Next_free n" "mp_chain (mpw s) n bs" "block_list (mp_of s i) = Some b"
    using assms(1) fs by (auto simp: mp_state_def split: mpword.splits)
  have "mp_take i s = Some (b, set_word b (Owned_by i) (upd_mp i (\<lambda>x. x\<lparr>block_list := n\<rparr>)
      (upd_mp i (\<lambda>x. x\<lparr>block_free_count := block_free_count x - 1\<rparr>) s)))"
    using n by (simp add: mp_take_def)
  then show ?thesis
    using assms n fs unat_minus1 [OF assms(2)]
    by (auto simp: mp_state_def mp_area_def)
qed

lemma mp_give_law:
  assumes "mp_state s i fs" "b \<in> mp_area s i" "mpw s b = Owned_by i"
  shows "mp_state (mp_give i b s) i (b # fs)"
proof -
  have nb: "b \<notin> set fs" using assms(1,3) mp_chain_links by (fastforce simp: mp_state_def)
  have fin: "finite (mp_area s i)" "card (mp_area s i) = unat (block_total_count (mp_of s i))"
    by (simp_all add: mp_area_def card_image inj_on_def)
  have sub: "set (b # fs) \<subseteq> mp_area s i" using assms(1,2) by (simp add: mp_state_def)
  have "distinct (b # fs)" using assms(1) nb by (simp add: mp_state_def)
  then have "length (b # fs) \<le> unat (block_total_count (mp_of s i))"
    using card_mono [OF fin(1) sub] distinct_card [of "b # fs"] fin(2) by simp
  then have "unat (block_free_count (mp_of s i)) < unat (block_total_count (mp_of s i))"
    using assms(1) by (simp add: mp_state_def)
  then have "block_free_count (mp_of s i) < block_total_count (mp_of s i)" by (simp add: word_less_nat_alt)
  then have e: "unat (block_free_count (mp_of s i) + 1) = Suc (unat (block_free_count (mp_of s i)))"
    using unat_plus1 by simp
  show ?thesis
    using assms nb e by (auto simp: mp_state_def mp_give_def mp_area_def Let_def)
qed

text \<open>After the blocks are linked, all of them are free.\<close>

definition mp_linked :: "nat \<Rightarrow> nat \<Rightarrow> (mpblock \<Rightarrow> mpword) \<Rightarrow> mpblock \<Rightarrow> mpword" where
  "mp_linked i n w b = (if fst b = i \<and> snd b < n then Next_free (Some (i, Suc (snd b))) else w b)"

lemma mp_linked_Suc: "(mp_linked i n w)((i, n) := Next_free (Some (i, Suc n))) = mp_linked i (Suc n) w"
  by (auto simp: mp_linked_def fun_eq_iff less_Suc_eq)

lemma mp_link_words:
  "fold (\<lambda>offset s. set_word (i, offset) (Next_free (Some (i, Suc offset))) s) [0..<n] s =
     s\<lparr>ipc := (ipc s)\<lparr>mp_words := mp_linked i n (mpw s)\<rparr>\<rparr>"
proof (induction n)
  case 0
  have "mp_linked i 0 (mpw s) = mpw s" by (simp add: mp_linked_def fun_eq_iff)
  then show ?case by simp
next
  case (Suc n)
  then show ?case by (simp add: set_word_def mp_linked_Suc)
qed

lemma mp_link_law:
  assumes "mp_link_blocks i s = Some s'" "block_free_count (mp_of s i) = block_total_count (mp_of s i)"
  shows "mp_state s' i (map (Pair i) [0..<unat (block_total_count (mp_of s i))])"
    "mp_type (mp_of s' i) = mp_type (mp_of s i)" "j \<noteq> i \<Longrightarrow> mp_of s' j = mp_of s j"
    "fst b \<noteq> i \<Longrightarrow> mpw s' b = mpw s b" "s'\<lparr>ipc := ipc s\<rparr> = s"
    "mp_area s' i = mp_area s i" "(ipc s')\<lparr>mps := mps (ipc s), mp_words := mpw s\<rparr> = ipc s"
proof -
  define n where "n = unat (block_total_count (mp_of s i))"
  define u where "u = s\<lparr>ipc := (ipc s)\<lparr>mp_words := mp_linked i n (mpw s)\<rparr>\<rparr>"
  have n: "0 < n" and s': "s' = upd_mp i (\<lambda>x. x\<lparr>block_list := Some (i, 0)\<rparr>) (set_word (i, n - 1) (Next_free None) u)"
    using assms(1) unfolding mp_link_blocks_def mp_link_words u_def n_def by (auto simp: Let_def split: if_splits)
  have w: "mpw s' b = (if b = (i, n - 1) then Next_free None
      else if fst b = i \<and> snd b < n then Next_free (Some (i, Suc (snd b))) else mpw s b)" for b
    by (simp add: s' u_def mp_linked_def)
  have m: "mps (ipc u) = mps (ipc s)" by (simp add: u_def)
  have "mp_chain (mpw s') (if 0 = n then None else Some (i, 0)) (map (Pair i) [0..<n])"
    by (rule mp_chain_upto) (auto simp: w)
  then show "mp_state s' i (map (Pair i) [0..<unat (block_total_count (mp_of s i))])"
    using n assms(2) by (auto simp: mp_state_def s' m mp_area_def n_def [symmetric] distinct_map inj_on_def)
  show "mp_type (mp_of s' i) = mp_type (mp_of s i)" "j \<noteq> i \<Longrightarrow> mp_of s' j = mp_of s j"
    "fst b \<noteq> i \<Longrightarrow> mpw s' b = mpw s b" "mp_area s' i = mp_area s i"
    using w [of b] by (auto simp: s' m mp_area_def)
  show "s'\<lparr>ipc := ipc s\<rparr> = s" "(ipc s')\<lparr>mps := mps (ipc s), mp_words := mpw s\<rparr> = ipc s"
    by (simp_all add: s' upd_mp_def set_word_def u_def)
qed

subsection \<open>The operations keep the invariant\<close>

definition kmp_inv :: "kst \<Rightarrow> bool" where
  "kmp_inv s \<longleftrightarrow> kinv s \<and> mp_inv s"

abbreviation mp_live :: "kst \<Rightarrow> nat \<Rightarrow> bool" where
  "mp_live s i \<equiv> rt_object_get_type (mp_type (mp_of s i)) = RT_Object_Class_MemPool"

lemma kmp_invD: "kmp_inv s \<Longrightarrow> mp_live s i \<Longrightarrow> \<exists>fs. mp_state s i fs"
  by (simp add: kmp_inv_def mp_inv_def mp_ok_def)

lemma mp_inv_one:
  assumes "mp_inv s" "mp_ok s' i" "\<And>j. j \<noteq> i \<Longrightarrow> mp_of s' j = mp_of s j" "\<And>b. fst b \<noteq> i \<Longrightarrow> mpw s' b = mpw s b"
    "\<And>j. j \<noteq> i \<Longrightarrow> tls s' (Susp (Mp_q j)) = tls s (Susp (Mp_q j))"
  shows "mp_inv s'"
  unfolding mp_inv_def
proof
  fix j
  show "mp_ok s' j"
  proof (cases "j = i")
    case False
    have "mp_ok s j" using assms(1) by (simp add: mp_inv_def)
    moreover have "mp_state s j fs \<Longrightarrow> mp_state s' j fs" for fs
      using mp_state_other [of i s' s j fs] assms(3,4) False by blast
    ultimately show ?thesis using assms(3,5) False unfolding mp_ok_def by metis
  qed (use assms(2) in simp)
qed

lemma kmp_schedule: "rt_schedule s = Some s' \<Longrightarrow> kmp_inv s \<Longrightarrow> kmp_inv s'"
  by (auto simp: kmp_inv_def intro: kinv_schedule mpc.ok_schedule)

lemma kmp_link:
  assumes "mp_link_blocks i s = Some s'" "block_free_count (mp_of s i) = block_total_count (mp_of s i)"
    "tls s (Susp (Mp_q i)) = []" "kinv s0" "mp_inv s0" "\<And>j. j \<noteq> i \<Longrightarrow> mp_of s j = mp_of s0 j" "mpw s = mpw s0"
    "s\<lparr>ipc := ipc s0\<rparr> = s0"
  shows "kmp_inv s'"
proof -
  note l = mp_link_law [OF assms(1,2)]
  have eq: "tls s' = tls s" "tls s = tls s0" "s'\<lparr>ipc := ipc s0\<rparr> = s0"
    using l(5) assms(8) by (metis kst.ext_inject kst.surjective kst.update_convs(9))+
  have "kinv s'" using assms(4) eq(3) by (metis kinv_frame(1))
  moreover have "mp_ok s' i" using l(1) assms(3) by (auto simp: mp_ok_def eq)
  then have "mp_inv s'" by (rule mp_inv_one [OF assms(5)]) (use l assms(6,7) eq in auto)
  ultimately show ?thesis by (simp add: kmp_inv_def)
qed

lemma kmp_init:
  assumes "rt_mp_init i sz bs s = Some (e, s')" "kmp_inv s"
  shows "kmp_inv s'" "e = RT_EOK"
proof -
  have q: "tls s (Susp (Mp_q i)) = []"
    using assms by (auto simp: rt_mp_init_def object_init_def bind_Some kmp_inv_def mp_inv_def mp_ok_def split: if_splits)
  then have tls: "ls_init (tls s) (Susp (Mp_q i)) = tls s" by (simp add: ls_init_def fun_upd_idem)
  define total where "total = (sz AND NOT 7) div (rt_align bs + 8)"
  define f where "f = (\<lambda>x :: rt_mempool. x\<lparr>mp_type := 136, mp_size := sz AND NOT 7, mp_block_size := rt_align bs,
    block_total_count := total, block_free_count := total\<rparr>)"
  have "(upd_mp i g s)\<lparr>tls := tls s\<rparr> = upd_mp i g s" for g by (simp add: upd_mp_def)
  note upd = this
  have l: "mp_link_blocks i (upd_mp i f s) = Some s'" and e: "e = RT_EOK"
    using assms(1) by (auto simp: rt_mp_init_def object_init_def bind_Some Let_def tls upd total_def f_def split: if_splits)
  have f: "block_free_count (f x) = block_total_count (f x)" for x by (simp add: f_def)
  show "kmp_inv s'"
    using kmp_link [OF l _ _ _ _ _ _, of s] f q assms(2) by (simp add: kmp_inv_def upd_mp_def)
  show "e = RT_EOK" by (rule e)
qed

lemma kmp_upd_type:
  assumes "kmp_inv s" "tls s (Susp (Mp_q i)) = []"
  shows "kmp_inv (upd_mp i (\<lambda>x. x\<lparr>mp_type := object_detach (mp_type x)\<rparr>) s)"
  using assms mp_inv_one [of s "upd_mp i (\<lambda>x. x\<lparr>mp_type := object_detach (mp_type x)\<rparr>) s" i]
  by (simp add: kmp_inv_def mp_ok_def)

lemma kmp_detach: "rt_mp_detach i s = Some (e, s') \<Longrightarrow> kmp_inv s \<Longrightarrow> kmp_inv s'"
  using mpc.ok_resume_all [of s "Mp_q i" 1]
  by (auto simp: rt_mp_detach_def bind_Some kmp_inv_def [symmetric] intro!: kmp_upd_type split: if_splits)
     (auto simp: kmp_inv_def)

lemma kmp_delete: "rt_mp_delete i s = Some (e, s') \<Longrightarrow> kmp_inv s \<Longrightarrow> kmp_inv s'"
  using mpc.ok_resume_all [of s "Mp_q i" 1]
  by (auto simp: rt_mp_delete_def bind_Some kmp_inv_def [symmetric] intro!: kmp_upd_type split: if_splits)
     (auto simp: kmp_inv_def)

subsection \<open>The list of free blocks\<close>

fun mp_walk :: "nat \<Rightarrow> (mpblock \<Rightarrow> mpword) \<Rightarrow> mpblock option \<Rightarrow> mpblock list" where
  "mp_walk 0 w h = []"
| "mp_walk (Suc n) w h =
     (case h of None \<Rightarrow> [] | Some b \<Rightarrow> b # (case w b of Next_free m \<Rightarrow> mp_walk n w m | Owned_by _ \<Rightarrow> []))"

definition mp_free_list :: "kst \<Rightarrow> nat \<Rightarrow> mpblock list" where
  "mp_free_list s i = mp_walk (unat (block_free_count (mp_of s i))) (mpw s) (block_list (mp_of s i))"

lemma mp_walk_chain: "mp_chain w h bs \<Longrightarrow> mp_walk (length bs) w h = bs"
  by (induction bs arbitrary: h) (auto split: mpword.splits)

lemma mp_free_list_state: "mp_state s i fs \<Longrightarrow> mp_free_list s i = fs"
  using mp_walk_chain [of "mpw s" "block_list (mp_of s i)" fs] by (simp add: mp_state_def mp_free_list_def)

text \<open>An allocated block was free, and its word names the pool from then on.\<close>

lemma mp_take_result:
  assumes "kmp_inv s" "mp_live s i" "block_free_count (mp_of s i) \<noteq> 0"
  shows "\<exists>b s'. mp_take i s = Some (b, s') \<and> kmp_inv s' \<and> b \<in> mp_area s i \<and> mpw s' b = Owned_by i \<and>
    mp_free_list s i = b # mp_free_list s' i \<and> mp_area s' i = mp_area s i \<and> mp_live s' i \<and> tls s' = tls s"
proof -
  obtain fs where fs: "mp_state s i fs" using kmp_invD [OF assms(1,2)] by blast
  obtain b bs s' where t: "fs = b # bs" "mp_take i s = Some (b, s')" "mp_state s' i bs" "b \<in> mp_area s i"
      "mp_area s' i = mp_area s i" "mp_type (mp_of s' i) = mp_type (mp_of s i)"
      "\<forall>j. j \<noteq> i \<longrightarrow> mp_of s' j = mp_of s j" "\<forall>c. c \<noteq> b \<longrightarrow> mpw s' c = mpw s c"
      "tls s' = tls s" "kinv s' = kinv s"
    using mp_take_law [OF fs assms(3), where X = "{}"] by blast
  have "b \<notin> set bs" using fs t(1) by (simp add: mp_state_def)
  then have own: "mpw s' b = Owned_by i" using t(3-5) by (simp add: mp_state_def)
  have "mp_ok s' i" using t(3,6,9) assms(1) by (auto simp: mp_ok_def kmp_inv_def mp_inv_def)
  moreover have "\<And>c. fst c \<noteq> i \<Longrightarrow> mpw s' c = mpw s c" using t(4,8) by (auto simp: mp_area_def)
  ultimately have "mp_inv s'"
    using mp_inv_one [of s s' i] t(7,9) assms(1) by (simp add: kmp_inv_def)
  then show ?thesis
    using t own assms mp_free_list_state [OF fs] mp_free_list_state [OF t(3)] by (simp add: kmp_inv_def)
qed

text \<open>Freeing returns the block to the pool it came from and wakes the first waiting thread.\<close>

lemma mp_free_result:
  assumes run: "rt_mp_free (Some b) s = Some s'" and inv: "kmp_inv s" and live: "mp_live s i"
    and area: "b \<in> mp_area s i"
  shows "kmp_inv s'" "mp_free_list s' i = b # mp_free_list s i" "mpw s b = Owned_by i"
    "tls s (Susp (Mp_q i)) = t # ts \<Longrightarrow> runnable (threads s' t) \<and> error (threads s' t) = RT_EOK"
proof -
  obtain fs where fs: "mp_state s i fs" using kmp_invD [OF inv live] by blast
  have "\<exists>j. mpw s b = Owned_by j" using run by (auto simp: rt_mp_free_def split: mpword.splits)
  then have own: "mpw s b = Owned_by i"
    using fs area mp_chain_links [of "mpw s" "block_list (mp_of s i)" fs b] by (auto simp: mp_state_def)
  define s1 where "s1 = mp_give i b s"
  have st1: "mp_state s1 i (b # fs)" unfolding s1_def by (rule mp_give_law [OF fs area own])
  have fr: "tls s1 = tls s" "kinv s1 = kinv s" "mp_type (mp_of s1 i) = mp_type (mp_of s i)"
      "j \<noteq> i \<Longrightarrow> mp_of s1 j = mp_of s j" "fst c \<noteq> i \<Longrightarrow> mpw s1 c = mpw s c" for j c
    using area by (auto simp: s1_def mp_give_def mp_area_def Let_def)
  have "mp_ok s1 i" using st1 live by (auto simp: mp_ok_def fr(3))
  then have "mp_inv s1" using mp_inv_one [of s s1 i] fr inv by (simp add: kmp_inv_def)
  then have k1: "kmp_inv s1" using inv fr(2) by (simp add: kmp_inv_def)
  have deq: "(case tls s (Susp (Mp_q i)) of [] \<Rightarrow> s' = s1 | _ \<Rightarrow> wake_first (Mp_q i) s1 = Some s')"
  proof (cases "tls s (Susp (Mp_q i))")
    case (Cons u us)
    then have "tls s1 (Susp (Mp_q i)) = u # us" by (simp add: fr(1))
    moreover from this obtain s2 where "rt_susp_list_dequeue (Mp_q i) RT_EOK s1 = Some (Some u, s2)"
      using kinv_dequeue [of s1 "Mp_q i" u us RT_EOK] k1 by (auto simp: kmp_inv_def)
    ultimately show ?thesis using run own Cons by (simp add: rt_mp_free_def s1_def [symmetric] wake_first_def)
  qed (use run own in \<open>simp add: rt_mp_free_def s1_def [symmetric] fr(1)\<close>)
  have kk: "kinv s1" using k1 by (simp add: kmp_inv_def)
  have ipc: "ipc s' = ipc s1" and inv': "kmp_inv s'"
    using deq k1 wake_first_result(1,2,3) [OF _ kk] mpc.keep [of s1 s'] by (auto simp: kmp_inv_def split: list.splits)
  show "kmp_inv s'" by (rule inv')
  show "mp_free_list s' i = b # mp_free_list s i"
    using mp_free_list_state [OF fs] mp_free_list_state [OF st1] by (simp add: mp_free_list_def ipc)
  show "mpw s b = Owned_by i" by (rule own)
  show "tls s (Susp (Mp_q i)) = t # ts \<Longrightarrow> runnable (threads s' t) \<and> error (threads s' t) = RT_EOK"
    using deq wake_first_result(5) [OF _ kk] by (simp add: fr(1))
qed

subsection \<open>Allocating with a timeout\<close>

text \<open>
  When the scheduler is available and a thread is ready to run, the loop is left at its first
  round: the thread sleeps, or gets a block, or finds no block and does not wait.
\<close>

lemma mp_alloc_cases:
  assumes run: "rt_mp_alloc i time s = Some (r, s')" and inv: "kmp_inv s" and live: "mp_live s i"
    and cur: "current s = Some t" "th_stat (threads s t) = RT_THREAD_RUNNING" "lock_nest s = 0" "ready_group s \<noteq> 0"
  obtains (got) b where "mp_take i s = Some (b, s')" "r = Ret (Some b)" "block_free_count (mp_of s i) \<noteq> 0"
  | (none) "block_free_count (mp_of s i) = 0" "time = 0" "r = Ret None" "s' = rt_set_errno (- RT_ETIMEOUT) s"
  | (slept) "block_free_count (mp_of s i) = 0" "time \<noteq> 0" "r = Wait" "kinv s'" "current s' \<noteq> Some t"
      "blocked t (Mp_q i) RT_IPC_FLAG_FIFO time (upd_thread t (\<lambda>x. x\<lparr>error := RT_EOK\<rparr>) s) s'"
proof (cases "block_free_count (mp_of s i) = 0 \<and> time \<noteq> 0")
  case False
  then show thesis
    using run got none by (auto simp: rt_mp_alloc.simps [of i time s] bind_Some split: if_splits)
next
  case True
  let ?s = "upd_thread t (\<lambda>x. x\<lparr>error := RT_EOK\<rparr>) s"
  have k: "kinv ?s" using inv by (simp add: kmp_inv_def kinv_set_error)
  have st: "th_stat (threads ?s t) = RT_THREAD_RUNNING" using cur(2) by (simp add: th_stat_def)
  obtain s1 where s1: "rt_thread_suspend_to_list t (Some (Mp_q i)) RT_IPC_FLAG_FIFO RT_UNINTERRUPTIBLE ?s = Some (0, s1)"
    using suspend_total [OF k _ st, of RT_IPC_FLAG_FIFO RT_UNINTERRUPTIBLE "Some (Mp_q i)"] cur(1) by auto
  obtain s2 where s2: "thread_block t time s1 = Some s2"
    using run True cur(1) s1
    by (auto simp: rt_mp_alloc.simps [of i time s] bind_Some rt_thread_self_def Let_def split: if_splits)
  have b: "kinv s2" "blocked t (Mp_q i) RT_IPC_FLAG_FIFO time ?s s2" "current s2 \<noteq> Some t"
    using block_result [OF k _ s1 s2] cur by auto
  then have "s' = s2" "r = Wait"
    using run True cur(1) s1 s2
    by (auto simp: rt_mp_alloc.simps [of i time s] bind_Some rt_thread_self_def Let_def split: if_splits)
  then show thesis using slept True b by simp
qed

lemma blocked_mp_inv:
  assumes "blocked t (Mp_q i) fl timeout s s'" "mp_inv s" "mp_live s i"
  shows "mp_inv s'"
proof (rule mp_inv_one [OF assms(2), of s' i])
  have "mp_state s' i = mp_state s i" using assms(1) mp_state_ipc [of s' s] by (intro ext) (simp add: blocked_def)
  then show "mp_ok s' i" using assms by (simp add: mp_ok_def mp_inv_def blocked_def)
qed (use assms(1) in \<open>auto simp: blocked_def\<close>)

lemma kinv_set_errno [simp]: "kinv s \<Longrightarrow> kinv (rt_set_errno e s)"
  by (simp add: rt_set_errno_def kinv_set_error split: option.split)

lemma kmp_alloc:
  assumes run: "rt_mp_alloc i time s = Some (r, s')" and inv: "kmp_inv s" and live: "mp_live s i"
    and cur: "current s = Some t" "th_stat (threads s t) = RT_THREAD_RUNNING" "lock_nest s = 0" "ready_group s \<noteq> 0"
  shows "kmp_inv s'"
    "case mp_free_list s i of
       b # bs \<Rightarrow> r = Ret (Some b) \<and> mp_free_list s' i = bs \<and> b \<in> mp_area s i \<and> mpw s' b = Owned_by i
     | [] \<Rightarrow> mp_free_list s' i = [] \<and> r = (if time = 0 then Ret None else Wait)"
proof -
  obtain fs where fs: "mp_state s i fs" using kmp_invD [OF inv live] by blast
  then have empty: "mp_free_list s i = []" if "block_free_count (mp_of s i) = 0"
    using that by (simp add: mp_free_list_def)
  have "kmp_inv s' \<and> (case mp_free_list s i of
       b # bs \<Rightarrow> r = Ret (Some b) \<and> mp_free_list s' i = bs \<and> b \<in> mp_area s i \<and> mpw s' b = Owned_by i
     | [] \<Rightarrow> mp_free_list s' i = [] \<and> r = (if time = 0 then Ret None else Wait))"
    using run inv live cur
  proof (cases rule: mp_alloc_cases)
    case (got b)
    then show ?thesis using mp_take_result [OF inv live got(3)] by auto
  next
    case none
    have "ipc s' = ipc s" "shrunk is_mp_q s s'"
      by (auto simp: none(4) rt_set_errno_def wait_eq_def intro: shrunk_upd_thread split: option.split)
    then show ?thesis
      using none inv mpc.keep [of s s'] empty by (auto simp: kmp_inv_def mp_free_list_def)
  next
    case slept
    have "mp_inv (upd_thread t (\<lambda>x. x\<lparr>error := RT_EOK\<rparr>) s)" using inv by (simp add: kmp_inv_def mpc.ok_set_error)
    then have "kmp_inv s'" using blocked_mp_inv [OF slept(6)] live slept(4) by (simp add: kmp_inv_def)
    then show ?thesis using slept empty by (simp add: mp_free_list_def blocked_def)
  qed
  then show "kmp_inv s'"
    "case mp_free_list s i of
       b # bs \<Rightarrow> r = Ret (Some b) \<and> mp_free_list s' i = bs \<and> b \<in> mp_area s i \<and> mpw s' b = Owned_by i
     | [] \<Rightarrow> mp_free_list s' i = [] \<and> r = (if time = 0 then Ret None else Wait)" by blast+
qed

end
