(* ===== verification/RT_Total.thy ===== *)
theory RT_Total
  imports RT_ThreadInv RT_Event RT_Mailbox RT_MsgQueue RT_Mempool
begin

text \<open>
  The operations return. A call of the model has no result when an assertion of the code
  fails or the scheduler finds a corrupted stack; under the invariant, in the context the
  operation asks for and with intact stacks, neither happens.
\<close>

definition stacks_ok :: "kst \<Rightarrow> bool" where
  "stacks_ok s \<longleftrightarrow> (\<forall>t. th_stat (threads s t) \<noteq> RT_THREAD_INIT \<and> th_stat (threads s t) \<noteq> RT_THREAD_CLOSE \<longrightarrow>
     stack_ok (threads s t))"

text \<open>A thread that runs outside critical sections and interrupts, with a thread ready behind it.\<close>

definition in_thread :: "tid \<Rightarrow> kst \<Rightarrow> bool" where
  "in_thread t s \<longleftrightarrow> current s = Some t \<and> th_stat (threads s t) = RT_THREAD_RUNNING \<and> lock_nest s = 0 \<and>
     irq_nest s = 0 \<and> ready_group s \<noteq> 0"

lemma in_threadD:
  assumes "in_thread t s"
  shows "current s = Some t" "th_stat (threads s t) = RT_THREAD_RUNNING" "lock_nest s = 0" "irq_nest s = 0"
    "ready_group s \<noteq> 0" "debug_scheduler_available b s = Some ()" "rt_thread_self s = Some t"
  using assms by (auto simp: in_thread_def debug_scheduler_available_def rt_critical_level_def
      debug_in_thread_context_def debug_not_in_interrupt_def rt_interrupt_get_nest_def rt_thread_self_def)

lemma schedule_returns:
  "kinv s \<Longrightarrow> stacks_ok s \<Longrightarrow> current s \<noteq> None \<Longrightarrow> \<exists>s'. rt_schedule s = Some s'"
  by (rule schedule_total [OF kinvD(1)]) (auto simp: stacks_ok_def)

lemma stack_ok_wake: "wake_eq x y \<Longrightarrow> stack_ok x = stack_ok y"
  by (cases x; cases y; simp add: wake_eq_def stack_ok_def)

lemma stacks_ok_woken:
  assumes "woken T s s'" "stacks_ok s" "\<forall>t\<in>T. th_suspended (threads s t)"
  shows "stacks_ok s'"
  unfolding stacks_ok_def
proof (intro allI impI)
  fix t
  assume t: "th_stat (threads s' t) \<noteq> RT_THREAD_INIT \<and> th_stat (threads s' t) \<noteq> RT_THREAD_CLOSE"
  show "stack_ok (threads s' t)"
  proof (cases "t \<in> T")
    case True
    then have "th_stat (threads s t) \<noteq> RT_THREAD_INIT" "th_stat (threads s t) \<noteq> RT_THREAD_CLOSE"
      using assms(3) by (auto simp: suspended_stat)
    moreover have "wake_eq (threads s' t) (threads s t)" using assms(1) True by (simp add: woken_def)
    ultimately show ?thesis using assms(2) stack_ok_wake [of "threads s' t"] by (simp add: stacks_ok_def)
  next
    case False
    then show ?thesis using assms(1,2) t by (simp add: woken_def stacks_ok_def)
  qed
qed

lemma stacks_ok_thread:
  assumes "stacks_ok s" "th_stat (f (threads s t)) = th_stat (threads s t)"
    "stack_ok (f (threads s t)) = stack_ok (threads s t)"
  shows "stacks_ok (upd_thread t f s)"
  using assms by (simp add: stacks_ok_def)

subsection \<open>Semaphores\<close>

lemma sem_release_returns:
  assumes inv: "kinv s" and st: "stacks_ok s" and cur: "current s \<noteq> None"
    and ty: "rt_object_get_type (sem_type (sem_of s i)) = RT_Object_Class_Semaphore"
  shows "\<exists>e s'. rt_sem_release i s = Some (e, s')"
proof (cases "tls s (Susp (Sem_q i))")
  case (Cons t ts)
  obtain s1 where s1: "rt_susp_list_dequeue (Sem_q i) RT_EOK s = Some (Some t, s1)" "kinv s1" "woken {t} s s1"
    using kinv_dequeue [OF inv Cons] by blast
  have "t \<in> set (tls s (Susp (Sem_q i)))" using Cons by simp
  then have "th_suspended (threads s t)"
    using thread_okD(3) [OF sched_invD(3) [OF kinvD(1) [OF inv], of t]] by simp
  then have "stacks_ok s1" using stacks_ok_woken [OF s1(3) st] by simp
  moreover have "current s1 \<noteq> None" using s1(3) cur by (simp add: woken_def)
  ultimately obtain s2 where "rt_schedule s1 = Some s2" using schedule_returns [OF s1(2)] by blast
  then show ?thesis using ty Cons s1(1) by (simp add: rt_sem_release_def)
qed (use ty in \<open>simp add: rt_sem_release_def\<close>)

subsection \<open>Blocking\<close>

lemma arm_total:
  assumes inv: "kinv s" and su: "th_suspended (threads s t)" and v: "v < 0x7fffffff"
  shows "\<exists>s'. thread_timer_arm t v s = Some s'"
proof -
  have ty: "rt_object_get_type (th_type (threads s t)) = RT_Object_Class_Thread"
    and tt: "tt_ok t (timers (tm s) (Thread_timer t))"
    using kinvD(3) [OF inv, of t] su by (auto simp: link_ok_def suspended_stat)
  obtain e a m where c: "rt_timer_control (Thread_timer t) RT_TIMER_CTRL_SET_TIME (Arg_tick v) (tm s) = Some (e, a, m)"
    using tt v by (simp add: rt_timer_control_def timer_set_time_def tt_ok_def)
  have "tt_ok t (timers m (Thread_timer t))" by (rule tt_ok_set_time [OF c tt])
  then show ?thesis
    using c ty timer_start_thread [of t "s\<lparr>tm := m\<rparr>"] by (simp add: thread_timer_arm_def on_tm_r_def)
qed

lemma stacks_ok_asleep:
  assumes "asleep t sl fl s s1" "stacks_ok s" "th_stat (threads s t) = RT_THREAD_RUNNING"
  shows "stacks_ok s1"
proof -
  have "stack_ok (threads s1 t)"
    using assms stack_ok_wake [of "threads s1 t" "threads s t"] by (simp add: asleep_def stacks_ok_def)
  moreover have "threads s1 u = threads s u" if "u \<noteq> t" for u using assms(1) that by (simp add: asleep_def)
  ultimately have "th_stat (threads s1 u) \<noteq> RT_THREAD_INIT \<and> th_stat (threads s1 u) \<noteq> RT_THREAD_CLOSE \<Longrightarrow> stack_ok (threads s1 u)" for u
    using assms(2) by (cases "u = t") (auto simp: stacks_ok_def)
  then show ?thesis by (simp add: stacks_ok_def)
qed

lemma arm_returns:
  assumes "kinv s" "stacks_ok s" "th_suspended (threads s t)" "timeout < 0x7fffffff"
  shows "\<exists>s'. (if 0 < timeout then thread_timer_arm t (of_int timeout) s else Some s) = Some s' \<and>
    kinv s' \<and> stacks_ok s' \<and> current s' = current s"
proof (cases "0 < timeout")
  case True
  have "of_int timeout < (0x7fffffff :: u32)"
    using True assms(4) by (simp add: word_less_def uint_word_of_int)
  then obtain s' where s': "thread_timer_arm t (of_int timeout) s = Some s'"
    using arm_total [OF assms(1,3)] by blast
  note ar = arm_result [OF assms(1,3) s']
  have "threads s' = (threads s)(t := (threads s t)\<lparr>ttmr_set := True\<rparr>)" using ar by (simp add: armed_def)
  then have "stacks_ok s'" using assms(2) by (simp add: stacks_ok_def stack_ok_def th_stat_def)
  then show ?thesis using True s' ar by (simp add: armed_def)
qed (use assms in simp)

lemma block_total:
  assumes inv: "kinv s" and st: "stacks_ok s" and cur: "current s = Some t"
    and running: "th_stat (threads s t) = RT_THREAD_RUNNING" and fl: "fl = RT_IPC_FLAG_FIFO \<or> fl = RT_IPC_FLAG_PRIO"
    and sf: "sf = RT_INTERRUPTIBLE \<or> sf = RT_KILLABLE \<or> sf = RT_UNINTERRUPTIBLE" and v: "timeout < 0x7fffffff"
  shows "\<exists>s1 s'. rt_thread_suspend_to_list t (Some q) fl sf s = Some (0, s1) \<and> thread_block t timeout s1 = Some s'"
proof -
  obtain s1 where s1: "rt_thread_suspend_to_list t (Some q) fl sf s = Some (0, s1)"
    using suspend_total [OF inv cur running fl sf] by blast
  have k1: "kinv s1" and a: "asleep t (Some q) fl s s1"
    using kinv_suspend [OF inv s1] by simp_all
  have "th_suspended (threads s1 t)" "current s1 = Some t" using a cur by (simp_all add: asleep_def)
  then obtain s2 where s2: "(if 0 < timeout then thread_timer_arm t (of_int timeout) s1 else Some s1) = Some s2"
      "kinv s2" "stacks_ok s2" "current s2 = Some t"
    using arm_returns [OF k1 stacks_ok_asleep [OF a st running] _ v] by metis
  then obtain s' where "rt_schedule s2 = Some s'" using schedule_returns by auto
  then show ?thesis using s1 s2(1) by (auto simp: thread_block_def)
qed


text \<open>A take of a semaphore returns at once, or the caller is suspended and has lost the processor.\<close>

lemma sem_take_returns:
  assumes inv: "ksem_inv s" and st: "stacks_ok s" and ctx: "in_thread t s"
    and ty: "rt_object_get_type (sem_type (sem_of s i)) = RT_Object_Class_Semaphore"
    and sf: "sf = RT_INTERRUPTIBLE \<or> sf = RT_KILLABLE \<or> sf = RT_UNINTERRUPTIBLE" and v: "timeout < 0x7fffffff"
  shows "\<exists>s'. rt_sem_take' i timeout sf s = Some
      (if 0 < sem_value (sem_of s i) then Ret RT_EOK else if timeout = 0 then Ret (- RT_ETIMEOUT) else Wait, s') \<and>
    ksem_inv s' \<and>
    (if 0 < sem_value (sem_of s i) then sem_value (sem_of s' i) = sem_value (sem_of s i) - 1
     else sem_of s' i = sem_of s i \<and> (timeout \<noteq> 0 \<longrightarrow> th_suspended (threads s' t) \<and>
       t \<in> set (tls s' (Susp (Sem_q i))) \<and> (ttmr_set (threads s' t) \<longleftrightarrow> 0 < timeout) \<and> current s' \<noteq> Some t))"
proof -
  note c = in_threadD [OF ctx]
  have k: "kinv s" using inv by (simp add: ksem_inv_def)
  have "\<exists>s'. rt_sem_take' i timeout sf s = Some
      (if 0 < sem_value (sem_of s i) then Ret RT_EOK else if timeout = 0 then Ret (- RT_ETIMEOUT) else Wait, s') \<and>
    (if 0 < sem_value (sem_of s i) then sem_value (sem_of s' i) = sem_value (sem_of s i) - 1
     else sem_of s' i = sem_of s i \<and> (timeout \<noteq> 0 \<longrightarrow> th_suspended (threads s' t) \<and>
       t \<in> set (tls s' (Susp (Sem_q i))) \<and> (ttmr_set (threads s' t) \<longleftrightarrow> 0 < timeout) \<and> current s' \<noteq> Some t))"
  proof (cases "0 < sem_value (sem_of s i) \<or> timeout = 0")
    case True
    then show ?thesis using ty c by (auto simp: rt_sem_take'_def)
  next
    case False
    define s0 where "s0 = upd_thread t (\<lambda>x. x\<lparr>error := RT_EINTR\<rparr>) s"
    have s0: "kinv s0" "stacks_ok s0" "current s0 = Some t" "th_stat (threads s0 t) = RT_THREAD_RUNNING"
        "lock_nest s0 = 0" "ready_group s0 \<noteq> 0"
      using k st c by (simp_all add: s0_def kinv_set_error stacks_ok_thread stack_ok_def th_stat_def)
    have fl: "uint (sem_flag (sem_of s i)) = 0 \<or> uint (sem_flag (sem_of s i)) = 1"
      using sem_invD [of s i] inv ty by (auto simp: ksem_inv_def sem_ok_def)
    obtain s1 s' where s1: "rt_thread_suspend_to_list t (Some (Sem_q i)) (uint (sem_flag (sem_of s i))) sf s0 = Some (0, s1)"
        and s': "thread_block t timeout s1 = Some s'"
      using block_total [OF s0(1-4) fl sf v] by blast
    note b = block_result [OF s0(1,3) s1 s']
    have cur: "current s' \<noteq> Some t" using b s0(5,6) by simp
    have "rt_sem_take' i timeout sf s = Some (Wait, s')"
      using False ty c s1 s' cur by (simp add: rt_sem_take'_def s0_def)
    moreover have "sem_of s' i = sem_of s i" using b by (simp add: blocked_def s0_def)
    moreover have "th_suspended (threads s' t)" "t \<in> set (tls s' (Susp (Sem_q i)))"
        "ttmr_set (threads s' t) \<longleftrightarrow> 0 < timeout"
      using b by (simp_all add: blocked_def)
    ultimately show ?thesis using False cur by auto
  qed
  then show ?thesis using ksem_take [OF _ inv ty] by metis
qed


subsection \<open>Mailboxes and message queues\<close>

lemma queue_head_suspended: "kinv s \<Longrightarrow> tls s (Susp q) = t # ts \<Longrightarrow> th_suspended (threads s t)"
  using thread_okD(3) [OF sched_invD(3) [OF kinvD(1), of "{}" s t], of q] by simp

lemma wake_first_returns:
  assumes inv: "kinv s" and st: "stacks_ok s" and cur: "current s \<noteq> None"
  shows "\<exists>s'. wake_first q s = Some s'"
proof (cases "tls s (Susp q)")
  case (Cons t ts)
  obtain s1 where s1: "rt_susp_list_dequeue q RT_EOK s = Some (Some t, s1)" "kinv s1" "woken {t} s s1"
    using kinv_dequeue [OF inv Cons] by blast
  have "stacks_ok s1" using stacks_ok_woken [OF s1(3) st] queue_head_suspended [OF inv Cons] by simp
  moreover have "current s1 \<noteq> None" using s1(3) cur by (simp add: woken_def)
  ultimately show ?thesis using schedule_returns [OF s1(2)] Cons s1(1) by (simp add: wake_first_def)
qed (simp add: wake_first_def)

lemma stacks_ok_ipc [simp]: "stacks_ok (s\<lparr>ipc := c\<rparr>) = stacks_ok s"
  by (simp add: stacks_ok_def)

text \<open>The context in which a call with this timeout is allowed.\<close>

definition call_ok :: "int \<Rightarrow> kst \<Rightarrow> bool" where
  "call_ok timeout s \<longleftrightarrow> current s \<noteq> None \<and> (timeout \<noteq> 0 \<longrightarrow> lock_nest s = 0 \<and> irq_nest s = 0)"

lemma call_okD: "call_ok timeout s \<Longrightarrow> current s \<noteq> None" "call_ok timeout s \<Longrightarrow> debug_scheduler_available (timeout \<noteq> 0) s = Some ()"
  by (auto simp: call_ok_def debug_scheduler_available_def rt_critical_level_def debug_in_thread_context_def
      debug_not_in_interrupt_def rt_interrupt_get_nest_def rt_thread_self_def)

lemma mb_send_returns:
  assumes inv: "kmb_inv s" and st: "stacks_ok s" and ctx: "call_ok timeout s"
    and ty: "rt_object_get_type (mb_type (mb_of s i)) = RT_Object_Class_MailBox"
    and room: "mb_entry (mb_of s i) < mb_size (mb_of s i)"
  shows "\<exists>s'. rt_mb_send_wait' i v timeout sf s = Some (Ret RT_EOK, s')"
proof -
  have "mb_ring (mb_of s i)" using inv ty mb_invD [of s i] by (simp add: kmb_inv_def mb_ok_def)
  moreover have "0 < mb_size (mb_of s i)" using room by (metis word_not_simps(1) word_gt_0)
  ultimately have "unat (mb_in (mb_of s i)) < length (mb_pool (mb_of s i))"
    by (auto simp: mb_ring_def word_less_nat_alt)
  moreover have "mb_size (mb_of s i) \<le> 0xffff" by (rule u16_le_max)
  with room have "mb_entry (mb_of s i) < RT_MB_ENTRY_MAX" by simp
  moreover obtain s' where "wake_first (Mb_q i) (upd_mb i (mb_put v) s) = Some s'"
    using wake_first_returns [of "upd_mb i (mb_put v) s" "Mb_q i"] inv st call_okD(1) [OF ctx]
    by (auto simp: kmb_inv_def upd_mb_def)
  ultimately have "mb_send_finish i v s = Some (RT_EOK, s')"
    by (simp add: mb_send_finish_def)
  then show ?thesis
    using ty room call_okD(2) [OF ctx] by (auto simp: rt_mb_send_wait'_def mb_send_loop.simps [of i])
qed

lemma mb_recv_returns:
  assumes inv: "kmb_inv s" and st: "stacks_ok s" and ctx: "call_ok timeout s"
    and ty: "rt_object_get_type (mb_type (mb_of s i)) = RT_Object_Class_MailBox"
    and some: "mb_entry (mb_of s i) \<noteq> 0"
  shows "\<exists>v s'. rt_mb_recv' i timeout sf s = Some (Ret (RT_EOK, Some v), s')"
proof -
  have r: "mb_ring (mb_of s i)" using inv ty mb_invD [of s i] by (simp add: kmb_inv_def mb_ok_def)
  then have "0 < mb_size (mb_of s i)" using some by (auto simp: mb_ring_def word_gt_0)
  with r have "unat (mb_out (mb_of s i)) < length (mb_pool (mb_of s i))"
    by (auto simp: mb_ring_def word_less_nat_alt)
  moreover obtain s' where "wake_first (Mb_sender_q i) (upd_mb i (\<lambda>_. snd (mb_get (mb_of s i))) s) = Some s'"
    using wake_first_returns [of "upd_mb i (\<lambda>_. snd (mb_get (mb_of s i))) s" "Mb_sender_q i"] inv st call_okD(1) [OF ctx]
    by (auto simp: kmb_inv_def upd_mb_def)
  ultimately have "mb_recv_finish i s = Some ((RT_EOK, Some (fst (mb_get (mb_of s i)))), s')"
    by (cases "mb_get (mb_of s i)") (simp add: mb_recv_finish_def)
  then show ?thesis
    using ty some call_okD(2) [OF ctx] by (auto simp: rt_mb_recv'_def mb_recv_loop.simps [of i])
qed

lemma mq_send_returns:
  assumes inv: "kmq_inv s" and st: "stacks_ok s" and ctx: "call_ok timeout s" and live: "mq_live (mq_of s i)"
    and room: "mq_entry (mq_of s i) < mq_max_msgs (mq_of s i)" and sz: "sz \<noteq> 0" "unat sz \<le> unat (mq_msg_size (mq_of s i))"
    "unat sz \<le> length buf"
  shows "\<exists>s'. rt_mq_send_wait' i buf sz timeout sf s = Some (Ret RT_EOK, s')"
proof -
  have wf: "mq_wf (mq_of s i)" using inv live mq_invD [of s i] by (auto simp: kmq_inv_def mq_ok_def)
  obtain b where f: "mq_free (mq_of s i) = Some b" using mq_wf_room(1) [OF wf] room by auto
  obtain s' where "wake_first (Mq_q i) (upd_mq i (mq_put buf sz) s) = Some s'"
    using wake_first_returns [of "upd_mq i (mq_put buf sz) s" "Mq_q i"] inv st call_okD(1) [OF ctx]
    by (auto simp: kmq_inv_def upd_mq_def)
  then have "mq_send_finish i buf sz s = Some (RT_EOK, s')"
    by (simp add: mq_put_finish [OF wf room sz(3)])
  moreover have "\<not> ucast (mq_msg_size (mq_of s i)) < sz"
    using sz(2) by (simp add: word_less_nat_alt unat_ucast_16_64)
  ultimately show ?thesis
    using live sz(1) f call_okD(2) [OF ctx] by (auto simp: rt_mq_send_wait'_def mq_send_loop.simps [of i])
qed


lemma mq_recv_returns:
  assumes inv: "kmq_inv s" and st: "stacks_ok s" and ctx: "call_ok timeout s" and live: "mq_live (mq_of s i)"
    and some: "mq_msgs (mq_of s i) \<noteq> []" and sz: "sz \<noteq> 0"
  shows "\<exists>r s'. rt_mq_recv' i sz timeout sf s = Some (Ret r, s')"
proof -
  have e: "mq_entry (mq_of s i) \<noteq> 0" using some by (auto simp: mq_msgs_def)
  obtain b y where h: "mq_take_head (mq_of s i) = Some (b, y)"
    using mq_get_law [OF kmq_invD(1) [OF inv live] e] by blast
  define s1 where "s1 = upd_mq i (mq_put_free b) (upd_mq i (\<lambda>_. y) s)"
  have "kinv s1" "stacks_ok s1" "current s1 \<noteq> None"
    using inv st call_okD(1) [OF ctx] by (simp_all add: s1_def kmq_inv_def upd_mq_def)
  then obtain s' where "wake_first (Mq_sender_q i) s1 = Some s'" using wake_first_returns by blast
  then have "\<exists>r. mq_recv_finish i sz s = Some (r, s')" using h by (simp add: mq_recv_finish_def Let_def s1_def)
  then show ?thesis
    using live sz e call_okD(2) [OF ctx] by (auto simp: rt_mq_recv'_def mq_recv_loop.simps [of i])
qed

subsection \<open>Events\<close>

lemma stacks_ok_ready:
  assumes run: "rt_sched_thread_ready t s = Some (e, s')" and st: "stacks_ok s"
  shows "stacks_ok s'"
  using run
proof (cases rule: thread_ready_cases)
  case timer
  then show ?thesis using st by (simp add: stacks_ok_def timer_stop_frame [OF timer(4)] th_stat_def stack_ok_def)
next
  case (ready s1)
  have "th_stat (threads s t) \<noteq> RT_THREAD_INIT \<and> th_stat (threads s t) \<noteq> RT_THREAD_CLOSE"
    using ready(1) by (auto simp: suspended_stat)
  then have "stack_ok (threads s t)" using st by (simp add: stacks_ok_def)
  then show ?thesis
    using st by (simp add: stacks_ok_def ready(4) timer_stop_frame [OF ready(3)] th_stat_def stack_ok_def)
qed (use st in simp)

lemma stacks_ok_walk:
  "event_send_walk i ts clr sched s = Some (r, s') \<Longrightarrow> stacks_ok s \<Longrightarrow> stacks_ok s'"
proof (induction ts arbitrary: clr sched s)
  case (Cons t ts)
  have up: "stacks_ok x \<Longrightarrow> stacks_ok (upd_thread t (\<lambda>x. x\<lparr>event_set := f x\<rparr>) x)"
       "stacks_ok x \<Longrightarrow> stacks_ok (upd_thread t (\<lambda>x. x\<lparr>error := v\<rparr>) x)" for x f v
    by (simp_all add: stacks_ok_thread stack_ok_def th_stat_def)
  show ?case
    using Cons.prems
    by (auto simp: Let_def bind_Some intro: up dest!: stacks_ok_ready Cons.IH split: if_splits)
qed simp

lemma event_send_returns:
  assumes inv: "kev_inv s" and st: "stacks_ok s" and cur: "current s \<noteq> None"
    and ty: "rt_object_get_type (ev_type (ev_of s i)) = RT_Object_Class_Event"
  shows "\<exists>e s'. rt_event_send i bits s = Some (e, s')"
proof (cases "bits = 0")
  case False
  define s0 where "s0 = upd_event i (\<lambda>x. x\<lparr>ev_set := ev_set x OR bits\<rparr>) s"
  let ?ws = "tls s (Susp (Event_q i))"
  have k0: "kinv s0" "stacks_ok s0" using inv st by (simp_all add: kev_inv_def s0_def upd_event_def)
  have "distinct ?ws" using inv wf_ls_distinct [OF sched_invD(1) [OF kinvD(1)], of "{}" s] by (auto simp: kev_inv_def)
  moreover have "\<forall>t\<in>set ?ws. th_suspended (threads s0 t) \<and> (event_info (threads s0 t) AND RT_EVENT_FLAG_AND \<noteq> 0 \<or>
      event_info (threads s0 t) AND RT_EVENT_FLAG_OR \<noteq> 0)"
    using event_waiting [OF inv] by (auto simp: ev_waits_def s0_def)
  ultimately obtain clr b s1 where s1: "event_send_walk i ?ws 0 False s0 = Some (Some (clr, b), s1)" "kinv s1"
      "current s1 = current s"
    using event_walk [OF k0(1) _ _ refl, of ?ws i 0 False] by (auto simp: ev_woken_def s0_def)
  define s2 where "s2 = (if clr \<noteq> 0 then upd_event i (\<lambda>x. x\<lparr>ev_set := ev_set x AND NOT clr\<rparr>) s1 else s1)"
  have "kinv s2" "stacks_ok s2" "current s2 \<noteq> None"
    using s1 cur stacks_ok_walk [OF s1(1) k0(2)] by (simp_all add: s2_def upd_event_def)
  then obtain s3 where "rt_schedule s2 = Some s3" using schedule_returns by blast
  then show ?thesis
    using False ty s1(1) by (cases b; cases "clr = 0") (simp_all add: rt_event_send_def s0_def s2_def)
qed (use ty in \<open>simp add: rt_event_send_def\<close>)

subsection \<open>Memory pools\<close>

lemma mp_alloc_returns:
  assumes "kmp_inv s" "mp_live s i" "mp_free_list s i \<noteq> []"
  shows "\<exists>b s'. rt_mp_alloc i time s = Some (Ret (Some b), s')"
proof -
  have "block_free_count (mp_of s i) \<noteq> 0" using assms(3) by (auto simp: mp_free_list_def)
  then show ?thesis using mp_take_result [OF assms(1,2)] by (auto simp: rt_mp_alloc.simps [of i])
qed

lemma mp_free_returns:
  assumes inv: "kinv s" and st: "stacks_ok s" and cur: "current s \<noteq> None" and own: "mpw s b = Owned_by i"
  shows "\<exists>s'. rt_mp_free (Some b) s = Some s'"
proof -
  define s1 where "s1 = mp_give i b s"
  have k: "kinv s1" "stacks_ok s1" "current s1 = current s"
    using inv st by (simp_all add: s1_def mp_give_def Let_def upd_mp_def set_word_def)
  show ?thesis
  proof (cases "tls s1 (Susp (Mp_q i))")
    case Nil
    then show ?thesis using own by (simp add: rt_mp_free_def flip: s1_def)
  next
    case (Cons t ts)
    obtain s2 where s2: "rt_susp_list_dequeue (Mp_q i) RT_EOK s1 = Some (Some t, s2)" "kinv s2" "woken {t} s1 s2"
      using kinv_dequeue [OF k(1) Cons] by blast
    have "stacks_ok s2" using stacks_ok_woken [OF s2(3) k(2)] queue_head_suspended [OF k(1) Cons] by simp
    moreover have "current s2 \<noteq> None" using s2(3) cur k(3) by (simp add: woken_def)
    ultimately show ?thesis
      using schedule_returns [OF s2(2)] s2(1) own by (simp add: rt_mp_free_def flip: s1_def)
  qed
qed

subsection \<open>Mutexes\<close>

lemma stacks_ok_frame:
  assumes "sched_frame s s'" "stacks_ok s"
  shows "stacks_ok s'"
  unfolding stacks_ok_def
proof (intro allI impI)
  fix t
  assume t: "th_stat (threads s' t) \<noteq> RT_THREAD_INIT \<and> th_stat (threads s' t) \<noteq> RT_THREAD_CLOSE"
  have "runnable (threads s t) \<or> th_stat (threads s' t) = th_stat (threads s t)"
    using assms(1) by (auto simp: sched_frame_def)
  then have "stack_ok (threads s t)" using t assms(2) by (auto simp: stacks_ok_def runnable_def)
  then show "stack_ok (threads s' t)" using stack_ok_cong [OF sched_frameD(5) [OF assms(1)]] by blast
qed

lemma stacks_ok_reprio:
  assumes "reprio s s'" "stacks_ok s"
  shows "stacks_ok s'"
proof -
  have "th_stat (threads s' t) = th_stat (threads s t) \<and> stack_ok (threads s' t) = stack_ok (threads s t)" for t
    using reprioD(7) [OF assms(1), of t]
    by (cases "threads s' t"; cases "threads s t") (simp add: prio_eq_def stack_ok_def)
  then show ?thesis using assms(2) by (simp add: stacks_ok_def)
qed

lemma stacks_ok_lock [simp]: "stacks_ok (s\<lparr>lock_nest := n\<rparr>) = stacks_ok s" "stacks_ok (rt_spin_lock s) = stacks_ok s"
  "stacks_ok (upd_mutex i f s) = stacks_ok s" "stacks_ok (taken_remove i s) = stacks_ok s"
  "stacks_ok (taken_insert t i s) = stacks_ok s"
  by (simp_all add: stacks_ok_def taken_remove_def taken_insert_def)

lemma unlock_returns:
  assumes "kinv s" "stacks_ok s" "current s \<noteq> None"
  shows "\<exists>s'. rt_spin_unlock s = Some s' \<and> stacks_ok s' \<and> current s' \<noteq> None"
proof (cases "sint (lock_nest s - 1) \<le> 0")
  case True
  let ?s = "s\<lparr>lock_nest := 0\<rparr>"
  obtain s' where s': "rt_schedule ?s = Some s'" using schedule_returns [of ?s] assms by auto
  have k: "kinv ?s" using assms(1) by simp
  have "stacks_ok s'" using stacks_ok_frame [OF schedule_frame [OF s' kinvD(1) [OF k]]] assms(2) by simp
  moreover obtain c where "current s = Some c" using assms(3) by auto
  then have "current s' \<noteq> None" using schedule_highest [OF s' kinvD(1) [OF k]] by auto
  ultimately show ?thesis
    using True s' assms(3) by (auto simp: rt_spin_unlock_def rt_exit_critical_def Let_def split: option.split)
qed (use assms in \<open>simp add: rt_spin_unlock_def rt_exit_critical_def Let_def\<close>)

lemma hand_over_returns:
  assumes "kinv s" "stacks_ok s" "current s \<noteq> None"
  shows "\<exists>b s'. mutex_hand_over i s = Some (b, s') \<and> stacks_ok s' \<and> current s' \<noteq> None"
proof (cases "mtx_q s i")
  case (Cons n ns)
  obtain s1 where s1: "mutex_wake_next i s = Some (Some n, s1)" "woken {n} s s1"
    using wake_next_result [OF assms(1) Cons] by blast
  define s2 where "s2 = upd_thread n (\<lambda>x. x\<lparr>pending_object := None\<rparr>) (taken_insert n i
      (upd_mutex i (\<lambda>x. x\<lparr>owner := Some n, hold := 1\<rparr>) s1))"
  have "stacks_ok s1" using stacks_ok_woken [OF s1(2) assms(2)] queue_head_suspended [OF assms(1) Cons] by simp
  then have "stacks_ok s2" by (simp add: s2_def stacks_ok_thread stack_ok_def th_stat_def)
  moreover have "current s2 \<noteq> None" using s1(2) assms(3) by (simp add: s2_def woken_def)
  ultimately have "stacks_ok (mutex_update_priority i s2)" "current (mutex_update_priority i s2) \<noteq> None"
    by (auto simp: mutex_update_priority_def split: list.split)
  moreover have "mutex_hand_over i s = Some (True, mutex_update_priority i s2)"
    using Cons s1(1) by (simp add: mutex_hand_over_def Let_def s2_def)
  ultimately show ?thesis by blast
qed (use assms in \<open>auto simp: mutex_hand_over_def\<close>)

lemma check_update_returns:
  assumes "kinv s" "stacks_ok s" "init_priority (threads s t) < 32"
  shows "\<exists>b s'. check_and_update_prio t i s = Some (b, s') \<and> kinv s' \<and> stacks_ok s' \<and> current s' = current s"
proof -
  have "thread_get_mutex_priority t s < 32"
    using get_mutex_priority_le(1) [of t s] assms(3) by (rule order.strict_trans1)
  then obtain b s' where s': "check_and_update_prio t i s = Some (b, s')"
    using change_prio_total [of "thread_get_mutex_priority t s" t s]
    by (cases "ceiling_priority (mtx_of s i) \<noteq> 0xff \<or> rt_sched_thread_get_curr_prio t s = mtx_priority (mtx_of s i)")
      (auto simp: check_and_update_prio_def)
  then show ?thesis
    using check_update_result(1,2) [OF s' assms(1)] stacks_ok_reprio [OF _ assms(2), of s'] reprioD(3) [of s s'] by auto
qed

lemma release_returns:
  assumes kinv: "kmtx_inv s" and st: "stacks_ok s" and cur: "current s = Some t" and irq: "irq_nest s = 0"
    and live: "mtx_live s i" and prio: "init_priority (threads s t) < 32"
  shows "\<exists>e s'. rt_mutex_release i s = Some (e, s')"
proof -
  note inv = kmtx_invD(1) [OF kinv]
  define s1 where "s1 = upd_mutex i (\<lambda>x. x\<lparr>hold := hold x - 1\<rparr>) (rt_spin_lock s)"
  have k1: "kinv s1" "stacks_ok s1" "current s1 = Some t" using inv st cur by (simp_all add: s1_def)
  let ?e = "upd_thread t (\<lambda>x. x\<lparr>error := - 1\<rparr>) (rt_spin_lock s)"
  have "kinv ?e" "stacks_ok ?e" using inv st by (simp_all add: kinv_set_error stacks_ok_thread stack_ok_def th_stat_def)
  then obtain se where se: "rt_spin_unlock ?e = Some se" using unlock_returns [of ?e] cur by auto
  obtain sn where sn: "rt_spin_unlock s1 = Some sn" using unlock_returns [OF k1(1,2)] k1(3) by auto
  let ?s = "taken_remove i s1"
  obtain b1 s2 where s2: "check_and_update_prio t i ?s = Some (b1, s2)" "kinv s2" "stacks_ok s2" "current s2 = Some t"
    using check_update_returns [of ?s t i] k1 prio by (auto simp: taken_remove_def s1_def)
  obtain b2 s3 where s3: "mutex_hand_over i s2 = Some (b2, s3)" "stacks_ok s3" "current s3 \<noteq> None"
    using hand_over_returns [OF s2(2,3), of i] s2(4) by auto
  have db: "debug_in_thread_context s = Some ()"
    using cur irq by (simp add: debug_in_thread_context_def debug_not_in_interrupt_def rt_thread_self_def rt_interrupt_get_nest_def)
  show ?thesis
  proof (cases "owner (mtx_of s i) = Some t \<and> hold (mtx_of s1 i) = 0")
    case True
    have "hold (mtx_of s i) = 1" using True by (simp add: s1_def diff_eq_eq)
    then have k3: "kinv s3"
      using release_last(1) [of "rt_spin_lock s" i t ?s b1 s2 b2 s3] True live kinv s2(1) s3(1)
      by (simp add: s1_def kmtx_inv_def)
    obtain s4 where s4: "rt_spin_unlock s3 = Some s4" "stacks_ok s4" "current s4 \<noteq> None"
      using unlock_returns [OF k3 s3(2,3)] by blast
    have "kinv s4" using s4(1) k3 by (auto simp: rt_spin_unlock_def intro: kinv_exit_critical)
    then obtain s5 where "rt_schedule s4 = Some s5" using schedule_returns s4 by blast
    then show ?thesis
      using True live db cur s2(1) s3(1) s4(1)
      by (auto simp: rt_mutex_release_def rt_thread_self_def Let_def simp flip: s1_def)
  next
    case False
    then show ?thesis
      using live db cur se sn by (auto simp: rt_mutex_release_def rt_thread_self_def Let_def simp flip: s1_def)
  qed
qed


lemma pass_on_returns:
  assumes inv: "kinv s" "mutex_inv s" and ch: "owner_chain s own us"
    and p: "\<forall>u\<in>set us. init_priority (threads s u) < 32" "p < 32"
  shows "\<exists>s'. mutex_pass_on i p own s = Some s'"
proof -
  let ?s = "upd_mutex i (\<lambda>x. x\<lparr>mtx_priority := p\<rparr>) s"
  have r: "reprio s ?s" by (rule reprio_mutex_priority)
  have k: "kinv ?s" using inv(1) by simp
  obtain s1 where s1: "rt_sched_thread_change_priority own p ?s = Some s1" using change_prio_total [OF p(2)] by blast
  note c = change_prio_result [OF k s1]
  have r1: "reprio s s1" by (rule reprio_trans [OF r c(2)])
  have "init_priority (threads s1 u) < 32" if "u \<in> set us" for u
    using p(1) that prio_eqD(3) [OF reprioD(7) [OF r1, of u]] by simp
  then obtain s2 where "thread_update_loop own s1 = Some s2"
    using update_loop_total [OF c(1) reprio_mutex_inv [OF r1 inv(2)], of own us] ch reprio_chain [OF r1] by auto
  then show ?thesis using s1 by (simp add: mutex_pass_on_def thread_update_priority_def Let_def)
qed

lemma asleep_chain:
  assumes "asleep t sl fl s s1" "owner_chain s v vs" "t \<notin> set (v # vs)"
  shows "owner_chain (upd_thread t f s1) v vs"
proof -
  have thr: "u \<noteq> t \<Longrightarrow> threads s1 u = threads s u" and m: "ipc s1 = ipc s" for u
    using assms(1) by (auto simp: asleep_def)
  show ?thesis
    using assms(2,3) by (induction vs arbitrary: v) (auto simp: thr m waits_def waits_for_def split: option.splits)
qed

text \<open>A take of a mutex that another thread holds suspends the caller.\<close>

lemma mutex_wait_returns:
  assumes inv: "kinv s" "mutex_inv s" and st: "stacks_ok s" and cur: "current s = Some t"
    and run: "th_stat (threads s t) = RT_THREAD_RUNNING" and live: "mtx_live s i" "owner (mtx_of s i) = Some own"
    and lk: "lock_nest s = 1" and idle: "ready_group s \<noteq> 0" and ch: "owner_chain s own us" "t \<notin> set (own # us)"
    and p: "\<forall>u\<in>set us. init_priority (threads s u) < 32"
    and sf: "sf = RT_INTERRUPTIBLE \<or> sf = RT_KILLABLE \<or> sf = RT_UNINTERRUPTIBLE" and v: "timeout < 0x7fffffff"
  shows "\<exists>r s'. mutex_wait i t own timeout sf s = Some (r, s')"
proof -
  have fl: "mtx_flag (mtx_of s i) = 1" using mutex_invD(2) [OF inv(2), of i] live by (simp add: mutex_ok_def)
  obtain s1 where s1: "rt_thread_suspend_to_list t (Some (Mutex_q i)) 1 sf s = Some (0, s1)"
    using suspend_total [OF inv(1) cur run _ sf, of 1] by auto
  have k1: "kinv s1" and as: "asleep t (Some (Mutex_q i)) 1 s s1"
    using kinv_suspend_running [OF inv(1) run s1] by auto
  define s2 where "s2 = upd_thread t (\<lambda>x. x\<lparr>pending_object := Some i\<rparr>) s1"
  have k2: "kinv s2" unfolding s2_def by (rule kinv_set_pending [OF k1])
  have m2: "mutex_inv s2" unfolding s2_def by (rule asleep_mutex_inv [OF inv run as]) (use live in simp_all)
  have st2: "stacks_ok s2"
    using stacks_ok_asleep [OF as st run] by (simp add: s2_def stacks_ok_thread stack_ok_def th_stat_def)
  have pr: "current_priority (threads s2 t) < 32"
    using kinvD(3) [OF k2, of t] as by (auto simp: s2_def asleep_def link_ok_def suspended_stat th_stat_def)
  have "\<forall>u\<in>set us. init_priority (threads s2 u) < 32" using p ch(2) as by (auto simp: s2_def asleep_def)
  then obtain s3 where s3: "mutex_pass_on i (current_priority (threads s2 t)) own s2 = Some s3"
    using pass_on_returns [OF k2 m2 _ _ pr] asleep_chain [OF as ch] s2_def by blast
  note q = pass_on_result [OF s3 k2]
  have su: "th_suspended (threads s3 t)"
    using prio_eqD(8) [OF reprioD(7) [OF q(2), of t]] as by (simp add: s2_def asleep_def th_suspended_def)
  obtain s4 where s4: "(if 0 < timeout then thread_timer_arm t (of_int timeout) s3 else Some s3) = Some s4"
      "kinv s4" "stacks_ok s4" "current s4 = current s3"
    using arm_returns [OF q(1) stacks_ok_reprio [OF q(2) st2] su v] by blast
  have "current s4 \<noteq> None" using s4(4) reprioD(3) [OF q(2)] as cur by (simp add: s2_def asleep_def)
  then obtain s5 where s5: "rt_spin_unlock s4 = Some s5" using unlock_returns [OF s4(2,3)] by blast
  have "current s5 \<noteq> Some t" by (rule wait_leaves(1) [OF inv(1) cur run lk idle as s2_def q s4(1) s5])
  then have "mutex_wait i t own timeout sf s = Some (Wait, s5)"
    using fl s1 s3 s4(1) s5 by (simp add: mutex_wait_def Let_def rt_sched_thread_get_curr_prio_def s2_def)
  then show ?thesis by blast
qed


lemma take_wait_returns:
  assumes inv: "kmtx_inv s" and st: "stacks_ok s" and ctx: "in_thread t s"
    and live: "mtx_live s i" "owner (mtx_of s i) = Some own" and ch: "owner_chain s own us" "t \<notin> set (own # us)"
    and p: "\<forall>u\<in>set us. init_priority (threads s u) < 32"
    and sf: "sf = RT_INTERRUPTIBLE \<or> sf = RT_KILLABLE \<or> sf = RT_UNINTERRUPTIBLE"
    and v: "timeout < 0x7fffffff" "timeout \<noteq> 0"
  shows "\<exists>s'. rt_mutex_take' i timeout sf s = Some (Wait, s')"
proof -
  note c = in_threadD [OF ctx]
  let ?s = "upd_thread t (\<lambda>x. x\<lparr>error := RT_EOK\<rparr>) (rt_spin_lock s)"
  have k: "kinv ?s" "mutex_inv ?s" "stacks_ok ?s"
    using inv st by (simp_all add: kmtx_inv_def kinv_set_error mtxc.ok_set_error stacks_ok_thread stack_ok_def th_stat_def)
  have "owner_chain ?s own us"
    using ch by (induction us arbitrary: own) (auto simp: waits_def waits_for_def split: option.splits)
  moreover have "\<forall>u\<in>set us. init_priority (threads ?s u) < 32" using p by simp
  moreover have "th_stat (threads ?s t) = RT_THREAD_RUNNING" using c(2) by (simp add: th_stat_def)
  ultimately obtain r s' where w: "mutex_wait i t own timeout sf ?s = Some (r, s')"
    using mutex_wait_returns [OF k, of t i own us sf timeout] c live ch(2) sf v(1) by auto
  moreover have "rt_mutex_take' i timeout sf s = mutex_wait i t own timeout sf ?s"
    using c(6,7) live ch(2) v(2) by (auto simp: rt_mutex_take'_def)
  moreover have "r = Wait"
    using kmtx_wait(2) [OF k(1,2) _ _ _ _ _ _ w] c live by (auto simp: th_stat_def)
  ultimately show ?thesis by simp
qed

text \<open>A running thread waits for nothing, so raising it to a ceiling changes no other thread.\<close>

lemma update_running_returns:
  assumes k: "kinv s" and run: "th_stat (threads s t) = RT_THREAD_RUNNING" and p: "p < 32"
  shows "\<exists>s'. thread_update_priority t p s = Some s' \<and> kinv s' \<and> reprio s s'"
proof -
  obtain s1 where s1: "rt_sched_thread_change_priority t p s = Some s1" using change_prio_total [OF p] by blast
  note c = change_prio_result [OF k s1]
  have "\<not> waits s1 t"
    using run prio_eqD(1) [OF reprioD(7) [OF c(2), of t]] by (simp add: waits_def suspended_stat)
  then have "thread_update_priority t p s = Some s1"
    using s1 by (simp add: thread_update_priority_def update_loop_body [of t s1] update_body_end)
  then show ?thesis using c(1,2) by blast
qed

text \<open>Every call of \<^verbatim>\<open>_rt_mutex_take\<close> from a thread returns or suspends the caller.\<close>

lemma take_returns:
  assumes inv: "kmtx_inv s" and st: "stacks_ok s" and ctx: "in_thread t s" and live: "mtx_live s i"
    and ceil: "ceiling_priority (mtx_of s i) = 0xff \<or> ceiling_priority (mtx_of s i) < 32"
    and ch: "\<And>own. owner (mtx_of s i) = Some own \<Longrightarrow> own \<noteq> t \<Longrightarrow> owner_chain s own us \<and> t \<notin> set us"
    and p: "\<forall>u\<in>set us. init_priority (threads s u) < 32"
    and sf: "sf = RT_INTERRUPTIBLE \<or> sf = RT_KILLABLE \<or> sf = RT_UNINTERRUPTIBLE" and v: "timeout < 0x7fffffff"
  shows "\<exists>r s'. rt_mutex_take' i timeout sf s = Some (r, s')"
proof -
  note c = in_threadD [OF ctx]
  define s0 where "s0 = upd_thread t (\<lambda>x. x\<lparr>error := RT_EOK\<rparr>) (rt_spin_lock s)"
  have k: "kinv s0" "stacks_ok s0" "current s0 \<noteq> None" "th_stat (threads s0 t) = RT_THREAD_RUNNING" "ipc s0 = ipc s"
    using inv st c(1,2) by (simp_all add: s0_def kmtx_inv_def kinv_set_error stacks_ok_thread stack_ok_def th_stat_def)
  show ?thesis
  proof (cases "owner (mtx_of s i)")
    case None
    define sa where "sa = upd_mutex i (\<lambda>x. x\<lparr>owner := Some t, mtx_priority := 0xff, hold := 1\<rparr>) s0"
    have a: "kinv sa" "stacks_ok sa" "current sa \<noteq> None" "th_stat (threads sa t) = RT_THREAD_RUNNING"
        "ceiling_priority (mtx_of sa i) = ceiling_priority (mtx_of s i)" using k by (simp_all add: sa_def)
    let ?c = "ceiling_priority (mtx_of sa i)"
    let ?r = "if ?c \<noteq> 0xff \<and> ?c < rt_sched_thread_get_curr_prio t sa then thread_update_priority t ?c sa else Some sa"
    have "\<exists>s1. ?r = Some s1 \<and> kinv s1 \<and> reprio sa s1"
    proof (cases "?c \<noteq> 0xff \<and> ?c < rt_sched_thread_get_curr_prio t sa")
      case True
      then have "?c < 32" using ceil a(5) by simp
      then show ?thesis using update_running_returns [OF a(1,4)] True by simp
    next
      case False
      then have "?r = Some sa" by auto
      then show ?thesis using a(1) reprio_refl by blast
    qed
    then obtain s1 where s1: "?r = Some s1" "kinv s1" "reprio sa s1" by blast
    have "kinv (taken_insert t i s1)" "stacks_ok (taken_insert t i s1)" "current (taken_insert t i s1) \<noteq> None"
      using s1(2) stacks_ok_reprio [OF s1(3) a(2)] reprioD(3) [OF s1(3)] a(3) by simp_all
    then obtain s2 where "rt_spin_unlock (taken_insert t i s1) = Some s2" using unlock_returns by blast
    then have "rt_mutex_take' i timeout sf s = Some (Ret RT_EOK, s2)"
      using c(6,7) live None k(5) s1(1) a(5)
      by (auto simp: rt_mutex_take'_def Let_def simp flip: s0_def sa_def split: if_splits)
    then show ?thesis by blast
  next
    case (Some own)
    have u: "\<exists>s'. rt_spin_unlock (upd_mutex i f s0) = Some s'" "\<exists>s'. rt_spin_unlock s0 = Some s'"
        "\<exists>s'. rt_spin_unlock (upd_thread t (\<lambda>x. x\<lparr>error := e\<rparr>) s0) = Some s'" for f e
      using unlock_returns [of "upd_mutex i f s0"] unlock_returns [of s0]
        unlock_returns [of "upd_thread t (\<lambda>x. x\<lparr>error := e\<rparr>) s0"] k
      by (auto simp: kinv_set_error stacks_ok_thread stack_ok_def th_stat_def)
    show ?thesis
    proof (cases "own = t \<or> timeout = 0")
      case True
      then show ?thesis using u(1) [of "\<lambda>x. x\<lparr>hold := hold x + 1\<rparr>"] u(2) u(3) [of RT_ETIMEOUT] c(6,7) live Some k(5)
        by (cases "own = t"; cases "hold (mtx_of s i) < RT_MUTEX_HOLD_MAX") (auto simp: rt_mutex_take'_def Let_def simp flip: s0_def)
    next
      case False
      then show ?thesis using take_wait_returns [OF inv st ctx live Some _ _ p sf v] ch [OF Some] by auto
    qed
  qed
qed

lemma take_waits_iff:
  assumes inv: "kmtx_inv s" and st: "stacks_ok s" and ctx: "in_thread t s" and live: "mtx_live s i"
    and ch: "\<And>own. owner (mtx_of s i) = Some own \<Longrightarrow> own \<noteq> t \<Longrightarrow> owner_chain s own us \<and> t \<notin> set us"
    and p: "\<forall>u\<in>set us. init_priority (threads s u) < 32"
    and sf: "sf = RT_INTERRUPTIBLE \<or> sf = RT_KILLABLE \<or> sf = RT_UNINTERRUPTIBLE" and v: "timeout < 0x7fffffff"
    and run: "rt_mutex_take' i timeout sf s = Some (r, s')"
  shows "r = Wait \<longleftrightarrow> timeout \<noteq> 0 \<and> (\<exists>own. owner (mtx_of s i) = Some own \<and> own \<noteq> t)"
proof (cases "timeout \<noteq> 0 \<and> (\<exists>own. owner (mtx_of s i) = Some own \<and> own \<noteq> t)")
  case True
  then obtain own where "owner (mtx_of s i) = Some own" "own \<noteq> t" by blast
  then show ?thesis using take_wait_returns [OF inv st ctx live _ _ _ p sf v] ch True run by auto
next
  case False
  then have "r \<noteq> Wait"
    using run in_threadD(7) [OF ctx]
    by (auto simp: rt_mutex_take'_def bind_Some Let_def split: option.splits if_splits)
  then show ?thesis using False by blast
qed

end
