(* ===== verification/RT_Example.thy ===== *)
theory RT_Example
  imports RT_Total RT_Event RT_Mempool
begin

text \<open>
  A concrete system on which the properties are evaluated. Thread 2 runs at priority 5, the
  idle thread 0 is ready at priority 31, and thread 3, of priority 3, is suspended on a queue.
  The queue, what the thread waits for and the IPC objects are parameters.
\<close>

definition ex_thread :: "u8 \<Rightarrow> u8 \<Rightarrow> rt_thread" where
  "ex_thread prio st = \<lparr>th_type = 0x81, sp = 0x1800, entry_fn = 7, th_parameter = 0, stack_addr = 0x1000,
     stack_size = 0x1000, stack_first = 0x23, error = 0, stat = st, ttmr_set = False, init_tick = 10,
     remaining_tick = 10, current_priority = prio, init_priority = prio, number_mask = push_bit (unat prio) 1,
     cleanup = None, pending_object = None, event_set = 0, event_info = 0\<rparr>"

definition ex_timer :: "timerid \<Rightarrow> rt_timer" where
  "ex_timer t = (case t of
     Thread_timer u \<Rightarrow> \<lparr>tm_type = 0x8a, tm_flag = 16, timeout_func = Thread_timeout, tm_parameter = u,
       tm_init_tick = 0, timeout_tick = 0\<rparr>
   | User_timer n \<Rightarrow> zero_timer)"

definition ex_threads :: "nat option \<Rightarrow> u32 \<Rightarrow> u8 \<Rightarrow> tid \<Rightarrow> rt_thread" where
  "ex_threads pend bits info t =
     (if t = 0 then ex_thread 31 2 else if t = 2 then ex_thread 5 3
      else if t = 3 then (ex_thread 3 4)\<lparr>pending_object := pend, event_set := bits, event_info := info\<rparr>
      else zero_thread)"

definition ex_lists :: "ipcref \<Rightarrow> thead \<Rightarrow> tid list" where
  "ex_lists q h = (if h = Prio 31 then [0] else if h = Susp q then [3] else [])"

definition ex_state :: "ipcref \<Rightarrow> nat option \<Rightarrow> u32 \<Rightarrow> u8 \<Rightarrow> ipcst \<Rightarrow> kst" where
  "ex_state q pend bits info c = \<lparr>threads = ex_threads pend bits info, tls = ex_lists q, ready_group = 0x80000000,
     lock_nest = 0, current = Some 2, cur_prio = 5, irq_nest = 0,
     tm = \<lparr>timers = ex_timer, tmlist = (\<lambda>_. []), rt_tick = 100, random_nr = 0\<rparr>, ipc = c, rt_errno = 0\<rparr>"

text \<open>No IPC object is initialised.\<close>

definition ex_ipc :: ipcst where
  "ex_ipc = \<lparr>sems = (\<lambda>_. \<lparr>sem_type = 0, sem_flag = 0, sem_value = 0, sem_max_value = 0\<rparr>),
     mutexes = (\<lambda>_. \<lparr>mtx_type = 0, mtx_flag = 0, ceiling_priority = 0, mtx_priority = 0, hold = 0, owner = None\<rparr>),
     events = (\<lambda>_. \<lparr>ev_type = 0, ev_flag = 0, ev_set = 0\<rparr>),
     mbs = (\<lambda>_. \<lparr>mb_type = 0, mb_flag = 0, mb_pool = [], mb_size = 0, mb_entry = 0, mb_in = 0, mb_out = 0\<rparr>),
     mqs = (\<lambda>_. \<lparr>mq_type = 0, mq_flag = 0, mq_pool = (\<lambda>_. \<lparr>mq_next = None, mq_length = 0, mq_data = []\<rparr>),
       mq_msg_size = 0, mq_max_msgs = 0, mq_entry = 0, mq_head = None, mq_tail = None, mq_free = None\<rparr>),
     taken = (\<lambda>_. []),
     mps = (\<lambda>_. \<lparr>mp_type = 0, mp_size = 0, mp_block_size = 0, block_list = None, block_total_count = 0, block_free_count = 0\<rparr>),
     mp_words = (\<lambda>_. Next_free None)\<rparr>"

lemma ex_state_simps [simp]:
  "threads (ex_state q pend bits info c) = ex_threads pend bits info" "tls (ex_state q pend bits info c) = ex_lists q"
  "ready_group (ex_state q pend bits info c) = 0x80000000" "lock_nest (ex_state q pend bits info c) = 0"
  "current (ex_state q pend bits info c) = Some 2" "irq_nest (ex_state q pend bits info c) = 0"
  "ipc (ex_state q pend bits info c) = c" "rt_tick (tm (ex_state q pend bits info c)) = 100"
  "timers (tm (ex_state q pend bits info c)) = ex_timer" "tmlist (tm (ex_state q pend bits info c)) = (\<lambda>_. [])"
  by (simp_all add: ex_state_def)

lemmas ex_defs = ex_ipc_def ex_lists_def ex_threads_def ex_thread_def ex_timer_def zero_thread_def
  rt_object_get_type_def th_stat_def th_suspended_def

lemma bit_31: "bit (0x80000000 :: u32) p \<longleftrightarrow> p = 31"
proof -
  have "(0x80000000 :: u32) = 2 ^ 31" by simp
  then show ?thesis by (simp only: bit_exp_iff) (auto simp: possible_bit_def)
qed

lemma ex_sched_inv: "sched_inv (ex_state q pend bits info c)"
proof -
  have "wf_ls (ex_lists q)" by (auto simp: wf_ls_def ex_lists_def)
  moreover have "group_ok (ex_lists q) 0x80000000" unfolding group_ok_def bit_31 by (auto simp: ex_lists_def)
  moreover have "thread_ok (ex_lists q) (Some 2) t (ex_threads pend bits info t)" for t
    by (auto simp: thread_ok_def ex_lists_def ex_threads_def ex_thread_def zero_thread_def th_stat_def
        mask_ok_def prio_of_def th_suspended_def)
  ultimately show ?thesis by (simp add: sched_inv_but_def ex_state_def)
qed

lemma ex_kinv: "kinv (ex_state q pend bits info c)"
proof -
  have "timer_inv \<lparr>timers = ex_timer, tmlist = (\<lambda>_. []), rt_tick = 100, random_nr = 0\<rparr>"
    by (auto simp: timer_inv_def wf_ls_def timer_ok_def unlinked_def ex_timer_def zero_timer_def split: timerid.splits)
  moreover have "link_ok t (ex_timer (Thread_timer t)) (ex_threads pend bits info t)" for t
    by (auto simp: link_ok_def ex_threads_def ex_thread_def zero_thread_def ex_timer_def th_stat_def
        th_suspended_def tt_ok_def rt_object_get_type_def rt_object_is_systemobject_def)
  ultimately show ?thesis using ex_sched_inv by (simp add: kinv_but_def ex_state_def)
qed


lemma ex_stacks: "stacks_ok (ex_state q pend bits info c)"
  by (auto simp: stacks_ok_def stack_ok_def ex_defs)

lemma ex_in_thread: "in_thread 2 (ex_state q pend bits info c)"
  by (simp add: in_thread_def ex_defs)

lemma ex_call_ok: "call_ok timeout (ex_state q pend bits info c)"
  by (simp add: call_ok_def)


subsection \<open>States with one object of a class\<close>

text \<open>A semaphore with thread 3 waiting.\<close>

definition ex_sem :: kst where
  "ex_sem = ex_state (Sem_q 0) None 0 0 (ex_ipc\<lparr>sems := (sems ex_ipc)(0 :=
     \<lparr>sem_type = 0x82, sem_flag = 1, sem_value = 0, sem_max_value = 2\<rparr>)\<rparr>)"

lemma ex_sem_inv: "ksem_inv ex_sem" "stacks_ok ex_sem" "in_thread 2 ex_sem"
  "rt_object_get_type (sem_type (sems (ipc ex_sem) 0)) = RT_Object_Class_Semaphore"
  by (simp_all add: ex_sem_def ksem_inv_def ex_kinv ex_stacks ex_in_thread sem_inv_def sem_ok_def ex_defs)

text \<open>A mutex with the given owner and depth; the owner holds no other mutex.\<close>

definition ex_mtx :: "ipcref \<Rightarrow> tid option \<Rightarrow> u8 \<Rightarrow> kst" where
  "ex_mtx q own h = ex_state q (Some 0) 0 0 (ex_ipc\<lparr>mutexes := (mutexes ex_ipc)(0 :=
     \<lparr>mtx_type = 0x83, mtx_flag = 1, ceiling_priority = 0xff, mtx_priority = 0xff, hold = h, owner = own\<rparr>),
     taken := (\<lambda>t. if own = Some t then [0] else [])\<rparr>)"

lemma ex_mtx_simps:
  "stacks_ok (ex_mtx q own h)" "in_thread 2 (ex_mtx q own h)" "mtx_live (ex_mtx q own h) 0"
  "owner (mutexes (ipc (ex_mtx q own h)) 0) = own" "kinv (ex_mtx q own h)"
  by (simp_all add: ex_mtx_def ex_stacks ex_in_thread ex_kinv ex_defs)

lemma ex_mtx_inv: "kmtx_inv (ex_mtx (Mutex_q 0) (Some t) 1)" "kmtx_inv (ex_mtx (Sem_q 9) (Some t) 1)"
  "kmtx_inv (ex_mtx (Sem_q 9) None 0)"
  by (auto simp: kmtx_inv_def ex_kinv mutex_inv_def mutex_ok_def wf_ls_def ex_mtx_def ex_defs)

text \<open>An event with thread 3 waiting for bit 0.\<close>

definition ex_event :: kst where
  "ex_event = ex_state (Event_q 0) None 1 6 (ex_ipc\<lparr>events := (events ex_ipc)(0 :=
     \<lparr>ev_type = 0x84, ev_flag = 0, ev_set = 8\<rparr>)\<rparr>)"

lemma ex_event_inv: "kev_inv ex_event" "stacks_ok ex_event" "in_thread 2 ex_event"
  "rt_object_get_type (ev_type (events (ipc ex_event) 0)) = RT_Object_Class_Event"
  by (simp_all add: ex_event_def kev_inv_def ex_kinv ex_stacks ex_in_thread event_inv_def event_ok_def
      ev_waits_def ev_sat_def ex_defs)

text \<open>A mailbox of two places, with one mail in it and thread 3 on the given queue.\<close>

definition ex_mb :: "ipcref \<Rightarrow> kst" where
  "ex_mb q = ex_state q None 0 0 (ex_ipc\<lparr>mbs := (mbs ex_ipc)(0 :=
     \<lparr>mb_type = 0x85, mb_flag = 0, mb_pool = [11, 0], mb_size = 2, mb_entry = 1, mb_in = 1, mb_out = 0\<rparr>)\<rparr>)"

lemma ex_mb_inv: "kmb_inv (ex_mb (Mb_q 0))" "kmb_inv (ex_mb (Mb_sender_q 0))" "stacks_ok (ex_mb q)" "call_ok timeout (ex_mb q)"
  "rt_object_get_type (mb_type (mbs (ipc (ex_mb q)) 0)) = RT_Object_Class_MailBox"
  by (simp_all add: ex_mb_def kmb_inv_def ex_kinv ex_stacks ex_call_ok mb_inv_def mb_ok_def mb_ring_def ex_defs)

text \<open>A message queue of two blocks, empty, with thread 3 on the given queue.\<close>

definition ex_mq :: "ipcref \<Rightarrow> kst" where
  "ex_mq q = ex_state q None 0 0 (ex_ipc\<lparr>mqs := (mqs ex_ipc)(0 :=
     \<lparr>mq_type = 0x86, mq_flag = 0, mq_pool = (\<lambda>b. \<lparr>mq_next = (if b = 0 then Some 1 else None), mq_length = 0, mq_data = []\<rparr>),
       mq_msg_size = 4, mq_max_msgs = 2, mq_entry = 0, mq_head = None, mq_tail = None, mq_free = Some 0\<rparr>)\<rparr>)"

lemma ex_mq_live: "mq_live (mqs (ipc (ex_mq q)) 0)" "stacks_ok (ex_mq q)" "call_ok timeout (ex_mq q)"
  "mq_entry (mqs (ipc (ex_mq q)) 0) = 0" "mq_max_msgs (mqs (ipc (ex_mq q)) 0) = 2"
  "mq_msg_size (mqs (ipc (ex_mq q)) 0) = 4" "mq_msgs (mqs (ipc (ex_mq q)) 0) = []"
  by (simp_all add: ex_mq_def ex_stacks ex_call_ok mq_msgs_def ex_defs)

lemma ex_mq_inv: "kmq_inv (ex_mq (Mq_q 0))"
proof -
  have "mq_parts (mqs (ipc (ex_mq q)) 0) [] [0, 1] 0" for q
    by (auto simp: mq_parts_def ex_mq_def)
  then have "mq_wf (mqs (ipc (ex_mq q)) 0)" for q
    unfolding mq_wf_def using ex_mq_live(4) by fastforce
  then have "mq_ok (mqs (ipc (ex_mq (Mq_q 0))) i) (tls (ex_mq (Mq_q 0)) (Susp (Mq_q i))) (tls (ex_mq (Mq_q 0)) (Susp (Mq_sender_q i)))" for i
    by (cases "i = 0") (simp_all add: mq_ok_def, simp_all add: ex_mq_def ex_defs)
  then show ?thesis by (simp add: kmq_inv_def mq_inv_def) (simp add: ex_mq_def ex_kinv)
qed

text \<open>A memory pool of two blocks, both free, with no thread waiting.\<close>

definition ex_mp :: kst where
  "ex_mp = ex_state (Sem_q 9) None 0 0 (ex_ipc\<lparr>mps := (mps ex_ipc)(0 :=
     \<lparr>mp_type = 0x88, mp_size = 32, mp_block_size = 8, block_list = Some (0, 0), block_total_count = 2,
       block_free_count = 2\<rparr>), mp_words := (\<lambda>b. if b = (0, 0) then Next_free (Some (0, 1)) else Next_free None)\<rparr>)"

lemma ex_mp_inv: "kmp_inv ex_mp" "stacks_ok ex_mp" "in_thread 2 ex_mp" "mp_live ex_mp 0"
  "mp_free_list ex_mp 0 = [(0, 0), (0, 1)]"
proof -
  have st: "mp_state ex_mp 0 [(0, 0), (0, 1)]"
    by (auto simp: mp_state_def mp_area_def ex_mp_def)
  then have "mp_ok ex_mp i" for i
    by (cases "i = 0") (auto simp: mp_ok_def, simp_all add: ex_mp_def ex_defs)
  then show "kmp_inv ex_mp" by (simp add: kmp_inv_def mp_inv_def) (simp add: ex_mp_def ex_kinv)
  show "mp_free_list ex_mp 0 = [(0, 0), (0, 1)]" by (rule mp_free_list_state [OF st])
qed (simp_all add: ex_mp_def ex_stacks ex_in_thread ex_defs)

text \<open>The same pool with both blocks in use and thread 3 waiting for one.\<close>

definition ex_mp_used :: kst where
  "ex_mp_used = ex_state (Mp_q 0) None 0 0 (ex_ipc\<lparr>mps := (mps ex_ipc)(0 :=
     \<lparr>mp_type = 0x88, mp_size = 32, mp_block_size = 8, block_list = None, block_total_count = 2,
       block_free_count = 0\<rparr>), mp_words := (\<lambda>b. if fst b = 0 then Owned_by 0 else Next_free None)\<rparr>)"

lemma ex_mp_used_inv: "kmp_inv ex_mp_used" "stacks_ok ex_mp_used" "in_thread 2 ex_mp_used" "mp_live ex_mp_used 0"
  "mp_free_list ex_mp_used 0 = []" "(0, 1) \<in> mp_area ex_mp_used 0" "mpw ex_mp_used (0, 1) = Owned_by 0"
  "tls ex_mp_used (Susp (Mp_q 0)) = [3]"
proof -
  have st: "mp_state ex_mp_used 0 []"
    by (auto simp: mp_state_def mp_area_def ex_mp_used_def)
  then have "mp_ok ex_mp_used i" for i
    by (cases "i = 0") (auto simp: mp_ok_def, simp_all add: ex_mp_used_def ex_defs)
  then show "kmp_inv ex_mp_used" by (simp add: kmp_inv_def mp_inv_def) (simp add: ex_mp_used_def ex_kinv)
  show "mp_free_list ex_mp_used 0 = []" by (rule mp_free_list_state [OF st])
qed (simp_all add: ex_mp_used_def ex_stacks ex_in_thread mp_area_def ex_defs)

text \<open>A timer state with one timer due in 20 ticks, just before the tick counter wraps, and a second one to start.\<close>

definition ex_tm :: tmst where
  "ex_tm = (let tm = \<lparr>tm_type = 0x8a, tm_flag = 1, timeout_func = Thread_timeout, tm_parameter = 0, tm_init_tick = 20,
       timeout_tick = 10\<rparr>
     in \<lparr>timers = (\<lambda>t. if t = User_timer 1 then tm else tm\<lparr>tm_flag := 0, tm_init_tick := 5, timeout_tick := 0\<rparr>),
       tmlist = (\<lambda>h. case h of Timer_list \<Rightarrow> [User_timer 1] | _ \<Rightarrow> []), rt_tick = 0xfffffff6, random_nr = 0\<rparr>)"

end
