(* ===== verification/RT_Close.thy ===== *)
theory RT_Close
  imports RT_ThreadInv
begin

text \<open>
  The end of a thread: a thread that returns from its entry function or is detached leaves its
  list, loses its timer and becomes closed; it then waits on the defunct list until the idle
  thread takes its object out of the system. Every step keeps the invariant of the kernel, and
  the loop of the idle thread empties the list.
\<close>

subsection \<open>Closing a thread\<close>

definition closed :: "tid \<Rightarrow> kst \<Rightarrow> kst \<Rightarrow> bool" where
  "closed t s s' \<longleftrightarrow> ipc s' = ipc s \<and> current s' = current s \<and> lock_nest s' = lock_nest s \<and> irq_nest s' = irq_nest s \<and>
     rt_tick (tm s') = rt_tick (tm s) \<and> tls s' = ls_remove (tls s) t \<and>
     (\<forall>u. u \<noteq> t \<longrightarrow> threads s' u = threads s u) \<and> threads s' t = (threads s t)\<lparr>stat := RT_THREAD_CLOSE\<rparr>"

text \<open>The thread goes off its ready or suspend list; a thread that was not started is on none.\<close>

lemma remove_any:
  assumes "kinv s" "th_stat (threads s t) \<noteq> RT_THREAD_CLOSE" "s1 = (if th_stat (threads s t) \<noteq> RT_THREAD_INIT then rt_sched_remove_thread t s else s)"
  shows "sched_inv_but {t} s1" "tls s1 = ls_remove (tls s) t" "threads s1 = threads s" "current s1 = current s" "tm s1 = tm s"
    "ipc s1 = ipc s" "lock_nest s1 = lock_nest s" "irq_nest s1 = irq_nest s"
proof -
  show "sched_inv_but {t} s1"
    using assms(2,3) remove_inv_ok [OF kinvD(1) [OF assms(1)], of t] sched_inv_but_mono [OF kinvD(1) [OF assms(1)], of "{t}"]
    by auto
  have "th_stat (threads s t) = RT_THREAD_INIT \<Longrightarrow> unlinked (tls s) t"
    using thread_ok_unlinked [OF sched_invD(3) [OF kinvD(1) [OF assms(1)]], of t] by simp
  then show "tls s1 = ls_remove (tls s) t" using assms(3) by auto
qed (use assms(3) in simp_all)

lemma close_result:
  assumes inv: "kinv s" and stat: "th_stat (threads s t) \<noteq> RT_THREAD_CLOSE"
    and s1: "s1 = (if th_stat (threads s t) \<noteq> RT_THREAD_INIT then rt_sched_remove_thread t s else s)"
    and s2: "on_tm (rt_timer_detach (Thread_timer t)) s1 = Some s2"
  shows "kinv (rt_sched_thread_close t s2)" "closed t s (rt_sched_thread_close t s2)"
proof -
  note r = remove_any [OF inv stat s1]
  obtain m where m: "rt_timer_detach (Thread_timer t) (tm s) = Some m" "s2 = s1\<lparr>tm := m\<rparr>"
    using s2 r(5) by (auto simp: on_tm_def bind_Some)
  have tm: "timer_inv m" using rt_timer_detach_inv [OF m(1) kinvD(2) [OF inv]] .
  have mt: "tm_flag (timers m (Thread_timer t)) AND RT_TIMER_FLAG_ACTIVATED = 0" "rt_tick m = rt_tick (tm s)"
      "u \<noteq> t \<Longrightarrow> timers m (Thread_timer u) = timers (tm s) (Thread_timer u)" for u
    using m(1) by (auto simp: rt_timer_detach_def Let_def and.assoc split: if_splits)
  have "thread_ok (tls s2) (current s2) t ((threads s2 t)\<lparr>stat := RT_THREAD_CLOSE\<rparr>)"
    using r(2) m(2) by (simp add: thread_ok_when_unlinked th_stat_def)
  then have "sched_inv (rt_sched_thread_close t s2)"
    using settle_inv [of t "{}" s2] r(1) m(2) by (simp add: rt_sched_thread_close_def)
  moreover have "link_ok u (timers m (Thread_timer u)) (threads (rt_sched_thread_close t s2) u)" for u
    using mt(1) mt(3) [of u] kinvD(3) [OF inv, of u] r(3) m(2)
    by (cases "u = t") (auto simp: rt_sched_thread_close_def link_ok_def th_suspended_def th_stat_def)
  ultimately show "kinv (rt_sched_thread_close t s2)"
    using tm m(2) by (simp add: kinv_but_def rt_sched_thread_close_def)
  show "closed t s (rt_sched_thread_close t s2)"
    using r m(2) mt(2) by (auto simp: closed_def rt_sched_thread_close_def)
qed

lemma close_total:
  assumes "kinv s" "th_stat (threads s t) \<noteq> RT_THREAD_CLOSE" "rt_object_get_type (th_type (threads s t)) = RT_Object_Class_Thread"
    "tm s1 = tm s"
  shows "\<exists>s2. on_tm (rt_timer_detach (Thread_timer t)) s1 = Some s2"
proof -
  have "tt_ok t (timers (tm s) (Thread_timer t))" using kinvD(3) [OF assms(1), of t] assms(2,3) by (simp add: link_ok_def)
  then show ?thesis using assms(4) by (simp add: tt_ok_def on_tm_def rt_timer_detach_def Let_def)
qed

lemma touches_closed:
  assumes "closed t s s'"
  shows "touches C s s'"
  using assms by (auto simp: closed_def ls_remove_def shrunk_def wait_eq_def intro!: touchesI)

lemma defunct_enqueue_result:
  assumes "kinv s" "unlinked (tls s) t" "th_stat (threads s t) = RT_THREAD_CLOSE"
  shows "kinv (rt_thread_defunct_enqueue t s)" "touches C s (rt_thread_defunct_enqueue t s)"
    "tls (rt_thread_defunct_enqueue t s) = (tls s)(Defunct := t # tls s Defunct)"
proof -
  let ?s = "rt_thread_defunct_enqueue t s"
  show tls: "tls ?s = (tls s)(Defunct := t # tls s Defunct)"
    by (simp add: rt_thread_defunct_enqueue_def ls_insert_after_def)
  have fr: "threads ?s = threads s" "current ?s = current s" "tm ?s = tm s" "ipc ?s = ipc s" "ready_group ?s = ready_group s"
    by (simp_all add: rt_thread_defunct_enqueue_def)
  note d = kinvD [OF assms(1)] sched_invD [OF kinvD(1) [OF assms(1)]]
  have "wf_ls (tls ?s)"
    using wf_ls_insert_after [OF d(4) assms(2), of Defunct] by (simp add: rt_thread_defunct_enqueue_def)
  moreover have "group_ok (tls ?s) (ready_group ?s)" using d(5) tls fr by (auto simp: group_ok_def)
  moreover have "thread_ok (tls ?s) (current ?s) u (threads ?s u)" for u
    using d(6) [of u] assms(2,3) tls fr by (cases "u = t") (auto simp: thread_ok_def unlinked_def)
  ultimately show "kinv ?s" using d(2,3) fr by (simp add: kinv_but_def sched_inv_but_def)
  show "touches C s ?s" using tls fr by (auto simp: shrunk_def wait_eq_def intro!: touchesI filter_True [symmetric])
qed

subsection \<open>Returning from the entry function\<close>

lemma exit_critical_sched_frame:
  assumes "rt_exit_critical s = Some s'" "kinv s"
  shows "\<exists>n. sched_frame (s\<lparr>lock_nest := n\<rparr>) s'"
proof -
  have "kinv (s\<lparr>lock_nest := n\<rparr>)" for n using assms(2) by simp
  then show ?thesis
    using assms(1) schedule_frame [OF _ kinvD(1), of "s\<lparr>lock_nest := 0\<rparr>" s']
    by (auto simp: rt_exit_critical_def Let_def split: if_splits option.splits intro: sched_frame_refl)
qed

text \<open>Scheduling leaves a closed thread alone.\<close>

lemma sched_frame_closed:
  assumes "sched_frame (s\<lparr>lock_nest := n\<rparr>) s'" "th_stat (threads s t) = RT_THREAD_CLOSE"
  shows "th_stat (threads s' t) = RT_THREAD_CLOSE" "tls s' Defunct = tls s Defunct" "ipc s' = ipc s"
    "tls s' (Susp q) = tls s (Susp q)"
  using assms by (auto simp: sched_frame_def runnable_def)

lemma ready_group_same:
  assumes "kinv s" "kinv s'" "\<And>p. tls s' (Prio p) = tls s (Prio p)"
  shows "ready_group s' = 0 \<longleftrightarrow> ready_group s = 0"
  using group_ok_zero [OF sched_invD(2) [OF kinvD(1) [OF assms(1)]]] group_ok_zero [OF sched_invD(2) [OF kinvD(1) [OF assms(2)]]]
    assms(3) by simp

lemma exit_steps:
  assumes inv: "kinv s" and cur: "current s = Some t" "th_stat (threads s t) = RT_THREAD_RUNNING"
    and run: "thread_exit s = Some s'"
  obtains s2 s3 s4 where "closed t (s\<lparr>lock_nest := lock_nest s + 1\<rparr>) s2" "kinv s2" "s3 = rt_thread_defunct_enqueue t s2"
    "rt_exit_critical s3 = Some s4" "(if current s4 = Some t then rt_schedule s4 else Some s4) = Some s'"
proof -
  let ?s = "s\<lparr>lock_nest := lock_nest s + 1\<rparr>" and ?r = "rt_sched_remove_thread t (s\<lparr>lock_nest := lock_nest s + 1\<rparr>)"
  obtain s2 s4 where s2: "on_tm (rt_timer_detach (Thread_timer t)) ?r = Some s2"
      "rt_exit_critical_safe (lock_nest s + 1) (rt_thread_defunct_enqueue t (rt_sched_thread_close t s2)) = Some s4"
      "(if current s4 = Some t then rt_schedule s4 else Some s4) = Some s'"
    using run cur(1) by (auto simp: thread_exit_def rt_thread_self_def rt_enter_critical_def bind_Some Let_def)
  have k: "kinv ?s" "th_stat (threads ?s t) \<noteq> RT_THREAD_CLOSE" using inv cur(2) by simp_all
  have r: "?r = (if th_stat (threads ?s t) \<noteq> RT_THREAD_INIT then rt_sched_remove_thread t ?s else ?s)" using cur(2) by simp
  note c = close_result [OF k r s2(1)]
  have "rt_exit_critical (rt_thread_defunct_enqueue t (rt_sched_thread_close t s2)) = Some s4"
    using s2(2) by (auto simp: rt_exit_critical_safe_def split: if_splits)
  then show ?thesis using that [OF c(2,1) refl _ s2(3)] by blast
qed

lemma exit_result:
  assumes inv: "kinv s" and cur: "current s = Some t" "th_stat (threads s t) = RT_THREAD_RUNNING"
    and run: "thread_exit s = Some s'"
  shows "kinv s'" "touches C s s'" "th_stat (threads s' t) = RT_THREAD_CLOSE" "tls s' Defunct = t # tls s Defunct" "ipc s' = ipc s"
    "lock_nest s = 0 \<Longrightarrow> ready_group s \<noteq> 0 \<Longrightarrow> \<exists>u. current s' = Some u \<and> u \<noteq> t"
proof -
  let ?s = "s\<lparr>lock_nest := lock_nest s + 1\<rparr>"
  obtain s2 s3 s4 where s2: "closed t ?s s2" "kinv s2" and s3: "s3 = rt_thread_defunct_enqueue t s2" and s4: "rt_exit_critical s3 = Some s4"
    and s': "(if current s4 = Some t then rt_schedule s4 else Some s4) = Some s'" by (rule exit_steps [OF assms])
  have un: "unlinked (tls s) t"
    using thread_ok_unlinked [OF sched_invD(3) [OF kinvD(1) [OF inv]], of t] cur(2) by simp
  have u2: "unlinked (tls s2) t" "tls s2 = tls s" "th_stat (threads s2 t) = RT_THREAD_CLOSE" "ipc s2 = ipc s"
    using s2(1) un by (simp_all add: closed_def th_stat_def)
  note e = defunct_enqueue_result [OF s2(2) u2(1,3), folded s3]
  have f3: "th_stat (threads s3 t) = RT_THREAD_CLOSE" "ipc s3 = ipc s" using u2(3,4) by (simp_all add: s3 rt_thread_defunct_enqueue_def)
  obtain n where f4: "sched_frame (s3\<lparr>lock_nest := n\<rparr>) s4" using exit_critical_sched_frame [OF s4 e(1)] by blast
  note c4 = sched_frame_closed [OF f4 f3(1)]
  have k4: "kinv s4" "touches C s3 s4" using kinv_exit_critical [OF s4 e(1)] touches_exit_critical [OF s4 e(1)] by simp_all
  have "sched_frame (s4\<lparr>lock_nest := lock_nest s4\<rparr>) s'" using s' schedule_frame [OF _ kinvD(1) [OF k4(1)], of s'] by (auto split: if_splits)
  note c' = sched_frame_closed [OF this c4(1)]
  show "th_stat (threads s' t) = RT_THREAD_CLOSE" by (rule c'(1))
  show "tls s' Defunct = t # tls s Defunct" "ipc s' = ipc s" using c'(2,3) c4(2,3) e(3) f3(2) u2(2) by simp_all
  show k': "kinv s'" using s' kinv_schedule k4(1) by (auto split: if_splits)
  have "touches C s4 s'" using s' touches_schedule [OF _ k4(1)] by (auto split: if_splits)
  moreover have "touches C s s2" using touches_closed [OF s2(1), of C] by simp
  ultimately show "touches C s s'" using touches_trans [OF touches_trans [OF touches_trans [OF _ e(2)] k4(2)]] by blast
  assume l: "lock_nest s = 0" and g: "ready_group s \<noteq> 0"
  have a: "lock_nest s3 = 1" "current s3 = Some t" "\<not> runnable (threads s3 t)"
    using s2(1) cur(1) f3(1) l by (simp_all add: s3 rt_thread_defunct_enqueue_def closed_def runnable_def)
  have "ready_group s3 \<noteq> 0" using ready_group_same [OF inv e(1)] e(3) u2(2) g by simp
  moreover have "rt_schedule (s3\<lparr>lock_nest := 0\<rparr>) = Some s4" using s4 a(1,2) by (simp add: rt_exit_critical_def)
  ultimately have "\<exists>u. current s4 = Some u \<and> u \<noteq> t"
    using schedule_leaves [of "s3\<lparr>lock_nest := 0\<rparr>" s4 t] e(1) a(2,3) by auto
  then show "\<exists>u. current s' = Some u \<and> u \<noteq> t" using s' by auto
qed

end
