(* ===== verification/RT_Detach.thy ===== *)
theory RT_Detach
  imports RT_Close
begin

text \<open>
  Detaching a thread. A thread that is detached gives up its wait for a mutex and the mutexes
  it holds before it goes to the defunct list. On the way the thread stays closed and off all
  lists, and the operations touch the mutexes only.
\<close>

subsection \<open>The footprint of the mutex operations\<close>

text \<open>Closed threads stay closed, and the defunct list stays as it is.\<close>

definition dead_eq :: "kst \<Rightarrow> kst \<Rightarrow> bool" where
  "dead_eq s s' \<longleftrightarrow> tls s' Defunct = tls s Defunct \<and>
     (\<forall>u. th_stat (threads s u) = RT_THREAD_CLOSE \<longrightarrow> th_stat (threads s' u) = RT_THREAD_CLOSE)"

definition foot :: "cls set \<Rightarrow> kst \<Rightarrow> kst \<Rightarrow> bool" where
  "foot C s s' \<longleftrightarrow> touches C s s' \<and> dead_eq s s'"

lemma foot_refl [simp]: "foot C s s"
  by (simp add: foot_def dead_eq_def)

lemma foot_trans [trans]: "foot C s s' \<Longrightarrow> foot C s' s'' \<Longrightarrow> foot C s s''"
  using touches_trans by (auto simp: foot_def dead_eq_def)

lemma foot_lock [simp]:
  "foot C s (s'\<lparr>lock_nest := n\<rparr>) = foot C s s'" "foot C (s\<lparr>lock_nest := n\<rparr>) s' = foot C s s'"
  "foot C s (rt_spin_lock s') = foot C s s'" "foot C (rt_spin_lock s) s' = foot C s s'"
  by (simp_all add: foot_def dead_eq_def rt_spin_lock_def rt_enter_critical_def)

lemma dead_eq_frame: "sched_frame (s\<lparr>lock_nest := n\<rparr>) s' \<Longrightarrow> dead_eq s s'"
  by (auto simp: dead_eq_def sched_frame_def runnable_def)

lemma foot_schedule:
  assumes "rt_schedule s = Some s'" "kinv s"
  shows "foot C s s'"
  using touches_schedule [OF assms] schedule_frame [OF assms(1) kinvD(1) [OF assms(2)]] dead_eq_frame [of "lock_nest s" s s']
  by (simp add: foot_def)

lemma foot_unlock:
  assumes "rt_spin_unlock s = Some s'" "kinv s"
  shows "foot C s s'"
  using touches_exit_critical [of s s' C] exit_critical_sched_frame [of s s'] dead_eq_frame assms
  by (auto simp: foot_def rt_spin_unlock_def)

lemma foot_reprio:
  assumes "reprio s s'"
  shows "foot {C_mutex} s s'"
proof -
  have "shrunk (\<lambda>q. cls_of q \<noteq> C_mutex) s s'"
    by (rule shrunk_mono [OF reprioD(8) [OF assms]]) (auto simp: is_mutex_q_def split: ipcref.splits)
  moreover have "same_parts {C_mutex} (ipc s) (ipc s')" using assms by (auto simp: reprio_def same_parts_def)
  moreover have "dead_eq s s'"
    using reprioD(9) [OF assms] prio_eqD(1) [OF reprioD(7) [OF assms]] by (auto simp: dead_eq_def)
  ultimately show ?thesis by (simp add: foot_def touches_def)
qed

lemma foot_woken:
  assumes "woken T s s'" "\<forall>u\<in>T. th_suspended (threads s u)"
  shows "foot C s s'"
proof -
  have "th_stat (threads s' u) = RT_THREAD_CLOSE" if "th_stat (threads s u) = RT_THREAD_CLOSE" for u
    using assms that by (cases "u \<in> T") (auto simp: woken_def suspended_stat)
  then show ?thesis using touches_woken [OF assms(1)] assms(1) by (auto simp: foot_def dead_eq_def woken_def)
qed

lemma foot_upd_mutex [simp]: "foot {C_mutex} s (upd_mutex i f s') = foot {C_mutex} s s'"
  "foot {C_mutex} (upd_mutex i f s) s' = foot {C_mutex} s s'"
  by (auto simp: foot_def touches_def dead_eq_def upd_mutex_def same_parts_def shrunk_def)

lemma foot_taken [simp]: "foot {C_mutex} s (taken_remove i s') = foot {C_mutex} s s'" "foot {C_mutex} s (taken_insert t i s') = foot {C_mutex} s s'"
  "foot {C_mutex} (taken_remove i s) s' = foot {C_mutex} s s'"
  by (auto simp: foot_def touches_def dead_eq_def taken_remove_def taken_insert_def same_parts_def shrunk_def)

lemma foot_upd_thread:
  assumes "\<And>x. wait_eq (f x) x" "\<And>x. th_stat (f x) = th_stat x"
  shows "foot C s (upd_thread t f s)"
  using touches_upd_thread [OF assms(1)] assms(2) by (simp add: foot_def dead_eq_def)

lemma foot_set_error: "foot C s (upd_thread t (\<lambda>x. x\<lparr>error := e\<rparr>) s)"
  by (rule foot_upd_thread) (simp_all add: wait_eq_def th_stat_def)

text \<open>A field of a thread that waits for nothing.\<close>

lemma foot_set_pending:
  assumes "\<And>q. t \<notin> set (tls s (Susp q))"
  shows "foot C s (upd_thread t (\<lambda>x. x\<lparr>pending_object := p\<rparr>) s)"
proof -
  have "shrunk own s (upd_thread t (\<lambda>x. x\<lparr>pending_object := p\<rparr>) s)" for own
    using assms by (auto simp: shrunk_def wait_eq_def intro!: exI [of _ "\<lambda>_. True"])
  then show ?thesis by (auto simp: foot_def dead_eq_def th_stat_def intro!: touchesI)
qed

lemma foot_hand_over:
  assumes "mutex_hand_over i s = Some (b, s')" "kinv s"
  shows "foot {C_mutex} s s'"
proof (cases "mtx_q s i")
  case Nil
  then show ?thesis using assms by (auto simp: mutex_hand_over_def)
next
  case (Cons n ns)
  have su: "th_suspended (threads s n)"
    using thread_okD(3) [OF sched_invD(3) [OF kinvD(1) [OF assms(2)]], of n "Mutex_q i"] Cons by simp
  obtain s1 where s1: "mutex_wake_next i s = Some (Some n, s1)" "kinv s1" "woken {n} s s1"
    using wake_next_result [OF assms(2) Cons] by blast
  let ?s2 = "taken_insert n i (upd_mutex i (\<lambda>x. x\<lparr>owner := Some n, hold := 1\<rparr>) s1)"
  let ?s3 = "upd_thread n (\<lambda>x. x\<lparr>pending_object := None\<rparr>) ?s2"
  have s': "s' = mutex_update_priority i ?s3" using assms(1) Cons s1(1) by (simp add: mutex_hand_over_def)
  have "foot {C_mutex} s ?s2" using foot_woken [OF s1(3)] su by simp
  moreover have "foot {C_mutex} ?s2 ?s3"
    using runnable_not_queued [OF s1(2), of n] s1(3) by (intro foot_set_pending) (auto simp: woken_def)
  moreover have "foot {C_mutex} ?s3 s'" unfolding s' by (rule foot_reprio [OF update_priority_result(1)])
  ultimately show ?thesis using foot_trans by blast
qed

lemma foot_release:
  assumes "rt_mutex_release i s = Some (e, s')" "kmtx_inv s"
  shows "foot {C_mutex} s s'"
  using assms(1)
proof (cases rule: release_cases)
  case (other t)
  let ?s = "upd_thread t (\<lambda>x. x\<lparr>error := - RT_ERROR\<rparr>) (rt_spin_lock s)"
  have "kinv ?s" using assms(2) by (simp add: kmtx_inv_def kinv_set_error)
  then show ?thesis using foot_trans [OF foot_set_error foot_unlock [OF other(5), of "{C_mutex}"]] by simp
next
  case (nested t)
  have "kinv (upd_mutex i (\<lambda>x. x\<lparr>hold := hold x - 1\<rparr>) (rt_spin_lock s))" using assms(2) by (simp add: kmtx_inv_def)
  then show ?thesis using foot_unlock [OF nested(6), of "{C_mutex}"] by simp
next
  case (last t b1 s2 b2 s3 s4)
  let ?s = "taken_remove i (upd_mutex i (\<lambda>x. x\<lparr>hold := hold x - 1\<rparr>) (rt_spin_lock s))"
  have k: "kinv ?s" using assms(2) by (simp add: kmtx_inv_def)
  note c = check_update_result(1,2) [OF last(6) k]
  have f3: "foot {C_mutex} ?s s3" by (rule foot_trans [OF foot_reprio [OF c(2)] foot_hand_over [OF last(7) c(1)]])
  have l: "kmtx_inv s3" using release_last [OF _ _ _ _ refl last(6,7)] assms(2) last(1-5) by simp
  have f4: "foot {C_mutex} s3 s4" "kinv s4"
    using foot_unlock [OF last(8)] kmtx_unlock [OF last(8) l] l by (simp_all add: kmtx_inv_def)
  have "foot {C_mutex} s4 s'" using last(9) foot_schedule [OF _ f4(2)] by (auto split: if_splits)
  then show ?thesis using foot_trans [OF foot_trans [OF f3 f4(1)]] by simp
qed

lemma closed_not_queued:
  assumes "kinv s" "th_stat (threads s t) = RT_THREAD_CLOSE"
  shows "t \<notin> set (tls s (Susp q))" "t \<notin> set (tls s Defunct) \<Longrightarrow> unlinked (tls s) t"
proof -
  note ok = sched_invD(3) [OF kinvD(1) [OF assms(1)], of t]
  have su: "\<not> th_suspended (threads s t)" using assms(2) by (simp add: suspended_stat)
  then show q: "t \<notin> set (tls s (Susp q))" for q using thread_okD(3) [OF ok, of q] by auto
  assume "t \<notin> set (tls s Defunct)"
  then have "t \<notin> set (tls s h)" for h using q thread_okD(1) [OF ok] assms(2) by (cases h) auto
  then show "unlinked (tls s) t" by (simp add: unlinked_def)
qed

lemma foot_drop_thread:
  assumes run: "rt_mutex_drop_thread i t s = Some s'" and inv: "kmtx_inv s" and un: "unlinked (tls s) t"
  shows "foot {C_mutex} s s'"
proof -
  have eq: "list_remove_thread t (rt_spin_lock s) = rt_spin_lock s" using un by (simp add: list_remove_thread_def)
  obtain s1 where s1: "mutex_unboost i t (rt_spin_lock s) = Some s1" "rt_spin_unlock s1 = Some s'"
    using run eq by (auto simp: rt_mutex_drop_thread_def bind_Some Let_def split: if_splits)
  have k: "kinv (rt_spin_lock s)" using inv by (simp add: kmtx_inv_def)
  note u = unboost_result [OF s1(1) k]
  show ?thesis using foot_trans [OF foot_reprio [OF u(2)] foot_unlock [OF s1(2) u(1)]] by simp
qed

lemma clear_pending_unqueued:
  assumes "kmtx_inv s" "\<And>q. t \<notin> set (tls s (Susp q))"
  shows "kmtx_inv (upd_thread t (\<lambda>x. x\<lparr>pending_object := None\<rparr>) s)" (is "kmtx_inv ?s")
proof -
  have "mutex_ok ?s j" for j
    by (rule mutex_ok_other [of s]) (use assms kmtx_invD(3) [OF assms(1)] in auto)
  then show ?thesis using assms(1) by (simp add: kmtx_inv_def mutex_inv_def kinv_set_pending)
qed

lemma release_all_result:
  assumes "release_all is s = Some s'" "kmtx_inv s"
  shows "kmtx_inv s' \<and> foot {C_mutex} s s'"
  using assms
proof (induction "is" arbitrary: s)
  case (Cons i "is")
  then obtain e s1 where s1: "rt_mutex_release i s = Some (e, s1)" "release_all is s1 = Some s'"
    by (auto simp: bind_Some)
  have "current s \<noteq> None" using s1(1) by (cases rule: release_cases) auto
  then have k: "kmtx_inv s1" using release_result(1) [OF s1(1) Cons.prems(2)] by auto
  show ?case using Cons.IH [OF s1(2) k] foot_trans [OF foot_release [OF s1(1) Cons.prems(2)]] by blast
qed simp

lemma detach_from_mutex_result:
  assumes run: "thread_detach_from_mutex t s = Some s'" and inv: "kmtx_inv s"
    and dead: "th_stat (threads s t) = RT_THREAD_CLOSE" "t \<notin> set (tls s Defunct)"
  shows "kmtx_inv s'" "foot {C_mutex} s s'"
proof -
  note un = closed_not_queued [OF kmtx_invD(1) [OF inv] dead(1)]
  obtain s1 where s1: "(case pending_object (threads s t) of
        Some i \<Rightarrow> if mtx_live s i
          then do { s \<leftarrow> rt_mutex_drop_thread i t s; Some (upd_thread t (\<lambda>x. x\<lparr>pending_object := None\<rparr>) s) }
          else Some s
      | None \<Rightarrow> Some s) = Some s1" "release_all (taken (ipc s1) t) s1 = Some s'"
    using run by (auto simp: thread_detach_from_mutex_def bind_Some)
  have "kmtx_inv s1 \<and> foot {C_mutex} s s1"
  proof (cases "s1 = s")
    case False
    then obtain i sa where sa: "rt_mutex_drop_thread i t s = Some sa" "s1 = upd_thread t (\<lambda>x. x\<lparr>pending_object := None\<rparr>) sa"
      using s1(1) by (auto simp: bind_Some split: option.splits if_splits)
    have k: "kmtx_inv sa" using kmtx_drop_thread [OF sa(1) inv] un(2) dead(2) by simp
    have f: "foot {C_mutex} s sa" using foot_drop_thread [OF sa(1) inv] un(2) dead(2) by simp
    then have "t \<notin> set (tls sa (Susp q))" for q
      using closed_not_queued(1) [OF kmtx_invD(1) [OF k]] dead(1) by (simp add: foot_def dead_eq_def)
    then show ?thesis
      using clear_pending_unqueued [OF k] foot_trans [OF f foot_set_pending] sa(2) by simp
  qed (use inv in simp)
  then show "kmtx_inv s'" "foot {C_mutex} s s'" using release_all_result [OF s1(2)] foot_trans by blast+
qed

lemma kmtx_closed:
  assumes "closed t s s'" "kinv s'" "kmtx_inv s"
  shows "kmtx_inv s'"
proof -
  have "shrunk is_mutex_q s s'"
    using assms(1) by (auto simp: shrunk_def closed_def ls_remove_def wait_eq_def)
  then show ?thesis
    using mtxc.keep [of s s'] assms by (simp add: kmtx_inv_def closed_def)
qed

lemma detach_result:
  assumes run: "thread_detach t s = Some (e, s')" and inv: "kmtx_inv s"
  shows "kmtx_inv s'" "touches {C_mutex} s s'" "e = RT_EOK" "th_stat (threads s' t) = RT_THREAD_CLOSE"
    "th_stat (threads s t) \<noteq> RT_THREAD_CLOSE \<Longrightarrow> tls s' Defunct = t # tls s Defunct"
proof -
  let ?s = "s\<lparr>lock_nest := lock_nest s + 1\<rparr>"
  let ?D = "\<lambda>s'. kmtx_inv s' \<and> touches {C_mutex} s s' \<and> th_stat (threads s' t) = RT_THREAD_CLOSE \<and>
    (th_stat (threads s t) \<noteq> RT_THREAD_CLOSE \<longrightarrow> tls s' Defunct = t # tls s Defunct)"
  have "kmtx_inv (rt_spin_lock s)" using inv by (simp add: kmtx_inv_def)
  then have k: "kmtx_inv ?s" "kinv ?s" using inv by (simp_all add: kmtx_inv_def rt_spin_lock_def rt_enter_critical_def)
  obtain s4 where s4: "(if th_stat (threads s t) \<noteq> RT_THREAD_CLOSE then
      do { s \<leftarrow> on_tm (rt_timer_detach (Thread_timer t)) (if th_stat (threads s t) \<noteq> RT_THREAD_INIT then rt_sched_remove_thread t ?s else ?s);
           s \<leftarrow> thread_detach_from_mutex t (rt_sched_thread_close t s);
           Some (rt_thread_defunct_enqueue t s) } else Some ?s) = Some s4"
      "rt_exit_critical s4 = Some s'" and e: "e = RT_EOK"
    using run by (auto simp: thread_detach_def rt_enter_critical_def rt_sched_thread_get_stat_def rt_exit_critical_safe_def
        bind_Some Let_def th_stat_def split: if_splits)
  have "?D s4"
  proof (cases "th_stat (threads s t) = RT_THREAD_CLOSE")
    case True
    then have "s4 = ?s" using s4(1) by simp
    then show ?thesis using k(1) True by simp
  next
    case False
    then obtain s1 s2 where s1: "on_tm (rt_timer_detach (Thread_timer t)) (if th_stat (threads s t) \<noteq> RT_THREAD_INIT then rt_sched_remove_thread t ?s else ?s) = Some s1"
        "thread_detach_from_mutex t (rt_sched_thread_close t s1) = Some s2" "s4 = rt_thread_defunct_enqueue t s2"
      using s4(1) by (auto simp: bind_Some)
    let ?c = "rt_sched_thread_close t s1"
    have c: "kinv ?c" "closed t ?s ?c" using close_result [OF k(2) _ _ s1(1)] False by auto
    have kc: "kmtx_inv ?c" by (rule kmtx_closed [OF c(2,1) k(1)])
    have "t \<notin> set (tls s Defunct)" using thread_okD(4) [OF sched_invD(3) [OF kinvD(1) [OF k(2)]], of t] False by auto
    then have dead: "th_stat (threads ?c t) = RT_THREAD_CLOSE" "t \<notin> set (tls ?c Defunct)" "tls ?c Defunct = tls s Defunct"
      using c(2) by (simp_all add: closed_def th_stat_def)
    note d = detach_from_mutex_result [OF s1(2) kc dead(1,2)]
    have d2: "th_stat (threads s2 t) = RT_THREAD_CLOSE" "tls s2 Defunct = tls s Defunct" "touches {C_mutex} ?c s2"
      using d(2) dead by (simp_all add: foot_def dead_eq_def)
    have un: "unlinked (tls s2) t" using closed_not_queued(2) [OF kmtx_invD(1) [OF d(1)] d2(1)] dead(2,3) d2(2) by simp
    note en = defunct_enqueue_result [OF kmtx_invD(1) [OF d(1)] un d2(1), folded s1(3)]
    have "mutex_inv s4"
      by (rule mtxc.keep [OF kmtx_invD(2) [OF d(1)]]) (use en(3) in \<open>auto simp: s1(3) rt_thread_defunct_enqueue_def shrunk_def ls_insert_after_def intro!: exI [of _ "\<lambda>_. True"]\<close>)
    moreover have "touches {C_mutex} s s4"
      using touches_trans [OF touches_trans [OF touches_closed [OF c(2)] d2(3)] en(2)] by simp
    ultimately show ?thesis
      using en(1,3) d2(1,2) by (simp add: kmtx_inv_def s1(3) rt_thread_defunct_enqueue_def)
  qed
  then have D: "kmtx_inv s4" "touches {C_mutex} s s4" "th_stat (threads s4 t) = RT_THREAD_CLOSE" "th_stat (threads s t) \<noteq> RT_THREAD_CLOSE \<Longrightarrow> tls s4 Defunct = t # tls s Defunct" by simp_all
  note u = s4(2) [folded rt_spin_unlock_def]
  have f: "foot {C_mutex} s4 s'" by (rule foot_unlock [OF u kmtx_invD(1) [OF D(1)]])
  show "kmtx_inv s'" by (rule kmtx_unlock [OF u D(1)])
  show "e = RT_EOK" by (rule e)
  show "touches {C_mutex} s s'" "th_stat (threads s' t) = RT_THREAD_CLOSE" "th_stat (threads s t) \<noteq> RT_THREAD_CLOSE \<Longrightarrow> tls s' Defunct = t # tls s Defunct"
    using D f touches_trans by (auto simp: foot_def dead_eq_def)
qed

subsection \<open>The control commands\<close>

lemma startup_keeps:
  assumes "rt_thread_startup t s = Some (e, s')" "kinv s"
  shows "kinv s' \<and> touches C s s'"
  using startup_result(1,2) [OF assms(2,1)] startup_stale(1,2) [OF assms(2,1)] by (cases "ttmr_set (threads s t)") blast+

lemma touches_kmtx:
  assumes "touches C s s'" "C_mutex \<notin> C" "kinv s'" "kmtx_inv s"
  shows "kmtx_inv s'"
proof -
  have "shrunk is_mutex_q s s'"
    by (rule shrunk_mono [of "\<lambda>q. cls_of q \<notin> C"]) (use assms(1,2) in \<open>auto simp: touches_def is_mutex_q_def\<close>)
  then show ?thesis
    using mtxc.keep [of s s'] assms by (simp add: kmtx_inv_def touches_def same_parts_def)
qed

lemma control_result:
  assumes run: "rt_thread_control t cmd arg s = Some (e, s')" and inv: "kmtx_inv s"
  shows "kmtx_inv s' \<and> touches {C_mutex} s s'"
proof -
  have k: "kinv s" using inv by (simp add: kmtx_inv_def)
  have start: ?thesis if "rt_thread_startup t s = Some (e, s')"
    using startup_keeps [OF that k, of "{}"] touches_kmtx [of "{}" s s'] touches_mono [of "{}" s s' "{C_mutex}"] inv by simp
  have close: ?thesis if d: "thread_detach t s = Some (e, s1)" and sc: "rt_schedule s1 = Some s'" for s1
  proof -
    note r = detach_result(1,2) [OF d inv]
    show ?thesis
      using kmtx_schedule [OF sc r(1)] touches_trans [OF r(2) touches_schedule [OF sc kmtx_invD(1) [OF r(1)]]] by blast
  qed
  have prio: ?thesis if "rt_sched_thread_change_priority t arg s = Some s'"
    using change_prio_result(1,2) [OF k that] kmtx_reprio foot_reprio inv by (auto simp: foot_def)
  show ?thesis
    using run inv start close prio
    by (auto simp: rt_thread_control_def rt_thread_detach_def rt_thread_delete_def bind_Some split: if_splits)
qed

subsection \<open>The defunct list\<close>

text \<open>
  What the idle thread relies on: a cleanup function returns, keeps the invariant of the kernel,
  and closes no thread.
\<close>

definition cleanup_ok :: "(nat \<Rightarrow> tid \<Rightarrow> kst \<Rightarrow> kst option) \<Rightarrow> bool" where
  "cleanup_ok run \<longleftrightarrow> (\<forall>f t s. kinv s \<longrightarrow> (\<exists>s'. run f t s = Some s' \<and> kinv s' \<and> dead_eq s s' \<and>
     (\<forall>u. th_stat (threads s u) = RT_THREAD_CLOSE \<longrightarrow> th_type (threads s' u) = th_type (threads s u))))"

lemma reclaim_thread:
  assumes "kinv s" "th_stat (threads s t) = RT_THREAD_CLOSE"
  shows "kinv (upd_thread t (\<lambda>x. x\<lparr>th_type := object_detach (th_type x)\<rparr>) s)"
  using upd_thread_inv [OF kinvD(1) [OF assms(1)], of t "\<lambda>x. x\<lparr>th_type := object_detach (th_type x)\<rparr>"] kinvD(2,3) [OF assms(1)] assms(2)
  by (auto simp: kinv_but_def link_ok_def th_stat_def th_suspended_def object_detach_def rt_object_get_type_def)

lemma dequeue_result:
  assumes inv: "kinv s" and q: "tls s Defunct = t # ts"
  shows "kinv (list_remove_thread t s)" "tls (list_remove_thread t s) Defunct = ts" "th_stat (threads s t) = RT_THREAD_CLOSE"
proof -
  let ?s = "list_remove_thread t s"
  note d = sched_invD [OF kinvD(1) [OF inv]]
  show st: "th_stat (threads s t) = RT_THREAD_CLOSE" using thread_okD(4) [OF d(3), of t] q by simp
  have "distinct (tls s Defunct)" by (rule wf_ls_distinct [OF d(1)])
  then show df: "tls ?s Defunct = ts" using q by (auto simp: list_remove_thread_def ls_remove_def)
  have o: "tls ?s h = tls s h" if "h \<noteq> Defunct" for h
  proof -
    have "t \<notin> set (tls s h)" using wf_ls_unique [OF d(1), of t Defunct h] q that by auto
    then show ?thesis by simp
  qed
  have "group_ok (tls ?s) (ready_group ?s)" using d(2) o by (simp add: group_ok_def list_remove_thread_def)
  moreover have "thread_ok (tls ?s) (current ?s) u (threads ?s u)" for u
    using d(3) [of u] o q df by (auto simp: thread_ok_def)
  ultimately show "kinv ?s"
    using kinvD(2,3) [OF inv] wf_ls_remove [OF d(1), of t] by (simp add: kinv_but_def sched_inv_but_def list_remove_thread_def)
qed

lemma defunct_step:
  assumes inv: "kinv s" and q: "tls s Defunct = t # ts" and ok: "cleanup_ok run"
  shows "\<exists>s'. rt_defunct_execute run s = rt_defunct_execute run s' \<and> kinv s' \<and> tls s' Defunct = ts \<and>
    (\<forall>u. th_stat (threads s u) = RT_THREAD_CLOSE \<longrightarrow> th_stat (threads s' u) = RT_THREAD_CLOSE \<and>
       th_type (threads s' u) = (if u = t then RT_Object_Class_Null else th_type (threads s u)))"
proof -
  define s1 where "s1 = list_remove_thread t s"
  define sys where "sys = rt_object_is_systemobject (th_type (threads s t))"
  let ?gone = "upd_thread t (\<lambda>x. x\<lparr>th_type := object_detach (th_type x)\<rparr>)"
  define s2 where "s2 = (if sys then ?gone s1 else s1)"
  note d = dequeue_result [OF inv q, folded s1_def]
  have k2: "kinv s2" using d(1) reclaim_thread [OF d(1), of t] d(3) by (simp add: s2_def s1_def)
  have f2: "tls s2 Defunct = ts" "th_stat (threads s2 u) = th_stat (threads s u)"
      "th_type (threads s2 u) = (if u = t \<and> sys then RT_Object_Class_Null else th_type (threads s u))" for u
    using d(2) by (simp_all add: s2_def s1_def th_stat_def object_detach_def)
  obtain s3 where s3: "(case cleanup (threads s t) of None \<Rightarrow> Some s2 | Some f \<Rightarrow> run f t s2) = Some s3" "kinv s3" "dead_eq s2 s3"
      "\<And>u. th_stat (threads s2 u) = RT_THREAD_CLOSE \<Longrightarrow> th_type (threads s3 u) = th_type (threads s2 u)"
  proof (cases "cleanup (threads s t)")
    case None
    then show ?thesis using that [of s2] k2 by (simp add: dead_eq_def)
  next
    case (Some f)
    then show ?thesis using that ok k2 unfolding cleanup_ok_def by fastforce
  qed
  let ?s4 = "if \<not> sys then ?gone s3 else s3"
  have st3: "th_stat (threads s3 u) = RT_THREAD_CLOSE" if "th_stat (threads s u) = RT_THREAD_CLOSE" for u
    using s3(3) f2(2) that by (simp add: dead_eq_def)
  have "rt_thread_defunct_dequeue s = (Some t, s1)" using q by (simp add: rt_thread_defunct_dequeue_def s1_def)
  moreover have "threads s1 t = threads s t" by (simp add: s1_def)
  ultimately have "rt_defunct_execute run s = rt_defunct_execute run ?s4"
    using s3(1) unfolding s2_def sys_def by (simp add: rt_defunct_execute.simps [of run s] Let_def split: if_splits)
  moreover have "kinv ?s4" using s3(2) reclaim_thread [OF s3(2) st3 [OF d(3)]] by simp
  moreover have "tls ?s4 Defunct = ts" using s3(3) f2(1) by (simp add: dead_eq_def)
  moreover have "th_stat (threads ?s4 u) = RT_THREAD_CLOSE \<and>
       th_type (threads ?s4 u) = (if u = t then RT_Object_Class_Null else th_type (threads s u))"
    if "th_stat (threads s u) = RT_THREAD_CLOSE" for u
    using st3 [OF that] s3(4) [of u] f2(2,3) [of u] that by (auto simp: th_stat_def object_detach_def)
  ultimately show ?thesis by blast
qed

lemma defunct_total:
  assumes "kinv s" "cleanup_ok run"
  shows "\<exists>s'. rt_defunct_execute run s = Some s' \<and> kinv s' \<and> tls s' Defunct = [] \<and>
    (\<forall>u. th_stat (threads s u) = RT_THREAD_CLOSE \<longrightarrow>
       th_type (threads s' u) = (if u \<in> set (tls s Defunct) then RT_Object_Class_Null else th_type (threads s u)))"
  using assms(1)
proof (induction "tls s Defunct" arbitrary: s)
  case Nil
  then show ?case by (auto simp: rt_defunct_execute.simps [of run s] rt_thread_defunct_dequeue_def)
next
  case (Cons t ts)
  obtain s1 where s1: "rt_defunct_execute run s = rt_defunct_execute run s1" "kinv s1" "tls s1 Defunct = ts"
      "\<And>u. th_stat (threads s u) = RT_THREAD_CLOSE \<Longrightarrow> th_stat (threads s1 u) = RT_THREAD_CLOSE \<and>
         th_type (threads s1 u) = (if u = t then RT_Object_Class_Null else th_type (threads s u))"
    using defunct_step [OF Cons.prems Cons.hyps(2) [symmetric] assms(2)] by blast
  obtain s' where s': "rt_defunct_execute run s1 = Some s'" "kinv s'" "tls s' Defunct = []"
      "\<And>u. th_stat (threads s1 u) = RT_THREAD_CLOSE \<Longrightarrow>
         th_type (threads s' u) = (if u \<in> set (tls s1 Defunct) then RT_Object_Class_Null else th_type (threads s1 u))"
    using Cons.hyps(1) [of s1] s1(2,3) by blast
  have "th_type (threads s' u) = (if u \<in> set (tls s Defunct) then RT_Object_Class_Null else th_type (threads s u))"
    if "th_stat (threads s u) = RT_THREAD_CLOSE" for u
    using s1(3) s1(4) [OF that] s'(4) [of u] Cons.hyps(2) [symmetric] by auto
  then show ?case using s1(1) s'(1-3) by (intro exI [of _ s']) simp
qed

end
