(* ===== verification/RT_Tick.thy ===== *)
theory RT_Tick
  imports RT_Total RT_Detach
begin

text \<open>
  Expiring timers (\<^verbatim>\<open>rt_timer_check\<close> and \<^verbatim>\<open>_soft_timer_check\<close> of \<^verbatim>\<open>src/timer.c\<close>) and the tick
  interrupt (\<^verbatim>\<open>rt_tick_increase\<close> of \<^verbatim>\<open>src/clock.c\<close>). The callbacks of the application are a
  parameter; the callback of a thread timer is \<^verbatim>\<open>_thread_timeout\<close>. A loop returns when the
  callbacks do, and then no timer of its list is due: no thread sleeps past its timeout.
\<close>

subsection \<open>The loops\<close>

type_synonym callback = "nat \<Rightarrow> nat \<Rightarrow> kst \<Rightarrow> kst option"

definition timer_call :: "callback \<Rightarrow> timerid \<Rightarrow> kst \<Rightarrow> kst option" where
  "timer_call user t s =
     (case timeout_func (timers (tm s) t) of
        Thread_timeout \<Rightarrow> thread_timeout (tm_parameter (timers (tm s) t)) s
      | User_func f \<Rightarrow> user f (tm_parameter (timers (tm s) t)) s)"

text \<open>Taking a due timer off its list, onto the local list \<open>l\<close>.\<close>

definition timer_expire_enter :: "tmhead \<Rightarrow> timerid \<Rightarrow> tmst \<Rightarrow> tmst" where
  "timer_expire_enter l t m =
     (let m = timer_remove t m;
          m = (if \<not> tm_has m t RT_TIMER_FLAG_PERIODIC then clr_tm_flag t RT_TIMER_FLAG_ACTIVATED m else m);
          m = set_tm_flag t RT_TIMER_FLAG_PROCESSING m
      in m\<lparr>tmlist := ls_insert_after (tmlist m) l t\<rparr>)"

text \<open>After the callback: a timer still on the local list leaves it, and a periodic one starts again.\<close>

definition timer_expire_leave :: "tmhead \<Rightarrow> tmhead \<Rightarrow> timerid \<Rightarrow> tmst \<Rightarrow> tmst" where
  "timer_expire_leave h l t m =
     (let m = clr_tm_flag t RT_TIMER_FLAG_PROCESSING m
      in if tmlist m l = [] then m
         else let m = timer_remove t m
              in if tm_has m t RT_TIMER_FLAG_PERIODIC \<and> tm_has m t RT_TIMER_FLAG_ACTIVATED
                 then snd (timer_start h t (clr_tm_flag t RT_TIMER_FLAG_ACTIVATED m)) else m)"

definition timer_expire :: "callback \<Rightarrow> tmhead \<Rightarrow> tmhead \<Rightarrow> timerid \<Rightarrow> kst \<Rightarrow> kst option" where
  "timer_expire user h l t s =
     do { s \<leftarrow> timer_call user t (s\<lparr>tm := timer_expire_enter l t (tm s)\<rparr>);
          Some (s\<lparr>tm := timer_expire_leave h l t (tm s)\<rparr>) }"

definition timer_due :: "u32 \<Rightarrow> rt_timer \<Rightarrow> bool" where
  "timer_due now x \<longleftrightarrow> now - timeout_tick x < RT_TICK_MAX div 2"

partial_function (option) timer_check_loop :: "callback \<Rightarrow> u32 \<Rightarrow> kst \<Rightarrow> kst option" where
  "timer_check_loop user current_tick s =
     (case tmlist (tm s) Timer_list of
        [] \<Rightarrow> Some s
      | t # _ \<Rightarrow>
          if timer_due current_tick (timers (tm s) t) then
            do { s \<leftarrow> timer_expire user Timer_list Hard_local t s;
                 timer_check_loop user (rt_tick_get (tm s)) s }
          else Some s)"

definition rt_timer_check :: "callback \<Rightarrow> kst \<Rightarrow> kst option" where
  "rt_timer_check user s =
     do { rt_assert (0 < rt_interrupt_get_nest s);
          let current_tick = rt_tick_get (tm s);
          let s = s\<lparr>tm := (tm s)\<lparr>tmlist := ls_init (tmlist (tm s)) Hard_local\<rparr>\<rparr>;
          timer_check_loop user current_tick s }"

partial_function (option) soft_timer_check_loop :: "callback \<Rightarrow> kst \<Rightarrow> kst option" where
  "soft_timer_check_loop user s =
     (case tmlist (tm s) Soft_timer_list of
        [] \<Rightarrow> Some s
      | t # _ \<Rightarrow>
          let current_tick = rt_tick_get (tm s)
          in if timer_due current_tick (timers (tm s) t) then
               do { s \<leftarrow> timer_expire user Soft_timer_list Soft_local t s;
                    soft_timer_check_loop user s }
             else Some s)"

definition soft_timer_check :: "callback \<Rightarrow> kst \<Rightarrow> kst option" where
  "soft_timer_check user s =
     soft_timer_check_loop user (s\<lparr>tm := (tm s)\<lparr>tmlist := ls_init (tmlist (tm s)) Soft_local\<rparr>\<rparr>)"

definition rt_tick_increase :: "callback \<Rightarrow> kst \<Rightarrow> kst option" where
  "rt_tick_increase user s =
     do { rt_assert (0 < rt_interrupt_get_nest s);
          let s = s\<lparr>tm := (tm s)\<lparr>rt_tick := rt_tick (tm s) + 1\<rparr>\<rparr>;
          s \<leftarrow> rt_sched_tick_increase s;
          rt_timer_check user s }"

text \<open>
  The timer thread up to its wait: the result is the timeout of its \<^verbatim>\<open>rt_sem_take\<close>, or
  \<^verbatim>\<open>RT_NULL\<close> when a timer is already due.
\<close>

definition timer_thread_wait :: "tmst \<Rightarrow> int option" where
  "timer_thread_wait m =
     (case timer_list_next_timeout m Soft_timer_list of
        None \<Rightarrow> Some (- 1)
      | Some next_timeout \<Rightarrow>
          let current_tick = rt_tick_get m
          in if next_timeout - current_tick < RT_TICK_MAX div 2
             then Some (sint (next_timeout - current_tick)) else None)"

definition timer_thread_round :: "callback \<Rightarrow> kst \<Rightarrow> (unit wres \<times> kst) option" where
  "timer_thread_round user s =
     do { (r, s) \<leftarrow> (case timer_thread_wait (tm s) of
                        None \<Rightarrow> Some (Ret RT_EOK, s)
                      | Some timeout \<Rightarrow> rt_sem_take soft_timer_sem timeout s);
          case r of
            Wait \<Rightarrow> Some (Wait, s)
          | Ret _ \<Rightarrow> do { s \<leftarrow> soft_timer_check user s; Some (Ret (), s) } }"

subsection \<open>The scheduler does not look at the timers\<close>

lemma sched_ops_tm:
  "rt_sched_remove_thread t (s\<lparr>tm := m\<rparr>) = (rt_sched_remove_thread t s)\<lparr>tm := m\<rparr>"
  "rt_sched_insert_thread t (s\<lparr>tm := m\<rparr>) = (rt_sched_insert_thread t s)\<lparr>tm := m\<rparr>"
  "upd_thread t f (s\<lparr>tm := m\<rparr>) = (upd_thread t f s)\<lparr>tm := m\<rparr>"
  "list_remove_thread t (s\<lparr>tm := m\<rparr>) = (list_remove_thread t s)\<lparr>tm := m\<rparr>"
  "set_stat t x (s\<lparr>tm := m\<rparr>) = (set_stat t x s)\<lparr>tm := m\<rparr>"
  "scheduler_get_highest_priority_thread (s\<lparr>tm := m\<rparr>) = scheduler_get_highest_priority_thread s"
  "rt_scheduler_stack_check t (s\<lparr>tm := m\<rparr>) = rt_scheduler_stack_check t s"
  by (simp_all add: rt_sched_remove_thread_def rt_sched_insert_thread_def upd_thread_def list_remove_thread_def set_stat_def
      scheduler_get_highest_priority_thread_def rt_scheduler_stack_check_def Let_def)

definition switched :: "tid \<Rightarrow> tid \<Rightarrow> bool \<Rightarrow> kst \<Rightarrow> kst" where
  "switched a b n s =
     (let s = (if n then rt_sched_insert_thread a s else s);
          s = (if th_yield (threads s a) then upd_thread a (\<lambda>x. x\<lparr>stat := stat x AND NOT RT_THREAD_STAT_YIELD_MASK\<rparr>) s else s)
      in set_stat b RT_THREAD_RUNNING (rt_sched_remove_thread b s))"

lemma switched_tm: "switched a b n (s\<lparr>tm := m\<rparr>) = (switched a b n s)\<lparr>tm := m\<rparr>"
proof -
  have y: "th_yield (threads (s\<lparr>tm := m\<rparr>) a) = th_yield (threads s a)" for s :: kst by simp
  show ?thesis unfolding switched_def Let_def by (simp only: sched_ops_tm y split: if_split) simp
qed

lemma switch_switched:
  "schedule_switch a b hp n s = (let s = switched a b n (s\<lparr>cur_prio := of_nat hp, current := Some b\<rparr>)
     in if stack_ok (threads s b) then Some s else None)"
  by (simp add: schedule_switch_def switched_def Let_def stack_check_ok)

lemma switch_tm:
  "schedule_switch a b hp n (s\<lparr>tm := m\<rparr>) = map_option (\<lambda>s. s\<lparr>tm := m\<rparr>) (schedule_switch a b hp n s)"
proof -
  let ?s = "s\<lparr>cur_prio := of_nat hp, current := Some b\<rparr>"
  have eq: "s\<lparr>tm := m, cur_prio := of_nat hp, current := Some b\<rparr> = ?s\<lparr>tm := m\<rparr>" by simp
  show ?thesis unfolding switch_switched Let_def eq switched_tm by simp
qed

lemma schedule_tm: "rt_schedule (s\<lparr>tm := m\<rparr>) = map_option (\<lambda>s. s\<lparr>tm := m\<rparr>) (rt_schedule s)"
  by (cases "scheduler_get_highest_priority_thread s"; cases "current s")
    (auto simp: rt_schedule_def sched_ops_tm switch_tm Let_def)

lemma timeout_tm: "thread_timeout t (s\<lparr>tm := m\<rparr>) = map_option (\<lambda>s. s\<lparr>tm := m\<rparr>) (thread_timeout t s)"
  by (auto simp: thread_timeout_def rt_sched_thread_is_suspended_def sched_ops_tm rt_sched_unlock_n_resched_def rt_thread_self_def
      schedule_tm Let_def split: option.split)

subsection \<open>One expired timer\<close>

definition expired :: "timerid \<Rightarrow> tmst \<Rightarrow> tmst" where
  "expired t m = upd_timer t (\<lambda>x. x\<lparr>tm_flag := ((tm_flag x AND NOT RT_TIMER_FLAG_ACTIVATED) OR RT_TIMER_FLAG_PROCESSING)
     AND NOT RT_TIMER_FLAG_PROCESSING\<rparr>) (timer_remove t m)"

lemma expired_simps [simp]:
  "tmlist (expired t m) = ls_remove (tmlist m) t" "rt_tick (expired t m) = rt_tick m"
  "timers (expired t m) u = (if u = t then (timers m t)\<lparr>tm_flag := ((tm_flag (timers m t) AND NOT 1) OR 2) AND NOT 2\<rparr> else timers m u)"
  by (simp_all add: expired_def)

lemma expired_inv: "timer_inv m \<Longrightarrow> timer_inv (expired t m)"
  unfolding expired_def by (rule timer_inv_off) simp_all

lemma expire_oneshot:
  assumes "\<not> tm_has m t RT_TIMER_FLAG_PERIODIC" "tmlist m l = []" "wf_ls (tmlist m)"
  shows "timer_expire_leave h l t (timer_expire_enter l t m) = expired t m"
proof -
  let ?e = "timer_expire_enter l t m"
  have e: "tmlist ?e = (ls_remove (tmlist m) t)(l := [t])"
    using assms by (simp add: timer_expire_enter_def Let_def ls_insert_after_def)
  have "ls_remove (tmlist ?e) t = ls_remove (tmlist m) t"
    using e assms(2) by (auto simp: ls_remove_def fun_eq_iff)
  moreover have "timers ?e = (timers m)(t := (timers m t)\<lparr>tm_flag := (tm_flag (timers m t) AND NOT 1) OR 2\<rparr>)"
      "rt_tick ?e = rt_tick m" "random_nr ?e = random_nr m"
    using assms(1) by (simp_all add: timer_expire_enter_def Let_def tm_upd_defs)
  ultimately show ?thesis
    using e assms(1)
    by (cases m; cases ?e) (auto simp: timer_expire_leave_def Let_def expired_def tm_has_def tm_upd_defs fun_eq_iff)
qed

lemma schedule_current:
  assumes "rt_schedule s = Some s'" "kinv s" "current s \<noteq> None"
  shows "current s' \<noteq> None"
  using assms(1) kinvD(1) [OF assms(2)] assms(3) by (cases rule: schedule_cases) (auto simp: switch_result)

lemma timeout_returns:
  assumes inv: "kinv (upd_thread t (\<lambda>x. x\<lparr>ttmr_set := False\<rparr>) s)" and st: "stacks_ok s" and cur: "current s \<noteq> None"
    and susp: "th_suspended (threads s t)" and ty: "rt_object_get_type (th_type (threads s t)) = RT_Object_Class_Thread"
  shows "\<exists>s'. thread_timeout t s = Some s' \<and> stacks_ok s' \<and> current s' \<noteq> None \<and> irq_nest s' = irq_nest s"
proof -
  let ?s = "rt_sched_insert_thread t (list_remove_thread t (upd_thread t (\<lambda>x. x\<lparr>error := - RT_ETIMEOUT\<rparr>) s))"
  note r = timeout_ready [OF inv susp refl]
  have "th_stat (threads s t) \<noteq> RT_THREAD_INIT \<and> th_stat (threads s t) \<noteq> RT_THREAD_CLOSE" using susp unfolding suspended_stat by auto
  then have "stack_ok (threads s t)" using st by (simp add: stacks_ok_def)
  then have st2: "stacks_ok ?s" using st by (auto simp: stacks_ok_def stack_ok_def)
  obtain s' where s': "rt_schedule ?s = Some s'" using schedule_returns [OF r(1) st2] r(5) cur by auto
  have fr: "sched_frame ?s s'" by (rule schedule_frame [OF s' kinvD(1) [OF r(1)]])
  have "thread_timeout t s = Some s'"
    using ty susp s' r(5) cur
    by (auto simp: thread_timeout_def rt_sched_thread_is_suspended_def th_suspended_def rt_sched_unlock_n_resched_def rt_thread_self_def Let_def)
  moreover have "current s' \<noteq> None" using schedule_current [OF s' r(1)] r(5) cur by simp
  moreover have "irq_nest s' = irq_nest s" using fr r(7) by (simp add: sched_frame_def)
  ultimately show ?thesis using stacks_ok_frame [OF fr st2] by blast
qed

lemma thread_timer_due:
  assumes inv: "kinv s" and mem: "Thread_timer th \<in> set (tmlist (tm s) Timer_list)"
  shows "th_suspended (threads s th)" "ttmr_set (threads s th)" "tt_ok th (timers (tm s) (Thread_timer th))"
    "rt_object_get_type (th_type (threads s th)) = RT_Object_Class_Thread"
proof -
  have "tm_flag (timers (tm s) (Thread_timer th)) AND RT_TIMER_FLAG_ACTIVATED \<noteq> 0"
    using timer_invD(2) [OF kinvD(2) [OF inv], of "Thread_timer th"] mem by (auto simp: timer_ok_def)
  then show su: "th_suspended (threads s th)" "ttmr_set (threads s th)"
    using kinvD(3) [OF inv, of th] by (auto simp: link_ok_def)
  then have "th_stat (threads s th) \<noteq> RT_THREAD_INIT \<and> th_stat (threads s th) \<noteq> RT_THREAD_CLOSE"
    unfolding suspended_stat by auto
  then show "tt_ok th (timers (tm s) (Thread_timer th))" "rt_object_get_type (th_type (threads s th)) = RT_Object_Class_Thread"
    using kinvD(3) [OF inv, of th] by (auto simp: link_ok_def)
qed

lemma kinv_expired:
  assumes inv: "kinv s" and mem: "Thread_timer th \<in> set (tmlist (tm s) Timer_list)"
  shows "kinv (upd_thread th (\<lambda>x. x\<lparr>ttmr_set := False\<rparr>) (s\<lparr>tm := expired (Thread_timer th) (tm s)\<rparr>))" (is "kinv ?s")
proof -
  note d = thread_timer_due [OF assms]
  have "sched_inv ?s" using upd_thread_inv [OF kinvD(1) [OF inv], of th "\<lambda>x. x\<lparr>ttmr_set := False\<rparr>"]
    by (simp add: th_stat_def upd_thread_def sched_inv_but_def)
  moreover have "timer_inv (tm ?s)" using expired_inv [OF kinvD(2) [OF inv]] by simp
  moreover have "link_ok u (timers (tm ?s) (Thread_timer u)) (threads ?s u)" for u
    using kinvD(3) [OF inv, of u] d(3)
    by (cases "u = th") (auto simp: link_ok_def tt_ok_def th_suspended_def th_stat_def)
  ultimately show ?thesis by (simp add: kinv_but_def)
qed

text \<open>What a thread waits for, and the outcome of its last wait, are the same in two states.\<close>

definition same_wait :: "tid \<Rightarrow> kst \<Rightarrow> kst \<Rightarrow> bool" where
  "same_wait u s s' \<longleftrightarrow> th_suspended (threads s' u) = th_suspended (threads s u) \<and>
     runnable (threads s' u) = runnable (threads s u) \<and> ttmr_set (threads s' u) = ttmr_set (threads s u) \<and>
     error (threads s' u) = error (threads s u)"

lemma same_wait_stat:
  assumes "(threads s' u)\<lparr>stat := 0\<rparr> = (threads s u)\<lparr>stat := 0\<rparr>" "runnable (threads s' u) = runnable (threads s u)"
    "th_suspended (threads s' u) = th_suspended (threads s u)"
  shows "same_wait u s s'"
  using arg_cong [OF assms(1), of ttmr_set] arg_cong [OF assms(1), of error] assms(2,3) by (simp add: same_wait_def)

lemma same_wait_frame:
  assumes "sched_frame s s'"
  shows "same_wait u s s'"
  using sched_frameD [OF assms] assms by (intro same_wait_stat) (simp_all add: sched_frame_def)

lemma expire_thread:
  assumes inv: "kinv s" and st: "stacks_ok s" "current s \<noteq> None"
    and mem: "Thread_timer th \<in> set (tmlist (tm s) Timer_list)" and l: "tmlist (tm s) Hard_local = []"
  shows "\<exists>s'. timer_expire user Timer_list Hard_local (Thread_timer th) s = Some s' \<and> kinv s' \<and> stacks_ok s' \<and>
    current s' \<noteq> None \<and> tm s' = expired (Thread_timer th) (tm s) \<and> touches C s s' \<and> irq_nest s' = irq_nest s \<and>
    runnable (threads s' th) \<and> error (threads s' th) = - RT_ETIMEOUT \<and> (\<forall>u. u \<noteq> th \<longrightarrow> same_wait u s s')"
proof -
  let ?m = "expired (Thread_timer th) (tm s)" and ?e = "timer_expire_enter Hard_local (Thread_timer th) (tm s)"
  note d = thread_timer_due [OF inv mem] and k = kinv_expired [OF inv mem]
  obtain s2 where s2: "thread_timeout th (s\<lparr>tm := ?m\<rparr>) = Some s2" "stacks_ok s2" "current s2 \<noteq> None" "irq_nest s2 = irq_nest s"
    using timeout_returns [OF k] st d(1,4) by (auto simp: stacks_ok_def)
  note t = timeout_result [OF k s2(1)]
  have tm2: "tm s2 = ?m" using t(3) by (simp add: timed_out_def)
  obtain s0 where s0: "thread_timeout th s = Some s0" "s2 = s0\<lparr>tm := ?m\<rparr>"
    using s2(1) by (auto simp: timeout_tm)
  have call: "timer_call user (Thread_timer th) (s\<lparr>tm := ?e\<rparr>) = Some (s0\<lparr>tm := ?e\<rparr>)"
    using s0(1) d(3) by (simp add: timer_call_def timer_expire_enter_def Let_def tt_ok_def timeout_tm)
  have "timer_expire_leave Timer_list Hard_local (Thread_timer th) ?e = ?m"
    using d(3) l kinvD(2) [OF inv] by (intro expire_oneshot) (auto simp: tt_ok_def tm_has_def timer_inv_def)
  then have "timer_expire user Timer_list Hard_local (Thread_timer th) s = Some s2"
    using call s0(2) by (simp add: timer_expire_def)
  moreover have "same_wait u s s2" if "u \<noteq> th" for u
    using t(3) that by (intro same_wait_stat) (simp_all add: timed_out_def)
  ultimately show ?thesis using t s2 tm2 by (auto simp: timed_out_def)
qed

subsection \<open>The callbacks of the application\<close>

text \<open>
  What a callback may do to the timers: it may stop timers, and leaves those alone that stay on
  a list. A callback returns and keeps the invariant of the kernel.
\<close>

definition quiet :: "tmst \<Rightarrow> tmst \<Rightarrow> bool" where
  "quiet m m' \<longleftrightarrow> rt_tick m' = rt_tick m \<and> (\<forall>h. \<exists>P. tmlist m' h = filter P (tmlist m h)) \<and>
     (\<forall>t h. t \<in> set (tmlist m' h) \<longrightarrow> timers m' t = timers m t)"

definition user_ok :: "callback \<Rightarrow> bool" where
  "user_ok user \<longleftrightarrow> (\<forall>f p s. kinv s \<and> stacks_ok s \<and> current s \<noteq> None \<longrightarrow>
     (\<exists>s'. user f p s = Some s' \<and> kinv s' \<and> stacks_ok s' \<and> current s' \<noteq> None \<and> irq_nest s' = irq_nest s \<and>
        quiet (tm s) (tm s')))"

definition local_list :: "tmhead \<Rightarrow> bool" where
  "local_list l \<longleftrightarrow> l = Hard_local \<or> l = Soft_local"

lemma enter_simps:
  assumes "tmlist m l = []"
  shows "tmlist (timer_expire_enter l t m) = (ls_remove (tmlist m) t)(l := [t])"
    "rt_tick (timer_expire_enter l t m) = rt_tick m"
    "timers (timer_expire_enter l t m) u = (if u = t then (timers m t)\<lparr>tm_flag :=
       (if tm_has m t RT_TIMER_FLAG_PERIODIC then tm_flag (timers m t) else tm_flag (timers m t) AND NOT RT_TIMER_FLAG_ACTIVATED)
         OR RT_TIMER_FLAG_PROCESSING\<rparr> else timers m u)"
  using assms by (simp_all add: timer_expire_enter_def Let_def ls_insert_after_def ls_remove_def)

lemma enter_inv:
  assumes inv: "timer_inv m" and l: "tmlist m l = []" "local_list l" and t: "t \<in> set (tmlist m h)"
  shows "timer_inv (timer_expire_enter l t m)"
proof -
  note e = enter_simps [OF l(1), of t] and w = timer_invD [OF inv]
  have "wf_ls ((ls_remove (tmlist m) t)(l := [t]))"
    using wf_ls_insert_after [OF wf_ls_remove [OF w(1), of t] unlinked_remove, of l] l(1)
    by (simp add: ls_insert_after_def ls_remove_def)
  moreover have "timer_ok ((ls_remove (tmlist m) t)(l := [t])) u (timers (timer_expire_enter l t m) u)" (is "timer_ok ?L u _") for u
  proof (cases "u = t")
    case True
    have "\<not> unlinked (tmlist m) t" using t by (auto simp: unlinked_def)
    then have "rt_object_get_type (tm_type (timers m t)) = RT_Object_Class_Timer" using w(2) [of t] by (simp add: timer_ok_def)
    moreover have "t \<notin> set (?L Timer_list)" "t \<notin> set (?L Soft_timer_list)" using l(2) by (auto simp: local_list_def)
    moreover have "\<not> unlinked ?L t" unfolding unlinked_def by (metis fun_upd_same list.set_intros(1))
    ultimately show ?thesis using True e(3) [of u] by (simp add: timer_ok_def)
  next
    case False
    then have "u \<in> set (?L h) \<longleftrightarrow> u \<in> set (tmlist m h)" for h using l(1) by auto
    then have "timer_ok ?L u (timers m u) = timer_ok (tmlist m) u (timers m u)" unfolding timer_ok_def unlinked_def by simp
    then show ?thesis using w(2) [of u] False e(3) [of u] by simp
  qed
  ultimately show ?thesis using e(1) by (simp add: timer_inv_def)
qed

lemma clr_processing_inv: "timer_inv m \<Longrightarrow> timer_inv (clr_tm_flag t RT_TIMER_FLAG_PROCESSING m)"
  unfolding clr_tm_flag_def by (rule timer_inv_upd_field) simp_all

text \<open>The callback took the timer off the local list, or the timer expired for good.\<close>

lemma leave_off:
  assumes inv: "timer_inv m" and l: "tmlist m l = [] \<or> tmlist m l = [t]"
    and x: "tmlist m l = [t] \<Longrightarrow> tm_flag (timers m t) AND RT_TIMER_FLAG_PERIODIC = 0 \<and> tm_flag (timers m t) AND RT_TIMER_FLAG_ACTIVATED = 0"
  shows "timer_inv (timer_expire_leave h l t m)" "tmlist (timer_expire_leave h l t m) = (if tmlist m l = [] then tmlist m else ls_remove (tmlist m) t)"
    "u \<noteq> t \<Longrightarrow> timers (timer_expire_leave h l t m) u = timers m u" "rt_tick (timer_expire_leave h l t m) = rt_tick m"
proof -
  let ?c = "clr_tm_flag t RT_TIMER_FLAG_PROCESSING m"
  have c: "timer_inv ?c" by (rule clr_processing_inv [OF inv])
  have eq: "timer_expire_leave h l t m = (if tmlist m l = [] then ?c else timer_remove t ?c)"
    using l x by (auto simp: timer_expire_leave_def Let_def tm_has_def)
  have "timer_inv (upd_timer t id (timer_remove t ?c))" if "tmlist m l = [t]"
    using x [OF that] c by (intro timer_inv_off) simp_all
  moreover have "upd_timer t id n = n" for n :: tmst by (simp add: upd_timer_def)
  ultimately show "timer_inv (timer_expire_leave h l t m)" using eq c l by auto
  show "tmlist (timer_expire_leave h l t m) = (if tmlist m l = [] then tmlist m else ls_remove (tmlist m) t)"
    "u \<noteq> t \<Longrightarrow> timers (timer_expire_leave h l t m) u = timers m u" "rt_tick (timer_expire_leave h l t m) = rt_tick m"
    unfolding eq by simp_all
qed

text \<open>A periodic timer starts again.\<close>

lemma leave_periodic:
  assumes inv: "timer_inv m" and l: "tmlist m l = [t]" "local_list l" and h: "h = tm_list_of (tm_flag (timers m t))"
    and x: "tm_flag (timers m t) AND RT_TIMER_FLAG_PERIODIC \<noteq> 0" "tm_flag (timers m t) AND RT_TIMER_FLAG_ACTIVATED \<noteq> 0"
  defines "m' \<equiv> timer_expire_leave h l t m"
  shows "timer_inv m'" "rt_tick m' = rt_tick m" "u \<noteq> t \<Longrightarrow> timers m' u = timers m u"
    "tmlist m' = (let L = (tmlist m)(l := []) in L(h := timer_insert (timers m') t (L h)))"
    "timers m' t = (timers m t)\<lparr>timeout_tick := rt_tick m + tm_init_tick (timers m t),
       tm_flag := (((tm_flag (timers m t) AND NOT 2) AND NOT 1) AND NOT 1) OR 1\<rparr>"
proof -
  let ?c = "clr_tm_flag t RT_TIMER_FLAG_PROCESSING m"
  let ?d = "clr_tm_flag t RT_TIMER_FLAG_ACTIVATED (timer_remove t ?c)"
  have d: "timer_inv ?d" unfolding clr_tm_flag_def [of t 1]
    using clr_processing_inv [OF inv] by (intro timer_inv_off) simp_all
  have m': "m' = snd (timer_start h t ?d)"
    using l x by (simp add: m'_def timer_expire_leave_def Let_def tm_has_def)
  have ty: "rt_object_get_type (tm_type (timers m t)) = RT_Object_Class_Timer"
  proof -
    have "t \<in> set (tmlist m l)" using l(1) by simp
    then have "\<not> unlinked (tmlist m) t" by (auto simp: unlinked_def)
    then show ?thesis using timer_invD(2) [OF inv, of t] by (simp add: timer_ok_def)
  qed
  have hd: "h = tm_list_of (tm_flag (timers ?d t))" using h by (simp add: tm_list_of_def)
  show "timer_inv m'" unfolding m' using timer_start_inv [OF d hd] ty by simp
  have np: "\<not> tm_has ?d t RT_TIMER_FLAG_PROCESSING" by (simp add: tm_has_def)
  let ?T = "(timers ?d)(t := started (rt_tick ?d) (timers ?d t))" and ?L = "ls_remove (tmlist ?d) t"
  have e: "m' = ?d\<lparr>random_nr := random_nr ?d + 1, tmlist := ?L(h := timer_insert ?T t (?L h)), timers := ?T\<rparr>"
    unfolding m' timer_start_eq [OF np] by (simp add: Let_def)
  show "rt_tick m' = rt_tick m" "u \<noteq> t \<Longrightarrow> timers m' u = timers m u"
    "timers m' t = (timers m t)\<lparr>timeout_tick := rt_tick m + tm_init_tick (timers m t),
       tm_flag := (((tm_flag (timers m t) AND NOT 2) AND NOT 1) AND NOT 1) OR 1\<rparr>"
    by (simp_all add: e started_def)
  have "ls_remove (tmlist m) t k = ((tmlist m)(l := [])) k" for k
  proof (cases "k = l")
    case False
    then have "t \<notin> set (tmlist m k)" using wf_ls_unique [OF timer_invD(1) [OF inv], of t l k] l(1) by auto
    then show ?thesis using False by simp
  qed (use l(1) in \<open>simp add: ls_remove_def\<close>)
  then have "ls_remove (tmlist m) t = (tmlist m)(l := [])" by blast
  moreover have "ls_remove (ls_remove (tmlist m) t) t = ls_remove (tmlist m) t" by simp
  ultimately show "tmlist m' = (let L = (tmlist m)(l := []) in L(h := timer_insert (timers m') t (L h)))"
    by (simp add: e Let_def)
qed

text \<open>What one expired timer leaves behind: the timers behind it, and perhaps the timer itself with its next expiry.\<close>

definition stepped :: "tmhead \<Rightarrow> tmhead \<Rightarrow> timerid \<Rightarrow> tmst \<Rightarrow> tmst \<Rightarrow> bool" where
  "stepped h l t m m' \<longleftrightarrow> rt_tick m' = rt_tick m \<and> tmlist m' l = [] \<and>
     (\<exists>P. (\<forall>u\<in>set (filter P (ls_remove (tmlist m) t h)). timers m' u = timers m u) \<and>
       (tmlist m' h = filter P (ls_remove (tmlist m) t h) \<or>
        tmlist m' h = timer_insert (timers m') t (filter P (ls_remove (tmlist m) t h)) \<and>
        tm_flag (timers m t) AND RT_TIMER_FLAG_PERIODIC \<noteq> 0 \<and>
        timeout_tick (timers m' t) = rt_tick m + tm_init_tick (timers m t) \<and>
        tm_init_tick (timers m' t) = tm_init_tick (timers m t) \<and> timeout_func (timers m' t) = timeout_func (timers m t)))"

lemma kinv_tm:
  assumes "kinv s" "timer_inv m" "\<And>u. timers m (Thread_timer u) = timers (tm s) (Thread_timer u)"
  shows "kinv (s\<lparr>tm := m\<rparr>)"
  using assms by (simp add: kinv_but_def sched_inv_but_def)

lemma callback_step:
  assumes inv: "timer_inv m" and l: "tmlist m l = []" "local_list l" and mem: "t \<in> set (tmlist m h)" and h: "h = tm_list_of (tm_flag (timers m t))"
    and q: "quiet (timer_expire_enter l t m) m2" and inv2: "timer_inv m2"
  shows "timer_inv (timer_expire_leave h l t m2) \<and> stepped h l t m (timer_expire_leave h l t m2) \<and>
    (\<forall>u. u \<noteq> t \<longrightarrow> timers (timer_expire_leave h l t m2) u = timers m2 u)"
proof -
  let ?e = "timer_expire_enter l t m"
  note e = enter_simps [OF l(1), of t]
  have hl: "h \<noteq> l" using l(2) h by (auto simp: local_list_def tm_list_of_def)
  have act: "tm_flag (timers m t) AND RT_TIMER_FLAG_ACTIVATED \<noteq> 0"
    using timer_invD(2) [OF inv, of t] mem h by (auto simp: timer_ok_def tm_list_of_def split: if_splits)
  have sub: "\<exists>P. tmlist m2 k = filter P (tmlist ?e k)" for k using q unfolding quiet_def by blast
  obtain P where P: "tmlist m2 h = filter P (ls_remove (tmlist m) t h)" using sub [of h] hl unfolding e(1) by auto
  obtain Q where "tmlist m2 l = filter Q [t]" using sub [of l] unfolding e(1) by auto
  then have l2: "tmlist m2 l = [] \<or> tmlist m2 l = [t]" by simp
  have same: "timers m2 u = timers ?e u" if "u \<in> set (tmlist m2 k)" for u k using q that by (auto simp: quiet_def)
  have rest: "timers m2 u = timers m u \<and> u \<noteq> t" if "u \<in> set (tmlist m2 h)" for u
    using same [OF that] that P e(3) [of u] by (auto split: if_splits)
  have tick: "rt_tick m2 = rt_tick m" using q e(2) by (simp add: quiet_def)
  show ?thesis
  proof (cases "tmlist m2 l = [t] \<and> tm_flag (timers m t) AND RT_TIMER_FLAG_PERIODIC \<noteq> 0")
    case False
    have "timers m2 t = timers ?e t" if "tmlist m2 l = [t]" using same [of t l] that by simp
    then have "tm_flag (timers m2 t) AND 4 = 0 \<and> tm_flag (timers m2 t) AND 1 = 0" if "tmlist m2 l = [t]"
      using False that e(3) [of t] by (simp add: tm_has_def)
    note off = leave_off [where h = h, OF inv2 l2 this]
    let ?m = "timer_expire_leave h l t m2"
    have th: "ls_remove (tmlist m2) t h = tmlist m2 h" using rest by (intro ls_remove_other) auto
    have a: "rt_tick ?m = rt_tick m" using off(4) tick by simp
    have b: "tmlist ?m l = []" using off(2) l2 by (auto simp: ls_remove_def)
    have c: "tmlist ?m h = filter P (ls_remove (tmlist m) t h)" using off(2) th P by simp
    have "timers ?m u = timers m u" if "u \<in> set (tmlist m2 h)" for u using rest [OF that] off(3) [of u] by simp
    then have d: "\<forall>u\<in>set (filter P (ls_remove (tmlist m) t h)). timers ?m u = timers m u" unfolding P by blast
    have "stepped h l t m ?m" unfolding stepped_def by (intro conjI a b exI [of _ P] disjI1 c d)
    then show ?thesis using off(1,3) by blast
  next
    case True
    then have x: "timers m2 t = timers ?e t" using same [of t l] by simp
    have f: "tm_flag (timers m2 t) AND 4 \<noteq> 0" "tm_flag (timers m2 t) AND 1 \<noteq> 0" "h = tm_list_of (tm_flag (timers m2 t))"
      using True act h e(3) [of t] x by (simp_all add: tm_has_def tm_list_of_def)
    note on = leave_periodic [OF inv2 _ l(2) f(3,1,2)]
    let ?m = "timer_expire_leave h l t m2"
    have loc: "tmlist m2 l = [t]" using True by simp
    have a: "rt_tick ?m = rt_tick m" using on(2) [OF loc] tick by simp
    have b: "tmlist ?m l = []" using on(4) [OF loc] hl by (simp add: Let_def)
    have c: "tmlist ?m h = timer_insert (timers ?m) t (filter P (ls_remove (tmlist m) t h))"
      using on(4) [OF loc] hl P by (simp add: Let_def)
    have "timers ?m u = timers m u" if "u \<in> set (tmlist m2 h)" for u using rest [OF that] on(3) [OF loc, of u] by simp
    then have d: "\<forall>u\<in>set (filter P (ls_remove (tmlist m) t h)). timers ?m u = timers m u" unfolding P by blast
    have g: "timeout_tick (timers ?m t) = rt_tick m + tm_init_tick (timers m t)"
        "tm_init_tick (timers ?m t) = tm_init_tick (timers m t)" "timeout_func (timers ?m t) = timeout_func (timers m t)"
      using on(5) [OF loc] tick x e(3) [of t] by simp_all
    have "tm_flag (timers m t) AND RT_TIMER_FLAG_PERIODIC \<noteq> 0" using True by simp
    then have "stepped h l t m ?m" unfolding stepped_def by (intro conjI a b exI [of _ P] disjI2 c d g)
    then show ?thesis using on(1,3) True by blast
  qed
qed

lemma expire_user:
  assumes inv: "kinv s" and st: "stacks_ok s" "current s \<noteq> None" and ok: "user_ok user"
    and l: "tmlist (tm s) l = []" "local_list l" and mem: "User_timer u \<in> set (tmlist (tm s) h)"
    and h: "h = tm_list_of (tm_flag (timers (tm s) (User_timer u)))" and f: "timeout_func (timers (tm s) (User_timer u)) = User_func f"
  shows "\<exists>s'. timer_expire user h l (User_timer u) s = Some s' \<and> kinv s' \<and> stacks_ok s' \<and> current s' \<noteq> None \<and>
    irq_nest s' = irq_nest s \<and> stepped h l (User_timer u) (tm s) (tm s')"
proof -
  let ?t = "User_timer u"
  let ?e = "timer_expire_enter l ?t (tm s)"
  note tinv = kinvD(2) [OF inv] and e = enter_simps [OF l(1), of ?t]
  have "kinv (s\<lparr>tm := ?e\<rparr>)" by (rule kinv_tm [OF inv enter_inv [OF tinv l mem]]) (simp add: e)
  moreover have "stacks_ok (s\<lparr>tm := ?e\<rparr>)" using st(1) by (simp add: stacks_ok_def)
  ultimately obtain s2 where s2: "user f (tm_parameter (timers (tm s) ?t)) (s\<lparr>tm := ?e\<rparr>) = Some s2" "kinv s2" "stacks_ok s2"
      "current s2 \<noteq> None" "irq_nest s2 = irq_nest s" "quiet ?e (tm s2)"
    using ok st(2) unfolding user_ok_def by fastforce
  note c = callback_step [OF tinv l mem h s2(6) kinvD(2) [OF s2(2)]]
  let ?m = "timer_expire_leave h l ?t (tm s2)"
  have "timer_expire user h l ?t s = Some (s2\<lparr>tm := ?m\<rparr>)"
    using s2(1) f e(3) [of ?t] by (simp add: timer_expire_def timer_call_def)
  moreover have "kinv (s2\<lparr>tm := ?m\<rparr>)" using kinv_tm [OF s2(2)] c by simp
  ultimately show ?thesis using s2 c by (auto simp: stacks_ok_def)
qed

lemma stepped_expired:
  assumes "tmlist m l = []"
  shows "stepped h l t m (expired t m)"
  unfolding stepped_def using assms by (auto simp: ls_remove_def intro!: exI [of _ "\<lambda>_. True"])

text \<open>The timers of a static list that the loops rely on: sorted, of the right kind, with sensible periods.\<close>

definition kind_ok :: "u32 \<Rightarrow> timerid \<Rightarrow> rt_timer \<Rightarrow> bool" where
  "kind_ok past t x \<longleftrightarrow> (\<forall>u. t = User_timer u \<longrightarrow> (\<exists>f. timeout_func x = User_func f)) \<and>
     (tm_flag x AND RT_TIMER_FLAG_PERIODIC \<noteq> 0 \<longrightarrow> 0 < tm_init_tick x \<and> unat past + unat (tm_init_tick x) < 0x7fffffff)"

definition listed_ok :: "u32 \<Rightarrow> tmhead \<Rightarrow> tmst \<Rightarrow> bool" where
  "listed_ok b h m \<longleftrightarrow> tm_sorted b (timers m) (tmlist m h) \<and> unat (rt_tick m - b) < 0x7fffffff \<and>
     (\<forall>t\<in>set (tmlist m h). kind_ok (rt_tick m - b) t (timers m t))"

definition list_pair :: "tmhead \<Rightarrow> tmhead \<Rightarrow> bool" where
  "list_pair h l \<longleftrightarrow> h = Timer_list \<and> l = Hard_local \<or> h = Soft_timer_list \<and> l = Soft_local"

lemma expire_step:
  assumes inv: "kinv s" and st: "stacks_ok s" "current s \<noteq> None" and ok: "user_ok user" and hl: "list_pair h l"
    and l: "tmlist (tm s) l = []" and mem: "t \<in> set (tmlist (tm s) h)" and lo: "listed_ok b h (tm s)"
  shows "\<exists>s'. timer_expire user h l t s = Some s' \<and> kinv s' \<and> stacks_ok s' \<and> current s' \<noteq> None \<and>
    irq_nest s' = irq_nest s \<and> stepped h l t (tm s) (tm s')"
proof -
  have h: "h = tm_list_of (tm_flag (timers (tm s) t))"
    using timer_invD(2) [OF kinvD(2) [OF inv], of t] mem hl by (auto simp: timer_ok_def list_pair_def)
  show ?thesis
  proof (cases t)
    case (Thread_timer th)
    have "tm_flag (timers (tm s) t) AND RT_TIMER_FLAG_ACTIVATED \<noteq> 0"
      using timer_invD(2) [OF kinvD(2) [OF inv], of t] mem hl by (auto simp: timer_ok_def list_pair_def)
    then have "th_suspended (threads s th)" using kinvD(3) [OF inv, of th] Thread_timer by (auto simp: link_ok_def)
    then have "th_stat (threads s th) \<noteq> RT_THREAD_INIT \<and> th_stat (threads s th) \<noteq> RT_THREAD_CLOSE" unfolding suspended_stat by auto
    then have "tt_ok th (timers (tm s) t)" using kinvD(3) [OF inv, of th] Thread_timer by (auto simp: link_ok_def)
    then have "h = Timer_list" "l = Hard_local" using h hl by (auto simp: tt_ok_def tm_list_of_def list_pair_def)
    then show ?thesis
      using expire_thread [where C = "{}" and user = user, OF inv st, of th] mem l stepped_expired [of "tm s" l h t] Thread_timer by auto
  next
    case (User_timer u)
    then obtain f where f: "timeout_func (timers (tm s) (User_timer u)) = User_func f" using lo mem by (auto simp: listed_ok_def kind_ok_def)
    have "local_list l" using hl by (auto simp: list_pair_def local_list_def)
    then show ?thesis using expire_user [OF inv st ok l _ _ _ f] mem h User_timer by simp
  qed
qed

subsection \<open>The loops end\<close>

lemma due_iff:
  fixes now b :: u32
  assumes "unat (now - b) < 0x7fffffff" "tm_dist b x < 0x7fffffff"
  shows "timer_due now x \<longleftrightarrow> tm_dist b x \<le> unat (now - b)"
proof -
  let ?a = "now - b" and ?d = "timeout_tick x - b"
  have "now - timeout_tick x = ?a - ?d" by simp
  moreover have "?a - ?d < 0x7fffffff \<longleftrightarrow> unat ?d \<le> unat ?a"
    using word_diff_half [of ?a ?d] assms word_unat_eq_iff [of ?a ?d] by (cases "?a = ?d") (auto simp: tm_dist_def)
  ultimately show ?thesis by (simp add: timer_due_def tm_dist_def)
qed

lemma restarted_not_due:
  assumes "0 < i" "unat i < 0x7fffffff" "timeout_tick x = now + i"
  shows "\<not> timer_due now x"
proof -
  have "now - timeout_tick x = - i" using assms(3) by simp
  moreover have "uint (now - timeout_tick x) = 4294967296 - uint i"
  proof -
    have m: "uint i mod 4294967296 = uint i" using uint_bounded [of i] by simp
    have "0 < uint i" using assms(1) by (simp add: word_less_def)
    then show ?thesis using m calculation by (simp add: uint_word_ariths(4) zmod_zminus1_eq_if)
  qed
  moreover have "uint i < 0x7fffffff" using assms(2) unfolding unat_eq_nat_uint by linarith
  ultimately have "\<not> uint (now - timeout_tick x) < 0x7fffffff" by linarith
  then show ?thesis by (simp add: timer_due_def word_less_def)
qed

lemma filter_timer_insert: "\<not> Q t \<Longrightarrow> filter Q (timer_insert T t ps) = filter Q ps"
  using timer_insert_split [of ps T t] by auto

definition due_count :: "tmhead \<Rightarrow> tmst \<Rightarrow> nat" where
  "due_count h m = length (filter (\<lambda>t. timer_due (rt_tick m) (timers m t)) (tmlist m h))"

lemma stepped_listed:
  assumes lo: "listed_ok b h m" and hd: "tmlist m h = t # ts" and wf: "distinct (tmlist m h)" and due: "timer_due (rt_tick m) (timers m t)"
    and sm: "stepped h l t m m'"
  shows "listed_ok b h m' \<and> due_count h m' < due_count h m"
proof -
  have rm: "ls_remove (tmlist m) t h = ts" using hd wf by (simp add: ls_remove_def)
  obtain P where P: "\<forall>u\<in>set (filter P ts). timers m' u = timers m u"
      "tmlist m' h = filter P ts \<or> tmlist m' h = timer_insert (timers m') t (filter P ts) \<and>
         tm_flag (timers m t) AND RT_TIMER_FLAG_PERIODIC \<noteq> 0 \<and> timeout_tick (timers m' t) = rt_tick m + tm_init_tick (timers m t) \<and>
         tm_init_tick (timers m' t) = tm_init_tick (timers m t) \<and> timeout_func (timers m' t) = timeout_func (timers m t)"
    using sm unfolding stepped_def rm by blast
  have tick: "rt_tick m' = rt_tick m" using sm by (simp add: stepped_def)
  have "tm_sorted b (timers m) (filter P ts)" using lo hd tm_sorted_remove [of b "timers m" ts P] by (simp add: listed_ok_def tm_sorted_def)
  then have so: "tm_sorted b (timers m') (filter P ts)"
    using P(1) tm_sorted_cong [of "filter P ts" "timers m'" "timers m" b] by simp
  have okt: "kind_ok (rt_tick m - b) t (timers m t)" using lo hd by (simp add: listed_ok_def)
  have okf: "kind_ok (rt_tick m' - b) u (timers m' u)" if "u \<in> set (filter P ts)" for u
    using lo that P(1) tick hd by (simp add: listed_ok_def)
  have w: "unat (rt_tick m' - b) < 0x7fffffff" using lo tick by (simp add: listed_ok_def)
  have "filter (\<lambda>u. timer_due (rt_tick m') (timers m' u)) (filter P ts) = filter P (filter (\<lambda>u. timer_due (rt_tick m) (timers m u)) ts)"
    using P(1) tick by (induction ts) auto
  then have c: "length (filter (\<lambda>u. timer_due (rt_tick m') (timers m' u)) (filter P ts)) < due_count h m"
    using hd due by (simp add: due_count_def less_Suc_eq_le del: filter_filter)
  from P(2) show ?thesis
  proof (elim disjE conjE)
    assume "tmlist m' h = filter P ts"
    then show ?thesis using so okf w c unfolding listed_ok_def due_count_def by simp
  next
    assume ins: "tmlist m' h = timer_insert (timers m') t (filter P ts)" and per: "tm_flag (timers m t) AND RT_TIMER_FLAG_PERIODIC \<noteq> 0"
      and to: "timeout_tick (timers m' t) = rt_tick m + tm_init_tick (timers m t)"
      and eq: "tm_init_tick (timers m' t) = tm_init_tick (timers m t)" "timeout_func (timers m' t) = timeout_func (timers m t)"
    have i: "0 < tm_init_tick (timers m t)" "unat (rt_tick m - b) + unat (tm_init_tick (timers m t)) < 0x7fffffff"
      using okt per by (simp_all add: kind_ok_def)
    have nd: "\<not> timer_due (rt_tick m') (timers m' t)" using restarted_not_due [OF i(1) _ to] i(2) tick by simp
    have "timeout_tick (timers m' t) - b = (rt_tick m - b) + tm_init_tick (timers m t)" using to by simp
    then have "tm_dist b (timers m' t) = unat ((rt_tick m - b) + tm_init_tick (timers m t))" by (simp only: tm_dist_def)
    also have "\<dots> \<le> unat (rt_tick m - b) + unat (tm_init_tick (timers m t))" by (simp only: unat_word_ariths(1) mod_less_eq_dividend)
    finally have "tm_dist b (timers m' t) < 0x7fffffff" using i(2) by linarith
    then have so': "tm_sorted b (timers m') (tmlist m' h)" using timer_insert_sorted [OF so] ins by simp
    have "kind_ok (rt_tick m' - b) t (timers m' t)" using okt i unfolding kind_ok_def eq tick by blast
    then have "listed_ok b h m'" unfolding listed_ok_def using so' w okf ins by (simp add: set_timer_insert)
    moreover have "due_count h m' < due_count h m" using c nd by (simp add: due_count_def [of h m'] ins filter_timer_insert)
    ultimately show ?thesis by blast
  qed
qed

text \<open>The two loops share their structure; a law for the loop body is enough for both.\<close>

locale expiry_loop =
  fixes loop :: "callback \<Rightarrow> kst \<Rightarrow> kst option" and h l :: tmhead
  assumes unfold: "loop user s =
      (case tmlist (tm s) h of
         [] \<Rightarrow> Some s
       | t # _ \<Rightarrow> if timer_due (rt_tick (tm s)) (timers (tm s) t)
                   then do { s \<leftarrow> timer_expire user h l t s; loop user s } else Some s)"
    and lists: "list_pair h l"
begin

lemma loop_total:
  assumes "kinv s" "stacks_ok s" "current s \<noteq> None" "user_ok user" "tmlist (tm s) l = []" "listed_ok b h (tm s)"
  shows "\<exists>s'. loop user s = Some s' \<and> kinv s' \<and> stacks_ok s' \<and> current s' \<noteq> None \<and> irq_nest s' = irq_nest s \<and>
    rt_tick (tm s') = rt_tick (tm s) \<and> listed_ok b h (tm s') \<and> tmlist (tm s') l = [] \<and>
    (\<forall>t\<in>set (tmlist (tm s') h). \<not> timer_due (rt_tick (tm s')) (timers (tm s') t))"
  using assms(1-3,5,6)
proof (induction "due_count h (tm s)" arbitrary: s rule: less_induct)
  case less
  note s = less.prems
  show ?case
  proof (cases "tmlist (tm s) h")
    case Nil
    then show ?thesis using s unfold [of user s] by simp
  next
    case (Cons t ts)
    show ?thesis
    proof (cases "timer_due (rt_tick (tm s)) (timers (tm s) t)")
      case True
      have mem: "t \<in> set (tmlist (tm s) h)" using Cons by simp
      obtain s1 where s1: "timer_expire user h l t s = Some s1" "kinv s1" "stacks_ok s1" "current s1 \<noteq> None"
          "irq_nest s1 = irq_nest s" "stepped h l t (tm s) (tm s1)"
        using expire_step [OF s(1-3) assms(4) lists s(4) mem s(5)] by blast
      have d: "distinct (tmlist (tm s) h)" by (rule wf_ls_distinct [OF timer_invD(1) [OF kinvD(2) [OF s(1)]]])
      have n: "listed_ok b h (tm s1)" "due_count h (tm s1) < due_count h (tm s)" "rt_tick (tm s1) = rt_tick (tm s)" "tmlist (tm s1) l = []"
        using stepped_listed [OF s(5) Cons d True s1(6)] s1(6) by (simp_all add: stepped_def)
      have "loop user s = loop user s1" using unfold [of user s] Cons True s1(1) by simp
      then show ?thesis using less.hyps [OF n(2) s1(2-4) n(4,1)] n(3) s1(5) by simp
    next
      case False
      have w: "unat (rt_tick (tm s) - b) < 0x7fffffff" "tm_sorted b (timers (tm s)) (t # ts)" using s(5) Cons by (simp_all add: listed_ok_def)
      have "\<not> timer_due (rt_tick (tm s)) (timers (tm s) u)" if "u \<in> set (t # ts)" for u
      proof -
        have "tm_dist b (timers (tm s) t) \<le> tm_dist b (timers (tm s) u)" using w(2) that by (auto simp: tm_sorted_def)
        then show ?thesis using False w that due_iff [OF w(1), of "timers (tm s) t"] due_iff [OF w(1), of "timers (tm s) u"]
          by (auto simp: tm_sorted_def)
      qed
      then show ?thesis using s unfold [of user s] Cons False by simp
    qed
  qed
qed

end

interpretation hard: expiry_loop "\<lambda>user s. timer_check_loop user (rt_tick (tm s)) s" Timer_list Hard_local
proof
  show "timer_check_loop user (rt_tick (tm s)) s = (case tmlist (tm s) Timer_list of [] \<Rightarrow> Some s
     | t # _ \<Rightarrow> if timer_due (rt_tick (tm s)) (timers (tm s) t)
         then do { s \<leftarrow> timer_expire user Timer_list Hard_local t s; timer_check_loop user (rt_tick (tm s)) s } else Some s)" for user s
    by (rule timer_check_loop.simps [unfolded rt_tick_get_def])
qed (simp add: list_pair_def)

interpretation soft: expiry_loop soft_timer_check_loop Soft_timer_list Soft_local
proof
  show "soft_timer_check_loop user s = (case tmlist (tm s) Soft_timer_list of [] \<Rightarrow> Some s
     | t # _ \<Rightarrow> if timer_due (rt_tick (tm s)) (timers (tm s) t)
         then do { s \<leftarrow> timer_expire user Soft_timer_list Soft_local t s; soft_timer_check_loop user s } else Some s)" for user s
    by (rule soft_timer_check_loop.simps [unfolded rt_tick_get_def Let_def])
qed (simp add: list_pair_def)

subsection \<open>The tick interrupt\<close>

lemma timer_check_total:
  assumes "kinv s" "stacks_ok s" "current s \<noteq> None" "user_ok user" "tmlist (tm s) Hard_local = []" "listed_ok b Timer_list (tm s)"
    "0 < rt_interrupt_get_nest s"
  shows "\<exists>s'. rt_timer_check user s = Some s' \<and> kinv s' \<and> stacks_ok s' \<and> current s' \<noteq> None \<and> irq_nest s' = irq_nest s \<and>
    rt_tick (tm s') = rt_tick (tm s) \<and> listed_ok b Timer_list (tm s') \<and> tmlist (tm s') Hard_local = [] \<and>
    (\<forall>t\<in>set (tmlist (tm s') Timer_list). \<not> timer_due (rt_tick (tm s')) (timers (tm s') t))"
proof -
  have "ls_init (tmlist (tm s)) Hard_local = tmlist (tm s)" using assms(5) by (auto simp: ls_init_def fun_eq_iff)
  then have "rt_timer_check user s = timer_check_loop user (rt_tick (tm s)) s"
    using assms(7) by (simp add: rt_timer_check_def rt_tick_get_def)
  then show ?thesis using hard.loop_total [OF assms(1-6)] by simp
qed

lemma tick_slice:
  assumes inv: "kinv s" and st: "stacks_ok s" "current s \<noteq> None"
  shows "\<exists>s'. rt_sched_tick_increase s = Some s' \<and> kinv s' \<and> stacks_ok s' \<and> current s' \<noteq> None \<and> tm s' = tm s \<and>
    irq_nest s' = irq_nest s \<and> touches C s s' \<and> (\<forall>u. same_wait u s s')"
proof -
  obtain t where t: "current s = Some t" using st(2) by auto
  let ?a = "upd_thread t (\<lambda>x. x\<lparr>remaining_tick := remaining_tick x - 1\<rparr>) s"
  let ?y = "rt_sched_thread_yield t ?a"
  have ka: "kinv ?a" by (rule kinv_upd_thread [OF inv]) (simp_all add: th_stat_def)
  have ky: "kinv ?y" unfolding rt_sched_thread_yield_def by (rule kinv_upd_thread [OF ka]) (simp_all add: th_stat_def)
  have sa: "stacks_ok ?a" by (rule stacks_ok_thread [OF st(1)]) (simp_all add: th_stat_def stack_ok_def)
  have sy: "stacks_ok ?y" unfolding rt_sched_thread_yield_def by (rule stacks_ok_thread [OF sa]) (simp_all add: th_stat_def stack_ok_def)
  have ta: "touches C s ?a" "touches C ?a ?y"
    unfolding rt_sched_thread_yield_def by (rule touches_upd_thread, simp add: wait_eq_def)+
  have wa: "same_wait u s ?a" "same_wait u s ?y" for u
    by (simp_all add: same_wait_def rt_sched_thread_yield_def upd_thread_def th_suspended_def runnable_def th_stat_def)
  have cy: "current ?y = Some t" "tm ?y = tm s" "irq_nest ?y = irq_nest s" using t by (simp_all add: rt_sched_thread_yield_def)
  obtain s' where s': "rt_schedule ?y = Some s'" using schedule_returns [OF ky sy] cy(1) by auto
  have fr: "sched_frame ?y s'" by (rule schedule_frame [OF s' kinvD(1) [OF ky]])
  have "kinv s'" "stacks_ok s'" "current s' \<noteq> None" "tm s' = tm s" "irq_nest s' = irq_nest s" "touches C s s'"
    using kinv_schedule [OF s' ky] stacks_ok_frame [OF fr sy] schedule_current [OF s' ky] cy fr
      touches_trans [OF touches_trans [OF ta] touches_schedule [OF s' ky]] by (simp_all add: sched_frame_def)
  moreover have "same_wait u s s'" for u
    using wa(2) [of u] same_wait_frame [OF fr, of u] by (simp add: same_wait_def)
  moreover have "rt_sched_tick_increase s = (if remaining_tick (threads ?a t) \<noteq> 0 then Some ?a else Some s')"
    using t s' cy(1) by (simp add: rt_sched_tick_increase_def rt_thread_self_def rt_sched_unlock_n_resched_def Let_def)
  ultimately show ?thesis using ka sa ta(1) t wa(1) by auto
qed

text \<open>Every timer on the list expires at a later tick, in the order of the list.\<close>

definition ontime :: "tmst \<Rightarrow> bool" where
  "ontime m \<longleftrightarrow> tm_sorted (rt_tick m) (timers m) (tmlist m Timer_list) \<and>
     (\<forall>t\<in>set (tmlist m Timer_list). 0 < tm_dist (rt_tick m) (timers m t) \<and> kind_ok 1 t (timers m t))"

lemma ontime_next:
  assumes lo: "listed_ok b Timer_list m" and b: "rt_tick m = b + 1"
    and nd: "\<forall>t\<in>set (tmlist m Timer_list). \<not> timer_due (rt_tick m) (timers m t)"
  shows "ontime m"
proof -
  have one: "rt_tick m - b = 1" using b by simp
  have d: "tm_dist b (timers m t) = tm_dist (rt_tick m) (timers m t) + 1 \<and> 0 < tm_dist (rt_tick m) (timers m t)"
    if "t \<in> set (tmlist m Timer_list)" for t
  proof -
    have g: "1 < tm_dist b (timers m t)"
      using due_iff [of "rt_tick m" b "timers m t"] lo nd that one by (auto simp: listed_ok_def tm_sorted_def)
    have "timeout_tick (timers m t) - rt_tick m = (timeout_tick (timers m t) - b) - 1" using b by simp
    moreover have "timeout_tick (timers m t) - b \<noteq> 0" using g by (auto simp: tm_dist_def)
    ultimately have "tm_dist (rt_tick m) (timers m t) = tm_dist b (timers m t) - 1"
      unfolding tm_dist_def by (metis unat_minus1)
    then show ?thesis using g by simp
  qed
  have "sorted_wrt (\<lambda>x y. tm_dist b (timers m x) \<le> tm_dist b (timers m y)) (tmlist m Timer_list)"
    using lo by (simp add: listed_ok_def tm_sorted_def sorted_map)
  then have "sorted (map (\<lambda>t. tm_dist (rt_tick m) (timers m t)) (tmlist m Timer_list))"
    unfolding sorted_map by (rule sorted_wrt_mono_rel [rotated]) (use d in simp)
  then show ?thesis
    using lo d one unfolding ontime_def listed_ok_def tm_sorted_def by fastforce
qed

lemma tick_total:
  assumes "kinv s" "stacks_ok s" "current s \<noteq> None" "user_ok user" "tmlist (tm s) Hard_local = []" "ontime (tm s)"
    "0 < rt_interrupt_get_nest s"
  shows "\<exists>s'. rt_tick_increase user s = Some s' \<and> kinv s' \<and> stacks_ok s' \<and> current s' \<noteq> None \<and> irq_nest s' = irq_nest s \<and>
    rt_tick (tm s') = rt_tick (tm s) + 1 \<and> tmlist (tm s') Hard_local = [] \<and> ontime (tm s')"
proof -
  let ?b = "rt_tick (tm s)"
  let ?s = "s\<lparr>tm := (tm s)\<lparr>rt_tick := ?b + 1\<rparr>\<rparr>"
  have k: "kinv ?s" using kinv_tm [OF assms(1), of "(tm s)\<lparr>rt_tick := ?b + 1\<rparr>"] kinvD(2) [OF assms(1)] by (simp add: timer_inv_def)
  have st: "stacks_ok ?s" "current ?s \<noteq> None" using assms(2,3) by (simp_all add: stacks_ok_def)
  obtain s1 where s1: "rt_sched_tick_increase ?s = Some s1" "kinv s1" "stacks_ok s1" "current s1 \<noteq> None" "tm s1 = tm ?s" "irq_nest s1 = irq_nest ?s"
    using tick_slice [OF k st] by blast
  have lo: "listed_ok ?b Timer_list (tm s1)" using assms(6) s1(5) by (simp add: listed_ok_def ontime_def tm_sorted_def)
  obtain s' where s': "rt_timer_check user s1 = Some s'" "kinv s'" "stacks_ok s'" "current s' \<noteq> None" "irq_nest s' = irq_nest s1"
      "rt_tick (tm s') = rt_tick (tm s1)" "listed_ok ?b Timer_list (tm s')" "tmlist (tm s') Hard_local = []"
      "\<forall>t\<in>set (tmlist (tm s') Timer_list). \<not> timer_due (rt_tick (tm s')) (timers (tm s') t)"
    using timer_check_total [OF s1(2-4) assms(4) _ lo] s1(5,6) assms(5,7) by (auto simp: rt_interrupt_get_nest_def)
  have "rt_tick_increase user s = Some s'" using s1(1) s'(1) assms(7) by (simp add: rt_tick_increase_def rt_interrupt_get_nest_def)
  then show ?thesis using s' ontime_next [OF s'(7) _ s'(9)] s1(5,6) by simp
qed

end
