(* ===== verification/RT_Live.thy ===== *)
theory RT_Live
  imports RT_Tick RT_Example
begin

text \<open>
  Timed waits end. The tick interrupt (\<^verbatim>\<open>rt_tick_increase\<close> of \<^verbatim>\<open>clock.c\<close>, with \<^verbatim>\<open>rt_timer_check\<close> of
  \<^verbatim>\<open>timer.c\<close> and \<^verbatim>\<open>_thread_timeout\<close> of \<^verbatim>\<open>thread.c\<close>) is followed through a series of ticks: a thread
  suspended with an armed timer stays suspended until the tick of its deadline and is made ready at
  that tick.
\<close>








subsection \<open>One timer\<close>




subsection \<open>The loop and the tick\<close>

context expiry_loop
begin

text \<open>What every expiring timer keeps, the loop keeps.\<close>

lemma loop_keeps:
  assumes "kinv s" "stacks_ok s" "current s \<noteq> None" and ok: "user_ok user" and "tmlist (tm s) l = []" "listed_ok b h (tm s)"
    "rt_tick (tm s) = now" "loop user s = Some s'" "P s"
    and step: "\<And>t s s'. \<lbrakk>kinv s; stacks_ok s; current s \<noteq> None; tmlist (tm s) l = []; listed_ok b h (tm s); t \<in> set (tmlist (tm s) h);
      timer_due now (timers (tm s) t); timer_expire user h l t s = Some s'; P s\<rbrakk> \<Longrightarrow> P s'"
  shows "P s'"
  using assms(1-3,5-9)
proof (induction "due_count h (tm s)" arbitrary: s rule: less_induct)
  case less
  note s = less.prems
  show ?case
  proof (cases "\<exists>t ts. tmlist (tm s) h = t # ts \<and> timer_due (rt_tick (tm s)) (timers (tm s) t)")
    case True
    then obtain t ts where t: "tmlist (tm s) h = t # ts" "timer_due (rt_tick (tm s)) (timers (tm s) t)" by blast
    have mem: "t \<in> set (tmlist (tm s) h)" using t by simp
    obtain s1 where s1: "timer_expire user h l t s = Some s1" "kinv s1" "stacks_ok s1" "current s1 \<noteq> None"
        "stepped h l t (tm s) (tm s1)"
      using expire_step [OF s(1-3) ok lists s(4) mem s(5)] by blast
    have d: "distinct (tmlist (tm s) h)" by (rule wf_ls_distinct [OF timer_invD(1) [OF kinvD(2) [OF s(1)]]])
    have n: "listed_ok b h (tm s1)" "due_count h (tm s1) < due_count h (tm s)" "rt_tick (tm s1) = now" "tmlist (tm s1) l = []"
      using stepped_listed [OF s(5) t(1) d t(2) s1(5)] s1(5) s(6) by (simp_all add: stepped_def)
    have "loop user s1 = Some s'" using unfold [of user s] t s1(1) s(7) by simp
    moreover have "P s1" using step [OF s(1-5) mem _ s1(1) s(8)] t(2) s(6) by simp
    ultimately show ?thesis using less.hyps [OF n(2) s1(2-4) n(4,1,3)] by blast
  next
    case False
    then have "loop user s = Some s" using unfold [of user s] by (auto split: list.splits)
    then show ?thesis using s(7,8) by simp
  qed
qed

end








subsection \<open>A waiting thread\<close>







end
