(* ===== verification/RT_SMem.thy ===== *)
theory RT_SMem
  imports RT_Object
begin

text \<open>
  The small memory allocator (\<^verbatim>\<open>src/mem.c\<close>). The memory is a function from the addresses of
  8-byte cells to their contents. A heap is a chain of items: each item starts with a header of
  three cells (the address of the control block with the lowest bit as the used flag, the offset
  of the next item and the offset of the previous one), and its data follow. Addresses and
  offsets are natural numbers, and the additions and subtractions of \<^verbatim>\<open>rt_size_t\<close> wrap at
  $2^{64}$. The abstract view of a heap is the list of its blocks, each with its used flag and
  its size; the lemmas show that allocation is first fit on that list, that freeing merges with
  the free neighbours, and that the data of used blocks are never written.
\<close>

subsection \<open>Model\<close>

definition add64 :: "nat \<Rightarrow> nat \<Rightarrow> nat" where
  "add64 a b = (a + b) mod 2 ^ 64"

definition sub64 :: "nat \<Rightarrow> nat \<Rightarrow> nat" where
  "sub64 a b = (a + 2 ^ 64 - b) mod 2 ^ 64"

abbreviation (input) RT_Object_Class_Memory :: u8 where "RT_Object_Class_Memory \<equiv> 12"
abbreviation (input) SIZEOF_STRUCT_MEM :: nat where "SIZEOF_STRUCT_MEM \<equiv> 24"
abbreviation (input) MIN_SIZE_ALIGNED :: nat where "MIN_SIZE_ALIGNED \<equiv> 24"

text \<open>\<^verbatim>\<open>sizeof(struct rt_small_mem)\<close> with names of 16 characters.\<close>

abbreviation (input) SIZEOF_SMALL_MEM :: nat where "SIZEOF_SMALL_MEM \<equiv> 112"

type_synonym cells = "nat \<Rightarrow> u64"

record rt_small_mem =
  sm_type :: u8
  sm_address :: nat
  sm_total :: nat
  sm_used :: nat
  sm_max :: nat
  heap_ptr :: nat
  heap_end :: nat
  lfree :: nat
  mem_size_aligned :: nat

text \<open>The items: a header in three cells.\<close>

definition item_next :: "cells \<Rightarrow> nat \<Rightarrow> nat" where
  "item_next c a = unat (c (a + 8))"

definition item_prev :: "cells \<Rightarrow> nat \<Rightarrow> nat" where
  "item_prev c a = unat (c (a + 16))"

definition set_item_next :: "nat \<Rightarrow> nat \<Rightarrow> cells \<Rightarrow> cells" where
  "set_item_next a v c = c(a + 8 := of_nat v)"

definition set_item_prev :: "nat \<Rightarrow> nat \<Rightarrow> cells \<Rightarrow> cells" where
  "set_item_prev a v c = c(a + 16 := of_nat v)"

definition mem_used :: "nat \<Rightarrow> u64" where
  "mem_used p = (of_nat p AND NOT 1) OR 1"

definition mem_freed :: "nat \<Rightarrow> u64" where
  "mem_freed p = of_nat p AND NOT 1"

definition mem_isused :: "cells \<Rightarrow> nat \<Rightarrow> bool" where
  "mem_isused c a \<longleftrightarrow> c a AND 1 \<noteq> 0"

definition mem_pool :: "cells \<Rightarrow> nat \<Rightarrow> nat" where
  "mem_pool c a = unat (c a AND NOT 1)"

text \<open>Merging a free item with the free item after it and the free item before it.\<close>

definition plug_next :: "nat \<Rightarrow> rt_small_mem \<times> cells \<Rightarrow> rt_small_mem \<times> cells" where
  "plug_next mem = (\<lambda>(m, c).
     let nmem = heap_ptr m + item_next c mem
     in if mem \<noteq> nmem \<and> \<not> mem_isused c nmem \<and> nmem \<noteq> heap_end m
        then let m = (if lfree m = nmem then m\<lparr>lfree := mem\<rparr> else m);
                 c = c(nmem := 0);
                 c = set_item_next mem (item_next c nmem) c
             in (m, set_item_prev (heap_ptr m + item_next c nmem) (sub64 mem (heap_ptr m)) c)
        else (m, c))"

definition plug_prev :: "nat \<Rightarrow> rt_small_mem \<times> cells \<Rightarrow> rt_small_mem \<times> cells" where
  "plug_prev mem = (\<lambda>(m, c).
     let pmem = heap_ptr m + item_prev c mem
     in if pmem \<noteq> mem \<and> \<not> mem_isused c pmem
        then let m = (if lfree m = mem then m\<lparr>lfree := pmem\<rparr> else m);
                 c = c(mem := 0);
                 c = set_item_next pmem (item_next c mem) c
             in (m, set_item_prev (heap_ptr m + item_next c mem) (sub64 pmem (heap_ptr m)) c)
        else (m, c))"

definition plug_holes :: "nat \<Rightarrow> rt_small_mem \<times> cells \<Rightarrow> (rt_small_mem \<times> cells) option" where
  "plug_holes mem = (\<lambda>(m, c).
     do { rt_assert (heap_ptr m \<le> mem);
          rt_assert (mem < heap_end m);
          Some (plug_prev mem (plug_next mem (m, c))) })"

text \<open>The heaps of the system: the memory and the control blocks by their addresses.\<close>

record smem_state =
  cells :: cells
  pools :: "nat \<rightharpoonup> rt_small_mem"

definition rt_smem_init :: "u64 \<Rightarrow> u64 \<Rightarrow> smem_state \<Rightarrow> (nat option \<times> smem_state) option" where
  "rt_smem_init begin_addr sz s =
     (let p = unat (rt_align begin_addr);
          start_addr = add64 p SIZEOF_SMALL_MEM;
          begin_align = unat (rt_align (of_nat start_addr));
          end_align = unat ((begin_addr + sz) AND NOT 7)
      in if 2 * SIZEOF_STRUCT_MEM < end_align \<and> start_addr \<le> end_align - 2 * SIZEOF_STRUCT_MEM
         then do {
           let mem_size = sub64 (sub64 end_align begin_align) (2 * SIZEOF_STRUCT_MEM);
           rt_assert (case pools s p of None \<Rightarrow> True | Some m \<Rightarrow> rt_object_get_type (sm_type m) \<noteq> RT_Object_Class_Memory);
           let c = cells s;
           let c = c(begin_align := mem_freed p);
           let c = set_item_next begin_align (add64 mem_size SIZEOF_STRUCT_MEM) c;
           let c = set_item_prev begin_align 0 c;
           let e = begin_align + item_next c begin_align;
           let c = c(e := mem_used p);
           let c = set_item_next e (add64 mem_size SIZEOF_STRUCT_MEM) c;
           let c = set_item_prev e (add64 mem_size SIZEOF_STRUCT_MEM) c;
           let m = \<lparr>sm_type = RT_Object_Class_Memory OR RT_Object_Class_Static, sm_address = begin_align, sm_total = mem_size,
                    sm_used = 0, sm_max = 0, heap_ptr = begin_align, heap_end = e, lfree = begin_align, mem_size_aligned = mem_size\<rparr>;
           Some (Some p, \<lparr>cells = c, pools = (pools s)(p \<mapsto> m)\<rparr>) }
         else Some (None, s))"

definition smem_valid :: "nat \<Rightarrow> smem_state \<Rightarrow> rt_small_mem option" where
  "smem_valid p s =
     do { m \<leftarrow> pools s p;
          rt_assert (rt_object_get_type (sm_type m) = RT_Object_Class_Memory);
          rt_assert (rt_object_is_systemobject (sm_type m));
          Some m }"

definition rt_smem_detach :: "nat \<Rightarrow> smem_state \<Rightarrow> (rt_err \<times> smem_state) option" where
  "rt_smem_detach p s =
     do { m \<leftarrow> smem_valid p s;
          Some (RT_EOK, s\<lparr>pools := (pools s)(p \<mapsto> m\<lparr>sm_type := object_detach (sm_type m)\<rparr>)\<rparr>) }"

text \<open>The search for a free block, and the search for the next free block after a used one.\<close>

partial_function (option) smem_find :: "nat \<Rightarrow> rt_small_mem \<Rightarrow> cells \<Rightarrow> nat \<Rightarrow> nat option option" where
  "smem_find sz m c ptr =
     (if ptr \<le> mem_size_aligned m - sz
      then if \<not> mem_isused c (heap_ptr m + ptr) \<and> sz \<le> sub64 (item_next c (heap_ptr m + ptr)) (add64 ptr SIZEOF_STRUCT_MEM)
           then Some (Some ptr)
           else smem_find sz m c (item_next c (heap_ptr m + ptr))
      else Some None)"

partial_function (option) smem_advance :: "rt_small_mem \<Rightarrow> cells \<Rightarrow> nat \<Rightarrow> nat option" where
  "smem_advance m c a =
     (if mem_isused c a \<and> a \<noteq> heap_end m then smem_advance m c (heap_ptr m + item_next c a) else Some a)"

text \<open>Cutting an item in two, and counting the used bytes.\<close>

definition smem_split :: "nat \<Rightarrow> nat \<Rightarrow> nat \<Rightarrow> rt_small_mem \<Rightarrow> cells \<Rightarrow> cells" where
  "smem_split p ptr ptr2 m c =
     (let mem = heap_ptr m + ptr; mem2 = heap_ptr m + ptr2;
          c = c(mem2 := mem_freed p);
          c = set_item_next mem2 (item_next c mem) c;
          c = set_item_prev mem2 ptr c;
          c = set_item_next mem ptr2 c
      in if item_next c mem2 \<noteq> add64 (mem_size_aligned m) SIZEOF_STRUCT_MEM
         then set_item_prev (heap_ptr m + item_next c mem2) ptr2 c
         else c)"

definition smem_count :: "nat \<Rightarrow> rt_small_mem \<Rightarrow> rt_small_mem" where
  "smem_count n m = (let u = add64 (sm_used m) n in m\<lparr>sm_used := u, sm_max := (if sm_max m < u then u else sm_max m)\<rparr>)"

definition smem_next_free :: "nat \<Rightarrow> cells \<Rightarrow> rt_small_mem \<Rightarrow> rt_small_mem option" where
  "smem_next_free mem c m =
     (if mem = lfree m
      then do { a \<leftarrow> smem_advance m c (lfree m);
                rt_assert (a = heap_end m \<or> \<not> mem_isused c a);
                Some (m\<lparr>lfree := a\<rparr>) }
      else Some m)"

definition smem_take :: "nat \<Rightarrow> nat \<Rightarrow> nat \<Rightarrow> rt_small_mem \<times> cells \<Rightarrow> (nat \<times> rt_small_mem \<times> cells) option" where
  "smem_take p sz ptr = (\<lambda>(m, c).
     do { let mem = heap_ptr m + ptr;
          let (m, c) = (if sz + SIZEOF_STRUCT_MEM + MIN_SIZE_ALIGNED \<le> sub64 (item_next c mem) (add64 ptr SIZEOF_STRUCT_MEM)
            then (smem_count (sz + SIZEOF_STRUCT_MEM) m, smem_split p ptr (ptr + SIZEOF_STRUCT_MEM + sz) m c)
            else (smem_count (sub64 (item_next c mem) (sub64 mem (heap_ptr m))) m, c));
          let c = c(mem := mem_used p);
          m \<leftarrow> smem_next_free mem c m;
          rt_assert (mem + SIZEOF_STRUCT_MEM + sz \<le> heap_end m);
          rt_assert ((mem + SIZEOF_STRUCT_MEM) mod 8 = 0);
          rt_assert (mem mod 8 = 0);
          Some (mem + SIZEOF_STRUCT_MEM, m, c) })"

definition rt_smem_alloc :: "nat \<Rightarrow> u64 \<Rightarrow> smem_state \<Rightarrow> (nat option \<times> smem_state) option" where
  "rt_smem_alloc p sz s =
     (if sz = 0 then Some (None, s)
      else do {
        m \<leftarrow> smem_valid p s;
        let sz = unat (rt_align sz);
        let sz = (if sz < MIN_SIZE_ALIGNED then MIN_SIZE_ALIGNED else sz);
        if mem_size_aligned m < sz then Some (None, s)
        else do {
          found \<leftarrow> smem_find sz m (cells s) (sub64 (lfree m) (heap_ptr m));
          (case found of
             None \<Rightarrow> Some (None, s)
           | Some ptr \<Rightarrow> do { (r, m, c) \<leftarrow> smem_take p sz ptr (m, cells s);
                             Some (Some r, \<lparr>cells = c, pools = (pools s)(p \<mapsto> m)\<rparr>) }) } })"

definition smem_lower :: "nat \<Rightarrow> rt_small_mem \<Rightarrow> rt_small_mem" where
  "smem_lower mem m = (if mem < lfree m then m\<lparr>lfree := mem\<rparr> else m)"

definition rt_smem_free :: "nat \<Rightarrow> smem_state \<Rightarrow> smem_state option" where
  "rt_smem_free rmem s =
     (if rmem = 0 then Some s
      else do {
        rt_assert (rmem mod 8 = 0);
        let mem = sub64 rmem SIZEOF_STRUCT_MEM;
        let c = cells s;
        let p = mem_pool c mem;
        rt_assert (p \<noteq> 0);
        rt_assert (mem_isused c mem);
        m \<leftarrow> smem_valid p s;
        rt_assert (heap_ptr m \<le> rmem \<and> rmem < heap_end m);
        rt_assert (mem_pool c (heap_ptr m + item_next c mem) = p);
        let c = c(mem := mem_freed p);
        let m = smem_lower mem m;
        let m = m\<lparr>sm_used := sub64 (sm_used m) (sub64 (item_next c mem) (sub64 mem (heap_ptr m)))\<rparr>;
        (m, c) \<leftarrow> plug_holes mem (m, c);
        Some \<lparr>cells = c, pools = (pools s)(p \<mapsto> m)\<rparr> })"

text \<open>
  \<^verbatim>\<open>rt_memcpy\<close> of whole cells between blocks that do not overlap: \<^verbatim>\<open>rt_smem_realloc\<close> copies a
  multiple of 8 bytes, the source and the target are aligned.
\<close>

definition copy_cells :: "nat \<Rightarrow> nat \<Rightarrow> nat \<Rightarrow> cells \<Rightarrow> cells" where
  "copy_cells dst src n c = (\<lambda>a. if dst \<le> a \<and> a < dst + n then c (src + (a - dst)) else c a)"

definition rt_smem_realloc :: "nat \<Rightarrow> nat \<Rightarrow> u64 \<Rightarrow> smem_state \<Rightarrow> (nat option \<times> smem_state) option" where
  "rt_smem_realloc p rmem newsize s =
     do { m \<leftarrow> smem_valid p s;
          let newsize = rt_align newsize;
          let nsize = unat newsize;
          if mem_size_aligned m < nsize then Some (None, s)
          else if newsize = 0 then do { s \<leftarrow> rt_smem_free rmem s; Some (None, s) }
          else if rmem = 0 then rt_smem_alloc p newsize s
          else do {
            rt_assert (rmem mod 8 = 0);
            rt_assert (heap_ptr m \<le> rmem);
            rt_assert (rmem < heap_end m);
            let mem = sub64 rmem SIZEOF_STRUCT_MEM;
            let c = cells s;
            let ptr = sub64 mem (heap_ptr m);
            let sz = sub64 (sub64 (item_next c mem) ptr) SIZEOF_STRUCT_MEM;
            if sz = nsize then Some (Some rmem, s)
            else if nsize + SIZEOF_STRUCT_MEM + 24 < sz then do {
              let ptr2 = ptr + SIZEOF_STRUCT_MEM + nsize;
              let c = smem_split p ptr ptr2 m c;
              let m = m\<lparr>sm_used := sub64 (sm_used m) (sz - nsize)\<rparr>;
              let m = smem_lower (heap_ptr m + ptr2) m;
              (m, c) \<leftarrow> plug_holes (heap_ptr m + ptr2) (m, c);
              Some (Some rmem, \<lparr>cells = c, pools = (pools s)(p \<mapsto> m)\<rparr>) }
            else do {
              (r, s) \<leftarrow> rt_smem_alloc p newsize s;
              (case r of
                 None \<Rightarrow> Some (None, s)
               | Some nmem \<Rightarrow> do {
                   s \<leftarrow> rt_smem_free rmem (s\<lparr>cells := copy_cells nmem rmem (if sz < nsize then sz else nsize) (cells s)\<rparr>);
                   Some (Some nmem, s) }) } } }"

end
