(* ===== verification/RT_SMemInv.thy ===== *)
theory RT_SMemInv
  imports RT_SMem
begin

text \<open>
  The blocks of a small-memory heap and the proofs about \<^verbatim>\<open>src/mem.c\<close>. \<open>chain\<close> relates the
  headers in memory to a list of blocks, \<open>smem_ok\<close> is the invariant of a heap, and the
  operations are refined to operations on the list of blocks.
\<close>

subsection \<open>Blocks\<close>

type_synonym block = "bool \<times> nat"

definition span :: "block list \<Rightarrow> nat" where
  "span bs = sum_list (map (\<lambda>b. 24 + snd b) bs)"

definition used_bytes :: "block list \<Rightarrow> nat" where
  "used_bytes bs = span (filter fst bs)"

definition first_free :: "block list \<Rightarrow> nat" where
  "first_free bs = span (takeWhile fst bs)"

fun lastoff :: "nat \<Rightarrow> nat \<Rightarrow> block list \<Rightarrow> nat" where
  "lastoff pv a [] = pv"
| "lastoff pv a (b # bs) = lastoff a (a + 24 + snd b) bs"

text \<open>The headers from offset \<open>a\<close> on, with the offset \<open>pv\<close> of the item before.\<close>

fun chain :: "nat \<Rightarrow> nat \<Rightarrow> cells \<Rightarrow> nat \<Rightarrow> nat \<Rightarrow> block list \<Rightarrow> bool" where
  "chain p h c pv a [] \<longleftrightarrow> True"
| "chain p h c pv a ((u, n) # bs) \<longleftrightarrow>
     c (h + a) = (if u then mem_used p else mem_freed p) \<and> c (h + a + 8) = of_nat (a + 24 + n) \<and>
     c (h + a + 16) = of_nat pv \<and> chain p h c a (a + 24 + n) bs"

text \<open>The addresses of the data of the used blocks.\<close>

fun used_data :: "nat \<Rightarrow> nat \<Rightarrow> block list \<Rightarrow> nat set" where
  "used_data h a [] = {}"
| "used_data h a ((u, n) # bs) = (if u then {h + a + 24..<h + a + 24 + n} else {}) \<union> used_data h (a + 24 + n) bs"

text \<open>First fit, and the list after an allocation and after a release.\<close>

fun first_fit :: "nat \<Rightarrow> nat \<Rightarrow> block list \<Rightarrow> nat option" where
  "first_fit sz a [] = None"
| "first_fit sz a ((u, n) # bs) = (if \<not> u \<and> sz \<le> n then Some a else first_fit sz (a + 24 + n) bs)"

definition take_block :: "nat \<Rightarrow> nat \<Rightarrow> block list" where
  "take_block sz n = (if sz + 48 \<le> n then [(True, sz), (False, n - sz - 24)] else [(True, n)])"

fun alloc_blocks :: "nat \<Rightarrow> block list \<Rightarrow> block list" where
  "alloc_blocks sz [] = []"
| "alloc_blocks sz ((u, n) # bs) = (if \<not> u \<and> sz \<le> n then take_block sz n @ bs else (u, n) # alloc_blocks sz bs)"

fun join_next :: "nat \<Rightarrow> block list \<Rightarrow> block list" where
  "join_next n ((False, k) # bs) = (False, n + 24 + k) # bs"
| "join_next n bs = (False, n) # bs"

definition join_prev :: "block list \<Rightarrow> block list \<Rightarrow> block list" where
  "join_prev xs ys = (if xs \<noteq> [] \<and> \<not> fst (last xs) then butlast xs @ (False, snd (last xs) + 24 + snd (hd ys)) # tl ys else xs @ ys)"

definition free_blocks :: "block list \<Rightarrow> nat \<Rightarrow> block list \<Rightarrow> block list" where
  "free_blocks xs n ys = join_prev xs (join_next n ys)"

definition coalesced :: "block list \<Rightarrow> bool" where
  "coalesced = successively (\<lambda>b b'. fst b \<or> fst b')"

text \<open>The invariant of a heap with its control block at \<open>p\<close>.\<close>

definition layout :: "nat \<Rightarrow> rt_small_mem \<Rightarrow> cells \<Rightarrow> block list \<Rightarrow> bool" where
  "layout p m c bs \<longleftrightarrow>
     chain p (heap_ptr m) c 0 0 bs \<and> heap_end m = heap_ptr m + span bs \<and> span bs = mem_size_aligned m + 24 \<and>
     c (heap_end m) = mem_used p \<and> 8 dvd heap_ptr m \<and> 8 dvd p \<and> 0 < p \<and> p + 112 \<le> heap_ptr m \<and>
     heap_end m + 24 < 2 ^ 64 \<and> (\<forall>(u, n)\<in>set bs. 8 dvd n \<and> (u \<longrightarrow> 0 < n))"

definition smem_ok :: "nat \<Rightarrow> rt_small_mem \<Rightarrow> cells \<Rightarrow> block list \<Rightarrow> bool" where
  "smem_ok p m c bs \<longleftrightarrow>
     layout p m c bs \<and> coalesced bs \<and> lfree m = heap_ptr m + first_free bs \<and> sm_used m = used_bytes bs \<and>
     sm_used m \<le> sm_max m \<and> sm_type m = RT_Object_Class_Memory OR RT_Object_Class_Static"

text \<open>What the operations leave alone: the place of the heap, and the data of the used blocks and everything outside the heap.\<close>

definition same_heap :: "rt_small_mem \<Rightarrow> rt_small_mem \<Rightarrow> bool" where
  "same_heap m m' \<longleftrightarrow> heap_ptr m' = heap_ptr m \<and> heap_end m' = heap_end m \<and> mem_size_aligned m' = mem_size_aligned m \<and>
     sm_type m' = sm_type m \<and> sm_address m' = sm_address m \<and> sm_total m' = sm_total m"

definition untouched :: "rt_small_mem \<Rightarrow> block list \<Rightarrow> cells \<Rightarrow> cells \<Rightarrow> bool" where
  "untouched m bs c c' \<longleftrightarrow>
     (\<forall>x. x \<in> used_data (heap_ptr m) 0 bs \<or> x < heap_ptr m \<or> heap_end m + 24 \<le> x \<longrightarrow> c' x = c x)"

subsection \<open>Arithmetic\<close>

lemma add64_small [simp]: "a + b < 2 ^ 64 \<Longrightarrow> add64 a b = a + b"
  by (simp add: add64_def)

lemma sub64_small [simp]: "b \<le> a \<Longrightarrow> a < 2 ^ 64 \<Longrightarrow> sub64 a b = a - b"
proof -
  assume "b \<le> a" "a < 2 ^ 64"
  then have "a + 2 ^ 64 - b = (a - b) + 2 ^ 64" "a - b < 2 ^ 64" by linarith+
  then show ?thesis unfolding sub64_def by (simp only: mod_add_self2 mod_less)
qed

lemma unat_of_nat64 [simp]: "v < 2 ^ 64 \<Longrightarrow> unat (of_nat v :: u64) = v"
  by (simp add: unsigned_of_nat take_bit_nat_eq_self)

lemma flag_simps [simp]: "mem_used p AND 1 \<noteq> 0" "mem_freed p AND 1 = 0"
proof -
  have "bit (mem_used p AND 1) 0" by (simp add: mem_used_def bit_simps)
  then show "mem_used p AND 1 \<noteq> 0" by auto
  show "mem_freed p AND 1 = 0" by (rule bit_word_eqI) (auto simp: mem_freed_def bit_simps)
qed

lemma pool_of_header:
  assumes "8 dvd p" "p < 2 ^ 64" "c a = (if u then mem_used p else mem_freed p)"
  shows "mem_pool c a = p"
proof -
  have "even p" using assms(1) by (auto elim: dvd_trans [of 2 8])
  then have "c a AND NOT 1 = of_nat p"
    unfolding assms(3) mem_used_def mem_freed_def by (intro bit_word_eqI) (auto simp: bit_simps bit_0)
  then show ?thesis unfolding mem_pool_def using assms(2) by simp
qed

subsection \<open>Lists of blocks\<close>

lemma span_simps [simp]: "span [] = 0" "span (b # bs) = 24 + snd b + span bs" "span (xs @ ys) = span xs + span ys"
  by (simp_all add: span_def)

lemma used_bytes_simps [simp]:
  "used_bytes [] = 0" "used_bytes (b # bs) = (if fst b then 24 + snd b else 0) + used_bytes bs"
  "used_bytes (xs @ ys) = used_bytes xs + used_bytes ys"
  by (simp_all add: used_bytes_def)

lemma used_bytes_le: "used_bytes bs \<le> span bs"
  by (induction bs) auto

lemma span_filter: "8 dvd span bs" if "\<forall>(u, n)\<in>set bs. 8 dvd n"
  using that by (induction bs) (auto intro!: dvd_add)

lemma lastoff_append [simp]: "lastoff pv a (xs @ ys) = lastoff (lastoff pv a xs) (a + span xs) ys"
  by (induction xs arbitrary: pv a) (simp_all add: add.assoc)

lemma lastoff_le: "xs \<noteq> [] \<Longrightarrow> lastoff pv a xs + 24 \<le> a + span xs"
proof (induction xs arbitrary: pv a)
  case (Cons b bs)
  have "bs \<noteq> [] \<Longrightarrow> lastoff a (a + 24 + snd b) bs + 24 \<le> a + 24 + snd b + span bs" by (rule Cons.IH)
  then show ?case by (cases "bs = []") simp_all
qed simp

lemma chain_append: "chain p h c pv a (xs @ ys) \<longleftrightarrow> chain p h c pv a xs \<and> chain p h c (lastoff pv a xs) (a + span xs) ys"
proof (induction xs arbitrary: pv a)
  case (Cons b xs)
  then show ?case by (cases b) (simp add: add.assoc)
qed simp

lemma smem_chain_frame:
  assumes "\<And>x. h + a \<le> x \<Longrightarrow> x < h + a + span bs \<Longrightarrow> c' x = c x"
  shows "chain p h c' pv a bs \<longleftrightarrow> chain p h c pv a bs"
  using assms
proof (induction bs arbitrary: pv a)
  case (Cons b bs)
  obtain u n where b: "b = (u, n)" by (cases b)
  have "chain p h c' a (a + 24 + n) bs \<longleftrightarrow> chain p h c a (a + 24 + n) bs"
    by (rule Cons.IH, rule Cons.prems) (simp_all add: b)
  moreover have "c' (h + a) = c (h + a)" "c' (h + a + 8) = c (h + a + 8)" "c' (h + a + 16) = c (h + a + 16)"
    by (rule Cons.prems; simp)+
  ultimately show ?case by (simp add: b)
qed simp

lemma chain_set_prev: "chain p h c pv a bs \<Longrightarrow> chain p h (c(h + a + 16 := of_nat pv')) pv' a bs"
proof (cases bs)
  case (Cons b bs')
  obtain u n where b: "b = (u, n)" by (cases b)
  assume "chain p h c pv a bs"
  moreover have "chain p h (c(h + a + 16 := of_nat pv')) a (a + 24 + n) bs' \<longleftrightarrow> chain p h c a (a + 24 + n) bs'"
    by (rule smem_chain_frame) simp
  ultimately show ?thesis by (simp add: Cons b)
qed simp

lemma used_data_append [simp]: "used_data h a (xs @ ys) = used_data h a xs \<union> used_data h (a + span xs) ys"
proof (induction xs arbitrary: a)
  case (Cons b xs)
  then show ?case by (cases b) (simp add: add.assoc Un_assoc)
qed simp

lemma used_data_range: "x \<in> used_data h a bs \<Longrightarrow> h + a + 24 \<le> x \<and> x < h + a + span bs"
proof (induction bs arbitrary: a)
  case (Cons b bs)
  show ?case
  proof (cases "x \<in> used_data h (a + 24 + snd b) bs")
    case True
    from Cons.IH [OF this] show ?thesis by simp
  next
    case False
    with Cons.prems show ?thesis by (cases b) (auto split: if_splits)
  qed
qed simp

lemma first_free_simps [simp]:
  "first_free [] = 0" "first_free ((True, n) # bs) = 24 + n + first_free bs" "first_free ((False, n) # bs) = 0"
  by (simp_all add: first_free_def)

lemma first_free_append: "first_free (xs @ ys) = (if \<forall>b\<in>set xs. fst b then span xs + first_free ys else first_free xs)"
proof (induction xs)
  case (Cons b xs)
  then show ?case by (cases b; cases "fst b") auto
qed simp

lemma first_free_le: "first_free bs \<le> span bs"
  by (induction bs) (simp_all add: first_free_def)

lemma first_free_lt: "\<exists>b\<in>set bs. \<not> fst b \<Longrightarrow> first_free bs + 24 \<le> span bs"
proof (induction bs)
  case (Cons b bs)
  then show ?case by (cases b; cases "fst b") auto
qed simp

subsection \<open>Walking over the headers\<close>

lemma layout_at:
  assumes "layout p m c (xs @ (u, n) # ys)"
  shows "mem_isused c (heap_ptr m + span xs) \<longleftrightarrow> u" "item_next c (heap_ptr m + span xs) = span xs + 24 + n"
    "item_prev c (heap_ptr m + span xs) = lastoff 0 0 xs" "mem_pool c (heap_ptr m + span xs) = p"
    "heap_end m = heap_ptr m + (span xs + 24 + n + span ys)" "heap_end m + 24 < 2 ^ 64" "8 dvd n" "u \<Longrightarrow> 0 < n"
    "(heap_ptr m + span xs) mod 8 = 0" "mem_size_aligned m = span xs + n + span ys"
proof -
  let ?h = "heap_ptr m" and ?a = "span xs"
  have c: "c (?h + ?a) = (if u then mem_used p else mem_freed p)" "c (?h + ?a + 8) = of_nat (?a + 24 + n)"
    "c (?h + ?a + 16) = of_nat (lastoff 0 0 xs)"
    and e: "heap_end m = ?h + (?a + 24 + n + span ys)" "heap_end m + 24 < 2 ^ 64"
    and d: "8 dvd ?h" "8 dvd p" "p + 112 \<le> ?h" "\<forall>(u, n)\<in>set xs. 8 dvd n"
    using assms by (auto simp: layout_def chain_append)
  have pv: "lastoff 0 0 xs \<le> ?a" using lastoff_le [of xs 0 0] by (cases "xs = []") auto
  show "heap_end m = ?h + (?a + 24 + n + span ys)" "heap_end m + 24 < 2 ^ 64" by (fact e)+
  show "mem_isused c (?h + ?a) \<longleftrightarrow> u" using c(1) by (simp add: mem_isused_def)
  show "item_next c (?h + ?a) = ?a + 24 + n"
    unfolding item_next_def c(2) using e by (subst unat_of_nat64) linarith+
  show "item_prev c (?h + ?a) = lastoff 0 0 xs"
    unfolding item_prev_def c(3) using e pv by (subst unat_of_nat64) linarith+
  show "mem_pool c (?h + ?a) = p"
    by (rule pool_of_header [where u = u]) (use d(2,3) e c(1) in auto)
  show "8 dvd n" "u \<Longrightarrow> 0 < n" "mem_size_aligned m = span xs + n + span ys" using assms by (auto simp: layout_def)
  show "(?h + ?a) mod 8 = 0" using d(1) span_filter [OF d(4)] by (simp flip: dvd_eq_mod_eq_0)
qed

lemma layout_end:
  assumes "layout p m c bs"
  shows "mem_isused c (heap_end m)" "mem_pool c (heap_end m) = p"
proof -
  have *: "c (heap_end m) = mem_used p" "8 dvd p" "p < 2 ^ 64" using assms by (auto simp: layout_def)
  then show "mem_isused c (heap_end m)" by (simp add: mem_isused_def)
  show "mem_pool c (heap_end m) = p" using pool_of_header [of p c "heap_end m" True] * by simp
qed

lemma first_fit_small: "a + span ys = E + 24 \<Longrightarrow> E - sz < a \<Longrightarrow> first_fit sz a ys = None"
proof (induction ys arbitrary: a)
  case (Cons b ys)
  have "first_fit sz (a + 24 + snd b) ys = None" by (rule Cons.IH) (use Cons.prems in auto)
  with Cons.prems show ?case by (cases b) auto
qed simp

lemma find_fit:
  assumes "layout p m c (xs @ ys)" "sz \<le> mem_size_aligned m"
  shows "smem_find sz m c (span xs) = Some (first_fit sz (span xs) ys)"
  using assms
proof (induction ys arbitrary: xs)
  case Nil
  then have "\<not> span xs \<le> mem_size_aligned m - sz" by (simp add: layout_def)
  then show ?case by (subst smem_find.simps) simp
next
  case (Cons b ys)
  obtain u n where b: "b = (u, n)" by (cases b)
  note at = layout_at [OF Cons.prems(1) [unfolded b]]
  have rec: "smem_find sz m c (span xs + 24 + n) = Some (first_fit sz (span xs + 24 + n) ys)"
    using Cons.IH [of "xs @ [b]"] Cons.prems by (simp add: b add.assoc)
  have free: "sub64 (span xs + 24 + n) (add64 (span xs) 24) = n"
    using at(5,6) by simp
  show ?case
  proof (cases "span xs \<le> mem_size_aligned m - sz")
    case True
    then show ?thesis by (subst smem_find.simps) (simp add: at(1,2) free rec b)
  next
    case False
    then have "first_fit sz (span xs) (b # ys) = None"
      by (intro first_fit_small [where E = "mem_size_aligned m"]) (use at(10) in \<open>simp_all add: b\<close>)
    with False show ?thesis by (subst smem_find.simps) simp
  qed
qed

lemma advance_free:
  assumes "layout p m c (xs @ ys)"
  shows "smem_advance m c (heap_ptr m + span xs) = Some (heap_ptr m + span xs + first_free ys)"
  using assms
proof (induction ys arbitrary: xs)
  case Nil
  then show ?case by (subst smem_advance.simps) (simp add: layout_def)
next
  case (Cons b ys)
  obtain u n where b: "b = (u, n)" by (cases b)
  note at = layout_at [OF Cons.prems(1) [unfolded b]]
  have "smem_advance m c (heap_ptr m + (span xs + 24 + n)) = Some (heap_ptr m + (span xs + 24 + n) + first_free ys)"
    using Cons.IH [of "xs @ [b]"] Cons.prems by (simp add: b add.assoc)
  then show ?case by (subst smem_advance.simps) (cases u; simp add: at(1,2,5) b add.assoc)
qed

lemma first_fit_split:
  "first_fit sz a bs = Some x \<Longrightarrow>
   \<exists>xs n ys. bs = xs @ (False, n) # ys \<and> x = a + span xs \<and> sz \<le> n \<and> alloc_blocks sz bs = xs @ take_block sz n @ ys"
proof (induction bs arbitrary: a)
  case (Cons b bs)
  obtain u n where b: "b = (u, n)" by (cases b)
  show ?case
  proof (cases "\<not> u \<and> sz \<le> n")
    case True
    then show ?thesis using Cons.prems by (intro exI [of _ "[]"]) (simp add: b)
  next
    case False
    then obtain xs k ys where "bs = xs @ (False, k) # ys" "x = a + 24 + n + span xs" "sz \<le> k"
        "alloc_blocks sz bs = xs @ take_block sz k @ ys"
      using Cons.IH [of "a + 24 + n"] Cons.prems by (auto simp: b)
    with False show ?thesis by (intro exI [of _ "b # xs"] exI [of _ k] exI [of _ ys]) (auto simp: b)
  qed
qed simp

lemma first_fit_skip: "\<forall>b\<in>set xs. fst b \<Longrightarrow> first_fit sz a (xs @ ys) = first_fit sz (a + span xs) ys"
proof (induction xs arbitrary: a)
  case (Cons b xs)
  then show ?case by (cases b) (simp add: add.assoc)
qed simp

lemma first_fit_none: "first_fit sz a bs = None \<longleftrightarrow> (\<forall>(u, n)\<in>set bs. u \<or> n < sz)"
  by (induction sz a bs rule: first_fit.induct) auto


subsection \<open>Cutting and joining\<close>

lemma split_cells:
  assumes L: "layout p m c (xs @ (u, n) # ys)" and n: "n = sz + 24 + k"
  shows "smem_split p (span xs) (span xs + 24 + sz) m c =
    (let h = heap_ptr m; a = span xs;
         c1 = c(h + (a + 24 + sz) := mem_freed p, h + (a + 24 + sz) + 8 := of_nat (a + 24 + n),
                h + (a + 24 + sz) + 16 := of_nat a, h + a + 8 := of_nat (a + 24 + sz))
     in if ys = [] then c1 else c1(h + (a + 24 + n) + 16 := of_nat (a + 24 + sz)))"
proof -
  note at = layout_at [OF L]
  define a A N where "a = span xs" and "A = span xs + 24 + sz" and "N = span xs + 24 + n"
  have le: "a + 24 \<le> A" "A + 24 \<le> N" by (simp_all add: a_def A_def N_def n)
  have nx: "unat (c (heap_ptr m + a + 8)) = N" using at(2) by (simp add: item_next_def N_def a_def)
  have un: "unat (of_nat N :: u64) = N"
    using at(5,6) unfolding N_def by (subst unat_of_nat64) linarith+
  have e: "add64 (mem_size_aligned m) 24 = N + span ys"
    using at(5,6,10) by (simp add: N_def)
  have ne: "span ys = 0 \<longleftrightarrow> ys = []" by (cases ys) auto
  show ?thesis
    unfolding Let_def A_def [symmetric] N_def [symmetric]
    unfolding a_def [symmetric]
    unfolding smem_split_def Let_def item_next_def set_item_next_def set_item_prev_def
    using le by (simp add: nx un e ne)
qed

lemma split_frame:
  assumes "layout p m c (xs @ (u, n) # ys)" "n = sz + 24 + k"
    "x < heap_ptr m + span xs + 8 \<or> heap_ptr m + span xs + 16 \<le> x \<and> x < heap_ptr m + span xs + 24 + sz \<or>
     heap_ptr m + span xs + 24 + n \<le> x \<and> x \<noteq> heap_ptr m + span xs + 40 + n"
  shows "smem_split p (span xs) (span xs + 24 + sz) m c x = c x"
  unfolding split_cells [OF assms(1,2)] Let_def using assms(2,3) by auto

lemma split_chain:
  assumes L: "layout p m c (xs @ (u, n) # ys)" and n: "n = sz + 24 + k"
  shows "chain p (heap_ptr m) (smem_split p (span xs) (span xs + 24 + sz) m c) 0 0 (xs @ (u, sz) # (False, k) # ys)"
proof -
  let ?h = "heap_ptr m" and ?a = "span xs" and ?c = "smem_split p (span xs) (span xs + 24 + sz) m c"
  have ch: "chain p ?h c 0 0 xs" "chain p ?h c (lastoff 0 0 xs) ?a ((u, n) # ys)"
    using L by (simp_all add: layout_def chain_append)
  have "chain p ?h ?c 0 0 xs \<longleftrightarrow> chain p ?h c 0 0 xs"
    by (rule smem_chain_frame) (rule split_frame [OF L n], simp)
  moreover have "chain p ?h ?c (?a + 24 + sz) (?a + 24 + n) ys"
  proof (cases "ys = []")
    case False
    have "chain p ?h (c(?h + (?a + 24 + n) + 16 := of_nat (?a + 24 + sz))) (?a + 24 + sz) (?a + 24 + n) ys"
      using ch(2) by (intro chain_set_prev [where pv = "?a"]) simp
    also have "?this \<longleftrightarrow> ?thesis"
      by (rule smem_chain_frame [symmetric], unfold split_cells [OF L n] Let_def) (use n False in auto)
    finally show ?thesis .
  qed simp
  moreover have "?c (?h + ?a) = c (?h + ?a)" "?c (?h + ?a + 16) = c (?h + ?a + 16)"
    by (rule split_frame [OF L n], simp)+
  moreover have "?c (?h + ?a + 8) = of_nat (?a + 24 + sz)" "?c (?h + (?a + 24 + sz)) = mem_freed p"
    "?c (?h + (?a + 24 + sz) + 8) = of_nat (?a + 24 + n)" "?c (?h + (?a + 24 + sz) + 16) = of_nat ?a"
    unfolding split_cells [OF L n] Let_def by (auto simp: n)
  ultimately show ?thesis using ch by (simp add: chain_append n add.assoc)
qed


lemma chain_set_flag:
  assumes "chain p h c 0 0 (xs @ (u, n) # ys)"
  shows "chain p h (c(h + span xs := (if v then mem_used p else mem_freed p))) 0 0 (xs @ (v, n) # ys)"
proof -
  let ?c = "c(h + span xs := (if v then mem_used p else mem_freed p))"
  have "chain p h ?c 0 0 xs \<longleftrightarrow> chain p h c 0 0 xs" by (rule smem_chain_frame) simp
  moreover have "chain p h ?c (span xs) (span xs + 24 + n) ys \<longleftrightarrow> chain p h c (span xs) (span xs + 24 + n) ys"
    by (rule smem_chain_frame) simp
  ultimately show ?thesis using assms by (simp add: chain_append)
qed

lemma join_next_simps [simp]:
  "span (join_next n ys) = 24 + n + span ys" "used_bytes (join_next n ys) = used_bytes ys"
  "used_data h a (join_next n ys) = used_data h (a + 24 + n) ys" "first_free (join_next n ys) = 0"
  "join_next n ys \<noteq> []" "fst (hd (join_next n ys)) = False"
  by (cases "(n, ys)" rule: join_next.cases; simp add: add_ac)+

lemma join_next_elems: "(u, k) \<in> set (join_next n ys) \<Longrightarrow> 8 dvd n \<Longrightarrow> \<forall>(u, n)\<in>set ys. 8 dvd n \<and> (u \<longrightarrow> 0 < n) \<Longrightarrow> 8 dvd k \<and> (u \<longrightarrow> 0 < k)"
  by (cases "(n, ys)" rule: join_next.cases) auto

lemma join_next_head: "\<exists>k zs. join_next n ys = (False, k) # zs"
  by (cases "(n, ys)" rule: join_next.cases) simp_all

text \<open>The cells after a free item at offset \<open>a\<close> has swallowed the one at \<open>b\<close>, whose next item is at \<open>n\<close>.\<close>

definition joined :: "nat \<Rightarrow> nat \<Rightarrow> nat \<Rightarrow> nat \<Rightarrow> cells \<Rightarrow> cells" where
  "joined h a b n c = c(h + b := 0, h + a + 8 := of_nat n, h + n + 16 := of_nat a)"

lemma plug_next_joins:
  assumes L: "layout p m c (xs @ (False, n) # (False, k) # zs)" and lf: "lfree m \<le> heap_ptr m + span xs"
  shows "plug_next (heap_ptr m + span xs) (m, c) = (m, joined (heap_ptr m) (span xs) (span xs + 24 + n) (span xs + 48 + n + k) c)"
proof -
  note at = layout_at [OF L]
  have L2: "layout p m c ((xs @ [(False, n)]) @ (False, k) # zs)" using L by simp
  note at2 = layout_at [OF L2]
  let ?h = "heap_ptr m"
  define a A N where "a = span xs" and "A = span xs + 24 + n" and "N = span xs + 48 + n + k"
  have le: "a + 24 \<le> A" "A + 24 \<le> N" by (simp_all add: a_def A_def N_def)
  have cn: "unat (c (?h + a + 8)) = A" "unat (c (?h + A + 8)) = N" "\<not> mem_isused c (?h + A)"
    using at(2) at2(1,2) by (simp_all add: item_next_def a_def A_def N_def add_ac)
  have un: "unat (of_nat N :: u64) = N" using at2(5,6) unfolding N_def by (subst unat_of_nat64) (simp_all add: add_ac)
  have e: "?h + A \<noteq> heap_end m" "lfree m \<noteq> ?h + A" "sub64 (?h + a) ?h = a"
    using at(5,6) lf le by (auto simp: A_def a_def)
  show ?thesis
    unfolding A_def [symmetric] N_def [symmetric] unfolding a_def [symmetric]
    unfolding plug_next_def Let_def joined_def item_next_def set_item_next_def set_item_prev_def
    using le e cn by (simp add: un)
qed

lemma joined_layout:
  assumes L: "layout p m c (xs @ (False, n) # (False, k) # zs)"
  defines "c' \<equiv> joined (heap_ptr m) (span xs) (span xs + 24 + n) (span xs + 48 + n + k) c"
  shows "layout p m c' (xs @ (False, n + 24 + k) # zs)"
proof -
  let ?h = "heap_ptr m" and ?a = "span xs" and ?A = "span xs + 24 + n" and ?N = "span xs + 48 + n + k"
  have ch: "chain p ?h c 0 0 xs" "chain p ?h c (lastoff 0 0 xs) ?a ((False, n) # (False, k) # zs)"
    using L by (simp_all add: layout_def chain_append)
  have "chain p ?h c' 0 0 xs \<longleftrightarrow> chain p ?h c 0 0 xs"
    by (rule smem_chain_frame) (simp add: c'_def joined_def)
  moreover have "chain p ?h c' ?a ?N zs"
  proof -
    have "chain p ?h (c(?h + ?N + 16 := of_nat ?a)) ?a ?N zs"
      by (rule chain_set_prev [where pv = ?A]) (use ch(2) in \<open>simp add: add_ac\<close>)
    then show ?thesis by (subst smem_chain_frame [where c = "c(?h + ?N + 16 := of_nat ?a)"]) (auto simp: c'_def joined_def)
  qed
  moreover have "c' (?h + ?a) = c (?h + ?a)" "c' (?h + ?a + 16) = c (?h + ?a + 16)" "c' (?h + ?a + 8) = of_nat ?N"
    by (simp_all add: c'_def joined_def)
  ultimately have "chain p ?h c' 0 0 (xs @ (False, n + 24 + k) # zs)"
    using ch by (simp add: chain_append add_ac)
  moreover have "c' (heap_end m) = c (heap_end m)"
    using layout_at(5) [OF L] by (cases zs) (auto simp: c'_def joined_def)
  ultimately show ?thesis using L by (auto simp: layout_def)
qed

lemma joined_untouched:
  assumes L: "layout p m c (xs @ (False, n) # (False, k) # zs)"
  shows "untouched m (xs @ (False, n) # (False, k) # zs) c
    (joined (heap_ptr m) (span xs) (span xs + 24 + n) (span xs + 48 + n + k) c)"
  unfolding untouched_def
proof (intro allI impI)
  let ?h = "heap_ptr m" and ?N = "span xs + 48 + n + k"
  fix x assume "x \<in> used_data ?h 0 (xs @ (False, n) # (False, k) # zs) \<or> x < ?h \<or> heap_end m + 24 \<le> x"
  then consider "x < ?h + span xs" | "?h + ?N + 24 \<le> x"
    using used_data_range [of x ?h 0 xs] used_data_range [of x ?h ?N zs] layout_at(5) [OF L] by (auto simp: add_ac)
  then show "joined ?h (span xs) (span xs + 24 + n) ?N c x = c x" by cases (auto simp: joined_def)
qed

lemma next_used:
  assumes L: "layout p m c (xs @ (u, n) # ys)" and ys: "\<nexists>k zs. ys = (False, k) # zs"
  shows "mem_isused c (heap_ptr m + (span xs + 24 + n))"
proof (cases ys)
  case Nil
  with layout_end(1) [OF L] layout_at(5) [OF L] show ?thesis by simp
next
  case (Cons b zs)
  with ys have "b = (True, snd b)" by (cases b; cases "fst b") auto
  with layout_at(1) [of p m c "xs @ [(u, n)]" True "snd b" zs] L Cons show ?thesis by (simp add: add_ac)
qed

lemma plug_next_result:
  assumes L: "layout p m c (xs @ (False, n) # ys)" and lf: "lfree m \<le> heap_ptr m + span xs"
  shows "\<exists>c'. plug_next (heap_ptr m + span xs) (m, c) = (m, c') \<and> layout p m c' (xs @ join_next n ys) \<and>
    untouched m (xs @ (False, n) # ys) c c'"
proof (cases "\<exists>k zs. ys = (False, k) # zs")
  case True
  then obtain k zs where ys: "ys = (False, k) # zs" by blast
  show ?thesis
    using plug_next_joins [OF L [unfolded ys] lf] joined_layout [OF L [unfolded ys]] joined_untouched [OF L [unfolded ys]]
    by (simp add: ys)
next
  case False
  then have j: "join_next n ys = (False, n) # ys" by (cases "(n, ys)" rule: join_next.cases) auto
  from next_used [OF L False] layout_at(2) [OF L] have "plug_next (heap_ptr m + span xs) (m, c) = (m, c)"
    by (simp add: plug_next_def)
  with L j show ?thesis by (simp add: untouched_def)
qed

lemma plug_prev_result:
  assumes L: "layout p m c (xs @ (False, n) # ys)" and lf: "lfree m = heap_ptr m + first_free (xs @ (False, n) # ys)"
  shows "\<exists>c'. plug_prev (heap_ptr m + span xs) (m, c) = (m, c') \<and> layout p m c' (join_prev xs ((False, n) # ys)) \<and>
    untouched m (xs @ (False, n) # ys) c c'"
proof (cases "xs \<noteq> [] \<and> \<not> fst (last xs)")
  case True
  then obtain ws k where xs: "xs = ws @ [(False, k)]" by (cases xs rule: rev_cases) auto
  have L': "layout p m c (ws @ (False, k) # (False, n) # ys)" using L by (simp add: xs)
  have L2: "layout p m c ((ws @ [(False, k)]) @ (False, n) # ys)" using L by (simp add: xs)
  have pv: "item_prev c (heap_ptr m + span xs) = span ws" using layout_at(3) [OF L] by (simp add: xs)
  have lf': "lfree m \<le> heap_ptr m + span ws" "lfree m \<noteq> heap_ptr m + span xs"
    using lf first_free_le [of ws] by (auto simp: xs first_free_append)
  have "plug_prev (heap_ptr m + span xs) (m, c) = plug_next (heap_ptr m + span ws) (m, c)"
    using layout_at(1,2,5) [OF L'] layout_at(1,5) [OF L2] pv lf'(2)
    by (simp add: plug_prev_def plug_next_def Let_def xs add_ac)
  then show ?thesis
    using plug_next_joins [OF L' lf'(1)] joined_layout [OF L'] joined_untouched [OF L'] by (simp add: xs join_prev_def)
next
  case False
  have "plug_prev (heap_ptr m + span xs) (m, c) = (m, c)"
  proof (cases xs rule: rev_cases)
    case Nil
    with layout_at(3) [OF L] show ?thesis by (simp add: plug_prev_def)
  next
    case (snoc ws b)
    with False have b: "b = (True, snd b)" by (cases b) auto
    have "mem_isused c (heap_ptr m + span ws)" using layout_at(1) [of p m c ws True "snd b"] L snoc b by (metis append_Cons append_Nil append_assoc)
    with layout_at(3) [OF L] show ?thesis by (simp add: plug_prev_def snoc)
  qed
  with L False show ?thesis by (auto simp: untouched_def join_prev_def)
qed


lemma join_prev_simps:
  "span (join_prev xs ((False, n) # ys)) = span xs + 24 + n + span ys"
  "used_bytes (join_prev xs ((False, n) # ys)) = used_bytes xs + used_bytes ys"
  "used_data h a (join_prev xs ((False, n) # ys)) = used_data h a xs \<union> used_data h (a + span xs + 24 + n) ys"
  "first_free (join_prev xs ((False, n) # ys)) = first_free (xs @ (False, n) # ys)"
  by (cases xs rule: rev_cases; auto simp: join_prev_def first_free_append add_ac)+

lemma free_blocks_simps:
  "used_bytes (free_blocks xs n ys) = used_bytes xs + used_bytes ys"
  "used_data h a (free_blocks xs n ys) = used_data h a (xs @ (False, n) # ys)"
  "first_free (free_blocks xs n ys) = first_free (xs @ (False, n) # ys)"
proof -
  obtain k zs where j: "join_next n ys = (False, k) # zs" using join_next_head by blast
  show "used_bytes (free_blocks xs n ys) = used_bytes xs + used_bytes ys"
    using join_next_simps(2) [of n ys] by (simp add: free_blocks_def j join_prev_simps)
  show "used_data h a (free_blocks xs n ys) = used_data h a (xs @ (False, n) # ys)"
    using join_next_simps(3) [of h "a + span xs" n ys] by (simp add: free_blocks_def j join_prev_simps add_ac)
  show "first_free (free_blocks xs n ys) = first_free (xs @ (False, n) # ys)"
    by (simp add: free_blocks_def j join_prev_simps first_free_append)
qed

lemma coalesced_simps [simp]:
  "coalesced []" "coalesced [b]" "coalesced (b # b' # bs) \<longleftrightarrow> (fst b \<or> fst b') \<and> coalesced (b' # bs)"
  by (simp_all add: coalesced_def)

lemma coalesced_append: "coalesced (xs @ ys) \<longleftrightarrow> coalesced xs \<and> coalesced ys \<and> (xs = [] \<or> ys = [] \<or> fst (last xs) \<or> fst (hd ys))"
  by (simp add: coalesced_def successively_append_iff)

lemma coalesced_resize: "coalesced ((u, n) # ys) \<longleftrightarrow> coalesced ((u, k) # ys)"
  by (cases ys) auto

lemma coalesced_free_blocks:
  assumes "coalesced xs" "coalesced ys"
  shows "coalesced (free_blocks xs n ys)"
proof -
  obtain k zs where j: "join_next n ys = (False, k) # zs" using join_next_head by blast
  have z: "coalesced ((False, l) # zs)" for l
    using assms(2) j coalesced_resize by (cases "(n, ys)" rule: join_next.cases) auto
  show ?thesis
  proof (cases xs rule: rev_cases)
    case Nil
    with z show ?thesis by (simp add: free_blocks_def j join_prev_def)
  next
    case (snoc ws b)
    with assms(1) z show ?thesis by (auto simp: free_blocks_def j join_prev_def coalesced_append)
  qed
qed

lemma untouched_trans:
  "untouched m bs c c' \<Longrightarrow> untouched m' bs' c' c'' \<Longrightarrow> used_data (heap_ptr m) 0 bs \<subseteq> used_data (heap_ptr m) 0 bs' \<Longrightarrow>
   heap_ptr m' = heap_ptr m \<Longrightarrow> heap_end m' = heap_end m \<Longrightarrow> untouched m bs c c''"
  unfolding untouched_def by (metis subsetD)

lemma plug_holes_result:
  assumes L: "layout p m c (xs @ (False, n) # ys)" and lf: "lfree m = heap_ptr m + first_free (xs @ (False, n) # ys)"
  shows "\<exists>c'. plug_holes (heap_ptr m + span xs) (m, c) = Some (m, c') \<and> layout p m c' (free_blocks xs n ys) \<and>
    untouched m (xs @ (False, n) # ys) c c'"
proof -
  have "lfree m \<le> heap_ptr m + span xs" using lf first_free_le [of xs] by (simp add: first_free_append)
  then obtain c1 where c1: "plug_next (heap_ptr m + span xs) (m, c) = (m, c1)" "layout p m c1 (xs @ join_next n ys)"
      "untouched m (xs @ (False, n) # ys) c c1"
    using plug_next_result [OF L] by blast
  obtain k zs where j: "join_next n ys = (False, k) # zs" using join_next_head by blast
  have lf1: "lfree m = heap_ptr m + first_free (xs @ (False, k) # zs)" using lf by (simp add: first_free_append)
  obtain c2 where c2: "plug_prev (heap_ptr m + span xs) (m, c1) = (m, c2)" "layout p m c2 (join_prev xs ((False, k) # zs))"
      "untouched m (xs @ (False, k) # zs) c1 c2"
    using plug_prev_result [OF c1(2) [unfolded j] lf1] by blast
  have "used_data (heap_ptr m) 0 (xs @ (False, n) # ys) \<subseteq> used_data (heap_ptr m) 0 (xs @ (False, k) # zs)"
    using join_next_simps(3) [of "heap_ptr m" "span xs" n ys] by (simp add: j)
  then have "untouched m (xs @ (False, n) # ys) c c2"
    using untouched_trans [OF c1(3) c2(3)] by simp
  moreover have "heap_ptr m + span xs < heap_end m" using layout_at(5) [OF L] by simp
  ultimately show ?thesis using c1(1) c2(1,2) by (simp add: plug_holes_def free_blocks_def j)
qed

lemma layout_same_heap: "layout p m c bs \<Longrightarrow> same_heap m m' \<Longrightarrow> layout p m' c bs"
  unfolding layout_def same_heap_def by (elim conjE, intro conjI) (simp_all only:)

lemma layout_set_flag:
  assumes L: "layout p m c (xs @ (u, n) # ys)" and n: "v \<longrightarrow> 0 < n"
  shows "layout p m (c(heap_ptr m + span xs := (if v then mem_used p else mem_freed p))) (xs @ (v, n) # ys)"
proof -
  have "chain p (heap_ptr m) c 0 0 (xs @ (u, n) # ys)" using L by (simp add: layout_def)
  from chain_set_flag [OF this, of v] show ?thesis using L n layout_at(5) [OF L] by (auto simp: layout_def)
qed

lemma smem_lower_eq: "smem_lower a m = m\<lparr>lfree := min a (lfree m)\<rparr>"
  by (cases m) (simp add: smem_lower_def)

subsection \<open>Release\<close>

lemma free_result:
  assumes ok: "smem_ok p m (cells s) (xs @ (True, n) # ys)" and pool: "pools s p = Some m"
  shows "\<exists>m' c'. rt_smem_free (heap_ptr m + span xs + 24) s = Some \<lparr>cells = c', pools = (pools s)(p \<mapsto> m')\<rparr> \<and>
    smem_ok p m' c' (free_blocks xs n ys) \<and> same_heap m m' \<and> untouched m (xs @ (False, n) # ys) (cells s) c'"
proof -
  let ?h = "heap_ptr m" and ?c = "cells s" and ?mem = "heap_ptr m + span xs" and ?bs = "xs @ (True, n) # ys"
  have L: "layout p m ?c ?bs" and co: "coalesced ?bs" and lf: "lfree m = ?h + first_free ?bs"
    and us: "sm_used m = used_bytes ?bs" "sm_used m \<le> sm_max m" and ty: "sm_type m = 12 OR 128"
    using ok by (simp_all add: smem_ok_def)
  note at = layout_at [OF L]
  define c1 where "c1 = ?c(?mem := mem_freed p)"
  define m1 where "m1 = m\<lparr>lfree := ?h + first_free (xs @ (False, n) # ys), sm_used := used_bytes (xs @ ys)\<rparr>"
  have L1: "layout p m1 c1 (xs @ (False, n) # ys)"
    using layout_same_heap [OF layout_set_flag [OF L, of False]] by (simp add: c1_def m1_def same_heap_def)
  obtain c' where c': "plug_holes ?mem (m1, c1) = Some (m1, c')" "layout p m1 c' (free_blocks xs n ys)"
      "untouched m1 (xs @ (False, n) # ys) c1 c'"
    using plug_holes_result [OF L1] by (auto simp: m1_def)
  have lfm: "smem_lower ?mem m = m\<lparr>lfree := ?h + first_free (xs @ (False, n) # ys)\<rparr>"
    using lf first_free_le [of xs] by (auto simp: smem_lower_eq first_free_append)
  have ub: "sub64 (used_bytes ?bs) (24 + n) = used_bytes (xs @ ys)"
    using used_bytes_le [of ?bs] at(5,6) L by (subst sub64_small) (simp_all add: layout_def)
  have nx: "item_next c1 ?mem = span xs + 24 + n" "sub64 (span xs + 24 + n) (sub64 ?mem ?h) = 24 + n"
    using at(2,5,6) by (simp_all add: c1_def item_next_def)
  have pn: "mem_pool ?c (?h + (span xs + 24 + n)) = p"
  proof (cases ys)
    case Nil
    with layout_end(2) [OF L] at(5) show ?thesis by simp
  next
    case (Cons b zs)
    with layout_at(4) [of p m ?c "xs @ [(True, n)]" "fst b" "snd b" zs] L show ?thesis by (simp add: add_ac)
  qed
  have p0: "p \<noteq> 0" "(?mem + 24) mod 8 = 0" "?h \<le> ?mem + 24" "?mem + 24 < heap_end m" "sub64 (?mem + 24) 24 = ?mem"
    using L at(5,6,8,9) by (auto simp: layout_def)
  have val: "smem_valid p s = Some m"
    using pool ty by (simp add: smem_valid_def rt_object_get_type_def rt_object_is_systemobject_def)
  have "rt_smem_free (?mem + 24) s = Some \<lparr>cells = c', pools = (pools s)(p \<mapsto> m1)\<rparr>"
    unfolding rt_smem_free_def Let_def p0(5) at(4)
    using p0 at(1,2) val pn c'(1) nx ub lfm us(1) by (simp add: c1_def [symmetric] m1_def)
  moreover have "untouched m (xs @ (False, n) # ys) ?c c'"
  proof (rule untouched_trans [OF _ c'(3)])
    show "untouched m (xs @ (False, n) # ys) ?c c1"
      using used_data_range [of ?mem ?h 0 xs] used_data_range [of ?mem ?h "span xs + 24 + n" ys] at(5)
      by (auto simp: untouched_def c1_def add_ac)
  qed (simp_all add: m1_def)
  moreover have "smem_ok p m1 c' (free_blocks xs n ys)"
    using c'(2) co us ty coalesced_free_blocks [of xs ys n] unfolding smem_ok_def
    by (auto simp: free_blocks_simps m1_def coalesced_append dest: coalesced_append [THEN iffD1, of "[(True, n)]" ys, simplified])
  ultimately show ?thesis by (auto simp: same_heap_def m1_def)
qed


subsection \<open>Allocation\<close>

lemma unat_and_not7: "unat (w AND NOT 7) = unat w div 8 * 8" for w :: u64
proof -
  have m: "(mask 3 :: u64) = 7" by (simp add: mask_eq_exp_minus_1)
  have "bit (mask 3 :: u64) i \<longleftrightarrow> i < 3" for i unfolding bit_mask_iff by auto
  then have b7: "bit (7 :: u64) i \<longleftrightarrow> i < 3" for i unfolding m .
  have "w AND NOT 7 = push_bit 3 (drop_bit 3 w)"
    by (rule bit_word_eqI) (simp only: bit_and_iff bit_not_iff b7 bit_push_bit_iff bit_drop_bit_eq o_def, auto)
  moreover have "unat w < 2 ^ 64" using unsigned_less [of w] by simp
  then have "unat w div 8 * 8 < 2 ^ 64" by linarith
  ultimately show ?thesis
    by (simp add: push_bit_eq_mult drop_bit_eq_div unat_word_ariths unat_div)
qed

lemma unat_rt_align: "unat (rt_align w) = (unat w + 7) mod 2 ^ 64 div 8 * 8"
  unfolding rt_align_def unat_and_not7 by (simp add: unat_word_ariths)


lemma rt_align_facts:
  "unat (rt_align w) mod 8 = 0"
  "unat w + 7 < 2 ^ 64 \<Longrightarrow> unat w \<le> unat (rt_align w) \<and> unat (rt_align w) < unat w + 8"
  by (auto simp: unat_rt_align)

lemma free_or_end:
  assumes L: "layout p m c bs"
  shows "heap_ptr m + first_free bs = heap_end m \<or> \<not> mem_isused c (heap_ptr m + first_free bs)"
proof (cases "dropWhile fst bs")
  case Nil
  then have t: "takeWhile fst bs = bs" by (metis append_Nil2 takeWhile_dropWhile_id)
  from L have "heap_end m = heap_ptr m + span bs" by (simp add: layout_def)
  then show ?thesis unfolding first_free_def t by simp
next
  case (Cons b zs)
  then have "bs = takeWhile fst bs @ (False, snd b) # zs"
    using hd_dropWhile [of fst bs] by (cases b) (metis takeWhile_dropWhile_id list.sel(1) list.distinct(1) fst_conv snd_conv)
  with L layout_at(1) [of p m c "takeWhile fst bs" False "snd b" zs] show ?thesis by (simp add: first_free_def)
qed

text \<open>The cells after an allocation, before the search for the next free block.\<close>

lemma split_layout:
  assumes L: "layout p m c (xs @ (u, n) # ys)" and n: "n = sz + 24 + k" "8 dvd sz" "8 dvd k" "u \<longrightarrow> 0 < sz"
  shows "layout p m (smem_split p (span xs) (span xs + 24 + sz) m c) (xs @ (u, sz) # (False, k) # ys)"
proof -
  have "smem_split p (span xs) (span xs + 24 + sz) m c (heap_end m) = c (heap_end m)"
    by (rule split_frame [OF L n(1)]) (use layout_at(5) [OF L] in \<open>cases ys; auto\<close>)
  then show ?thesis using L split_chain [OF L n(1)] n by (auto simp: layout_def)
qed

lemma take_layout:
  assumes L: "layout p m c (xs @ (False, n) # ys)" and sz: "sz \<le> n" "0 < sz" "8 dvd sz"
  defines "c' \<equiv> (if sz + 48 \<le> n then smem_split p (span xs) (span xs + 24 + sz) m c else c)(heap_ptr m + span xs := mem_used p)"
  shows "layout p m c' (xs @ take_block sz n @ ys)" "untouched m (xs @ (False, n) # ys) c c'"
proof -
  let ?h = "heap_ptr m" and ?s = "smem_split p (span xs) (span xs + 24 + sz) m c"
  note at = layout_at [OF L]
  have "layout p m c' (xs @ take_block sz n @ ys) \<and> (\<forall>x. x < ?h + span xs \<or> ?h + span xs + 48 + n \<le> x \<longrightarrow> c' x = c x)"
  proof (cases "sz + 48 \<le> n")
    case True
    define k where "k = n - sz - 24"
    have n: "n = sz + 24 + k" "8 dvd k" using True at(7) sz(3) by (simp_all add: k_def dvd_diff_nat)
    have "layout p m ?s (xs @ (False, sz) # (False, k) # ys)" by (rule split_layout [OF L n(1) sz(3) n(2)]) simp
    from layout_set_flag [OF this, of True] sz(2) split_frame [OF L n(1)] show ?thesis
      using True by (auto simp: c'_def take_block_def k_def)
  next
    case False
    with layout_set_flag [OF L, of True] sz show ?thesis by (auto simp: c'_def take_block_def)
  qed
  then show "layout p m c' (xs @ take_block sz n @ ys)" and
    fr: "untouched m (xs @ (False, n) # ys) c c'"
    using used_data_range [of _ ?h 0 xs] used_data_range [of _ ?h "span xs + 24 + n" ys] at(5)
    by (auto simp: untouched_def add_ac)
qed

lemma take_block_simps:
  assumes "sz \<le> n"
  shows "span (take_block sz n) = 24 + n" "used_bytes (take_block sz n) = (if sz + 48 \<le> n then 24 + sz else 24 + n)"
    "take_block sz n \<noteq> []" "fst (hd (take_block sz n))" "coalesced (take_block sz n)"
  using assms by (auto simp: take_block_def)

lemma coalesced_take:
  assumes "coalesced (xs @ (False, n) # ys)"
  shows "coalesced (xs @ take_block sz n @ ys)"
proof -
  have "coalesced xs" "coalesced ((False, n) # ys)" "xs = [] \<or> fst (last xs)" using assms by (auto simp: coalesced_append)
  moreover from this(2) have "ys = [] \<or> fst (hd ys)" "coalesced ys" by (cases ys; auto)+
  ultimately show ?thesis by (auto simp: coalesced_append take_block_def)
qed

lemma smem_count_simps [simp]:
  "sm_used m + n < 2 ^ 64 \<Longrightarrow> sm_used (smem_count n m) = sm_used m + n"
  "sm_used (smem_count n m) \<le> sm_max (smem_count n m)" "lfree (smem_count n m) = lfree m" "same_heap m (smem_count n m)"
  "heap_ptr (smem_count n m) = heap_ptr m" "heap_end (smem_count n m) = heap_end m" "sm_type (smem_count n m) = sm_type m"
  "mem_size_aligned (smem_count n m) = mem_size_aligned m" "sm_address (smem_count n m) = sm_address m" "sm_total (smem_count n m) = sm_total m"
  by (auto simp: smem_count_def Let_def same_heap_def)

lemma smem_take_result:
  assumes ok: "smem_ok p m c (xs @ (False, n) # ys)" and sz: "sz \<le> n" "0 < sz" "8 dvd sz"
  shows "\<exists>m' c'. smem_take p sz (span xs) (m, c) = Some (heap_ptr m + span xs + 24, m', c') \<and>
    smem_ok p m' c' (xs @ take_block sz n @ ys) \<and> same_heap m m' \<and> untouched m (xs @ (False, n) # ys) c c'"
proof -
  let ?h = "heap_ptr m" and ?bs = "xs @ (False, n) # ys" and ?bs' = "xs @ take_block sz n @ ys"
  have L: "layout p m c ?bs" and co: "coalesced ?bs" and lf: "lfree m = ?h + first_free ?bs"
    and us: "sm_used m = used_bytes ?bs" and ty: "sm_type m = 12 OR 128"
    using ok by (simp_all add: smem_ok_def)
  note at = layout_at [OF L]
  define N where "N = (if sz + 48 \<le> n then sz + 24 else 24 + n)"
  define c' where "c' = (if sz + 48 \<le> n then smem_split p (span xs) (span xs + 24 + sz) m c else c)(?h + span xs := mem_used p)"
  have L': "layout p m c' ?bs'" "untouched m ?bs c c'"
    using take_layout [OF L sz] by (simp_all add: c'_def)
  have N: "used_bytes ?bs + N = used_bytes ?bs'" "used_bytes ?bs' < 2 ^ 64"
    using take_block_simps(1,2) [OF sz(1)] used_bytes_le [of ?bs'] at(5,6) by (auto simp: N_def)
  define m1 where "m1 = smem_count N m"
  have lay1: "layout p m1 c' ?bs'" by (rule layout_same_heap [OF L'(1)]) (simp add: m1_def)
  have tb: "take_block sz n @ ys \<noteq> []" "\<not> (\<forall>b\<in>set xs. fst b) \<Longrightarrow> first_free xs + 24 \<le> span xs"
    using take_block_simps(3) [OF sz(1)] first_free_lt [of xs] by auto
  define m' where "m' = m1\<lparr>lfree := ?h + first_free ?bs'\<rparr>"
  have adv: "smem_next_free (?h + span xs) c' m1 = Some m'"
  proof (cases "\<forall>b\<in>set xs. fst b")
    case True
    then show ?thesis using lf advance_free [OF lay1] free_or_end [OF lay1]
      by (simp add: smem_next_free_def m1_def m'_def first_free_append add_ac)
  next
    case False
    then have "first_free ?bs = first_free xs" "first_free ?bs' = first_free xs"
      by (simp_all only: first_free_append [of xs] if_False)
    with False lf tb(2) show ?thesis by (simp add: smem_next_free_def m1_def m'_def)
  qed
  have sub: "sub64 (item_next c (?h + span xs)) (add64 (span xs) 24) = n"
    "sub64 (item_next c (?h + span xs)) (sub64 (?h + span xs) ?h) = 24 + n"
    using at(2,5,6) by simp_all
  have eq: "(if sz + 24 + 24 \<le> n then (smem_count (sz + 24) m, smem_split p (span xs) (span xs + 24 + sz) m c)
      else (smem_count (24 + n) m, c)) = (m1, if sz + 48 \<le> n then smem_split p (span xs) (span xs + 24 + sz) m c else c)"
    by (simp add: m1_def N_def)
  have al: "(?h + span xs + 24) mod 8 = 0" "?h + span xs + 24 + sz \<le> heap_end m'"
    using at(5,9) sz(1) by (presburger, simp add: m'_def m1_def)
  have "smem_take p sz (span xs) (m, c) = Some (?h + span xs + 24, m', c')"
    unfolding smem_take_def prod.case Let_def sub eq c'_def [symmetric] adv by (simp add: al at(9))
  moreover have "smem_ok p m' c' ?bs'"
    unfolding smem_ok_def
  proof (intro conjI)
    show "layout p m' c' ?bs'" by (rule layout_same_heap [OF lay1]) (simp add: m'_def same_heap_def)
    show "coalesced ?bs'" by (rule coalesced_take [OF co])
    show "lfree m' = heap_ptr m' + first_free ?bs'" "sm_type m' = 12 OR 128" using ty by (simp_all add: m'_def m1_def)
    show "sm_used m' = used_bytes ?bs'" using us N by (simp add: m'_def m1_def)
    show "sm_used m' \<le> sm_max m'" using smem_count_simps(2) [of N m] unfolding m'_def m1_def by simp
  qed
  ultimately show ?thesis using L'(2) by (auto simp: m'_def m1_def same_heap_def)
qed


lemma valid_pool: "pools s p = Some m \<Longrightarrow> smem_ok p m c bs \<Longrightarrow> smem_valid p s = Some m"
  by (simp add: smem_valid_def smem_ok_def rt_object_get_type_def rt_object_is_systemobject_def)

lemma block_le: "(u, n) \<in> set bs \<Longrightarrow> 24 + n \<le> span bs"
  by (induction bs) auto

text \<open>The size of a block for a request.\<close>

definition block_size :: "u64 \<Rightarrow> nat" where
  "block_size sz = max 24 (unat (rt_align sz))"

lemma block_size_facts: "24 \<le> block_size sz" "8 dvd block_size sz" "unat sz + 7 < 2 ^ 64 \<Longrightarrow> unat sz \<le> block_size sz"
  using rt_align_facts [of sz] by (auto simp: block_size_def max_def)

lemma alloc_result:
  assumes pool: "pools s p = Some m" and ok: "smem_ok p m (cells s) bs" and sz: "sz \<noteq> 0"
  shows "case first_fit (block_size sz) 0 bs of
      None \<Rightarrow> rt_smem_alloc p sz s = Some (None, s)
    | Some a \<Rightarrow> \<exists>m' c'. rt_smem_alloc p sz s = Some (Some (heap_ptr m + a + 24), \<lparr>cells = c', pools = (pools s)(p \<mapsto> m')\<rparr>) \<and>
        smem_ok p m' c' (alloc_blocks (block_size sz) bs) \<and> same_heap m m' \<and> untouched m bs (cells s) c'"
proof -
  let ?N = "block_size sz" and ?ws = "takeWhile fst bs"
  have L: "layout p m (cells s) bs" and lf: "lfree m = heap_ptr m + span ?ws" using ok by (simp_all add: smem_ok_def first_free_def)
  have e: "heap_end m = heap_ptr m + span bs" "span bs = mem_size_aligned m + 24" "heap_end m + 24 < 2 ^ 64"
    using L by (simp_all add: layout_def)
  have N: "(if unat (rt_align sz) < 24 then 24 else unat (rt_align sz)) = ?N" by (simp add: block_size_def max_def)
  have off: "sub64 (lfree m) (heap_ptr m) = span ?ws"
    using lf e first_free_le [of bs] by (simp add: first_free_def)
  have skip: "first_fit ?N 0 bs = first_fit ?N (span ?ws) (dropWhile fst bs)"
    using first_fit_skip [of ?ws ?N 0 "dropWhile fst bs"] by (auto dest: set_takeWhileD)
  show ?thesis
  proof (cases "mem_size_aligned m < ?N")
    case True
    have "first_fit ?N 0 bs = None"
      unfolding first_fit_none using block_le [of _ _ bs] e(2) True by fastforce
    with True show ?thesis
      unfolding rt_smem_alloc_def using sz valid_pool [OF pool ok] by (simp add: N Let_def)
  next
    case False
    have "smem_find ?N m (cells s) (span ?ws) = Some (first_fit ?N 0 bs)"
      unfolding skip by (rule find_fit) (use L False in simp_all)
    then have run: "rt_smem_alloc p sz s = (case first_fit ?N 0 bs of None \<Rightarrow> Some (None, s)
        | Some ptr \<Rightarrow> do { (r, m, c) \<leftarrow> smem_take p ?N ptr (m, cells s);
                           Some (Some r, \<lparr>cells = c, pools = (pools s)(p \<mapsto> m)\<rparr>) })"
      unfolding rt_smem_alloc_def using sz valid_pool [OF pool ok] False by (simp add: N Let_def off)
    show ?thesis
    proof (cases "first_fit ?N 0 bs")
      case None
      with run show ?thesis by simp
    next
      case (Some a)
      then obtain xs n ys where bs: "bs = xs @ (False, n) # ys" "a = span xs" "?N \<le> n" "alloc_blocks ?N bs = xs @ take_block ?N n @ ys"
        using first_fit_split by fastforce
      obtain m' c' where "smem_take p ?N (span xs) (m, cells s) = Some (heap_ptr m + span xs + 24, m', c')"
          "smem_ok p m' c' (xs @ take_block ?N n @ ys)" "same_heap m m'" "untouched m bs (cells s) c'"
        using smem_take_result [of p m "cells s" xs n ys ?N] ok bs(1,3) block_size_facts(1,2) [of sz] by auto
      with Some run bs show ?thesis by (simp, intro exI [of _ m'] conjI refl)
    qed
  qed
qed

lemma alloc_data:
  assumes "first_fit N 0 bs = Some a"
  shows "\<exists>k\<ge>N. used_data h 0 (alloc_blocks N bs) = used_data h 0 bs \<union> {h + a + 24..<h + a + 24 + k} \<and>
    used_data h 0 bs \<inter> {h + a + 24..<h + a + 24 + k} = {} \<and> a + 24 + k \<le> span bs"
proof -
  obtain xs n ys where bs: "bs = xs @ (False, n) # ys" "a = span xs" "N \<le> n" "alloc_blocks N bs = xs @ take_block N n @ ys"
    using first_fit_split [OF assms] by auto
  define k where "k = (if N + 48 \<le> n then N else n)"
  have k: "N \<le> k" "k \<le> n" using bs(3) by (auto simp: k_def)
  have "used_data h 0 (alloc_blocks N bs) = used_data h 0 bs \<union> {h + a + 24..<h + a + 24 + k}"
    unfolding bs(4) unfolding bs(1,2) by (auto simp: take_block_def k_def add_ac)
  moreover have "x < h + a \<or> h + a + 48 + n \<le> x" if "x \<in> used_data h 0 bs" for x
    using that used_data_range [of x h 0 xs] used_data_range [of x h "span xs + 24 + n" ys] by (auto simp: bs(1,2) add_ac)
  then have "used_data h 0 bs \<inter> {h + a + 24..<h + a + 24 + k} = {}" using k by fastforce
  ultimately show ?thesis using k bs(1,2) by (intro exI [of _ k]) auto
qed

text \<open>Writing to the data of used blocks does not harm the heap.\<close>

lemma chain_data:
  assumes "chain p h c pv a bs" "\<And>x. h + a \<le> x \<Longrightarrow> x < h + a + span bs \<Longrightarrow> x \<notin> used_data h a bs \<Longrightarrow> c' x = c x"
  shows "chain p h c' pv a bs"
  using assms
proof (induction bs arbitrary: pv a)
  case (Cons b bs)
  obtain u n where b: "b = (u, n)" by (cases b)
  have out: "x \<notin> used_data h a (b # bs)" if "x < h + a + 24" for x
    using that used_data_range [of x h a "b # bs"] by auto
  have "c' (h + a) = c (h + a)" "c' (h + a + 8) = c (h + a + 8)" "c' (h + a + 16) = c (h + a + 16)"
    by (rule Cons.prems(2); (rule out)?; simp)+
  moreover have "chain p h c' a (a + 24 + n) bs"
  proof (rule Cons.IH)
    show "chain p h c a (a + 24 + n) bs" using Cons.prems(1) by (simp add: b)
    show "c' x = c x" if "h + (a + 24 + n) \<le> x" "x < h + (a + 24 + n) + span bs" "x \<notin> used_data h (a + 24 + n) bs" for x
      by (rule Cons.prems(2)) (use that in \<open>auto simp: b\<close>)
  qed
  ultimately show ?case using Cons.prems(1) by (simp add: b)
qed simp

lemma smem_ok_data:
  assumes ok: "smem_ok p m c bs" and "\<And>x. x \<notin> used_data (heap_ptr m) 0 bs \<Longrightarrow> c' x = c x"
  shows "smem_ok p m c' bs"
proof -
  have "chain p (heap_ptr m) c' 0 0 bs"
    by (rule chain_data [where c = c]) (use assms in \<open>auto simp: smem_ok_def layout_def\<close>)
  moreover have "c' (heap_end m) = c (heap_end m)"
    by (rule assms(2)) (use ok used_data_range [of "heap_end m" "heap_ptr m" 0 bs] in \<open>auto simp: smem_ok_def layout_def\<close>)
  ultimately show ?thesis using ok unfolding smem_ok_def layout_def by auto
qed

end
