(* ===== verification/RT_SMemOps.thy ===== *)
theory RT_SMemOps
  imports RT_SMemInv
begin

text \<open>
  Initialising a small-memory heap, resizing a block, and an allocation followed by its release.
\<close>

subsection \<open>Initialisation\<close>

lemma init_result:
  assumes b: "0 < unat b" "unat b + 128 < 2 ^ 64" "unat b + unat sz < 2 ^ 64" and fresh: "pools s (unat (rt_align b)) = None"
  defines "p \<equiv> unat (rt_align b)" and "e \<equiv> (unat b + unat sz) div 8 * 8"
  shows "if p + 160 \<le> e
    then \<exists>m c. rt_smem_init b sz s = Some (Some p, \<lparr>cells = c, pools = (pools s)(p \<mapsto> m)\<rparr>) \<and>
      smem_ok p m c [(False, e - p - 160)] \<and> heap_end m + 24 = e \<and> heap_ptr m = p + 112 \<and>
      (\<forall>x. x < p + 112 \<or> e \<le> x \<longrightarrow> c x = cells s x)
    else rt_smem_init b sz s = Some (None, s)"
proof -
  have p: "unat b \<le> p" "p < unat b + 8" "p mod 8 = 0" using rt_align_facts [of b] b by (auto simp: p_def)
  have st: "add64 p 112 = p + 112" using p b by simp
  have ba: "unat (rt_align (of_nat (p + 112))) = p + 112"
  proof -
    obtain q where q: "p = 8 * q" using p(3) by (metis mod_0_imp_dvd dvdE)
    have "(p + 112 + 7) mod 2 ^ 64 = 8 * (q + 14) + 7" using p b by (simp add: q)
    moreover have "unat (of_nat (p + 112) :: u64) = p + 112" by (rule unat_of_nat64) (use p b in linarith)
    ultimately show ?thesis unfolding unat_rt_align by (simp add: q)
  qed
  have en: "unat ((b + sz) AND NOT 7) = e" unfolding unat_and_not7 using b by (simp add: e_def unat_word_ariths)
  have e: "e \<le> unat b + unat sz" "e mod 8 = 0" by (simp_all add: e_def)
  show ?thesis
  proof (cases "p + 160 \<le> e")
    case True
    define k where "k = e - p - 160"
    have k: "e = p + 160 + k" "8 dvd k" "sub64 (sub64 e (p + 112)) (2 * 24) = k" "add64 k 24 = k + 24" "2 * 24 < e \<and> p + 112 \<le> e - 2 * 24"
      using True e b p(3) by (simp_all add: k_def) presburger
    have un: "unat (of_nat (k + 24) :: u64) = k + 24" using k(1) e b by (subst unat_of_nat64) linarith+
    define h where "h = p + 112"
    define c where "c = (cells s)(h := mem_freed p, h + 8 := of_nat (k + 24), h + 16 := 0, h + (k + 24) := mem_used p,
        h + (k + 24) + 8 := of_nat (k + 24), h + (k + 24) + 16 := of_nat (k + 24))"
    define m where "m = \<lparr>sm_type = 12 OR 128, sm_address = h, sm_total = k, sm_used = 0, sm_max = 0, heap_ptr = h,
        heap_end = h + (k + 24), lfree = h, mem_size_aligned = k\<rparr>"
    have "rt_smem_init b sz s = Some (Some p, \<lparr>cells = c, pools = (pools s)(p \<mapsto> m)\<rparr>)"
      unfolding rt_smem_init_def p_def [symmetric] Let_def st ba en k(3,4) item_next_def set_item_next_def set_item_prev_def
      unfolding if_P [OF k(5)] c_def m_def h_def using fresh un by (simp add: p_def [symmetric] del: of_nat_add)
    moreover have "smem_ok p m c [(False, k)]"
      using k(1,2) e b p unfolding smem_ok_def layout_def
      by (auto simp: m_def c_def h_def add_ac coalesced_def used_bytes_def mod_0_imp_dvd intro!: dvd_add)
    moreover have "heap_end m + 24 = e" "heap_ptr m = p + 112" "\<forall>x. x < p + 112 \<or> e \<le> x \<longrightarrow> c x = cells s x"
      by (simp_all add: m_def h_def k(1) c_def)
    ultimately show ?thesis unfolding if_P [OF True] k_def [symmetric] by blast
  next
    case False
    then have "\<not> (48 < e \<and> p + 112 \<le> e - 48)" by auto
    then show ?thesis
      unfolding rt_smem_init_def p_def [symmetric] Let_def st ba en using False by simp
  qed
qed

subsection \<open>Resizing\<close>

lemma span_alloc [simp]: "span (alloc_blocks N bs) = span bs"
  by (induction N bs rule: alloc_blocks.induct) (auto simp: take_block_def)

lemma alloc_blocks_used:
  "\<exists>xs' ys'. alloc_blocks N (xs @ (True, n) # ys) = xs' @ (True, n) # ys' \<and> span xs' = span xs"
proof (induction xs)
  case Nil
  show ?case by (intro exI [of _ "[]"] exI [of _ "alloc_blocks N ys"]) simp
next
  case (Cons b xs)
  obtain u k where b: "b = (u, k)" by (cases b)
  show ?case
  proof (cases "\<not> u \<and> N \<le> k")
    case True
    then have "alloc_blocks N ((b # xs) @ (True, n) # ys) = (take_block N k @ xs) @ (True, n) # ys" by (simp add: b)
    then show ?thesis using True take_block_simps(1) by (intro exI conjI) (assumption, simp add: b)
  next
    case False
    from Cons.IH obtain xs' ys' where "alloc_blocks N (xs @ (True, n) # ys) = xs' @ (True, n) # ys'" "span xs' = span xs" by blast
    with False show ?thesis by (intro exI [of _ "b # xs'"] exI [of _ ys']) (auto simp: b)
  qed
qed

lemma used_data_cut:
  "used_data h 0 (xs @ (True, n) # ys) = used_data h 0 (xs @ (False, n) # ys) \<union> {h + span xs + 24..<h + span xs + 24 + n}"
  "used_data h 0 (xs @ (False, n) # ys) \<inter> {h + span xs + 24..<h + span xs + 24 + n} = {}"
proof -
  show "used_data h 0 (xs @ (True, n) # ys) = used_data h 0 (xs @ (False, n) # ys) \<union> {h + span xs + 24..<h + span xs + 24 + n}"
    by auto
  have "x < h + span xs \<or> h + span xs + 48 + n \<le> x" if "x \<in> used_data h 0 (xs @ (False, n) # ys)" for x
    using that used_data_range [of x h 0 xs] used_data_range [of x h "span xs + 24 + n" ys] by (auto simp: add_ac)
  then show "used_data h 0 (xs @ (False, n) # ys) \<inter> {h + span xs + 24..<h + span xs + 24 + n} = {}" by fastforce
qed

text \<open>The result of a resize: the block lists agree elsewhere, and the contents move to the new block.\<close>

definition resized :: "nat \<Rightarrow> rt_small_mem \<Rightarrow> smem_state \<Rightarrow> nat set \<Rightarrow> nat \<Rightarrow> nat \<Rightarrow> nat \<Rightarrow> nat option \<Rightarrow> smem_state \<Rightarrow> bool" where
  "resized p m s D rmem n N r s' \<longleftrightarrow>
     (case r of None \<Rightarrow> s' = s
      | Some y \<Rightarrow> \<exists>m' bs' k. N \<le> k \<and> pools s' = (pools s)(p \<mapsto> m') \<and> same_heap m m' \<and> smem_ok p m' (cells s') bs' \<and>
          used_data (heap_ptr m) 0 bs' = D \<union> {y..<y + k} \<and> D \<inter> {y..<y + k} = {} \<and> (\<forall>x\<in>D. cells s' x = cells s x) \<and>
          (\<forall>i<min n N. cells s' (y + i) = cells s (rmem + i)))"

lemma realloc_in_place:
  assumes pool: "pools s p = Some m" and ok: "smem_ok p m (cells s) (xs @ (True, n) # ys)" and N: "unat (rt_align sz) = n"
  shows "rt_smem_realloc p (heap_ptr m + span xs + 24) sz s = Some (Some (heap_ptr m + span xs + 24), s)"
proof -
  have L: "layout p m (cells s) (xs @ (True, n) # ys)" using ok by (simp add: smem_ok_def)
  note at = layout_at [OF L]
  have "sub64 (heap_ptr m + span xs + 24) 24 = heap_ptr m + span xs" "sub64 (heap_ptr m + span xs) (heap_ptr m) = span xs"
    "sub64 (sub64 (span xs + 24 + n) (span xs)) 24 = n" "(heap_ptr m + span xs + 24) mod 8 = 0" "rt_align sz \<noteq> 0"
    using at(5,6,8,9) N by (auto simp: unat_eq_0)
  then show ?thesis
    unfolding rt_smem_realloc_def using valid_pool [OF pool ok] at(2,5,8,10) N by (simp add: Let_def)
qed


lemma shrink_heap:
  assumes ok: "smem_ok p m c (xs @ (True, n) # ys)" and n: "n = N + 24 + k" "8 dvd N" "0 < N"
  defines "m' \<equiv> m\<lparr>sm_used := used_bytes (xs @ (True, N) # ys), lfree := heap_ptr m + first_free (xs @ (True, N) # (False, k) # ys)\<rparr>"
  shows "\<exists>c'. plug_holes (heap_ptr m + (span xs + 24 + N)) (m', smem_split p (span xs) (span xs + 24 + N) m c) = Some (m', c') \<and>
    smem_ok p m' c' (free_blocks (xs @ [(True, N)]) k ys) \<and> (\<forall>x\<in>used_data (heap_ptr m) 0 (xs @ (True, N) # (False, k) # ys). c' x = c x)"
proof -
  let ?h = "heap_ptr m" and ?s = "smem_split p (span xs) (span xs + 24 + N) m c"
  have L: "layout p m c (xs @ (True, n) # ys)" and co: "coalesced (xs @ (True, n) # ys)"
    and us: "sm_used m = used_bytes (xs @ (True, n) # ys)" "sm_used m \<le> sm_max m" "sm_type m = 12 OR 128"
    using ok by (simp_all add: smem_ok_def)
  have "8 dvd k" using layout_at(7) [OF L] n(1,2) by presburger
  then have "layout p m ?s (xs @ (True, N) # (False, k) # ys)" using split_layout [OF L n(1,2)] n(3) by simp
  then have L1: "layout p m' ?s ((xs @ [(True, N)]) @ (False, k) # ys)"
    using layout_same_heap [of p m ?s _ m'] by (simp add: m'_def same_heap_def)
  obtain c' where c': "plug_holes (heap_ptr m' + span (xs @ [(True, N)])) (m', ?s) = Some (m', c')"
      "layout p m' c' (free_blocks (xs @ [(True, N)]) k ys)" "untouched m' ((xs @ [(True, N)]) @ (False, k) # ys) ?s c'"
    using plug_holes_result [OF L1] by (auto simp: m'_def)
  have "coalesced (free_blocks (xs @ [(True, N)]) k ys)"
    using co by (intro coalesced_free_blocks) (auto simp: coalesced_append dest: coalesced_append [THEN iffD1, of "[(True, n)]" ys, simplified])
  then have "smem_ok p m' c' (free_blocks (xs @ [(True, N)]) k ys)"
    using c'(2) us n(1) unfolding smem_ok_def by (auto simp: free_blocks_simps m'_def)
  moreover have "c' x = c x" if "x \<in> used_data ?h 0 (xs @ (True, N) # (False, k) # ys)" for x
  proof -
    have "x < ?h + span xs \<or> ?h + span xs + 24 \<le> x \<and> x < ?h + span xs + 24 + N \<or> ?h + span xs + 48 + n \<le> x"
      using that used_data_range [of x ?h 0 xs] used_data_range [of x ?h "span xs + 24 + n" ys] n(1) by (auto simp: add_ac)
    then have "?s x = c x" by (intro split_frame [OF L n(1)]) auto
    then show ?thesis using c'(3) that by (auto simp: untouched_def m'_def)
  qed
  ultimately show ?thesis using c'(1) by (auto simp: m'_def add_ac)
qed

lemma realloc_shrink:
  assumes pool: "pools s p = Some m" and ok: "smem_ok p m (cells s) (xs @ (True, n) # ys)"
    and N: "unat (rt_align sz) = N" "0 < N" "N + 48 < n"
  shows "\<exists>s'. rt_smem_realloc p (heap_ptr m + span xs + 24) sz s = Some (Some (heap_ptr m + span xs + 24), s') \<and>
    resized p m s (used_data (heap_ptr m) 0 (xs @ (False, n) # ys)) (heap_ptr m + span xs + 24) n N (Some (heap_ptr m + span xs + 24)) s'"
proof -
  let ?h = "heap_ptr m" and ?r = "heap_ptr m + span xs + 24"
  have L: "layout p m (cells s) (xs @ (True, n) # ys)" and us: "sm_used m = used_bytes (xs @ (True, n) # ys)"
    and lf: "lfree m = ?h + first_free (xs @ (True, n) # ys)" using ok by (simp_all add: smem_ok_def)
  note at = layout_at [OF L]
  define k where "k = n - N - 24"
  have n: "n = N + 24 + k" "8 dvd N" using N(3) rt_align_facts(1) [of sz] N(1) by (auto simp: k_def)
  define m' where "m' = m\<lparr>sm_used := used_bytes (xs @ (True, N) # ys), lfree := ?h + first_free (xs @ (True, N) # (False, k) # ys)\<rparr>"
  obtain c' where c': "plug_holes (?h + (span xs + 24 + N)) (m', smem_split p (span xs) (span xs + 24 + N) m (cells s)) = Some (m', c')"
      "smem_ok p m' c' (free_blocks (xs @ [(True, N)]) k ys)"
      "\<forall>x\<in>used_data ?h 0 (xs @ (True, N) # (False, k) # ys). c' x = cells s x"
    using shrink_heap [OF ok n N(2)] unfolding m'_def by blast
  have sub: "sub64 ?r 24 = ?h + span xs" "sub64 (?h + span xs) ?h = span xs" "sub64 (sub64 (span xs + 24 + n) (span xs)) 24 = n"
    "?r mod 8 = 0" "rt_align sz \<noteq> 0"
    using at(5,6,8,9) N by (auto simp: unat_eq_0)
  have ub: "sub64 (sm_used m) (n - N) = used_bytes (xs @ (True, N) # ys)"
    using used_bytes_le [of "xs @ (True, n) # ys"] at(5,6) us n(1) by simp
  have "min (?h + (span xs + 24 + N)) (lfree m) = ?h + first_free (xs @ (True, N) # (False, k) # ys)"
    using lf n(1) first_free_le [of xs] by (auto simp: first_free_append)
  then have lfm: "smem_lower (?h + (span xs + 24 + N)) (m\<lparr>sm_used := used_bytes (xs @ (True, N) # ys)\<rparr>) = m'"
    and hp: "heap_ptr m' = ?h" by (simp_all add: smem_lower_eq m'_def)
  have "rt_smem_realloc p ?r sz s = Some (Some ?r, \<lparr>cells = c', pools = (pools s)(p \<mapsto> m')\<rparr>)"
    unfolding rt_smem_realloc_def using valid_pool [OF pool ok] at(2,5,8,10) N sub c'(1) lfm
    by (simp add: Let_def ub hp)
  moreover have "resized p m s (used_data ?h 0 (xs @ (False, n) # ys)) ?r n N (Some ?r) \<lparr>cells = c', pools = (pools s)(p \<mapsto> m')\<rparr>"
    unfolding resized_def option.case
  proof (intro exI [of _ m'] exI [of _ "free_blocks (xs @ [(True, N)]) k ys"] exI [of _ N] conjI)
    show "used_data ?h 0 (xs @ (False, n) # ys) \<inter> {?r..<?r + N} = {}" using used_data_cut(2) [of ?h xs n ys] n(1) by fastforce
  qed (use c'(2,3) n(1) in \<open>auto simp: m'_def same_heap_def free_blocks_simps add_ac\<close>)
  ultimately show ?thesis by blast
qed


lemma align_again:
  assumes "unat (rt_align sz) + 7 < 2 ^ 64"
  shows "unat (rt_align (rt_align sz)) = unat (rt_align sz)"
  using rt_align_facts(1) [of sz] rt_align_facts [of "rt_align sz"] assms by presburger

lemma untouched_at: "untouched m bs c c' \<Longrightarrow> x \<in> used_data (heap_ptr m) 0 bs \<Longrightarrow> c' x = c x"
  by (simp add: untouched_def)

lemma cut_swap:
  assumes "U \<union> R = (D \<union> R) \<union> Y" "U \<inter> R = {}" "D \<inter> R = {}" "(D \<union> R) \<inter> Y = {}"
  shows "U = D \<union> Y"
  using assms by (metis Diff_cancel Int_Un_distrib Int_commute Un_Diff Un_Diff_Int Un_empty sup_assoc sup_bot.right_neutral sup_commute Diff_triv)

lemma moved_block:
  assumes pool: "pools s p = Some m" and ok: "smem_ok p m (cells s) (xs @ (True, n) # ys)"
    and fit: "first_fit M 0 (xs @ (True, n) # ys) = Some a" and N: "N \<le> M"
    and ok1: "smem_ok p m1 c1 (alloc_blocks M (xs @ (True, n) # ys))" and same: "same_heap m m1"
    and un: "untouched m (xs @ (True, n) # ys) (cells s) c1"
  defines "r \<equiv> heap_ptr m + span xs + 24" and "y \<equiv> heap_ptr m + a + 24"
  shows "\<exists>s'. rt_smem_free r \<lparr>cells = copy_cells y r (min n N) c1, pools = (pools s)(p \<mapsto> m1)\<rparr> = Some s' \<and>
    resized p m s (used_data (heap_ptr m) 0 (xs @ (False, n) # ys)) r n N (Some y) s'"
proof -
  let ?h = "heap_ptr m" and ?bs = "xs @ (True, n) # ys" and ?c2 = "copy_cells y r (min n N) c1"
  let ?D = "used_data (heap_ptr m) 0 (xs @ (False, n) # ys)"
  obtain k where k: "M \<le> k" "used_data ?h 0 (alloc_blocks M ?bs) = used_data ?h 0 ?bs \<union> {y..<y + k}"
      "used_data ?h 0 ?bs \<inter> {y..<y + k} = {}"
    using alloc_data [OF fit, of ?h] unfolding y_def by blast
  obtain xs' ys' where bs1: "alloc_blocks M ?bs = xs' @ (True, n) # ys'" "span xs' = span xs" using alloc_blocks_used by blast
  have hp: "heap_ptr m1 = ?h" using same by (simp add: same_heap_def)
  have ok2: "smem_ok p m1 ?c2 (xs' @ (True, n) # ys')"
    by (rule smem_ok_data [OF ok1 [unfolded bs1]]) (use k(1) k(2) [unfolded bs1] N in \<open>auto simp: copy_cells_def hp\<close>)
  obtain m' c' where free: "rt_smem_free (heap_ptr m1 + span xs' + 24) \<lparr>cells = ?c2, pools = (pools s)(p \<mapsto> m1)\<rparr> =
        Some \<lparr>cells = c', pools = (pools s)(p \<mapsto> m')\<rparr>"
      "smem_ok p m' c' (free_blocks xs' n ys')" "same_heap m1 m'" "untouched m1 (xs' @ (False, n) # ys') ?c2 c'"
    using free_result [of p m1 "\<lparr>cells = ?c2, pools = (pools s)(p \<mapsto> m1)\<rparr>" xs' n ys'] ok2 by auto
  have cut: "used_data ?h 0 ?bs = ?D \<union> {r..<r + n}" "?D \<inter> {r..<r + n} = {}"
    "used_data ?h 0 (xs' @ (True, n) # ys') = used_data ?h 0 (xs' @ (False, n) # ys') \<union> {r..<r + n}"
    "used_data ?h 0 (xs' @ (False, n) # ys') \<inter> {r..<r + n} = {}"
    using used_data_cut [of ?h xs n ys] used_data_cut [of ?h xs' n ys'] by (simp_all only: r_def bs1(2))
  have D: "used_data ?h 0 (xs' @ (False, n) # ys') = ?D \<union> {y..<y + k}"
    by (rule cut_swap [OF k(2) [unfolded bs1(1) cut(3) cut(1)] cut(4,2) k(3) [unfolded cut(1)]])
  have keep: "c' x = ?c2 x" if "x \<in> ?D \<union> {y..<y + k}" for x
    using that unfolding D [symmetric] by (rule untouched_at [OF free(4), unfolded hp])
  have old: "c1 x = cells s x" if "x \<in> ?D \<union> {r..<r + n}" for x
    using that unfolding cut(1) [symmetric] by (rule untouched_at [OF un])
  have "resized p m s ?D r n N (Some y) \<lparr>cells = c', pools = (pools s)(p \<mapsto> m')\<rparr>"
    unfolding resized_def option.case
  proof (intro exI [of _ m'] exI [of _ "free_blocks xs' n ys'"] exI [of _ k] conjI ballI allI impI)
    show "N \<le> k" using N k(1) by simp
    show "same_heap m m'" using same free(3) by (simp add: same_heap_def)
    show "used_data ?h 0 (free_blocks xs' n ys') = ?D \<union> {y..<y + k}" unfolding free_blocks_simps D ..
    show dis: "?D \<inter> {y..<y + k} = {}" using k(3) [unfolded cut(1)] by blast
    show "cells \<lparr>cells = c', pools = (pools s)(p \<mapsto> m')\<rparr> x = cells s x" if "x \<in> ?D" for x
    proof -
      have "\<not> (y \<le> x \<and> x < y + min n N)" using dis that N k(1) by auto
      then have "?c2 x = c1 x" unfolding copy_cells_def by (simp only: if_False)
      then show ?thesis unfolding smem_state.simps using keep [OF UnI1 [OF that]] old [OF UnI1 [OF that]] by (simp only:)
    qed
    show "cells \<lparr>cells = c', pools = (pools s)(p \<mapsto> m')\<rparr> (y + i) = cells s (r + i)" if "i < min n N" for i
    proof -
      have "y + i \<in> {y..<y + k}" "r + i \<in> {r..<r + n}" using that N k(1) by auto
      from keep [OF UnI2 [OF this(1)]] old [OF UnI2 [OF this(2)]] that show ?thesis by (simp add: copy_cells_def)
    qed
  qed (use free(2) in simp_all)
  then show ?thesis using free(1) by (auto simp: r_def hp bs1(2))
qed

lemma realloc_move:
  assumes pool: "pools s p = Some m" and ok: "smem_ok p m (cells s) (xs @ (True, n) # ys)"
    and N: "unat (rt_align sz) = N" "0 < N" "N \<le> mem_size_aligned m" "N \<noteq> n" "\<not> N + 48 < n"
  defines "r \<equiv> heap_ptr m + span xs + 24"
  shows "\<exists>y s'. rt_smem_realloc p r sz s = Some (y, s') \<and> resized p m s (used_data (heap_ptr m) 0 (xs @ (False, n) # ys)) r n N y s'"
proof -
  let ?h = "heap_ptr m" and ?bs = "xs @ (True, n) # ys" and ?M = "block_size (rt_align sz)"
  have L: "layout p m (cells s) ?bs" using ok by (simp add: smem_ok_def)
  note at = layout_at [OF L]
  have sub: "sub64 r 24 = ?h + span xs" "sub64 (?h + span xs) ?h = span xs" "sub64 (sub64 (span xs + 24 + n) (span xs)) 24 = n"
    "r mod 8 = 0" "rt_align sz \<noteq> 0" "r \<noteq> 0" "?h \<le> r" "r < heap_end m"
    using at(5,6,8,9) N by (auto simp: unat_eq_0 r_def)
  have M: "N \<le> ?M" using align_again [of sz] N(1,3) at(5,6,10) by (simp add: block_size_def)
  have mn: "(if n < N then n else N) = min n N" by auto
  have run: "rt_smem_realloc p r sz s = do { (y, s) \<leftarrow> rt_smem_alloc p (rt_align sz) s;
      (case y of None \<Rightarrow> Some (None, s)
       | Some nmem \<Rightarrow> do { s \<leftarrow> rt_smem_free r (s\<lparr>cells := copy_cells nmem r (min n N) (cells s)\<rparr>); Some (Some nmem, s) }) }"
    unfolding rt_smem_realloc_def valid_pool [OF pool ok] Option.bind.simps Let_def sub(1) at(2) sub(2) sub(3) N(1) mn
    using N sub by simp
  show ?thesis
  proof (cases "first_fit ?M 0 ?bs")
    case None
    with alloc_result [OF pool ok sub(5)] run show ?thesis by (simp add: resized_def)
  next
    case (Some a)
    then obtain m1 c1 where a: "rt_smem_alloc p (rt_align sz) s = Some (Some (?h + a + 24), \<lparr>cells = c1, pools = (pools s)(p \<mapsto> m1)\<rparr>)"
        "smem_ok p m1 c1 (alloc_blocks ?M ?bs)" "same_heap m m1" "untouched m ?bs (cells s) c1"
      using alloc_result [OF pool ok sub(5)] by auto
    obtain s' where "rt_smem_free r \<lparr>cells = copy_cells (?h + a + 24) r (min n N) c1, pools = (pools s)(p \<mapsto> m1)\<rparr> = Some s'"
        "resized p m s (used_data ?h 0 (xs @ (False, n) # ys)) r n N (Some (?h + a + 24)) s'"
      using moved_block [OF pool ok Some M a(2,3,4)] unfolding r_def by blast
    then show ?thesis using run a(1) by simp
  qed
qed

lemma realloc_result:
  assumes pool: "pools s p = Some m" and ok: "smem_ok p m (cells s) (xs @ (True, n) # ys)" and N: "0 < unat (rt_align sz)"
  defines "r \<equiv> heap_ptr m + span xs + 24"
  shows "\<exists>y s'. rt_smem_realloc p r sz s = Some (y, s') \<and>
    resized p m s (used_data (heap_ptr m) 0 (xs @ (False, n) # ys)) r n (unat (rt_align sz)) y s'"
proof -
  let ?N = "unat (rt_align sz)" and ?D = "used_data (heap_ptr m) 0 (xs @ (False, n) # ys)"
  have L: "layout p m (cells s) (xs @ (True, n) # ys)" using ok by (simp add: smem_ok_def)
  consider "mem_size_aligned m < ?N" | "?N = n" | "?N + 48 < n" | "?N \<le> mem_size_aligned m" "?N \<noteq> n" "\<not> ?N + 48 < n" by linarith
  then show ?thesis
  proof cases
    case 1
    then have "rt_smem_realloc p r sz s = Some (None, s)"
      unfolding rt_smem_realloc_def using valid_pool [OF pool ok] by (simp add: Let_def)
    then show ?thesis by (simp add: resized_def)
  next
    case 2
    have "(pools s)(p \<mapsto> m) = pools s" using pool by (simp add: fun_upd_idem)
    then have "resized p m s ?D r n ?N (Some r) s"
      unfolding resized_def option.case using ok used_data_cut [of "heap_ptr m" xs n ys] 2
      by (intro exI [of _ m] exI [of _ "xs @ (True, n) # ys"] exI [of _ n]) (simp add: same_heap_def r_def)
    with realloc_in_place [OF pool ok 2] show ?thesis unfolding r_def by blast
  next
    case 3
    with realloc_shrink [OF pool ok refl N] show ?thesis unfolding r_def by blast
  next
    case 4
    with realloc_move [OF pool ok refl N] show ?thesis unfolding r_def by blast
  qed
qed

text \<open>An allocation followed by its release gives back the same list of blocks.\<close>

lemma free_take:
  assumes co: "coalesced (xs @ (False, n) # ys)" and N: "N \<le> n"
  shows "\<exists>k zs. take_block N n @ ys = (True, k) # zs \<and> free_blocks xs k zs = xs @ (False, n) # ys"
proof -
  have "xs = [] \<or> fst (last xs)" "\<nexists>k zs. ys = (False, k) # zs"
    using co by (auto simp: coalesced_append)
  moreover from this(2) have "join_next n ys = (False, n) # ys" by (cases "(n, ys)" rule: join_next.cases) auto
  ultimately show ?thesis using N by (auto simp: take_block_def free_blocks_def join_prev_def)
qed

end
