(* ===== verification/RT_Heap.thy ===== *)
theory RT_Heap
  imports RT_SMemOps
begin

text \<open>
  The system heap (\<^verbatim>\<open>src/kservice.c\<close>) on top of the small memory allocator, in the
  configuration \<^verbatim>\<open>RT_USING_SMALL_MEM_AS_HEAP\<close> with \<^verbatim>\<open>RT_USING_HEAP_ISR\<close>: the heap lock
  disables interrupts, so that each operation is atomic. The locale \<open>block_heap\<close> is what the
  users of a heap rely on; it is interpreted on \<^verbatim>\<open>rt_malloc\<close> and \<^verbatim>\<open>rt_free\<close>.
\<close>

subsection \<open>Model\<close>

record heap_state =
  hs_mem :: smem_state
  system_heap :: "nat option"

definition rt_system_heap_init :: "u64 \<Rightarrow> u64 \<Rightarrow> heap_state \<Rightarrow> heap_state option" where
  "rt_system_heap_init begin_addr end_addr s =
     do { let begin_align = rt_align begin_addr;
          let end_align = end_addr AND NOT 7;
          rt_assert (begin_align < end_align);
          (r, mem) \<leftarrow> rt_smem_init begin_align (end_align - begin_align) (hs_mem s);
          Some \<lparr>hs_mem = mem, system_heap = r\<rparr> }"

definition rt_malloc :: "u64 \<Rightarrow> heap_state \<Rightarrow> (nat option \<times> heap_state) option" where
  "rt_malloc sz s =
     (if sz = 0 then Some (None, s)
      else do { p \<leftarrow> system_heap s;
                (r, mem) \<leftarrow> rt_smem_alloc p sz (hs_mem s);
                Some (r, s\<lparr>hs_mem := mem\<rparr>) })"

definition rt_realloc :: "nat \<Rightarrow> u64 \<Rightarrow> heap_state \<Rightarrow> (nat option \<times> heap_state) option" where
  "rt_realloc ptr newsize s =
     do { p \<leftarrow> system_heap s;
          (r, mem) \<leftarrow> rt_smem_realloc p ptr newsize (hs_mem s);
          Some (r, s\<lparr>hs_mem := mem\<rparr>) }"

definition rt_free :: "nat \<Rightarrow> heap_state \<Rightarrow> heap_state option" where
  "rt_free ptr s =
     (if ptr = 0 then Some s
      else do { mem \<leftarrow> rt_smem_free ptr (hs_mem s); Some (s\<lparr>hs_mem := mem\<rparr>) })"

text \<open>\<^verbatim>\<open>rt_memset\<close> with 0: whole cells, and the low bytes of the last one (little endian).\<close>

definition zero_cells :: "nat \<Rightarrow> nat \<Rightarrow> cells \<Rightarrow> cells" where
  "zero_cells a n c = (\<lambda>x. if a \<le> x \<and> x + 8 \<le> a + n then 0
     else if a \<le> x \<and> x < a + n then c x AND NOT (mask (8 * (a + n - x))) else c x)"

definition rt_calloc :: "u64 \<Rightarrow> u64 \<Rightarrow> heap_state \<Rightarrow> (nat option \<times> heap_state) option" where
  "rt_calloc count sz s =
     do { (p, s) \<leftarrow> rt_malloc (count * sz) s;
          (case p of
             None \<Rightarrow> Some (None, s)
           | Some a \<Rightarrow> Some (Some a, s\<lparr>hs_mem := (hs_mem s)\<lparr>cells := zero_cells a (unat (count * sz)) (cells (hs_mem s))\<rparr>\<rparr>)) }"

definition rt_memory_info :: "heap_state \<Rightarrow> (nat \<times> nat \<times> nat) option" where
  "rt_memory_info s =
     do { p \<leftarrow> system_heap s;
          m \<leftarrow> pools (hs_mem s) p;
          Some (sm_total m, sm_used m, sm_max m) }"

definition get_cell :: "heap_state \<Rightarrow> nat \<Rightarrow> u64" where
  "get_cell s a = cells (hs_mem s) a"

definition put_cell :: "nat \<Rightarrow> u64 \<Rightarrow> heap_state \<Rightarrow> heap_state" where
  "put_cell a v s = s\<lparr>hs_mem := (hs_mem s)\<lparr>cells := (cells (hs_mem s))(a := v)\<rparr>\<rparr>"

definition rt_malloc_align :: "u64 \<Rightarrow> u64 \<Rightarrow> heap_state \<Rightarrow> (nat option \<times> heap_state) option" where
  "rt_malloc_align sz align s =
     do { let align = rt_align align;
          let align_size = rt_align sz + align;
          (r, s) \<leftarrow> rt_malloc align_size s;
          (case r of
             None \<Rightarrow> Some (None, s)
           | Some a \<Rightarrow>
               let ptr = of_nat a :: u64;
                   align_ptr = (if ptr AND (align - 1) = 0 then ptr + align else (ptr + (align - 1)) AND NOT (align - 1))
               in Some (Some (unat align_ptr), put_cell (unat (align_ptr - 8)) ptr s)) }"

definition rt_free_align :: "nat \<Rightarrow> heap_state \<Rightarrow> heap_state option" where
  "rt_free_align ptr s =
     (if ptr = 0 then Some s else rt_free (unat (get_cell s (unat (of_nat ptr - 8 :: u64)))) s)"

text \<open>The blocks in use, and what a heap that is in order looks like.\<close>

fun used_blocks :: "nat \<Rightarrow> nat \<Rightarrow> block list \<Rightarrow> (nat \<times> nat) set" where
  "used_blocks h a [] = {}"
| "used_blocks h a ((u, n) # bs) = (if u then {(h + a + 24, n)} else {}) \<union> used_blocks h (a + 24 + n) bs"

definition heap_view :: "heap_state \<Rightarrow> nat \<Rightarrow> rt_small_mem \<Rightarrow> block list \<Rightarrow> bool" where
  "heap_view s p m bs \<longleftrightarrow> system_heap s = Some p \<and> pools (hs_mem s) p = Some m \<and> smem_ok p m (cells (hs_mem s)) bs"

definition heap_good :: "heap_state \<Rightarrow> bool" where
  "heap_good s \<longleftrightarrow> (\<exists>p m bs. heap_view s p m bs)"

definition heap_blocks :: "heap_state \<Rightarrow> (nat \<times> nat) set" where
  "heap_blocks s = {b. \<exists>p m bs. heap_view s p m bs \<and> b \<in> used_blocks (heap_ptr m) 0 bs}"

text \<open>
  The steps of a program that uses a heap as intended and spares one block: it allocates, it
  releases other blocks in use, and it writes to other blocks in use.
\<close>

inductive spares :: "('s \<Rightarrow> (nat \<times> nat) set) \<Rightarrow> (nat \<Rightarrow> u64 \<Rightarrow> 's \<Rightarrow> 's) \<Rightarrow> (u64 \<Rightarrow> 's \<Rightarrow> (nat option \<times> 's) option) \<Rightarrow>
    (nat \<Rightarrow> 's \<Rightarrow> 's option) \<Rightarrow> nat \<times> nat \<Rightarrow> 's \<Rightarrow> 's \<Rightarrow> bool"
  for blocks put alloc release b where
  spares_alloc: "alloc n s = Some (r, s') \<Longrightarrow> spares blocks put alloc release b s s'"
| spares_release: "(a, k) \<in> blocks s \<Longrightarrow> (a, k) \<noteq> b \<Longrightarrow> release a s = Some s' \<Longrightarrow> spares blocks put alloc release b s s'"
| spares_put: "(a, k) \<in> blocks s \<Longrightarrow> (a, k) \<noteq> b \<Longrightarrow> a \<le> x \<Longrightarrow> x < a + k \<Longrightarrow> spares blocks put alloc release b s (put x v s)"

subsection \<open>The interface of a heap\<close>

locale block_heap =
  fixes good :: "'s \<Rightarrow> bool" and blocks :: "'s \<Rightarrow> (nat \<times> nat) set"
    and get :: "'s \<Rightarrow> nat \<Rightarrow> u64" and put :: "nat \<Rightarrow> u64 \<Rightarrow> 's \<Rightarrow> 's"
    and alloc :: "u64 \<Rightarrow> 's \<Rightarrow> (nat option \<times> 's) option" and release :: "nat \<Rightarrow> 's \<Rightarrow> 's option"
  assumes alloc_law: "good s \<Longrightarrow> \<exists>r s'. alloc n s = Some (r, s') \<and> good s' \<and>
      (case r of None \<Rightarrow> s' = s
       | Some a \<Rightarrow> a mod 8 = 0 \<and> (\<exists>k. (unat n + 7 < 2 ^ 64 \<longrightarrow> unat n \<le> k) \<and> (a, k) \<notin> blocks s \<and> blocks s' = insert (a, k) (blocks s))) \<and>
      (\<forall>(a, k)\<in>blocks s. \<forall>x. a \<le> x \<and> x < a + k \<longrightarrow> get s' x = get s x)"
    and release_law: "good s \<Longrightarrow> (a, k) \<in> blocks s \<Longrightarrow>
      \<exists>s'. release a s = Some s' \<and> good s' \<and> blocks s' = blocks s - {(a, k)} \<and>
        (\<forall>(b, l)\<in>blocks s'. \<forall>x. b \<le> x \<and> x < b + l \<longrightarrow> get s' x = get s x)"
    and put_law: "good s \<Longrightarrow> (a, k) \<in> blocks s \<Longrightarrow> a \<le> x \<Longrightarrow> x < a + k \<Longrightarrow> good (put x v s) \<and> blocks (put x v s) = blocks s"
    and get_put: "get (put x v s) y = (if y = x then v else get s y)"
    and apart: "good s \<Longrightarrow> (a, k) \<in> blocks s \<Longrightarrow> (b, l) \<in> blocks s \<Longrightarrow> (a, k) \<noteq> (b, l) \<Longrightarrow> {a..<a + k} \<inter> {b..<b + l} = {}"
    and in_range: "good s \<Longrightarrow> (a, k) \<in> blocks s \<Longrightarrow> 0 < k \<and> 0 < a \<and> a + k < 2 ^ 64"
begin

text \<open>A block that a program spares stays in use and keeps its contents.\<close>

lemma spared_step:
  assumes "spares blocks put alloc release (a, k) s s'" "good s" "(a, k) \<in> blocks s"
  shows "good s' \<and> (a, k) \<in> blocks s' \<and> (\<forall>x. a \<le> x \<and> x < a + k \<longrightarrow> get s' x = get s x)"
  using assms(1)
proof cases
  case (spares_alloc n r)
  then show ?thesis using alloc_law [OF assms(2), of n] assms(3) by (fastforce split: option.splits)
next
  case (spares_release b l)
  then show ?thesis using release_law [OF assms(2), of b l] assms(3) by fastforce
next
  case (spares_put b l y v)
  have "get (put y v s) x = get s x" if "a \<le> x" "x < a + k" for x
    using apart [OF assms(2,3) spares_put(2)] spares_put(3-5) that by (auto simp: get_put disjoint_iff)
  then show ?thesis using put_law [OF assms(2) spares_put(2,4,5)] assms(3) spares_put(1) by simp
qed

lemma spared_run:
  assumes "(spares blocks put alloc release (a, k))\<^sup>*\<^sup>* s s'" "good s" "(a, k) \<in> blocks s"
  shows "good s' \<and> (a, k) \<in> blocks s' \<and> (\<forall>x. a \<le> x \<and> x < a + k \<longrightarrow> get s' x = get s x)"
  using assms by (induction rule: rtranclp_induct) (use spared_step in fastforce)+

text \<open>Storing a value in a fresh block and reading it after other uses of the heap.\<close>

lemma fresh_block:
  assumes "good s" "alloc n s = Some (Some a, s')"
  shows "\<exists>k. (a, k) \<in> blocks s' \<and> (unat n + 7 < 2 ^ 64 \<longrightarrow> unat n \<le> k) \<and> a mod 8 = 0 \<and>
    (\<forall>(b, l)\<in>blocks s. {a..<a + k} \<inter> {b..<b + l} = {})"
proof -
  obtain k where k: "(unat n + 7 < 2 ^ 64 \<longrightarrow> unat n \<le> k)" "(a, k) \<notin> blocks s" "blocks s' = insert (a, k) (blocks s)" "a mod 8 = 0"
    and "good s'"
    using alloc_law [OF assms(1), of n] assms(2) by auto
  then show ?thesis using apart [of s' a k] by (intro exI [of _ k]) auto
qed

end


subsection \<open>Blocks in use\<close>

lemma used_blocks_append [simp]: "used_blocks h a (xs @ ys) = used_blocks h a xs \<union> used_blocks h (a + span xs) ys"
proof (induction xs arbitrary: a)
  case (Cons b xs)
  then show ?case by (cases b) (simp add: add.assoc Un_assoc)
qed simp

lemma used_blocks_range: "(b, k) \<in> used_blocks h a bs \<Longrightarrow> h + a + 24 \<le> b \<and> b + k \<le> h + a + span bs"
proof (induction bs arbitrary: a)
  case (Cons x bs)
  show ?case
  proof (cases "(b, k) \<in> used_blocks h (a + 24 + snd x) bs")
    case True
    from Cons.IH [OF this] show ?thesis by simp
  next
    case False
    with Cons.prems show ?thesis by (cases x) (auto split: if_splits)
  qed
qed simp

lemma used_data_blocks: "used_data h a bs = (\<Union>(b, k)\<in>used_blocks h a bs. {b..<b + k})"
proof (induction bs arbitrary: a)
  case (Cons b bs)
  then show ?case by (cases b) auto
qed simp

lemma used_blocks_split:
  "(b, k) \<in> used_blocks h a bs \<Longrightarrow> \<exists>xs ys. bs = xs @ (True, k) # ys \<and> b = h + a + span xs + 24"
proof (induction bs arbitrary: a)
  case (Cons x bs)
  obtain u n where x: "x = (u, n)" by (cases x)
  show ?case
  proof (cases "(b, k) \<in> used_blocks h (a + 24 + n) bs")
    case True
    from Cons.IH [OF this] obtain xs ys where "bs = xs @ (True, k) # ys" "b = h + (a + 24 + n) + span xs + 24" by blast
    then show ?thesis by (intro exI [of _ "x # xs"] exI [of _ ys]) (simp add: x)
  next
    case False
    with Cons.prems have "u" "b = h + a + 24" "k = n" by (auto simp: x split: if_splits)
    then show ?thesis by (intro exI [of _ "[]"] exI [of _ bs]) (simp add: x)
  qed
qed simp

lemma used_blocks_cut:
  "used_blocks h 0 (xs @ (False, n) # ys) = used_blocks h 0 (xs @ (True, n) # ys) - {(h + span xs + 24, n)}"
proof -
  have "(h + span xs + 24, n) \<notin> used_blocks h 0 (xs @ (False, n) # ys)"
    using used_blocks_range [of "h + span xs + 24" n h 0 xs] used_blocks_range [of "h + span xs + 24" n h "span xs + 24 + n" ys] by auto
  then show ?thesis by auto
qed

lemma used_blocks_free: "used_blocks h 0 (free_blocks xs n ys) = used_blocks h 0 (xs @ (False, n) # ys)"
proof -
  have j: "used_blocks h a (join_next n ys) = used_blocks h (a + 24 + n) ys" for a
    by (cases "(n, ys)" rule: join_next.cases) (simp_all add: add_ac)
  obtain k zs where e: "join_next n ys = (False, k) # zs" using join_next_head by blast
  have "used_blocks h 0 (join_prev xs ((False, k) # zs)) = used_blocks h 0 xs \<union> used_blocks h (span xs) ((False, k) # zs)"
    by (cases xs rule: rev_cases) (auto simp: join_prev_def add_ac)
  then show ?thesis using j [of "span xs"] by (simp add: free_blocks_def e)
qed

lemma used_blocks_alloc:
  assumes "first_fit N 0 bs = Some a"
  shows "\<exists>k\<ge>N. k < N + 48 \<and> used_blocks h 0 (alloc_blocks N bs) = insert (h + a + 24, k) (used_blocks h 0 bs) \<and> (h + a + 24, k) \<notin> used_blocks h 0 bs"
proof -
  obtain xs n ys where bs: "bs = xs @ (False, n) # ys" "a = span xs" "N \<le> n" "alloc_blocks N bs = xs @ take_block N n @ ys"
    using first_fit_split [OF assms] by auto
  define k where "k = (if N + 48 \<le> n then N else n)"
  have "used_blocks h 0 (alloc_blocks N bs) = insert (h + a + 24, k) (used_blocks h 0 bs)"
    unfolding bs(4) unfolding bs(1,2) by (auto simp: take_block_def k_def add_ac)
  moreover have "(h + a + 24, k) \<notin> used_blocks h 0 bs"
    using used_blocks_range [of "h + a + 24" k h 0 xs] used_blocks_range [of "h + a + 24" k h "span xs + 24 + n" ys] by (auto simp: bs(1,2))
  moreover have "N \<le> k" "k < N + 48" using bs(3) by (simp_all add: k_def)
  ultimately show ?thesis by blast
qed

lemma used_blocks_apart:
  assumes "(a, k) \<in> used_blocks h 0 bs" "(b, l) \<in> used_blocks h 0 bs" "(a, k) \<noteq> (b, l)"
  shows "{a..<a + k} \<inter> {b..<b + l} = {}"
proof -
  obtain xs ys where bs: "bs = xs @ (True, k) # ys" "a = h + span xs + 24" using used_blocks_split [OF assms(1)] by auto
  have "(b, l) \<in> used_blocks h 0 xs \<or> (b, l) \<in> used_blocks h (span xs + 24 + k) ys" using assms(2,3) by (auto simp: bs)
  then have "b + l \<le> h + span xs \<or> h + span xs + 48 + k \<le> b"
    using used_blocks_range [of b l h 0 xs] used_blocks_range [of b l h "span xs + 24 + k" ys] by auto
  then show ?thesis by (auto simp: bs(2))
qed

lemma chain_unique:
  "chain p h c pv a bs \<Longrightarrow> chain p h c pv a bs' \<Longrightarrow> span bs = span bs' \<Longrightarrow> a + span bs < 2 ^ 64 \<Longrightarrow> bs = bs'"
proof (induction bs arbitrary: bs' pv a)
  case Nil
  then show ?case by (cases bs') auto
next
  case (Cons b bs)
  obtain u n where b: "b = (u, n)" by (cases b)
  obtain u' n' zs where bs': "bs' = (u', n') # zs" using Cons.prems(3) by (cases bs') auto
  have "mem_isused c (h + a) = u" using Cons.prems(1) by (simp add: b mem_isused_def)
  moreover have "mem_isused c (h + a) = u'" using Cons.prems(2) by (simp add: bs' mem_isused_def)
  moreover have "(of_nat (a + 24 + n) :: u64) = of_nat (a + 24 + n')" using Cons.prems(1,2) by (simp add: b bs' del: of_nat_add)
  then have "unat (of_nat (a + 24 + n) :: u64) = unat (of_nat (a + 24 + n') :: u64)" by (simp only:)
  then have "n = n'" using Cons.prems(3,4) by (subst (asm) (1 2) unat_of_nat64) (simp_all add: b bs')
  ultimately show ?case using Cons.IH [of a "a + 24 + n" zs] Cons.prems by (simp add: b bs')
qed

lemma heap_view_unique:
  assumes "heap_view s p m bs" "heap_view s p' m' bs'"
  shows "p' = p \<and> m' = m \<and> bs' = bs"
proof -
  have pm: "p' = p" "m' = m" using assms by (simp_all add: heap_view_def)
  have "layout p m (cells (hs_mem s)) bs" "layout p m (cells (hs_mem s)) bs'"
    using assms by (simp_all add: heap_view_def smem_ok_def pm)
  then have c: "chain p (heap_ptr m) (cells (hs_mem s)) 0 0 bs'" "chain p (heap_ptr m) (cells (hs_mem s)) 0 0 bs"
    "span bs' = span bs" "0 + span bs' < 2 ^ 64"
    unfolding layout_def by (elim conjE, assumption | linarith)+
  from chain_unique [OF c] pm show ?thesis by simp
qed

lemma heap_blocks_view: "heap_view s p m bs \<Longrightarrow> heap_blocks s = used_blocks (heap_ptr m) 0 bs"
  unfolding heap_blocks_def using heap_view_unique by blast


subsection \<open>\<^verbatim>\<open>rt_malloc\<close> and \<^verbatim>\<open>rt_free\<close> as a heap\<close>

lemma view_data: "heap_view s p m bs \<Longrightarrow> (a, k) \<in> heap_blocks s \<Longrightarrow> a \<le> x \<Longrightarrow> x < a + k \<Longrightarrow> x \<in> used_data (heap_ptr m) 0 bs"
  by (simp add: heap_blocks_view used_data_blocks) (erule bexI [rotated], simp)

lemma malloc_result:
  assumes v: "heap_view s p m bs" and n: "n \<noteq> 0"
  shows "case first_fit (block_size n) 0 bs of
      None \<Rightarrow> rt_malloc n s = Some (None, s)
    | Some a \<Rightarrow> \<exists>m' s'. rt_malloc n s = Some (Some (heap_ptr m + a + 24), s') \<and>
        heap_view s' p m' (alloc_blocks (block_size n) bs) \<and> same_heap m m' \<and> untouched m bs (cells (hs_mem s)) (cells (hs_mem s'))"
proof -
  have v': "system_heap s = Some p" "pools (hs_mem s) p = Some m" "smem_ok p m (cells (hs_mem s)) bs"
    using v by (simp_all add: heap_view_def)
  show ?thesis
  proof (cases "first_fit (block_size n) 0 bs")
    case None
    with alloc_result [OF v'(2,3) n] v'(1) n show ?thesis by (simp add: rt_malloc_def)
  next
    case (Some a)
    then obtain m' c' where "rt_smem_alloc p n (hs_mem s) = Some (Some (heap_ptr m + a + 24), \<lparr>cells = c', pools = (pools (hs_mem s))(p \<mapsto> m')\<rparr>)"
        "smem_ok p m' c' (alloc_blocks (block_size n) bs)" "same_heap m m'" "untouched m bs (cells (hs_mem s)) c'"
      using alloc_result [OF v'(2,3) n] by auto
    with Some v'(1) n show ?thesis by (auto simp: rt_malloc_def heap_view_def)
  qed
qed

text \<open>The block of a successful request, with the bounds of its size.\<close>

lemma malloc_block:
  assumes v: "heap_view s p m bs" and n: "n \<noteq> 0" and fit: "first_fit (block_size n) 0 bs = Some a"
  shows "\<exists>s' k. rt_malloc n s = Some (Some (heap_ptr m + a + 24), s') \<and> heap_good s' \<and> block_size n \<le> k \<and> k < block_size n + 48 \<and>
    (heap_ptr m + a + 24, k) \<notin> heap_blocks s \<and> heap_blocks s' = insert (heap_ptr m + a + 24, k) (heap_blocks s) \<and>
    untouched m bs (cells (hs_mem s)) (cells (hs_mem s'))"
proof -
  obtain m' s' where r: "rt_malloc n s = Some (Some (heap_ptr m + a + 24), s')" "heap_view s' p m' (alloc_blocks (block_size n) bs)"
      "same_heap m m'" "untouched m bs (cells (hs_mem s)) (cells (hs_mem s'))"
    using malloc_result [OF v n] fit by auto
  obtain k where "block_size n \<le> k" "k < block_size n + 48" "heap_blocks s' = insert (heap_ptr m + a + 24, k) (heap_blocks s)"
      "(heap_ptr m + a + 24, k) \<notin> heap_blocks s"
    using used_blocks_alloc [OF fit, of "heap_ptr m"] heap_blocks_view [OF v] heap_blocks_view [OF r(2)] r(3)
    by (auto simp: same_heap_def)
  then show ?thesis using r(1,2,4) by (auto simp: heap_good_def)
qed

lemma malloc_law:
  assumes "heap_good s"
  shows "\<exists>r s'. rt_malloc n s = Some (r, s') \<and> heap_good s' \<and>
    (case r of None \<Rightarrow> s' = s
     | Some a \<Rightarrow> a mod 8 = 0 \<and> (\<exists>k. (unat n + 7 < 2 ^ 64 \<longrightarrow> unat n \<le> k) \<and> (a, k) \<notin> heap_blocks s \<and> heap_blocks s' = insert (a, k) (heap_blocks s))) \<and>
    (\<forall>(a, k)\<in>heap_blocks s. \<forall>x. a \<le> x \<and> x < a + k \<longrightarrow> get_cell s' x = get_cell s x)"
proof (cases "n = 0")
  case True
  then show ?thesis using assms by (auto simp: rt_malloc_def)
next
  case False
  obtain p m bs where v: "heap_view s p m bs" using assms by (auto simp: heap_good_def)
  show ?thesis
  proof (cases "first_fit (block_size n) 0 bs")
    case None
    with malloc_result [OF v False] assms show ?thesis by auto
  next
    case (Some a)
    then obtain s' k where r: "rt_malloc n s = Some (Some (heap_ptr m + a + 24), s')" "heap_good s'"
        and k: "block_size n \<le> k" "heap_blocks s' = insert (heap_ptr m + a + 24, k) (heap_blocks s)" "(heap_ptr m + a + 24, k) \<notin> heap_blocks s"
        and un: "untouched m bs (cells (hs_mem s)) (cells (hs_mem s'))"
      using malloc_block [OF v False] by auto
    have "(heap_ptr m + a) mod 8 = 0"
    proof -
      obtain xs l ys where "bs = xs @ (False, l) # ys" "a = span xs" using first_fit_split [OF Some] by auto
      with layout_at(9) [of p m "cells (hs_mem s)" xs False l ys] v show ?thesis by (simp add: heap_view_def smem_ok_def)
    qed
    then have "(heap_ptr m + a + 24) mod 8 = 0" by presburger
    moreover have "unat n + 7 < 2 ^ 64 \<longrightarrow> unat n \<le> k" using k(1) block_size_facts(3) [of n] by linarith
    moreover have "\<forall>(b, l)\<in>heap_blocks s. \<forall>x. b \<le> x \<and> x < b + l \<longrightarrow> get_cell s' x = get_cell s x"
      using view_data [OF v] untouched_at [OF un] by (auto simp: get_cell_def)
    ultimately show ?thesis using r k(2,3) by auto
  qed
qed

lemma free_law:
  assumes "heap_good s" "(a, k) \<in> heap_blocks s"
  shows "\<exists>s'. rt_free a s = Some s' \<and> heap_good s' \<and> heap_blocks s' = heap_blocks s - {(a, k)} \<and>
    (\<forall>(b, l)\<in>heap_blocks s'. \<forall>x. b \<le> x \<and> x < b + l \<longrightarrow> get_cell s' x = get_cell s x)"
proof -
  obtain p m bs where v: "heap_view s p m bs" using assms by (auto simp: heap_good_def)
  then obtain xs ys where bs: "bs = xs @ (True, k) # ys" "a = heap_ptr m + span xs + 24"
    using used_blocks_split [of a k "heap_ptr m" 0 bs] assms(2) heap_blocks_view [OF v] by auto
  have v': "system_heap s = Some p" "pools (hs_mem s) p = Some m" "smem_ok p m (cells (hs_mem s)) (xs @ (True, k) # ys)"
    using v by (simp_all add: heap_view_def bs)
  obtain m' c' where f: "rt_smem_free a (hs_mem s) = Some \<lparr>cells = c', pools = (pools (hs_mem s))(p \<mapsto> m')\<rparr>"
      "smem_ok p m' c' (free_blocks xs k ys)" "same_heap m m'" "untouched m (xs @ (False, k) # ys) (cells (hs_mem s)) c'"
    using free_result [OF v'(3,2)] unfolding bs(2) by auto
  define s' where "s' = s\<lparr>hs_mem := \<lparr>cells = c', pools = (pools (hs_mem s))(p \<mapsto> m')\<rparr>\<rparr>"
  have w: "heap_view s' p m' (free_blocks xs k ys)" using v'(1) f(2) by (simp add: s'_def heap_view_def)
  have bl: "heap_blocks s' = used_blocks (heap_ptr m) 0 (xs @ (False, k) # ys)" "heap_blocks s' = heap_blocks s - {(a, k)}"
    using heap_blocks_view [OF w] heap_blocks_view [OF v] f(3) used_blocks_cut [of "heap_ptr m" xs k ys]
    unfolding used_blocks_free bs by (simp_all only: same_heap_def)
  have "\<forall>(b, l)\<in>heap_blocks s'. \<forall>x. b \<le> x \<and> x < b + l \<longrightarrow> get_cell s' x = get_cell s x"
  proof (clarify)
    fix b l x assume "(b, l) \<in> heap_blocks s'" "b \<le> x" "x < b + l"
    then have "x \<in> used_data (heap_ptr m) 0 (xs @ (False, k) # ys)" unfolding bl(1) used_data_blocks by force
    from untouched_at [OF f(4) this] show "get_cell s' x = get_cell s x" by (simp add: get_cell_def s'_def)
  qed
  moreover have "rt_free a s = Some s'" using f(1) by (simp add: rt_free_def s'_def bs(2))
  ultimately show ?thesis using w bl(2) by (auto simp: heap_good_def)
qed

lemma put_law':
  assumes "heap_good s" "(a, k) \<in> heap_blocks s" "a \<le> x" "x < a + k"
  shows "heap_good (put_cell x v s) \<and> heap_blocks (put_cell x v s) = heap_blocks s"
proof -
  obtain p m bs where w: "heap_view s p m bs" using assms by (auto simp: heap_good_def)
  have x: "x \<in> used_data (heap_ptr m) 0 bs" by (rule view_data [OF w assms(2-4)])
  have "smem_ok p m ((cells (hs_mem s))(x := v)) bs"
    by (rule smem_ok_data [of p m "cells (hs_mem s)"]) (use w x in \<open>auto simp: heap_view_def\<close>)
  then have w': "heap_view (put_cell x v s) p m bs" using w by (simp add: heap_view_def put_cell_def)
  then show ?thesis using heap_blocks_view [OF w'] heap_blocks_view [OF w] by (auto simp: heap_good_def)
qed

interpretation hp: block_heap heap_good heap_blocks get_cell put_cell rt_malloc rt_free
proof
  show "\<exists>r s'. rt_malloc n s = Some (r, s') \<and> heap_good s' \<and>
      (case r of None \<Rightarrow> s' = s
       | Some a \<Rightarrow> a mod 8 = 0 \<and> (\<exists>k. (unat n + 7 < 2 ^ 64 \<longrightarrow> unat n \<le> k) \<and> (a, k) \<notin> heap_blocks s \<and> heap_blocks s' = insert (a, k) (heap_blocks s))) \<and>
      (\<forall>(a, k)\<in>heap_blocks s. \<forall>x. a \<le> x \<and> x < a + k \<longrightarrow> get_cell s' x = get_cell s x)" if "heap_good s" for s n
    by (rule malloc_law [OF that])
  show "\<exists>s'. rt_free a s = Some s' \<and> heap_good s' \<and> heap_blocks s' = heap_blocks s - {(a, k)} \<and>
      (\<forall>(b, l)\<in>heap_blocks s'. \<forall>x. b \<le> x \<and> x < b + l \<longrightarrow> get_cell s' x = get_cell s x)"
    if "heap_good s" "(a, k) \<in> heap_blocks s" for s a k
    by (rule free_law [OF that])
  show "get_cell (put_cell x v s) y = (if y = x then v else get_cell s y)" for x v s y
    by (simp add: get_cell_def put_cell_def)
  show "heap_good (put_cell x v s) \<and> heap_blocks (put_cell x v s) = heap_blocks s"
    if "heap_good s" "(a, k) \<in> heap_blocks s" "a \<le> x" "x < a + k" for s a k x v
    by (rule put_law' [OF that])
  show "{a..<a + k} \<inter> {b..<b + l} = {}" if "heap_good s" "(a, k) \<in> heap_blocks s" "(b, l) \<in> heap_blocks s" "(a, k) \<noteq> (b, l)" for s a k b l
    using that used_blocks_apart by (fastforce simp: heap_good_def heap_blocks_view)
  show "0 < k \<and> 0 < a \<and> a + k < 2 ^ 64" if hg: "heap_good s" "(a, k) \<in> heap_blocks s" for s a k
  proof -
    obtain p m bs where w: "heap_view s p m bs" using hg by (auto simp: heap_good_def)
    then obtain xs ys where "bs = xs @ (True, k) # ys" "a = heap_ptr m + span xs + 24"
      using used_blocks_split [of a k "heap_ptr m" 0 bs] hg(2) heap_blocks_view [OF w] by auto
    then show ?thesis using layout_at(5,6,8) [of p m "cells (hs_mem s)" xs True k ys] w by (simp add: heap_view_def smem_ok_def)
  qed
qed


subsection \<open>Aligned blocks\<close>

lemma unat_2p: "j < 64 \<Longrightarrow> unat ((2 :: u64) ^ j) = 2 ^ j"
proof -
  assume "j < 64"
  then have "(2 :: nat) ^ j < 2 ^ 64" by (intro power_strict_increasing) simp_all
  moreover have "(2 :: u64) ^ j = of_nat (2 ^ j)" by simp
  ultimately show ?thesis by (simp only: unat_of_nat64)
qed

lemma unat_and_not_mask:
  fixes w :: u64
  assumes "j < 64"
  shows "unat (w AND NOT (mask j)) = unat w div 2 ^ j * 2 ^ j"
proof -
  have "w AND NOT (mask j) = push_bit j (drop_bit j w)"
    by (rule bit_word_eqI) (auto simp: bit_simps)
  moreover have "unat w < 2 ^ 64" using unsigned_less [of w] by simp
  then have "unat w div 2 ^ j * 2 ^ j < 2 ^ 64" "unat w div 2 ^ j < 2 ^ 64"
    by (meson div_times_less_eq_dividend div_le_dividend le_less_trans)+
  ultimately show ?thesis
    by (simp add: push_bit_eq_mult drop_bit_eq_div unat_word_ariths unat_div unat_2p [OF assms])
qed

lemma and_mask_0:
  fixes w :: u64
  assumes "j < 64"
  shows "w AND mask j = 0 \<longleftrightarrow> unat w mod 2 ^ j = 0"
proof -
  have "w AND mask j = 0 \<longleftrightarrow> unat (take_bit j w) = 0" by (simp add: take_bit_eq_mask unat_eq_zero)
  then show ?thesis by (simp add: take_bit_eq_mod unat_mod unat_2p [OF assms])
qed

text \<open>The address \<^verbatim>\<open>rt_malloc_align\<close> returns, for the alignment $2^j$ and the block at \<open>a\<close>.\<close>

definition align_addr :: "nat \<Rightarrow> nat \<Rightarrow> nat" where
  "align_addr j a = (if a mod 2 ^ j = 0 then a + 2 ^ j else (a + 2 ^ j - 1) div 2 ^ j * 2 ^ j)"

lemma align_addr_facts:
  assumes "3 \<le> j" "a mod 8 = 0"
  shows "align_addr j a mod 2 ^ j = 0" "a + 8 \<le> align_addr j a" "align_addr j a \<le> a + 2 ^ j"
proof -
  define A where "A = (2 :: nat) ^ j"
  obtain i where i: "j = 3 + i" using assms(1) le_Suc_ex by blast
  have A: "8 dvd A" "0 < A" by (simp_all add: A_def i power_add)
  show "align_addr j a mod 2 ^ j = 0" by (simp add: align_addr_def mod_add_left_eq)
  have d: "(a + A - 1) div A * A \<le> a + A - 1" by simp
  have m: "a + A - 1 < (a + A - 1) div A * A + A" using A(2) by (metis add.commute dividend_less_div_times)
  show "align_addr j a \<le> a + 2 ^ j" using d A(2) by (simp add: align_addr_def A_def [symmetric] del: div_times_less_eq_dividend) linarith
  show "a + 8 \<le> align_addr j a"
  proof (cases "a mod A = 0")
    case True
    then show ?thesis using A dvd_imp_le [of 8 A] by (simp add: align_addr_def A_def [symmetric])
  next
    case False
    define q where "q = (a + A - 1) div A * A"
    have "a \<le> q" using m A(2) by (simp add: q_def)
    moreover have "q mod A = 0" by (simp add: q_def)
    then have "a \<noteq> q" using False by metis
    moreover have "q mod 8 = 0" using A(1) by (simp add: q_def mod_eq_0_iff_dvd)
    ultimately have "a + 8 \<le> q" using assms(2) by presburger
    then show ?thesis using False by (simp add: align_addr_def A_def [symmetric] q_def)
  qed
qed

lemma align_ptr_word:
  fixes a :: nat
  assumes "a + 2 ^ j < 2 ^ 64" "j < 64"
  defines "w \<equiv> of_nat a :: u64"
  shows "unat (if w AND (2 ^ j - 1) = 0 then w + 2 ^ j else (w + (2 ^ j - 1)) AND NOT (2 ^ j - 1)) = align_addr j a"
proof -
  have m: "(2 :: u64) ^ j - 1 = mask j" by (simp add: mask_eq_exp_minus_1)
  have w: "unat w = a" using assms by simp
  have p: "unat ((2 :: u64) ^ j) = 2 ^ j" by (rule unat_2p [OF assms(2)])
  then have nz: "(2 :: u64) ^ j \<noteq> 0" by (metis power_not_zero unat_0 zero_neq_numeral)
  have k: "unat (mask j :: u64) = 2 ^ j - 1" unfolding m [symmetric] unat_minus1 [OF nz] p ..
  have "unat (w + 2 ^ j) = a + 2 ^ j" using assms(1) by (simp add: unat_word_ariths w p)
  moreover have "unat (w + mask j) = a + (2 ^ j - 1)" using assms(1) by (simp add: unat_word_ariths w k)
  ultimately show ?thesis unfolding m using assms(2) by (simp add: and_mask_0 w unat_and_not_mask align_addr_def)
qed


lemma malloc_align_result:
  assumes good: "heap_good s" and j: "3 \<le> j" "j < 64" and sz: "unat sz + 2 ^ j + 16 < 2 ^ 64"
  shows "\<exists>r s'. rt_malloc_align sz (2 ^ j) s = Some (r, s') \<and> heap_good s' \<and>
    (case r of None \<Rightarrow> s' = s
     | Some q \<Rightarrow> q mod 2 ^ j = 0 \<and> (\<exists>a k. (a, k) \<notin> heap_blocks s \<and> heap_blocks s' = insert (a, k) (heap_blocks s) \<and>
         a + 8 \<le> q \<and> q + unat sz \<le> a + k \<and> get_cell s' (q - 8) = of_nat a))"
proof -
  let ?n = "rt_align sz + 2 ^ j"
  have al: "rt_align (2 ^ j) = 2 ^ j"
  proof -
    obtain i where i: "j = 3 + i" using j(1) le_Suc_ex by blast
    have "unat ((2 :: u64) ^ j) + 7 < 2 ^ 64" "unat ((2 :: u64) ^ j) mod 8 = 0"
      using sz unat_2p [OF j(2)] by (simp_all add: i power_add)
    then have "unat (rt_align (2 ^ j)) = unat ((2 :: u64) ^ j)" using rt_align_facts [of "2 ^ j"] by presburger
    then show ?thesis by (simp add: word_unat_eq_iff)
  qed
  have n: "unat ?n = unat (rt_align sz) + 2 ^ j" "unat sz \<le> unat (rt_align sz)" "unat ?n + 7 < 2 ^ 64"
    using rt_align_facts(2) [of sz] sz unat_2p [OF j(2)] by (auto simp: unat_word_ariths)
  obtain r s1 where r: "rt_malloc ?n s = Some (r, s1)" "heap_good s1"
      "case r of None \<Rightarrow> s1 = s | Some a \<Rightarrow> a mod 8 = 0 \<and> (\<exists>k. (unat ?n + 7 < 2 ^ 64 \<longrightarrow> unat ?n \<le> k) \<and> (a, k) \<notin> heap_blocks s \<and> heap_blocks s1 = insert (a, k) (heap_blocks s))"
    using hp.alloc_law [OF good, of ?n] by auto
  show ?thesis
  proof (cases r)
    case None
    with r show ?thesis by (simp add: rt_malloc_align_def Let_def al)
  next
    case (Some a)
    with r(3) n obtain k where k: "a mod 8 = 0" "unat ?n \<le> k" "(a, k) \<notin> heap_blocks s" "heap_blocks s1 = insert (a, k) (heap_blocks s)" by auto
    have ran: "0 < k \<and> 0 < a \<and> a + k < 2 ^ 64" by (rule hp.in_range [OF r(2)]) (simp add: k)
    let ?q = "align_addr j a"
    note q = align_addr_facts [OF j(1) k(1)]
    have w: "unat (if of_nat a AND (2 ^ j - 1) = (0 :: u64) then (of_nat a + 2 ^ j :: u64) else (of_nat a + (2 ^ j - 1)) AND NOT (2 ^ j - 1)) = ?q"
      by (rule align_ptr_word) (use ran k(2) n j(2) in auto)
    define W where "W = (if of_nat a AND (2 ^ j - 1) = (0 :: u64) then (of_nat a + 2 ^ j :: u64) else (of_nat a + (2 ^ j - 1)) AND NOT (2 ^ j - 1))"
    have W: "unat W = ?q" using w by (simp only: W_def)
    have "8 \<le> W" unfolding word_le_nat_alt W using q(2) by simp
    then have W8: "unat (W - 8) = ?q - 8" by (simp add: unat_sub W)
    have "rt_malloc_align sz (2 ^ j) s = Some (Some ?q, put_cell (?q - 8) (of_nat a) s1)"
      unfolding rt_malloc_align_def al Let_def using r(1) Some by (simp add: W_def [symmetric] W W8)
    moreover have "heap_good (put_cell (?q - 8) (of_nat a) s1) \<and> heap_blocks (put_cell (?q - 8) (of_nat a) s1) = heap_blocks s1"
      by (rule hp.put_law [OF r(2), of a k]) (use k q n in auto)
    moreover have "?q + unat sz \<le> a + k" using k(2) q(3) n by linarith
    moreover have "get_cell (put_cell (?q - 8) (of_nat a) s1) (?q - 8) = of_nat a" by (simp add: hp.get_put)
    ultimately show ?thesis using k(3,4) q(1,2)
      by (intro exI [of _ "Some ?q"] exI [of _ "put_cell (?q - 8) (of_nat a) s1"]) (simp, blast)
  qed
qed

lemma free_align_result:
  assumes "get_cell s (q - 8) = of_nat a" "8 \<le> q" "q < 2 ^ 64" "a < 2 ^ 64"
  shows "rt_free_align q s = rt_free a s"
proof -
  have "unat (of_nat q - 8 :: u64) = q - 8"
    using assms(2,3) by (subst unat_sub) (simp_all add: word_le_nat_alt)
  then show ?thesis using assms by (simp add: rt_free_align_def)
qed

text \<open>The system heap after its initialisation: no block is in use.\<close>

lemma heap_init_good:
  assumes b: "0 < unat b" "unat b + 136 < 2 ^ 64" "unat (rt_align b) + 160 \<le> unat e"
    and fresh: "pools (hs_mem s) (unat (rt_align b)) = None"
  shows "\<exists>s'. rt_system_heap_init b e s = Some s' \<and> (if unat (rt_align b) + 160 \<le> unat e div 8 * 8 then heap_good s' \<and> heap_blocks s' = {} else system_heap s' = None)"
proof -
  let ?b = "rt_align b" and ?e = "e AND NOT 7"
  have al: "unat (rt_align ?b) = unat ?b" "rt_align ?b = ?b"
    using align_again [of b] rt_align_facts [of b] b by (auto simp: word_unat_eq_iff)
  have e: "unat ?e = unat e div 8 * 8" by (rule unat_and_not7)
  have lt: "?b < ?e" unfolding word_less_nat_alt e using b(3) by linarith
  have d: "unat (?e - ?b) = unat ?e - unat ?b" by (rule unat_sub) (use lt in simp)
  have sum: "unat ?b + unat (?e - ?b) = unat ?e" using d lt by (simp add: word_less_nat_alt)
  have ini: "if unat ?b + 160 \<le> unat ?e div 8 * 8
      then \<exists>m c. rt_smem_init ?b (?e - ?b) (hs_mem s) = Some (Some (unat ?b), \<lparr>cells = c, pools = (pools (hs_mem s))(unat ?b \<mapsto> m)\<rparr>) \<and>
        smem_ok (unat ?b) m c [(False, unat ?e div 8 * 8 - unat ?b - 160)] \<and> heap_end m + 24 = unat ?e div 8 * 8 \<and> heap_ptr m = unat ?b + 112 \<and>
        (\<forall>x. x < unat ?b + 112 \<or> unat ?e div 8 * 8 \<le> x \<longrightarrow> c x = cells (hs_mem s) x)
      else rt_smem_init ?b (?e - ?b) (hs_mem s) = Some (None, hs_mem s)"
  proof (rule init_result [of ?b "?e - ?b" "hs_mem s", unfolded sum al])
    show "0 < unat ?b" "unat ?b + 128 < 2 ^ 64" using rt_align_facts(2) [of b] b by auto
    show "unat ?e < 2 ^ 64" using unsigned_less [of ?e] by simp
  qed (rule fresh)
  show ?thesis
  proof (cases "unat ?b + 160 \<le> unat ?e div 8 * 8")
    case True
    then obtain m c where i: "rt_smem_init ?b (?e - ?b) (hs_mem s) = Some (Some (unat ?b), \<lparr>cells = c, pools = (pools (hs_mem s))(unat ?b \<mapsto> m)\<rparr>)"
        "smem_ok (unat ?b) m c [(False, unat ?e div 8 * 8 - unat ?b - 160)]" using ini by auto
    define s' where "s' = \<lparr>hs_mem = \<lparr>cells = c, pools = (pools (hs_mem s))(unat ?b \<mapsto> m)\<rparr>, system_heap = Some (unat ?b)\<rparr>"
    have v: "heap_view s' (unat ?b) m [(False, unat ?e div 8 * 8 - unat ?b - 160)]" using i(2) by (simp add: heap_view_def s'_def)
    have "rt_system_heap_init b e s = Some s'" using i(1) lt by (simp add: rt_system_heap_init_def Let_def s'_def)
    then show ?thesis using True heap_blocks_view [OF v] v e by (auto simp: heap_good_def)
  next
    case False
    then show ?thesis using ini lt e by (auto simp: rt_system_heap_init_def Let_def)
  qed
qed


subsection \<open>Cleared blocks, and sizes that wrap around\<close>

lemma calloc_block:
  assumes r: "rt_malloc (count * sz) s = Some (Some a, s1)" "heap_good s1" and k: "(a, k) \<in> heap_blocks s1" "unat (count * sz) \<le> k"
  shows "\<exists>s'. rt_calloc count sz s = Some (Some a, s') \<and> heap_good s' \<and> heap_blocks s' = heap_blocks s1 \<and>
    (\<forall>x. a \<le> x \<and> x + 8 \<le> a + unat (count * sz) \<longrightarrow> get_cell s' x = 0)"
proof -
  let ?n = "count * sz"
  obtain p m bs where v: "heap_view s1 p m bs" using r(2) by (auto simp: heap_good_def)
  define c' where "c' = zero_cells a (unat ?n) (cells (hs_mem s1))"
  define s' where "s' = s1\<lparr>hs_mem := (hs_mem s1)\<lparr>cells := c'\<rparr>\<rparr>"
  have "smem_ok p m c' bs"
  proof (rule smem_ok_data [of p m "cells (hs_mem s1)"])
    show "smem_ok p m (cells (hs_mem s1)) bs" using v by (simp add: heap_view_def)
    fix x assume "x \<notin> used_data (heap_ptr m) 0 bs"
    then have "\<not> (a \<le> x \<and> x < a + k)" using view_data [OF v, of a k x] k(1) by auto
    then show "c' x = cells (hs_mem s1) x" using k(2) by (auto simp: c'_def zero_cells_def)
  qed
  then have v': "heap_view s' p m bs" using v by (simp add: heap_view_def s'_def)
  have "rt_calloc count sz s = Some (Some a, s')" using r(1) by (simp add: rt_calloc_def s'_def c'_def)
  moreover have "heap_blocks s' = heap_blocks s1" using heap_blocks_view [OF v'] heap_blocks_view [OF v] by simp
  moreover have "\<forall>x. a \<le> x \<and> x + 8 \<le> a + unat ?n \<longrightarrow> get_cell s' x = 0"
    by (simp add: get_cell_def s'_def c'_def zero_cells_def)
  ultimately show ?thesis using v' by (auto simp: heap_good_def)
qed

lemma calloc_result:
  assumes good: "heap_good s" and n: "unat (count * sz) + 7 < 2 ^ 64"
  shows "\<exists>r s'. rt_calloc count sz s = Some (r, s') \<and> heap_good s' \<and>
    (case r of None \<Rightarrow> s' = s
     | Some a \<Rightarrow> \<exists>k. unat (count * sz) \<le> k \<and> (a, k) \<notin> heap_blocks s \<and> heap_blocks s' = insert (a, k) (heap_blocks s) \<and>
         (\<forall>x. a \<le> x \<and> x + 8 \<le> a + unat (count * sz) \<longrightarrow> get_cell s' x = 0))"
proof -
  let ?n = "count * sz"
  obtain r s1 where r: "rt_malloc ?n s = Some (r, s1)" "heap_good s1"
      "case r of None \<Rightarrow> s1 = s | Some a \<Rightarrow> a mod 8 = 0 \<and> (\<exists>k. (unat ?n + 7 < 2 ^ 64 \<longrightarrow> unat ?n \<le> k) \<and> (a, k) \<notin> heap_blocks s \<and> heap_blocks s1 = insert (a, k) (heap_blocks s))"
    using hp.alloc_law [OF good, of ?n] by auto
  show ?thesis
  proof (cases r)
    case None
    with r show ?thesis by (simp add: rt_calloc_def)
  next
    case (Some a)
    with r(3) n obtain k where k: "unat ?n \<le> k" "(a, k) \<notin> heap_blocks s" "heap_blocks s1 = insert (a, k) (heap_blocks s)" by auto
    with calloc_block [of count sz s a s1 k] r(1,2) Some show ?thesis by auto
  qed
qed

text \<open>Requests that wrap to less than a block, and small requests, both take a block of the least size.\<close>

lemma block_size_least:
  "2 ^ 64 \<le> unat sz + 7 \<Longrightarrow> block_size sz = 24" "unat sz \<le> 24 \<Longrightarrow> block_size sz = 24"
proof -
  have b: "unat sz < 2 ^ 64" using unsigned_less [of sz] by simp
  assume "2 ^ 64 \<le> unat sz + 7"
  then obtain r where "unat sz + 7 = r + 2 ^ 64" "r < 8" using b le_Suc_ex [of "2 ^ 64" "unat sz + 7"] by (auto simp: add.commute)
  then have "(unat sz + 7) mod 2 ^ 64 div 8 = 0" by simp
  then show "block_size sz = 24" unfolding block_size_def unat_rt_align by simp
next
  assume "unat sz \<le> 24"
  then have "(unat sz + 7) mod 2 ^ 64 div 8 * 8 \<le> 24" by simp
  then show "block_size sz = 24" unfolding block_size_def unat_rt_align by simp
qed

end
