(* ===== verification/RT_HeapSpec.thy ===== *)
theory RT_HeapSpec
  imports RT_Heap
begin

text \<open>
  What the system heap and the small memory allocator promise: first fit, merging of free
  neighbours, resizing that keeps the contents, blocks that stay apart, and aligned blocks.
\<close>

text \<open>An example: a heap of 448 bytes at address 4208 with a block of 24 bytes in use and the rest free.\<close>

definition ex_small_mem :: rt_small_mem where
  "ex_small_mem = \<lparr>sm_type = 0x8c, sm_address = 4208, sm_total = 448, sm_used = 48, sm_max = 48, heap_ptr = 4208,
     heap_end = 4680, lfree = 4256, mem_size_aligned = 448\<rparr>"

definition ex_smem :: smem_state where
  "ex_smem = \<lparr>cells = (\<lambda>_. 0)(4208 := mem_used 4096, 4216 := 48, 4232 := 7, 4256 := mem_freed 4096, 4264 := 472, 4680 := mem_used 4096),
     pools = [4096 \<mapsto> ex_small_mem]\<rparr>"

definition ex_heap :: heap_state where
  "ex_heap = \<lparr>hs_mem = ex_smem, system_heap = Some 4096\<rparr>"

lemma ex_smem_ok: "pools ex_smem 4096 = Some ex_small_mem" "smem_ok 4096 ex_small_mem (cells ex_smem) [(True, 24), (False, 400)]"
  by (simp_all add: ex_smem_def ex_small_mem_def smem_ok_def layout_def mem_used_def mem_freed_def)

lemma ex_heap_good: "heap_good ex_heap" "heap_blocks ex_heap = {(4232, 24)}"
proof -
  have v: "heap_view ex_heap 4096 ex_small_mem [(True, 24), (False, 400)]"
    using ex_smem_ok by (simp add: heap_view_def ex_heap_def)
  then show "heap_good ex_heap" by (auto simp: heap_good_def)
  show "heap_blocks ex_heap = {(4232, 24)}" unfolding heap_blocks_view [OF v] by (simp add: ex_small_mem_def)
qed

text \<open>
  C21. \<^verbatim>\<open>rt_smem_alloc\<close> is first fit on the list of blocks: on a heap that is in order it returns,
  and the heap stays in order. It answers \<^verbatim>\<open>RT_NULL\<close> and changes nothing exactly when no free
  block is large enough; otherwise the first such block is cut, its address is a multiple of 8
  inside the heap, and its data overlap with no block in use. The data of the blocks in use and
  the memory outside the heap are not written.
\<close>

theorem smem_alloc_first_fit:
  assumes pool: "pools s p = Some m" and ok: "smem_ok p m (cells s) bs" and sz: "sz \<noteq> 0"
  shows "\<exists>r s'. rt_smem_alloc p sz s = Some (r, s') \<and> untouched m bs (cells s) (cells s') \<and>
    (case first_fit (block_size sz) 0 bs of
       None \<Rightarrow> r = None \<and> s' = s \<and> (\<forall>(u, n)\<in>set bs. u \<or> n < block_size sz)
     | Some a \<Rightarrow> r = Some (heap_ptr m + a + 24) \<and> (heap_ptr m + a + 24) mod 8 = 0 \<and>
         (\<exists>m' k. pools s' = (pools s)(p \<mapsto> m') \<and> smem_ok p m' (cells s') (alloc_blocks (block_size sz) bs) \<and> block_size sz \<le> k \<and>
            {heap_ptr m + a + 24..<heap_ptr m + a + 24 + k} \<inter> used_data (heap_ptr m) 0 bs = {} \<and> heap_ptr m + a + 24 + k \<le> heap_end m))"
proof (cases "first_fit (block_size sz) 0 bs")
  case None
  then have "\<forall>(u, n)\<in>set bs. u \<or> n < block_size sz" by (simp add: first_fit_none)
  with None show ?thesis using alloc_result [OF pool ok sz] by (simp add: untouched_def)
next
  case (Some a)
  then obtain m' c' where r: "rt_smem_alloc p sz s = Some (Some (heap_ptr m + a + 24), \<lparr>cells = c', pools = (pools s)(p \<mapsto> m')\<rparr>)"
      "smem_ok p m' c' (alloc_blocks (block_size sz) bs)" "untouched m bs (cells s) c'"
    using alloc_result [OF pool ok sz] by auto
  obtain k where k: "block_size sz \<le> k" "used_data (heap_ptr m) 0 bs \<inter> {heap_ptr m + a + 24..<heap_ptr m + a + 24 + k} = {}" "a + 24 + k \<le> span bs"
    using alloc_data [OF Some, of "heap_ptr m"] by auto
  have L: "layout p m (cells s) bs" using ok by (simp add: smem_ok_def)
  then have "heap_end m = heap_ptr m + span bs" by (simp add: layout_def)
  moreover obtain xs l ys where "bs = xs @ (False, l) # ys" "a = span xs" using first_fit_split [OF Some] by auto
  then have "(heap_ptr m + a) mod 8 = 0" using layout_at(9) [of p m "cells s" xs False l ys] L by simp
  then have "(heap_ptr m + a + 24) mod 8 = 0" by presburger
  ultimately show ?thesis using Some r k by (simp add: Int_commute) (rule exI [of _ m'], auto)
qed

theorem smem_alloc_first_fit_witness:
  "\<exists>s' m'. rt_smem_alloc 4096 100 ex_smem = Some (Some 4280, s') \<and> pools s' 4096 = Some m' \<and>
     smem_ok 4096 m' (cells s') [(True, 24), (True, 104), (False, 272)]"
  using smem_alloc_first_fit [OF ex_smem_ok, of 100]
  by (auto simp: block_size_def rt_align_def ex_small_mem_def take_block_def)

text \<open>
  C22. \<^verbatim>\<open>rt_smem_free\<close> of a block in use returns: no assertion fails, the block is merged with
  a free block after it and a free block before it, the heap stays in order (in particular no two
  free blocks are neighbours), and the data of the other blocks in use are not written.
\<close>

theorem smem_free_merges:
  assumes pool: "pools s p = Some m" and ok: "smem_ok p m (cells s) (xs @ (True, n) # ys)"
  shows "\<exists>s' m'. rt_smem_free (heap_ptr m + span xs + 24) s = Some s' \<and> pools s' = (pools s)(p \<mapsto> m') \<and>
    smem_ok p m' (cells s') (free_blocks xs n ys) \<and> sm_used m' + 24 + n = sm_used m \<and>
    untouched m (xs @ (False, n) # ys) (cells s) (cells s')"
proof -
  obtain m' c' where "rt_smem_free (heap_ptr m + span xs + 24) s = Some \<lparr>cells = c', pools = (pools s)(p \<mapsto> m')\<rparr>"
      "smem_ok p m' c' (free_blocks xs n ys)" "untouched m (xs @ (False, n) # ys) (cells s) c'"
    using free_result [OF ok pool] by auto
  then show ?thesis using ok by (auto simp: smem_ok_def free_blocks_simps)
qed

theorem smem_free_merges_witness:
  "\<exists>s' m'. rt_smem_free 4232 ex_smem = Some s' \<and> pools s' 4096 = Some m' \<and> smem_ok 4096 m' (cells s') [(False, 448)]"
  using smem_free_merges [of ex_smem 4096 ex_small_mem "[]" 24 "[(False, 400)]"] ex_smem_ok
  by (auto simp: free_blocks_def join_prev_def ex_small_mem_def)

text \<open>
  C23. \<^verbatim>\<open>rt_smem_realloc\<close> of a block in use to a size that is not 0 returns: it answers
  \<^verbatim>\<open>RT_NULL\<close> and changes nothing, or it answers a block that is large enough, overlaps with no
  other block in use and starts with the contents of the old block, as far as both reach. The
  heap stays in order, and the data of the other blocks are not written.
\<close>

theorem smem_realloc_contents:
  assumes pool: "pools s p = Some m" and ok: "smem_ok p m (cells s) (xs @ (True, n) # ys)" and sz: "rt_align sz \<noteq> 0"
  shows "\<exists>r s'. rt_smem_realloc p (heap_ptr m + span xs + 24) sz s = Some (r, s') \<and>
    (case r of None \<Rightarrow> s' = s
     | Some q \<Rightarrow> \<exists>m' bs' k. unat (rt_align sz) \<le> k \<and> pools s' = (pools s)(p \<mapsto> m') \<and> smem_ok p m' (cells s') bs' \<and>
         used_data (heap_ptr m) 0 bs' = used_data (heap_ptr m) 0 (xs @ (False, n) # ys) \<union> {q..<q + k} \<and>
         used_data (heap_ptr m) 0 (xs @ (False, n) # ys) \<inter> {q..<q + k} = {} \<and>
         (\<forall>x\<in>used_data (heap_ptr m) 0 (xs @ (False, n) # ys). cells s' x = cells s x) \<and>
         (\<forall>i<min n (unat (rt_align sz)). cells s' (q + i) = cells s (heap_ptr m + span xs + 24 + i)))"
proof -
  have "0 < unat (rt_align sz)" using sz by (simp add: unat_gt_0)
  from realloc_result [OF pool ok this] show ?thesis
    unfolding resized_def by (elim exE conjE, intro exI conjI) (assumption, auto split: option.splits)
qed

theorem smem_realloc_contents_witness:
  "\<exists>q s'. rt_smem_realloc 4096 4232 100 ex_smem = Some (q, s') \<and> (case q of None \<Rightarrow> s' = ex_smem | Some q \<Rightarrow> cells s' q = 7)"
proof -
  have "rt_align 100 \<noteq> 0" by (simp add: rt_align_def)
  then obtain r s' where r: "rt_smem_realloc 4096 4232 100 ex_smem = Some (r, s')" "case r of None \<Rightarrow> s' = ex_smem
      | Some q \<Rightarrow> \<forall>i<min 24 (unat (rt_align 100)). cells s' (q + i) = cells ex_smem (4232 + i)"
    using smem_realloc_contents [of ex_smem 4096 ex_small_mem "[]" 24 "[(False, 400)]" 100] ex_smem_ok
    by (fastforce simp: ex_small_mem_def split: option.splits)
  show ?thesis
  proof (cases r)
    case (Some q)
    with r have "\<forall>i<24. cells s' (q + i) = cells ex_smem (4232 + i)" by (simp add: rt_align_def)
    from this [rule_format, of 0] have "cells s' q = 7" by (simp add: ex_smem_def)
    with r Some show ?thesis by auto
  qed (use r in auto)
qed


text \<open>
  C24. Allocating a block and releasing it at once gives back the heap: when \<^verbatim>\<open>rt_smem_alloc\<close>
  answers an address, \<^verbatim>\<open>rt_smem_free\<close> of that address returns and leaves exactly the list of
  blocks that was there before, with the same number of bytes in use.
\<close>

theorem smem_alloc_free:
  assumes pool: "pools s p = Some m" and ok: "smem_ok p m (cells s) bs" and sz: "sz \<noteq> 0"
    and run: "rt_smem_alloc p sz s = Some (Some q, s1)"
  shows "\<exists>s2 m2. rt_smem_free q s1 = Some s2 \<and> pools s2 = (pools s)(p \<mapsto> m2) \<and> smem_ok p m2 (cells s2) bs \<and> sm_used m2 = sm_used m"
proof -
  let ?N = "block_size sz"
  obtain a where a: "first_fit ?N 0 bs = Some a"
    using alloc_result [OF pool ok sz] run by (cases "first_fit ?N 0 bs") auto
  then obtain m1 where r: "q = heap_ptr m + a + 24" "pools s1 = (pools s)(p \<mapsto> m1)" "smem_ok p m1 (cells s1) (alloc_blocks ?N bs)" "same_heap m m1"
    using alloc_result [OF pool ok sz] run by auto
  obtain xs n ys where bs: "bs = xs @ (False, n) # ys" "a = span xs" "?N \<le> n" "alloc_blocks ?N bs = xs @ take_block ?N n @ ys"
    using first_fit_split [OF a] by auto
  have "coalesced (xs @ (False, n) # ys)" using ok by (simp add: smem_ok_def bs(1))
  then obtain k zs where k: "take_block ?N n @ ys = (True, k) # zs" "free_blocks xs k zs = bs"
    using free_take bs(1,3) by blast
  have "pools s1 p = Some m1" "smem_ok p m1 (cells s1) (xs @ (True, k) # zs)" using r(2,3) bs(4) k(1) by simp_all
  then obtain m2 c2 where "rt_smem_free (heap_ptr m1 + span xs + 24) s1 = Some \<lparr>cells = c2, pools = (pools s1)(p \<mapsto> m2)\<rparr>"
      "smem_ok p m2 c2 (free_blocks xs k zs)"
    using free_result by blast
  then show ?thesis using r(1,2,4) bs(2) k(2) ok by (auto simp: same_heap_def smem_ok_def)
qed

theorem smem_alloc_free_witness:
  "\<exists>q s1 s2 m2. rt_smem_alloc 4096 100 ex_smem = Some (Some q, s1) \<and> rt_smem_free q s1 = Some s2 \<and> pools s2 4096 = Some m2 \<and>
     smem_ok 4096 m2 (cells s2) [(True, 24), (False, 400)]"
proof -
  have "first_fit (block_size 100) 0 [(True, 24), (False, 400)] = Some 48" by (simp add: block_size_def rt_align_def)
  then obtain q s1 where q: "rt_smem_alloc 4096 100 ex_smem = Some (Some q, s1)"
    using alloc_result [OF ex_smem_ok, of 100] by auto
  from smem_alloc_free [OF ex_smem_ok _ q] q show ?thesis by auto
qed

text \<open>
  C25. Blocks of the system heap stay apart and keep their contents. As long as a program uses
  the heap as intended and spares one block in use - it calls \<^verbatim>\<open>rt_malloc\<close>, releases other
  blocks in use with \<^verbatim>\<open>rt_free\<close> and writes to other blocks in use, in any order and any number -
  the heap stays in order, the spared block stays in use and every cell of it keeps its value. No
  such call fails: the next \<^verbatim>\<open>rt_malloc\<close> and the next \<^verbatim>\<open>rt_free\<close> of a block in use return.
\<close>

theorem heap_block_kept:
  assumes "heap_good s" "(a, k) \<in> heap_blocks s" "(spares heap_blocks put_cell rt_malloc rt_free (a, k))\<^sup>*\<^sup>* s s'"
  shows "heap_good s' \<and> (a, k) \<in> heap_blocks s' \<and> (\<forall>x. a \<le> x \<and> x < a + k \<longrightarrow> get_cell s' x = get_cell s x) \<and>
    rt_malloc n s' \<noteq> None \<and> (\<forall>(b, l)\<in>heap_blocks s'. rt_free b s' \<noteq> None \<and> ((b, l) \<noteq> (a, k) \<longrightarrow> {a..<a + k} \<inter> {b..<b + l} = {}))"
proof -
  have r: "heap_good s'" "(a, k) \<in> heap_blocks s'" "\<forall>x. a \<le> x \<and> x < a + k \<longrightarrow> get_cell s' x = get_cell s x"
    using hp.spared_run [OF assms(3,1,2)] by auto
  have "rt_malloc n s' \<noteq> None" using hp.alloc_law [OF r(1), of n] by auto
  moreover have "rt_free b s' \<noteq> None \<and> ((b, l) \<noteq> (a, k) \<longrightarrow> {a..<a + k} \<inter> {b..<b + l} = {})" if "(b, l) \<in> heap_blocks s'" for b l
    using hp.release_law [OF r(1) that] hp.apart [OF r(1,2) that] by auto
  ultimately show ?thesis using r by auto
qed

theorem heap_block_kept_witness:
  "\<exists>r s'. rt_malloc 100 ex_heap = Some (r, s') \<and> (4232, 24) \<in> heap_blocks s' \<and> get_cell s' 4232 = 7"
proof -
  obtain r s' where r: "rt_malloc 100 ex_heap = Some (r, s')" using hp.alloc_law [OF ex_heap_good(1), of 100] by blast
  then have "(spares heap_blocks put_cell rt_malloc rt_free (4232, 24))\<^sup>*\<^sup>* ex_heap s'" by (blast intro: spares_alloc)
  from heap_block_kept [OF ex_heap_good(1) _ this] have "(4232, 24) \<in> heap_blocks s'"
      "\<forall>x. 4232 \<le> x \<and> x < 4232 + 24 \<longrightarrow> get_cell s' x = get_cell ex_heap x"
    by (simp_all add: ex_heap_good)
  from this(1) this(2) [rule_format, of 4232] r show ?thesis by (simp add: get_cell_def ex_heap_def ex_smem_def)
qed

text \<open>
  C26. \<^verbatim>\<open>rt_malloc_align\<close> with an alignment that is a power of two from 8 on returns: it answers
  \<^verbatim>\<open>RT_NULL\<close> and changes nothing, or it answers a multiple of the alignment with at least the
  requested number of bytes inside a fresh block. After any further use of the heap that spares
  this block, \<^verbatim>\<open>rt_free_align\<close> of the address releases exactly the block.
\<close>

theorem malloc_align_free:
  assumes "heap_good s" "3 \<le> j" "j < 64" "unat sz + 2 ^ j + 16 < 2 ^ 64"
  shows "\<exists>r s1. rt_malloc_align sz (2 ^ j) s = Some (r, s1) \<and> heap_good s1 \<and>
    (case r of None \<Rightarrow> s1 = s
     | Some q \<Rightarrow> q mod 2 ^ j = 0 \<and> (\<exists>a k. heap_blocks s1 = insert (a, k) (heap_blocks s) \<and> (a, k) \<notin> heap_blocks s \<and>
         a + 8 \<le> q \<and> q + unat sz \<le> a + k \<and>
         (\<forall>s2. (spares heap_blocks put_cell rt_malloc rt_free (a, k))\<^sup>*\<^sup>* s1 s2 \<longrightarrow>
            (\<exists>s3. rt_free_align q s2 = Some s3 \<and> heap_good s3 \<and> heap_blocks s3 = heap_blocks s2 - {(a, k)}))))"
proof -
  obtain r s1 where r: "rt_malloc_align sz (2 ^ j) s = Some (r, s1)" "heap_good s1"
      "case r of None \<Rightarrow> s1 = s
       | Some q \<Rightarrow> q mod 2 ^ j = 0 \<and> (\<exists>a k. (a, k) \<notin> heap_blocks s \<and> heap_blocks s1 = insert (a, k) (heap_blocks s) \<and>
           a + 8 \<le> q \<and> q + unat sz \<le> a + k \<and> get_cell s1 (q - 8) = of_nat a)"
    using malloc_align_result [OF assms] by blast
  show ?thesis
  proof (cases r)
    case (Some q)
    with r(3) obtain a k where q: "q mod 2 ^ j = 0" "(a, k) \<notin> heap_blocks s" "heap_blocks s1 = insert (a, k) (heap_blocks s)"
        "a + 8 \<le> q" "q + unat sz \<le> a + k" "get_cell s1 (q - 8) = of_nat a" by auto
    have ran: "0 < k \<and> 0 < a \<and> a + k < 2 ^ 64" by (rule hp.in_range [OF r(2)]) (simp add: q)
    have "\<exists>s3. rt_free_align q s2 = Some s3 \<and> heap_good s3 \<and> heap_blocks s3 = heap_blocks s2 - {(a, k)}"
      if run: "(spares heap_blocks put_cell rt_malloc rt_free (a, k))\<^sup>*\<^sup>* s1 s2" for s2
    proof -
      have g: "heap_good s2" "(a, k) \<in> heap_blocks s2" "\<forall>x. a \<le> x \<and> x < a + k \<longrightarrow> get_cell s2 x = get_cell s1 x"
        using hp.spared_run [OF run r(2)] q(3) by auto
      have "get_cell s2 (q - 8) = get_cell s1 (q - 8)" by (rule g(3) [rule_format]) (use q(4,5) in arith)
      then have "rt_free_align q s2 = rt_free a s2" using free_align_result [of s2 q a] q(4-6) ran by simp
      then show ?thesis using hp.release_law [OF g(1,2)] by auto
    qed
    with r(1,2) Some q show ?thesis by auto
  qed (use r in auto)
qed

theorem malloc_align_free_witness:
  "\<exists>r s1. rt_malloc_align 100 32 ex_heap = Some (r, s1) \<and> (case r of None \<Rightarrow> s1 = ex_heap | Some q \<Rightarrow> q mod 32 = 0 \<and> (\<exists>s3. rt_free_align q s1 = Some s3))"
proof -
  obtain r s1 where "rt_malloc_align 100 (2 ^ 5) ex_heap = Some (r, s1)" "case r of None \<Rightarrow> s1 = ex_heap
     | Some q \<Rightarrow> q mod 2 ^ 5 = 0 \<and> (\<exists>a k. \<forall>s2. (spares heap_blocks put_cell rt_malloc rt_free (a, k))\<^sup>*\<^sup>* s1 s2 \<longrightarrow> (\<exists>s3. rt_free_align q s2 = Some s3))"
    using malloc_align_free [OF ex_heap_good(1), of 5 100] by (fastforce split: option.splits)
  then show ?thesis by (cases r) (auto split: option.splits)
qed

text \<open>A request that was answered with a fresh block of the least size, at the address \<open>q\<close>.\<close>

definition least_block :: "nat \<Rightarrow> heap_state \<Rightarrow> (nat option \<times> heap_state) option \<Rightarrow> bool" where
  "least_block q s r \<longleftrightarrow> (\<exists>s' k. r = Some (Some q, s') \<and> heap_good s' \<and> (q, k) \<notin> heap_blocks s \<and>
     heap_blocks s' = insert (q, k) (heap_blocks s) \<and> 24 \<le> k \<and> k < 72)"

text \<open>
  C27. Sizes wrap around. Rounding a request of $2^{64} - 7$ bytes or more up to a multiple of 8 wraps to
  0, so \<^verbatim>\<open>rt_malloc\<close> answers it, whenever some free block has 24 bytes, with a fresh block of 24 to
  71 bytes. And \<^verbatim>\<open>rt_calloc\<close> answers a request whose total is $2^{64}$ bytes or more but wraps to at most 24
  with such a block as well.
\<close>

theorem malloc_size_wraps:
  assumes "heap_view s p m bs" "first_fit 24 0 bs = Some a"
  shows "(2 ^ 64 \<le> unat n + 7 \<longrightarrow> least_block (heap_ptr m + a + 24) s (rt_malloc n s)) \<and>
    (2 ^ 64 \<le> unat count * unat sz \<and> count * sz \<noteq> 0 \<and> unat (count * sz) \<le> 24 \<longrightarrow>
       least_block (heap_ptr m + a + 24) s (rt_calloc count sz s))"
proof (intro conjI impI)
  let ?q = "heap_ptr m + a + 24"
  have b: "least_block ?q s (rt_malloc n s)" if "n \<noteq> 0" "block_size n = 24" for n
    unfolding least_block_def using malloc_block [OF assms(1) that(1), of a] assms(2) that(2) by auto
  show "least_block ?q s (rt_malloc n s)" if "2 ^ 64 \<le> unat n + 7"
    using b [of n] block_size_least(1) [OF that] that by (cases "n = 0") auto
  assume c: "2 ^ 64 \<le> unat count * unat sz \<and> count * sz \<noteq> 0 \<and> unat (count * sz) \<le> 24"
  then obtain s1 k where k: "rt_malloc (count * sz) s = Some (Some ?q, s1)" "heap_good s1" "(?q, k) \<notin> heap_blocks s"
      "heap_blocks s1 = insert (?q, k) (heap_blocks s)" "24 \<le> k" "k < 72"
    using b [of "count * sz"] block_size_least(2) [of "count * sz"] by (auto simp: least_block_def)
  moreover obtain s' where "rt_calloc count sz s = Some (Some ?q, s')" "heap_good s'" "heap_blocks s' = heap_blocks s1"
    using calloc_block [OF k(1,2), of k] k(4,5) c by auto
  ultimately show "least_block ?q s (rt_calloc count sz s)" by (auto simp: least_block_def)
qed

theorem malloc_size_wraps_witness:
  "least_block 4280 ex_heap (rt_malloc (- 1) ex_heap) \<and> least_block 4280 ex_heap (rt_calloc (2 ^ 61 + 1) 8 ex_heap)"
proof -
  have v: "heap_view ex_heap 4096 ex_small_mem [(True, 24), (False, 400)]" "first_fit 24 0 [(True, 24), (False, 400)] = Some 48"
    using ex_smem_ok by (simp_all add: heap_view_def ex_heap_def)
  have q: "heap_ptr ex_small_mem + 48 + 24 = 4280" by (simp add: ex_small_mem_def)
  have u: "unat (- 1 :: u64) = 2 ^ 64 - 1" by (simp add: unsigned_minus_1_eq_mask mask_eq_exp_minus_1)
  show ?thesis using malloc_size_wraps [OF v, of "- 1" "2 ^ 61 + 1" 8] unfolding q u by simp
qed

end
