(* ===== verification/RT_Ring.thy ===== *)
theory RT_Ring
  imports RT_Fifo RT_HeapSpec
begin

text \<open>
  The ring buffer of bytes (\<^verbatim>\<open>components/drivers/ipc/ringbuffer.c\<close>). The fields are natural
  numbers with the arithmetic of the source written out: a store to an index keeps 31 bits, the
  lengths are differences in 32 and 64 bits. The memory from the pool on is a list of bytes, which
  may go on behind the pool; a copy outside of it or outside the caller's buffer fails. The
  abstract view is the list of the stored bytes; a mirror bit per index tells a full buffer from
  an empty one. In a buffer in order the indices stay below the capacity; a capacity of 0, which
  \<^verbatim>\<open>rt_ringbuffer_init\<close> gives for sizes below 8, is not in order.
\<close>

subsection \<open>Model\<close>

record rt_ringbuffer =
  buffer_ptr :: "u8 list"
  read_mirror :: bool
  read_index :: nat
  write_mirror :: bool
  write_index :: nat
  buffer_size :: nat

datatype rt_ringbuffer_state = RT_RINGBUFFER_EMPTY | RT_RINGBUFFER_FULL | RT_RINGBUFFER_HALFFULL

text \<open>The difference of two \<^verbatim>\<open>int\<close> values that are not negative, as \<^verbatim>\<open>rt_uint32_t\<close>.\<close>

definition sub32 :: "nat \<Rightarrow> nat \<Rightarrow> nat" where
  "sub32 a b = (a + 2 ^ 32 - b) mod 2 ^ 32"

text \<open>\<^verbatim>\<open>rt_memcpy\<close> into and out of an array.\<close>

definition blit :: "'a list \<Rightarrow> nat \<Rightarrow> 'a list \<Rightarrow> 'a list option" where
  "blit pool i xs = (if i + length xs \<le> length pool then Some (take i pool @ xs @ drop (i + length xs) pool) else None)"

definition rb_slice :: "'a list \<Rightarrow> nat \<Rightarrow> nat \<Rightarrow> 'a list option" where
  "rb_slice xs i n = (if i + n \<le> length xs then Some (take n (drop i xs)) else None)"

definition rt_ringbuffer_status :: "rt_ringbuffer \<Rightarrow> rt_ringbuffer_state" where
  "rt_ringbuffer_status rb =
     (if read_index rb = write_index rb
      then if read_mirror rb = write_mirror rb then RT_RINGBUFFER_EMPTY else RT_RINGBUFFER_FULL
      else RT_RINGBUFFER_HALFFULL)"

definition rt_ringbuffer_init :: "u8 list \<Rightarrow> u32 \<Rightarrow> rt_ringbuffer option" where
  "rt_ringbuffer_init pool sz =
     do { rt_assert (0 <s sz);
          Some \<lparr>buffer_ptr = pool, read_mirror = False, read_index = 0, write_mirror = False, write_index = 0,
                buffer_size = unat (sz AND NOT 7)\<rparr> }"

definition rt_ringbuffer_data_len :: "rt_ringbuffer \<Rightarrow> nat" where
  "rt_ringbuffer_data_len rb =
     (case rt_ringbuffer_status rb of
        RT_RINGBUFFER_EMPTY \<Rightarrow> 0
      | RT_RINGBUFFER_FULL \<Rightarrow> buffer_size rb
      | RT_RINGBUFFER_HALFFULL \<Rightarrow>
          if read_index rb < write_index rb then write_index rb - read_index rb
          else sub64 (buffer_size rb) (read_index rb - write_index rb))"

definition rt_ringbuffer_space_len :: "rt_ringbuffer \<Rightarrow> nat" where
  "rt_ringbuffer_space_len rb = sub64 (buffer_size rb) (rt_ringbuffer_data_len rb)"

text \<open>Storing \<open>len\<close> bytes at the write index, on both sides of the end of the pool.\<close>

definition rb_store :: "u8 list \<Rightarrow> nat \<Rightarrow> rt_ringbuffer \<Rightarrow> rt_ringbuffer option" where
  "rb_store ptr len rb =
     (if len < sub32 (buffer_size rb) (write_index rb)
      then do { xs \<leftarrow> rb_slice ptr 0 len;
                pool \<leftarrow> blit (buffer_ptr rb) (write_index rb) xs;
                Some (rb\<lparr>buffer_ptr := pool, write_index := (write_index rb + len) mod 2 ^ 31\<rparr>) }
      else do { let k = sub64 (buffer_size rb) (write_index rb);
                let rest = sub32 len (sub32 (buffer_size rb) (write_index rb));
                xs \<leftarrow> rb_slice ptr 0 k;
                pool \<leftarrow> blit (buffer_ptr rb) (write_index rb) xs;
                ys \<leftarrow> rb_slice ptr k rest;
                pool \<leftarrow> blit pool 0 ys;
                Some (rb\<lparr>buffer_ptr := pool, write_mirror := \<not> write_mirror rb, write_index := rest mod 2 ^ 31\<rparr>) })"

definition rt_ringbuffer_put :: "u8 list \<Rightarrow> nat \<Rightarrow> rt_ringbuffer \<Rightarrow> (nat \<times> rt_ringbuffer) option" where
  "rt_ringbuffer_put ptr len rb =
     (let sz = rt_ringbuffer_space_len rb mod 2 ^ 32
      in if sz = 0 then Some (0, rb)
         else do { let len = (if sz < len then sz else len);
                   rb \<leftarrow> rb_store ptr len rb;
                   Some (len, rb) })"

definition rt_ringbuffer_put_force :: "u8 list \<Rightarrow> nat \<Rightarrow> rt_ringbuffer \<Rightarrow> (nat \<times> rt_ringbuffer) option" where
  "rt_ringbuffer_put_force ptr len rb =
     (let space_length = rt_ringbuffer_space_len rb mod 2 ^ 32;
          (ptr, len) = (if buffer_size rb < len then (drop (len - buffer_size rb) ptr, buffer_size rb) else (ptr, len));
          wraps = \<not> len < sub32 (buffer_size rb) (write_index rb)
      in do { rb \<leftarrow> rb_store ptr len rb;
              let rb = (if space_length < len
                then (if wraps \<and> write_index rb \<le> read_index rb then rb\<lparr>read_mirror := \<not> read_mirror rb\<rparr> else rb)
                  \<lparr>read_index := write_index rb\<rparr>
                else rb);
              Some (len, rb) })"

text \<open>The bytes read and the buffer afterwards.\<close>

definition rt_ringbuffer_get :: "nat \<Rightarrow> rt_ringbuffer \<Rightarrow> (u8 list \<times> rt_ringbuffer) option" where
  "rt_ringbuffer_get len rb =
     (let sz = rt_ringbuffer_data_len rb
      in if sz = 0 then Some ([], rb)
         else let len = (if sz < len then sz else len)
              in if len < sub32 (buffer_size rb) (read_index rb)
                 then do { xs \<leftarrow> rb_slice (buffer_ptr rb) (read_index rb) len;
                           Some (xs, rb\<lparr>read_index := (read_index rb + len) mod 2 ^ 31\<rparr>) }
                 else do { let rest = sub32 len (sub32 (buffer_size rb) (read_index rb));
                           xs \<leftarrow> rb_slice (buffer_ptr rb) (read_index rb) (sub64 (buffer_size rb) (read_index rb));
                           ys \<leftarrow> rb_slice (buffer_ptr rb) 0 rest;
                           Some (xs @ ys, rb\<lparr>read_mirror := \<not> read_mirror rb, read_index := rest mod 2 ^ 31\<rparr>) })"

text \<open>The index in the pool the caller is given, the number of bytes there and the buffer afterwards.\<close>

definition rt_ringbuffer_peek :: "rt_ringbuffer \<Rightarrow> nat option \<times> nat \<times> rt_ringbuffer" where
  "rt_ringbuffer_peek rb =
     (let sz = rt_ringbuffer_data_len rb
      in if sz = 0 then (None, 0, rb)
         else if sz < sub64 (buffer_size rb) (read_index rb)
         then (Some (read_index rb), sz, rb\<lparr>read_index := (read_index rb + sz) mod 2 ^ 31\<rparr>)
         else (Some (read_index rb), sub64 (buffer_size rb) (read_index rb), rb\<lparr>read_mirror := \<not> read_mirror rb, read_index := 0\<rparr>))"

definition rb_store_char :: "u8 \<Rightarrow> rt_ringbuffer \<Rightarrow> rt_ringbuffer option" where
  "rb_store_char ch rb =
     do { pool \<leftarrow> blit (buffer_ptr rb) (write_index rb) [ch];
          Some (if int (write_index rb) = int (buffer_size rb) - 1
                then rb\<lparr>buffer_ptr := pool, write_mirror := \<not> write_mirror rb, write_index := 0\<rparr>
                else rb\<lparr>buffer_ptr := pool, write_index := (write_index rb + 1) mod 2 ^ 31\<rparr>) }"

definition rt_ringbuffer_putchar :: "u8 \<Rightarrow> rt_ringbuffer \<Rightarrow> (nat \<times> rt_ringbuffer) option" where
  "rt_ringbuffer_putchar ch rb =
     (if rt_ringbuffer_space_len rb = 0 then Some (0, rb)
      else do { rb \<leftarrow> rb_store_char ch rb; Some (1, rb) })"

definition rt_ringbuffer_putchar_force :: "u8 \<Rightarrow> rt_ringbuffer \<Rightarrow> (nat \<times> rt_ringbuffer) option" where
  "rt_ringbuffer_putchar_force ch rb =
     (let old_state = rt_ringbuffer_status rb; wraps = (int (write_index rb) = int (buffer_size rb) - 1)
      in do { rb \<leftarrow> rb_store_char ch rb;
              Some (1, if old_state = RT_RINGBUFFER_FULL
                then (if wraps then rb\<lparr>read_mirror := \<not> read_mirror rb\<rparr> else rb)\<lparr>read_index := write_index rb\<rparr>
                else rb) })"

definition rt_ringbuffer_getchar :: "rt_ringbuffer \<Rightarrow> (u8 option \<times> rt_ringbuffer) option" where
  "rt_ringbuffer_getchar rb =
     (if rt_ringbuffer_data_len rb = 0 then Some (None, rb)
      else do { xs \<leftarrow> rb_slice (buffer_ptr rb) (read_index rb) 1;
                Some (Some (hd xs),
                  if int (read_index rb) = int (buffer_size rb) - 1
                  then rb\<lparr>read_mirror := \<not> read_mirror rb, read_index := 0\<rparr>
                  else rb\<lparr>read_index := (read_index rb + 1) mod 2 ^ 31\<rparr>) })"

definition rt_ringbuffer_reset :: "rt_ringbuffer \<Rightarrow> rt_ringbuffer" where
  "rt_ringbuffer_reset rb = rb\<lparr>read_mirror := False, read_index := 0, write_mirror := False, write_index := 0\<rparr>"

definition rt_ringbuffer_get_size :: "rt_ringbuffer \<Rightarrow> nat" where
  "rt_ringbuffer_get_size rb = buffer_size rb"

text \<open>
  Creation and destruction on the heap: the addresses of the control block, whose 24 bytes are
  not part of this view, and of the pool, with the size the control block is initialised with.
\<close>

definition rt_ringbuffer_create :: "u32 \<Rightarrow> heap_state \<Rightarrow> ((nat \<times> nat \<times> u32) option \<times> heap_state) option" where
  "rt_ringbuffer_create sz s =
     do { rt_assert (0 < sz);
          let sz = sz AND NOT 7;
          (rb, s) \<leftarrow> rt_malloc 24 s;
          (case rb of
             None \<Rightarrow> Some (None, s)
           | Some rb \<Rightarrow> do {
               (pool, s) \<leftarrow> rt_malloc (ucast sz) s;
               (case pool of
                  None \<Rightarrow> do { s \<leftarrow> rt_free rb s; Some (None, s) }
                | Some pool \<Rightarrow> do { rt_assert (0 <s sz); Some (Some (rb, pool, sz AND NOT 7), s) }) }) }"

definition rt_ringbuffer_destroy :: "nat \<Rightarrow> nat \<Rightarrow> heap_state \<Rightarrow> heap_state option" where
  "rt_ringbuffer_destroy rb pool s = do { s \<leftarrow> rt_free pool s; rt_free rb s }"

text \<open>The stored bytes and the invariant.\<close>

definition rb_len :: "rt_ringbuffer \<Rightarrow> nat" where
  "rb_len rb = (if read_mirror rb = write_mirror rb then write_index rb - read_index rb
     else buffer_size rb - read_index rb + write_index rb)"

definition rb_data :: "rt_ringbuffer \<Rightarrow> u8 list" where
  "rb_data rb = ring_abs (buffer_ptr rb) (read_index rb) (rb_len rb) (buffer_size rb)"

definition rb_ok :: "rt_ringbuffer \<Rightarrow> bool" where
  "rb_ok rb \<longleftrightarrow> 0 < buffer_size rb \<and> buffer_size rb < 2 ^ 31 \<and> buffer_size rb \<le> length (buffer_ptr rb) \<and>
     read_index rb < buffer_size rb \<and> write_index rb < buffer_size rb \<and>
     (if read_mirror rb = write_mirror rb then read_index rb \<le> write_index rb else write_index rb \<le> read_index rb)"

subsection \<open>Lengths\<close>

lemma sub32_small [simp]: "b \<le> a \<Longrightarrow> a < 2 ^ 32 \<Longrightarrow> sub32 a b = a - b"
proof -
  assume "b \<le> a" "a < 2 ^ 32"
  then have "a + 2 ^ 32 - b = (a - b) + 2 ^ 32" "a - b < 2 ^ 32" by linarith+
  then show ?thesis unfolding sub32_def by (simp only: mod_add_self2 mod_less)
qed

text \<open>The bounds of a buffer in order: no difference of lengths wraps.\<close>

lemma rb_okD:
  assumes "rb_ok rb"
  shows "0 < buffer_size rb" "buffer_size rb \<le> length (buffer_ptr rb)" "read_index rb < buffer_size rb" "write_index rb < buffer_size rb"
    "buffer_size rb < 2 ^ 31" "if read_mirror rb = write_mirror rb then read_index rb \<le> write_index rb else write_index rb \<le> read_index rb"
  using assms by (auto simp: rb_ok_def)

lemma rb_subs:
  assumes "rb_ok rb"
  shows "sub32 (buffer_size rb) (write_index rb) = buffer_size rb - write_index rb" "sub64 (buffer_size rb) (write_index rb) = buffer_size rb - write_index rb"
    "sub32 (buffer_size rb) (read_index rb) = buffer_size rb - read_index rb" "sub64 (buffer_size rb) (read_index rb) = buffer_size rb - read_index rb"
  using rb_okD [OF assms] by simp_all

lemma data_len: "rb_ok rb \<Longrightarrow> rt_ringbuffer_data_len rb = rb_len rb"
  by (auto simp: rt_ringbuffer_data_len_def rt_ringbuffer_status_def rb_len_def rb_ok_def split: if_splits)

lemma rb_len_facts:
  assumes "rb_ok rb"
  shows "rb_len rb \<le> buffer_size rb" "write_index rb = (read_index rb + rb_len rb) mod buffer_size rb"
proof -
  show "rb_len rb \<le> buffer_size rb" using assms by (auto simp: rb_ok_def rb_len_def)
  show "write_index rb = (read_index rb + rb_len rb) mod buffer_size rb"
    using assms by (auto simp: rb_ok_def rb_len_def)
qed

lemma length_rb_data [simp]: "length (rb_data rb) = rb_len rb"
  by (simp add: rb_data_def)

lemma space_len:
  assumes "rb_ok rb"
  shows "rt_ringbuffer_space_len rb = buffer_size rb - length (rb_data rb)" "rt_ringbuffer_space_len rb mod 2 ^ 32 = rt_ringbuffer_space_len rb"
proof -
  show *: "rt_ringbuffer_space_len rb = buffer_size rb - length (rb_data rb)"
    using rb_len_facts(1) [OF assms] rb_okD(5) [OF assms] by (simp add: rt_ringbuffer_space_len_def data_len [OF assms])
  show "rt_ringbuffer_space_len rb mod 2 ^ 32 = rt_ringbuffer_space_len rb" unfolding * using rb_okD(5) [OF assms] by simp
qed

subsection \<open>Copies in a circular array\<close>

definition stored :: "'a list \<Rightarrow> nat \<Rightarrow> 'a list \<Rightarrow> nat \<Rightarrow> 'a list \<Rightarrow> bool" where
  "stored pool w xs n pool' \<longleftrightarrow> length pool' = length pool \<and> (\<forall>i<length xs. pool' ! ((w + i) mod n) = xs ! i) \<and>
     (\<forall>j<length pool. (\<forall>i<length xs. j \<noteq> (w + i) mod n) \<longrightarrow> pool' ! j = pool ! j)"

lemma blit_nth:
  assumes "blit pool i xs = Some pool'"
  shows "length pool' = length pool" "j < length pool \<Longrightarrow> pool' ! j = (if i \<le> j \<and> j < i + length xs then xs ! (j - i) else pool ! j)"
  using assms by (auto simp: blit_def nth_append split: if_splits)

lemma blit_some: "i + length xs \<le> length pool \<Longrightarrow> \<exists>pool'. blit pool i xs = Some pool'"
  by (simp add: blit_def)

lemma stored_one:
  assumes "blit pool w xs = Some pool'" "w + length xs \<le> n" "n \<le> length pool" "w < n"
  shows "stored pool w xs n pool'"
proof -
  have m: "(w + i) mod n = w + i" if "i < length xs" for i using that assms(2) by simp
  show ?thesis unfolding stored_def
  proof (intro conjI allI impI)
    show "length pool' = length pool" by (rule blit_nth(1) [OF assms(1)])
    show "pool' ! ((w + i) mod n) = xs ! i" if "i < length xs" for i using blit_nth(2) [OF assms(1), of "w + i"] m that assms(2,3) by simp
    fix j assume j: "j < length pool" "\<forall>i<length xs. j \<noteq> (w + i) mod n"
    have "\<not> (w \<le> j \<and> j < w + length xs)"
    proof
      assume a: "w \<le> j \<and> j < w + length xs"
      then have "j - w < length xs" by linarith
      with a j(2) m [of "j - w"] show False by auto
    qed
    then show "pool' ! j = pool ! j" using blit_nth(2) [OF assms(1) j(1)] by auto
  qed
qed

lemma stored_two:
  assumes "blit pool w xs = Some pool1" "w + length xs = n" "blit pool1 0 ys = Some pool2" "length ys \<le> w" "n \<le> length pool" "w < n"
  shows "stored pool w (xs @ ys) n pool2"
proof -
  have m: "(w + i) mod n = w + i" if "i < length xs" for i using that assms(2) by simp
  have m': "(w + i) mod n = i - length xs" if "length xs \<le> i" "i < length xs + length ys" for i
  proof -
    have "w + i = (i - length xs) + n" "i - length xs < n" using that assms(2,4,6) by linarith+
    then show ?thesis by (simp only: mod_add_self2 mod_less)
  qed
  have j: "pool2 ! j = (if j < length ys then ys ! j else if w \<le> j \<and> j < n then xs ! (j - w) else pool ! j)" if "j < length pool" for j
    using that blit_nth [OF assms(1)] blit_nth [OF assms(3)] assms(2) by auto
  show ?thesis unfolding stored_def
  proof (intro conjI allI impI)
    show "length pool2 = length pool" using blit_nth(1) [OF assms(1)] blit_nth(1) [OF assms(3)] by simp
    show "pool2 ! ((w + i) mod n) = (xs @ ys) ! i" if "i < length (xs @ ys)" for i
      using that assms m [of i] m' [of i] by (cases "i < length xs") (auto simp: j nth_append)
    fix k assume k: "k < length pool" "\<forall>i<length (xs @ ys). k \<noteq> (w + i) mod n"
    have "\<not> k < length ys" using k(2) [rule_format, of "length xs + k"] m' [of "length xs + k"] by auto
    moreover have "\<not> (w \<le> k \<and> k < n)"
    proof
      assume a: "w \<le> k \<and> k < n"
      then have "k - w < length xs" using assms(2) by linarith
      with a k(2) [rule_format, of "k - w"] m [of "k - w"] show False by auto
    qed
    ultimately show "pool2 ! k = pool ! k" using j [OF k(1)] by auto
  qed
qed

lemma stored_ring:
  assumes "stored pool w xs n pool'" "w = (r + d) mod n" "d + length xs \<le> n" "0 < n" "n \<le> length pool"
  shows "ring_abs pool' r (d + length xs) n = ring_abs pool r d n @ xs"
proof (rule nth_equalityI)
  fix i assume "i < length (ring_abs pool' r (d + length xs) n)"
  then have i: "i < d + length xs" by simp
  show "ring_abs pool' r (d + length xs) n ! i = (ring_abs pool r d n @ xs) ! i"
  proof (cases "i < d")
    case True
    have "(r + i) mod n \<noteq> (w + k) mod n" if "k < length xs" for k
      using ring_mod_neq [of "r + i" "r + d + k" n] True that assms(2,3) by (simp add: mod_add_left_eq)
    moreover have "(r + i) mod n < length pool" using assms(4,5) mod_less_divisor [of n "r + i"] by linarith
    ultimately have "pool' ! ((r + i) mod n) = pool ! ((r + i) mod n)" using assms(1) by (simp add: stored_def)
    with True show ?thesis by (simp add: ring_abs_def nth_append)
  next
    case False
    have "(w + (i - d)) mod n = (r + d + (i - d)) mod n" unfolding assms(2) by (rule mod_add_left_eq)
    then have "(w + (i - d)) mod n = (r + i) mod n" using False by simp
    moreover have "i - d < length xs" using i False by linarith
    then have "pool' ! ((w + (i - d)) mod n) = xs ! (i - d)" using assms(1) unfolding stored_def by blast
    ultimately show ?thesis using False i by (simp add: ring_abs_def nth_append)
  qed
qed simp

lemma ring_drop: "k \<le> d \<Longrightarrow> ring_abs pool ((r + k) mod n) (d - k) n = drop k (ring_abs pool r d n)"
  by (rule nth_equalityI) (simp_all add: ring_abs_def mod_add_left_eq add.assoc less_diff_conv)

lemma ring_take: "k \<le> d \<Longrightarrow> ring_abs pool r k n = take k (ring_abs pool r d n)"
  by (rule nth_equalityI) (simp_all add: ring_abs_def)

lemma ring_read_one: "r + k \<le> n \<Longrightarrow> n \<le> length pool \<Longrightarrow> take k (drop r pool) = ring_abs pool r k n"
  by (rule nth_equalityI) (auto simp: ring_abs_def)

lemma ring_read_two:
  assumes "r < n" "n - r \<le> k" "k \<le> n" "n \<le> length pool"
  shows "take (n - r) (drop r pool) @ take (k - (n - r)) pool = ring_abs pool r k n"
proof (rule nth_equalityI)
  fix i assume "i < length (take (n - r) (drop r pool) @ take (k - (n - r)) pool)"
  then have "i < k" using assms by simp
  then show "(take (n - r) (drop r pool) @ take (k - (n - r)) pool) ! i = ring_abs pool r k n ! i"
    using assms by (cases "i < n - r") (auto simp: ring_abs_def nth_append mod_if add.commute)
qed (use assms in simp)


subsection \<open>Storing\<close>

lemma store_eq:
  assumes "rb_ok rb" "len \<le> buffer_size rb"
  shows "rb_store ptr len rb =
     (if len < buffer_size rb - write_index rb
      then do { xs \<leftarrow> rb_slice ptr 0 len;
                pool \<leftarrow> blit (buffer_ptr rb) (write_index rb) xs;
                Some (rb\<lparr>buffer_ptr := pool, write_index := write_index rb + len\<rparr>) }
      else do { xs \<leftarrow> rb_slice ptr 0 (buffer_size rb - write_index rb);
                pool \<leftarrow> blit (buffer_ptr rb) (write_index rb) xs;
                ys \<leftarrow> rb_slice ptr (buffer_size rb - write_index rb) (len - (buffer_size rb - write_index rb));
                pool \<leftarrow> blit pool 0 ys;
                Some (rb\<lparr>buffer_ptr := pool, write_mirror := \<not> write_mirror rb, write_index := len - (buffer_size rb - write_index rb)\<rparr>) })"
  using rb_okD [OF assms(1)] assms(2) by (simp add: rb_store_def rb_subs [OF assms(1)] Let_def)

text \<open>The capacity and the bytes behind the pool stay.\<close>

definition rb_frame :: "rt_ringbuffer \<Rightarrow> rt_ringbuffer \<Rightarrow> bool" where
  "rb_frame rb rb' \<longleftrightarrow> buffer_size rb' = buffer_size rb \<and>
     drop (buffer_size rb) (buffer_ptr rb') = drop (buffer_size rb) (buffer_ptr rb)"

lemma rb_frameD: "rb_frame rb rb' \<Longrightarrow> buffer_size rb' = buffer_size rb"
  by (simp add: rb_frame_def)

lemma rb_frame_refl [simp]: "rb_frame rb rb"
  by (simp add: rb_frame_def)

lemma rb_frame_trans: "rb_frame rb rb' \<Longrightarrow> rb_frame rb' rb'' \<Longrightarrow> rb_frame rb rb''"
  by (simp add: rb_frame_def)

lemma stored_tail:
  assumes "stored pool w xs n pool'" "0 < n"
  shows "drop n pool' = drop n pool"
proof (rule nth_equalityI)
  show "length (drop n pool') = length (drop n pool)" using assms(1) by (simp add: stored_def)
  fix i assume "i < length (drop n pool')"
  then have i: "n + i < length pool" using assms(1) by (simp add: stored_def)
  have "n + i \<noteq> (w + k) mod n" for k using mod_less_divisor [OF assms(2), of "w + k"] by linarith
  then have "pool' ! (n + i) = pool ! (n + i)" using assms(1) i unfolding stored_def by blast
  then show "drop n pool' ! i = drop n pool ! i" using i assms(1) by (simp add: stored_def)
qed

lemma rb_store_result:
  assumes ok: "rb_ok rb" and len: "len \<le> buffer_size rb" "len \<le> length ptr"
  shows "\<exists>rb'. rb_store ptr len rb = Some rb' \<and> stored (buffer_ptr rb) (write_index rb) (take len ptr) (buffer_size rb) (buffer_ptr rb') \<and>
    buffer_size rb' = buffer_size rb \<and> read_index rb' = read_index rb \<and> read_mirror rb' = read_mirror rb \<and>
    write_index rb' = (write_index rb + len) mod buffer_size rb \<and>
    write_mirror rb' = (if len < buffer_size rb - write_index rb then write_mirror rb else \<not> write_mirror rb)"
proof (cases "len < buffer_size rb - write_index rb")
  case True
  have "buffer_size rb \<le> length (buffer_ptr rb)" using ok by (simp add: rb_ok_def)
  then have "write_index rb + len \<le> length (buffer_ptr rb)" using True by linarith
  then have "blit (buffer_ptr rb) (write_index rb) (take len ptr) \<noteq> None" using len by (simp add: blit_def)
  then obtain pool where pool: "blit (buffer_ptr rb) (write_index rb) (take len ptr) = Some pool" by blast
  then have "stored (buffer_ptr rb) (write_index rb) (take len ptr) (buffer_size rb) pool"
    by (rule stored_one) (use ok len True in \<open>auto simp: rb_ok_def\<close>)
  with pool show ?thesis using True len by (simp add: store_eq [OF ok len(1)] rb_slice_def)
next
  case False
  let ?k = "buffer_size rb - write_index rb"
  have k: "?k \<le> len" "write_index rb + ?k = buffer_size rb" "write_index rb < buffer_size rb" using False ok by (auto simp: rb_ok_def)
  obtain pool1 where p1: "blit (buffer_ptr rb) (write_index rb) (take ?k ptr) = Some pool1"
    using ok len k by (simp add: blit_def rb_ok_def)
  have l1: "length pool1 = length (buffer_ptr rb)" by (rule blit_nth(1) [OF p1])
  have "len - ?k \<le> length pool1" using ok len l1 by (auto simp: rb_ok_def)
  then obtain pool2 where p2: "blit pool1 0 (take (len - ?k) (drop ?k ptr)) = Some pool2"
    using blit_some [of 0 "take (len - ?k) (drop ?k ptr)" pool1] len k(1) by auto
  have "stored (buffer_ptr rb) (write_index rb) (take ?k ptr @ take (len - ?k) (drop ?k ptr)) (buffer_size rb) pool2"
    by (rule stored_two [OF p1 _ p2]) (use ok len k in \<open>auto simp: rb_ok_def\<close>)
  moreover have "take ?k ptr @ take (len - ?k) (drop ?k ptr) = take len ptr"
    using k(1) take_add [of ?k "len - ?k" ptr] by simp
  moreover have "(write_index rb + len) mod buffer_size rb = len - ?k"
  proof -
    have "write_index rb + len = (len - ?k) + buffer_size rb" "len - ?k < buffer_size rb" using k len by linarith+
    then show ?thesis by (simp only: mod_add_self2 mod_less)
  qed
  ultimately show ?thesis using p1 p2 False len k by (simp add: store_eq [OF ok len(1)] rb_slice_def)
qed

lemma put_moves:
  assumes ok: "rb_ok rb" and s: "buffer_size rb' = buffer_size rb" "read_index rb' = read_index rb" "read_mirror rb' = read_mirror rb"
    "write_index rb' = (write_index rb + k) mod buffer_size rb"
    "write_mirror rb' = (if k < buffer_size rb - write_index rb then write_mirror rb else \<not> write_mirror rb)"
    and k: "rb_len rb + k \<le> buffer_size rb" "length (buffer_ptr rb') = length (buffer_ptr rb)"
  shows "rb_ok rb' \<and> rb_len rb' = rb_len rb + k"
proof (cases "k < buffer_size rb - write_index rb")
  case True
  then show ?thesis using assms by (auto simp: rb_ok_def rb_len_def split: if_splits)
next
  case False
  have f: "write_index rb < buffer_size rb" "k \<le> buffer_size rb" using ok k by (auto simp: rb_ok_def)
  have "write_index rb + k = (write_index rb + k - buffer_size rb) + buffer_size rb" "write_index rb + k - buffer_size rb < buffer_size rb"
    using False f by linarith+
  then have w: "(write_index rb + k) mod buffer_size rb = write_index rb + k - buffer_size rb" by (metis mod_add_self2 mod_less)
  show ?thesis using False assms w f by (auto simp: rb_ok_def rb_len_def split: if_splits)
qed

lemma put_eq:
  assumes "rb_ok rb"
  shows "rt_ringbuffer_put ptr len rb =
     (if rt_ringbuffer_space_len rb = 0 then Some (0, rb)
      else do { let len = (if rt_ringbuffer_space_len rb < len then rt_ringbuffer_space_len rb else len);
                rb \<leftarrow> rb_store ptr len rb;
                Some (len, rb) })"
  unfolding rt_ringbuffer_put_def space_len(2) [OF assms] by (simp add: Let_def)

lemma put_result:
  assumes ok: "rb_ok rb" and len: "len \<le> length ptr"
  shows "\<exists>rb'. rt_ringbuffer_put ptr len rb = Some (min len (buffer_size rb - length (rb_data rb)), rb') \<and> rb_ok rb' \<and>
    rb_frame rb rb' \<and> rb_data rb' = rb_data rb @ take (min len (buffer_size rb - length (rb_data rb))) ptr"
proof -
  let ?n = "buffer_size rb"
  define k where "k = min len (?n - length (rb_data rb))"
  note L = rb_len_facts [OF ok]
  have k: "(if rt_ringbuffer_space_len rb < len then rt_ringbuffer_space_len rb else len) = k" "k \<le> ?n" "k \<le> length ptr" "rb_len rb + k \<le> ?n"
    using space_len [OF ok] len L(1) by (auto simp: k_def)
  show ?thesis
  proof (cases "rt_ringbuffer_space_len rb = 0")
    case True
    then show ?thesis using ok space_len [OF ok] by (simp add: put_eq [OF ok])
  next
    case False
    obtain rb' where r: "rb_store ptr k rb = Some rb'" "stored (buffer_ptr rb) (write_index rb) (take k ptr) ?n (buffer_ptr rb')"
        "buffer_size rb' = ?n" "read_index rb' = read_index rb" "read_mirror rb' = read_mirror rb" "write_index rb' = (write_index rb + k) mod ?n"
        "write_mirror rb' = (if k < ?n - write_index rb then write_mirror rb else \<not> write_mirror rb)"
      using rb_store_result [OF ok k(2,3)] by blast
    have ok': "rb_ok rb' \<and> rb_len rb' = rb_len rb + k"
      using put_moves [OF ok r(3-7)] k(4) r(2) by (simp add: stored_def)
    have "length (take k ptr) = k" using k(3) by simp
    then have "rb_data rb' = rb_data rb @ take k ptr"
      using stored_ring [OF r(2) L(2)] ok ok' k(4) r(3,4) by (simp add: rb_data_def rb_ok_def)
    moreover have "rb_frame rb rb'" using stored_tail [OF r(2) rb_okD(1) [OF ok]] r(3) by (simp add: rb_frame_def)
    ultimately show ?thesis using False ok' r(1) by (simp add: put_eq [OF ok] Let_def k(1) k_def [symmetric] del: length_rb_data)
  qed
qed


lemma put_force_eq:
  assumes "rb_ok rb"
  shows "rt_ringbuffer_put_force ptr len rb =
     (let space_length = rt_ringbuffer_space_len rb;
          (ptr, len) = (if buffer_size rb < len then (drop (len - buffer_size rb) ptr, buffer_size rb) else (ptr, len));
          wraps = \<not> len < buffer_size rb - write_index rb
      in do { rb \<leftarrow> rb_store ptr len rb;
              let rb = (if space_length < len
                then (if wraps \<and> write_index rb \<le> read_index rb then rb\<lparr>read_mirror := \<not> read_mirror rb\<rparr> else rb)
                  \<lparr>read_index := write_index rb\<rparr>
                else rb);
              Some (len, rb) })"
  unfolding rt_ringbuffer_put_force_def space_len(2) [OF assms] rb_subs [OF assms] ..

lemma put_force_mirror:
  assumes ok: "rb_ok rb" and s: "buffer_size rb' = buffer_size rb" "read_index rb' = read_index rb" "read_mirror rb' = read_mirror rb"
    "write_index rb' = (write_index rb + k) mod buffer_size rb"
    "write_mirror rb' = (if k < buffer_size rb - write_index rb then write_mirror rb else \<not> write_mirror rb)"
    and k: "buffer_size rb < rb_len rb + k" "k \<le> buffer_size rb"
  shows "(if \<not> k < buffer_size rb - write_index rb \<and> write_index rb' \<le> read_index rb' then \<not> read_mirror rb' else read_mirror rb') \<noteq> write_mirror rb'"
proof (cases "k < buffer_size rb - write_index rb")
  case True
  then show ?thesis using assms by (auto simp: rb_ok_def rb_len_def split: if_splits)
next
  case False
  have f: "write_index rb < buffer_size rb" using ok by (auto simp: rb_ok_def)
  have "write_index rb + k = (write_index rb + k - buffer_size rb) + buffer_size rb" "write_index rb + k - buffer_size rb < buffer_size rb"
    using False f k by linarith+
  then have w: "write_index rb' = write_index rb + k - buffer_size rb" unfolding s(4) by (metis mod_add_self2 mod_less)
  show ?thesis using False assms(1,3,4) s(5) k w f by (auto simp: rb_ok_def rb_len_def split: if_splits)
qed

lemma put_force_result:
  assumes ok: "rb_ok rb" and len: "len \<le> length ptr"
  shows "\<exists>rb'. rt_ringbuffer_put_force ptr len rb = Some (min len (buffer_size rb), rb') \<and> rb_ok rb' \<and> rb_frame rb rb' \<and>
    rb_data rb' = drop (length (rb_data rb) + len - buffer_size rb) (rb_data rb @ take len ptr)"
proof -
  let ?n = "buffer_size rb"
  define k where "k = min len ?n"
  define xs where "xs = take k (drop (len - k) ptr)"
  note L = rb_len_facts [OF ok]
  have n: "0 < ?n" "?n \<le> length (buffer_ptr rb)" "write_index rb < ?n" using ok by (auto simp: rb_ok_def)
  have k: "(if ?n < len then (drop (len - ?n) ptr, ?n) else (ptr, len)) = (drop (len - k) ptr, k)" "k \<le> ?n" "k \<le> length (drop (len - k) ptr)"
    "length xs = k" "k \<le> len"
    using len by (auto simp: k_def xs_def)
  obtain r1 where r: "rb_store (drop (len - k) ptr) k rb = Some r1" "stored (buffer_ptr rb) (write_index rb) xs ?n (buffer_ptr r1)"
      "buffer_size r1 = ?n" "read_index r1 = read_index rb" "read_mirror r1 = read_mirror rb" "write_index r1 = (write_index rb + k) mod ?n"
      "write_mirror r1 = (if k < ?n - write_index rb then write_mirror rb else \<not> write_mirror rb)"
    using rb_store_result [OF ok k(2,3)] unfolding xs_def by blast
  have fr: "rb_frame rb r1" using stored_tail [OF r(2) n(1)] r(3) by (simp add: rb_frame_def)
  have lp: "length (buffer_ptr r1) = length (buffer_ptr rb)" using r(2) by (simp add: stored_def)
  have spec: "drop (length (rb_data rb) + len - ?n) (rb_data rb @ take len ptr) = drop (rb_len rb + k - ?n) (rb_data rb) @ xs"
    using len L(1) by (cases "len \<le> ?n") (auto simp: k_def xs_def take_drop)
  have sp: "rt_ringbuffer_space_len rb < k \<longleftrightarrow> ?n < rb_len rb + k" using space_len [OF ok] L(1) by auto
  show ?thesis
  proof (cases "?n < rb_len rb + k")
    case False
    have "rb_ok r1 \<and> rb_len r1 = rb_len rb + k" using put_moves [OF ok r(3-7)] False lp by simp
    moreover from this have "rb_data r1 = rb_data rb @ xs"
      using stored_ring [OF r(2) L(2)] False n r(3,4) k(4) by (simp add: rb_data_def)
    ultimately show ?thesis using False r(1) fr spec sp unfolding put_force_eq [OF ok] k(1) Let_def prod.case k_def [symmetric] by simp
  next
    case True
    define r2 where "r2 = (if \<not> k < ?n - write_index rb \<and> write_index r1 \<le> read_index r1 then r1\<lparr>read_mirror := \<not> read_mirror r1\<rparr> else r1)\<lparr>read_index := write_index r1\<rparr>"
    have mir: "read_mirror r2 \<noteq> write_mirror r2" using put_force_mirror [OF ok r(3-7) True k(2)] by (auto simp: r2_def split: if_splits)
    have f: "buffer_size r2 = ?n" "read_index r2 = write_index r1" "write_index r2 = write_index r1" "buffer_ptr r2 = buffer_ptr r1"
      using r(3) by (simp_all add: r2_def)
    have len2: "rb_ok r2" "rb_len r2 = ?n" using mir f n lp r(6) rb_okD(5) [OF ok] by (auto simp: rb_ok_def rb_len_def)
    let ?d = "rb_len rb + k - ?n"
    have d: "?d \<le> rb_len rb" "rb_len rb - ?d = ?n - k" using True k(2) L(1) by auto
    have "read_index rb + ?d + (?n - k) = read_index rb + rb_len rb" using True k(2) by linarith
    then have w: "write_index rb = ((read_index rb + ?d) mod ?n + (?n - k)) mod ?n"
      unfolding L(2) mod_add_left_eq by simp
    have "write_index r1 = (read_index rb + ?d) mod ?n"
    proof -
      have "(write_index rb + k) mod ?n = (read_index rb + rb_len rb + k) mod ?n" unfolding L(2) by (simp add: mod_add_left_eq)
      also have "read_index rb + rb_len rb + k = read_index rb + ?d + ?n" using True by linarith
      finally show ?thesis using r(6) by simp
    qed
    then have "rb_data r2 = drop ?d (rb_data rb) @ xs"
      using stored_ring [OF r(2) w] n k(2,4) len2(2) f ring_drop [OF d(1), of "buffer_ptr rb" "read_index rb" ?n] d(2)
      by (simp add: rb_data_def)
    moreover have "rb_frame rb r2" using fr f(1,4) r(3) by (simp add: rb_frame_def)
    ultimately show ?thesis using True r(1) spec sp len2(1)
      unfolding put_force_eq [OF ok] k(1) Let_def prod.case k_def [symmetric] by (simp add: r2_def [symmetric])
  qed
qed


subsection \<open>Reading\<close>

text \<open>Moving the read index over \<open>k\<close> stored bytes.\<close>

lemma get_moves:
  assumes ok: "rb_ok rb" and s: "buffer_size rb' = buffer_size rb" "write_index rb' = write_index rb" "write_mirror rb' = write_mirror rb"
    "read_index rb' = (read_index rb + k) mod buffer_size rb"
    "read_mirror rb' = (if k < buffer_size rb - read_index rb then read_mirror rb else \<not> read_mirror rb)"
    and k: "k \<le> rb_len rb" "buffer_ptr rb' = buffer_ptr rb"
  shows "rb_ok rb'" "rb_data rb' = drop k (rb_data rb)"
proof -
  have l: "rb_ok rb' \<and> rb_len rb' = rb_len rb - k"
  proof (cases "k < buffer_size rb - read_index rb")
    case True
    then show ?thesis using assms by (auto simp: rb_ok_def rb_len_def split: if_splits)
  next
    case False
    have f: "read_index rb < buffer_size rb" "k \<le> buffer_size rb" using ok k rb_len_facts(1) [OF ok] by (auto simp: rb_ok_def)
    have "read_index rb + k = (read_index rb + k - buffer_size rb) + buffer_size rb" "read_index rb + k - buffer_size rb < buffer_size rb"
      using False f by linarith+
    then have "(read_index rb + k) mod buffer_size rb = read_index rb + k - buffer_size rb" by (metis mod_add_self2 mod_less)
    then show ?thesis using False assms f by (auto simp: rb_ok_def rb_len_def split: if_splits)
  qed
  then show "rb_ok rb'" by simp
  show "rb_data rb' = drop k (rb_data rb)"
    using l s k ring_drop [OF k(1), of "buffer_ptr rb" "read_index rb" "buffer_size rb"] by (simp add: rb_data_def)
qed

lemma index_wraps:
  assumes "i < (n :: nat)" "k \<le> n" "\<not> k < n - i"
  shows "(i + k) mod n = k - (n - i)"
proof -
  have "i + k = (k - (n - i)) + n" using assms by arith
  moreover have "k - (n - i) < n" using assms by arith
  ultimately show ?thesis by (simp only: mod_add_self2 mod_less)
qed

lemma get_eq:
  assumes ok: "rb_ok rb"
  shows "rt_ringbuffer_get len rb =
     (let sz = rt_ringbuffer_data_len rb
      in if sz = 0 then Some ([], rb)
         else let len = (if sz < len then sz else len)
              in if len < buffer_size rb - read_index rb
                 then do { xs \<leftarrow> rb_slice (buffer_ptr rb) (read_index rb) len;
                           Some (xs, rb\<lparr>read_index := read_index rb + len\<rparr>) }
                 else do { xs \<leftarrow> rb_slice (buffer_ptr rb) (read_index rb) (buffer_size rb - read_index rb);
                           ys \<leftarrow> rb_slice (buffer_ptr rb) 0 (len - (buffer_size rb - read_index rb));
                           Some (xs @ ys, rb\<lparr>read_mirror := \<not> read_mirror rb, read_index := len - (buffer_size rb - read_index rb)\<rparr>) })"
proof -
  note d = rb_okD [OF ok] and l = data_len [OF ok] rb_len_facts(1) [OF ok]
  have i: "(read_index rb + k) mod 2 ^ 31 = read_index rb + k" if "k < buffer_size rb - read_index rb" for k using that d by simp
  have r: "sub32 k (buffer_size rb - read_index rb) = k - (buffer_size rb - read_index rb)"
      "(k - (buffer_size rb - read_index rb)) mod 2 ^ 31 = k - (buffer_size rb - read_index rb)"
    if "\<not> k < buffer_size rb - read_index rb" "k \<le> buffer_size rb" for k using that d by simp_all
  have k: "(if rb_len rb < len then rb_len rb else len) \<le> buffer_size rb" using l by auto
  show ?thesis unfolding rt_ringbuffer_get_def Let_def rb_subs [OF ok] l(1) using i r k by (simp cong: if_cong)
qed

lemma get_result:
  assumes ok: "rb_ok rb"
  shows "\<exists>rb'. rt_ringbuffer_get len rb = Some (take len (rb_data rb), rb') \<and> rb_ok rb' \<and> rb_frame rb rb' \<and>
    rb_data rb' = drop len (rb_data rb)"
proof -
  let ?n = "buffer_size rb" and ?r = "read_index rb"
  define k where "k = min len (rb_len rb)"
  have n: "0 < ?n" "?n \<le> length (buffer_ptr rb)" "?r < ?n" using ok by (auto simp: rb_ok_def)
  have k: "(if rt_ringbuffer_data_len rb < len then rt_ringbuffer_data_len rb else len) = k" "k \<le> rb_len rb" "k \<le> ?n"
    using data_len [OF ok] rb_len_facts(1) [OF ok] by (auto simp: k_def)
  have td: "take len (rb_data rb) = take k (rb_data rb)" "drop len (rb_data rb) = drop k (rb_data rb)"
    by (auto simp: k_def min_def)
  have ab: "ring_abs (buffer_ptr rb) ?r k ?n = take k (rb_data rb)"
    unfolding rb_data_def by (rule ring_take [OF k(2)])
  show ?thesis
  proof (cases "rt_ringbuffer_data_len rb = 0")
    case True
    then have "rb_data rb = []" using data_len [OF ok] by (simp flip: length_0_conv)
    then show ?thesis using True ok by (simp add: get_eq [OF ok])
  next
    case False
    show ?thesis
    proof (cases "k < ?n - ?r")
      case True
      define r2 where "r2 = rb\<lparr>read_index := ?r + k\<rparr>"
      have "rb_ok r2" "rb_data r2 = drop k (rb_data rb)"
        using get_moves [OF ok, of r2 k] True k(2) by (simp_all add: r2_def)
      moreover have "rt_ringbuffer_get len rb = Some (take k (rb_data rb), r2)"
        unfolding get_eq [OF ok] Let_def k(1) using False True n ring_read_one [of ?r k ?n "buffer_ptr rb"] ab
        by (simp add: rb_slice_def r2_def)
      ultimately show ?thesis unfolding td by (simp add: r2_def rb_frame_def)
    next
      case wrap: False
      define r2 where "r2 = rb\<lparr>read_mirror := \<not> read_mirror rb, read_index := k - (?n - ?r)\<rparr>"
      have "rb_ok r2" "rb_data r2 = drop k (rb_data rb)"
        using get_moves [OF ok, of r2 k] wrap k(2) index_wraps [OF n(3) k(3) wrap] by (simp_all add: r2_def)
      moreover have "rt_ringbuffer_get len rb = Some (take k (rb_data rb), r2)"
        unfolding get_eq [OF ok] Let_def k(1) using False wrap n k(3) ring_read_two [OF n(3) _ k(3) n(2)] ab
        by (simp add: rb_slice_def r2_def)
      ultimately show ?thesis unfolding td by (simp add: r2_def rb_frame_def)
    qed
  qed
qed

lemma peek_result:
  assumes ok: "rb_ok rb"
  shows "\<exists>i k rb'. rt_ringbuffer_peek rb = (i, k, rb') \<and> rb_ok rb' \<and> buffer_ptr rb' = buffer_ptr rb \<and> buffer_size rb' = buffer_size rb \<and>
    rb_data rb' = drop k (rb_data rb) \<and>
    (if rb_data rb = [] then i = None \<and> k = 0
     else i = Some (read_index rb) \<and> 0 < k \<and> read_index rb + k \<le> buffer_size rb \<and>
       take k (drop (read_index rb) (buffer_ptr rb)) = take k (rb_data rb) \<and>
       (k = length (rb_data rb) \<or> k < length (rb_data rb) \<and> read_index rb + k = buffer_size rb \<and> read_index rb' = 0))"
proof -
  let ?n = "buffer_size rb" and ?r = "read_index rb"
  have n: "0 < ?n" "?n \<le> length (buffer_ptr rb)" "?r < ?n" "rb_len rb \<le> ?n" "?n < 2 ^ 31" using ok rb_len_facts(1) [OF ok] by (auto simp: rb_ok_def)
  note dl = data_len [OF ok] rb_subs(4) [OF ok]
  have e: "rb_data rb = [] \<longleftrightarrow> rb_len rb = 0" by (simp flip: length_0_conv)
  have piece: "take k (drop ?r (buffer_ptr rb)) = take k (rb_data rb)" if "?r + k \<le> ?n" "k \<le> rb_len rb" for k
    using ring_read_one [OF that(1) n(2)] ring_take [OF that(2), of "buffer_ptr rb" ?r ?n] by (simp add: rb_data_def)
  show ?thesis
  proof (cases "rb_len rb = 0")
    case True
    then show ?thesis using ok e by (simp add: rt_ringbuffer_peek_def dl)
  next
    case False
    show ?thesis
    proof (cases "rb_len rb < ?n - ?r")
      case True
      have "rb_ok (rb\<lparr>read_index := ?r + rb_len rb\<rparr>)" "rb_data (rb\<lparr>read_index := ?r + rb_len rb\<rparr>) = drop (rb_len rb) (rb_data rb)"
        using get_moves [OF ok, of "rb\<lparr>read_index := ?r + rb_len rb\<rparr>" "rb_len rb"] True by simp_all
      then show ?thesis using False True n piece [of "rb_len rb"] e by (simp add: rt_ringbuffer_peek_def dl Let_def)
    next
      case wrap: False
      let ?rb = "rb\<lparr>read_mirror := \<not> read_mirror rb, read_index := 0\<rparr>"
      have "rb_ok ?rb" "rb_data ?rb = drop (?n - ?r) (rb_data rb)"
        using get_moves [OF ok, of ?rb "?n - ?r"] wrap n by simp_all
      then show ?thesis using False wrap n piece [of "?n - ?r"] e by (simp add: rt_ringbuffer_peek_def dl Let_def) linarith
    qed
  qed
qed

lemma peek_twice:
  assumes ok: "rb_ok rb" and p: "rt_ringbuffer_peek rb = (i, k, rb1)" "rt_ringbuffer_peek rb1 = (j, l, rb2)"
  shows "rb_data rb2 = []"
proof -
  have 1: "rb_ok rb1" "buffer_size rb1 = buffer_size rb" "rb_data rb1 = drop k (rb_data rb)"
      "rb_data rb1 = [] \<or> read_index rb1 = 0"
    using peek_result [OF ok] p(1) by (auto simp del: length_rb_data split: if_splits)
  have 2: "rb_data rb2 = drop l (rb_data rb1)" "rb_data rb1 = [] \<or> l = length (rb_data rb1) \<or> read_index rb1 + l = buffer_size rb1"
    using peek_result [OF 1(1)] p(2) by (auto simp del: length_rb_data split: if_splits)
  moreover have "length (rb_data rb1) \<le> buffer_size rb1" using rb_len_facts(1) [OF 1(1)] by simp
  ultimately show ?thesis using 1(4) by (auto simp del: length_rb_data)
qed

subsection \<open>Single bytes\<close>

lemma last_index: "i < n \<Longrightarrow> (int i = int n - 1) = (\<not> 1 < n - i)"
  by auto

lemma store_char:
  assumes "rb_ok rb"
  shows "rb_store_char ch rb = rb_store [ch] 1 rb"
proof -
  note d = rb_okD [OF assms]
  have one: "1 \<le> buffer_size rb" using d(1) by simp
  show ?thesis
  proof (cases "1 < buffer_size rb - write_index rb")
    case True
    then show ?thesis unfolding store_eq [OF assms one] using d by (auto simp: rb_store_char_def rb_slice_def blit_def)
  next
    case False
    then have "buffer_size rb = Suc (write_index rb)" using d by auto
    then show ?thesis unfolding store_eq [OF assms one] by (auto simp: rb_store_char_def rb_slice_def blit_def)
  qed
qed

lemma putchar_eq: "rb_ok rb \<Longrightarrow> rt_ringbuffer_putchar ch rb = rt_ringbuffer_put [ch] 1 rb"
  by (simp add: rt_ringbuffer_putchar_def put_eq store_char Let_def)

lemma getchar_eq:
  assumes "rb_ok rb"
  shows "rt_ringbuffer_getchar rb = map_option (\<lambda>(xs, rb'). (case xs of [] \<Rightarrow> None | x # _ \<Rightarrow> Some x, rb')) (rt_ringbuffer_get 1 rb)"
proof -
  have n: "read_index rb < buffer_size rb" "buffer_size rb \<le> length (buffer_ptr rb)" "buffer_size rb < 2 ^ 31" using assms by (auto simp: rb_ok_def)
  then obtain x xs where x: "drop (read_index rb) (buffer_ptr rb) = x # xs" by (meson drop_eq_Nil leD le_trans list.exhaust)
  show ?thesis
  proof (cases "1 < buffer_size rb - read_index rb")
    case True
    then show ?thesis using n x by (auto simp: rt_ringbuffer_getchar_def get_eq [OF assms] Let_def rb_slice_def)
  next
    case False
    then have "buffer_size rb = Suc (read_index rb)" using n by auto
    then show ?thesis using n x by (auto simp: rt_ringbuffer_getchar_def get_eq [OF assms] Let_def rb_slice_def)
  qed
qed

lemma putchar_force_eq:
  assumes ok: "rb_ok rb"
  shows "rt_ringbuffer_putchar_force ch rb = rt_ringbuffer_put_force [ch] 1 rb"
proof -
  have n: "write_index rb < buffer_size rb" "0 < buffer_size rb" using ok by (auto simp: rb_ok_def)
  have full: "rt_ringbuffer_space_len rb < 1 \<longleftrightarrow> rt_ringbuffer_status rb = RT_RINGBUFFER_FULL"
    unfolding space_len(1) [OF ok] using rb_okD [OF ok] by (auto simp: rb_len_def rt_ringbuffer_status_def split: if_splits)
  have idx: "write_index rb' \<le> read_index rb'" if "rb_store [ch] 1 rb = Some rb'" "\<not> 1 < buffer_size rb - write_index rb" for rb'
    using that n by (auto simp: store_eq [OF ok] bind_eq_Some_conv split: if_splits)
  have one: "\<not> buffer_size rb < 1" using n by simp
  show ?thesis unfolding rt_ringbuffer_putchar_force_def put_force_eq [OF ok] Let_def full store_char [OF ok] last_index [OF n(1)] if_not_P [OF one] prod.case
    using idx by (cases "rb_store [ch] 1 rb") auto
qed

lemma putchar_result:
  assumes "rb_ok rb"
  shows "\<exists>rb'. rt_ringbuffer_putchar ch rb = Some (if length (rb_data rb) < buffer_size rb then 1 else 0, rb') \<and> rb_ok rb' \<and>
    rb_frame rb rb' \<and> rb_data rb' = rb_data rb @ (if length (rb_data rb) < buffer_size rb then [ch] else [])"
  using put_result [OF assms, of 1 "[ch]"] unfolding putchar_eq [OF assms] by (auto simp: min_def split: if_splits)

lemma getchar_result:
  assumes "rb_ok rb"
  shows "\<exists>rb'. rt_ringbuffer_getchar rb = Some (case rb_data rb of [] \<Rightarrow> None | x # _ \<Rightarrow> Some x, rb') \<and> rb_ok rb' \<and>
    rb_frame rb rb' \<and> rb_data rb' = tl (rb_data rb)"
  using get_result [OF assms, of 1] unfolding getchar_eq [OF assms] by (cases "rb_data rb") auto

lemma putchar_force_result:
  assumes "rb_ok rb"
  shows "\<exists>rb'. rt_ringbuffer_putchar_force ch rb = Some (1, rb') \<and> rb_ok rb' \<and> rb_frame rb rb' \<and>
    rb_data rb' = (if length (rb_data rb) < buffer_size rb then rb_data rb else tl (rb_data rb)) @ [ch]"
proof -
  have n: "0 < buffer_size rb" "rb_len rb \<le> buffer_size rb" using assms rb_len_facts(1) [OF assms] by (auto simp: rb_ok_def)
  have "drop (length (rb_data rb) + 1 - buffer_size rb) (rb_data rb @ [ch]) = (if length (rb_data rb) < buffer_size rb then rb_data rb else tl (rb_data rb)) @ [ch]"
    using n by (cases "rb_len rb < buffer_size rb") (auto simp: drop_Suc simp flip: length_0_conv)
  then show ?thesis using put_force_result [OF assms, of 1 "[ch]"] n unfolding putchar_force_eq [OF assms] by (simp add: min_def)
qed

lemma reset_result: "rb_ok rb \<Longrightarrow> rb_ok (rt_ringbuffer_reset rb) \<and> rb_data (rt_ringbuffer_reset rb) = []"
  by (auto simp: rb_ok_def rt_ringbuffer_reset_def simp flip: length_0_conv) (simp add: rb_len_def)

lemma unat_align_down: "unat (w AND NOT 7) = unat w - unat w mod 8" for w :: u32
proof -
  have m: "(mask 3 :: u32) = 7" by (simp add: mask_eq_exp_minus_1)
  have "bit (mask 3 :: u32) i \<longleftrightarrow> i < 3" for i unfolding bit_mask_iff by auto
  then have b7: "bit (7 :: u32) i \<longleftrightarrow> i < 3" for i unfolding m .
  have "w AND NOT 7 = push_bit 3 (drop_bit 3 w)"
    by (rule bit_word_eqI) (simp only: bit_and_iff bit_not_iff b7 bit_push_bit_iff bit_drop_bit_eq o_def, auto)
  moreover have "unat w < 2 ^ 32" using unsigned_less [of w] by simp
  then have "unat w div 8 * 8 < 2 ^ 32" by linarith
  ultimately have "unat (w AND NOT 7) = unat w div 8 * 8"
    by (simp add: push_bit_eq_mult drop_bit_eq_div unat_word_ariths unat_div)
  then show ?thesis by (simp add: minus_mod_eq_div_mult)
qed

lemma sless_small: "0 < w \<Longrightarrow> w < 2 ^ 31 \<Longrightarrow> 0 <s w" for w :: u32
proof -
  assume w: "0 < w" "w < 2 ^ 31"
  then have "0 < uint w" "uint w < 2 ^ 31" by (simp_all add: word_less_def)
  then show "0 <s w" by (simp add: word_sless_alt sint_uint signed_take_bit_int_eq_self)
qed

lemma init_ring:
  assumes "8 \<le> sz" "sz < 2 ^ 31" "unat sz \<le> length pool"
  shows "\<exists>rb. rt_ringbuffer_init pool sz = Some rb \<and> rb_ok rb \<and> rb_data rb = [] \<and> buffer_ptr rb = pool \<and> buffer_size rb = unat sz - unat sz mod 8"
proof -
  have "8 \<le> unat sz" using assms(1) by (simp add: word_le_nat_alt)
  then have "0 < unat sz - unat sz mod 8" by (simp add: mod_less_divisor le_trans [OF _ _] less_le_trans)
  moreover have "0 <s sz" by (rule sless_small) (use assms in \<open>auto simp: word_less_nat_alt word_le_nat_alt\<close>)
  moreover have "unat sz - unat sz mod 8 < 2 ^ 31" using assms(2) by (simp add: word_less_nat_alt less_imp_diff_less)
  ultimately show ?thesis using assms(3)
    unfolding rt_ringbuffer_init_def unat_align_down by (auto simp: rb_ok_def rb_len_def rt_assert_def simp flip: length_0_conv)
qed

subsection \<open>The ring buffer as a bounded buffer\<close>

interpretation rbf: bounded_fifo rb_ok rb_data rt_ringbuffer_get_size "\<lambda>_ _. True"
  "\<lambda>ch rb. snd (the (rt_ringbuffer_putchar ch rb))"
  "\<lambda>rb. case the (rt_ringbuffer_getchar rb) of (x, rb) \<Rightarrow> (the x, rb)"
proof
  show "rb_ok (snd (the (rt_ringbuffer_putchar v q))) \<and> rb_data (snd (the (rt_ringbuffer_putchar v q))) = rb_data q @ [v] \<and>
      rt_ringbuffer_get_size (snd (the (rt_ringbuffer_putchar v q))) = rt_ringbuffer_get_size q"
    if "rb_ok q" "length (rb_data q) < rt_ringbuffer_get_size q" for q v
    using putchar_result [OF that(1), of v] that(2) by (auto simp: rt_ringbuffer_get_size_def rb_frame_def)
  show "rb_ok (snd (case the (rt_ringbuffer_getchar q) of (x, rb) \<Rightarrow> (the x, rb))) \<and>
      rb_data q = fst (case the (rt_ringbuffer_getchar q) of (x, rb) \<Rightarrow> (the x, rb)) # rb_data (snd (case the (rt_ringbuffer_getchar q) of (x, rb) \<Rightarrow> (the x, rb))) \<and>
      rt_ringbuffer_get_size (snd (case the (rt_ringbuffer_getchar q) of (x, rb) \<Rightarrow> (the x, rb))) = rt_ringbuffer_get_size q"
    if "rb_ok q" "rb_data q \<noteq> []" for q
    using getchar_result [OF that(1)] that(2) by (auto simp: rt_ringbuffer_get_size_def neq_Nil_conv rb_frame_def)
qed

subsection \<open>Creation\<close>

lemma create_result:
  assumes "heap_good s" "8 \<le> sz" "sz < 2 ^ 31"
  shows "\<exists>r s'. rt_ringbuffer_create sz s = Some (r, s') \<and> heap_good s' \<and>
    (case r of None \<Rightarrow> heap_blocks s' = heap_blocks s
     | Some (rb, pool, n) \<Rightarrow> n = sz AND NOT 7 \<and> (\<exists>k l. 24 \<le> k \<and> unat n \<le> l \<and> (rb, k) \<notin> heap_blocks s \<and> (pool, l) \<notin> heap_blocks s \<and>
         (rb, k) \<noteq> (pool, l) \<and> heap_blocks s' = {(rb, k), (pool, l)} \<union> heap_blocks s))"
proof -
  let ?n = "sz AND NOT 7"
  have u: "8 \<le> unat sz" "unat sz < 2 ^ 31" using assms(2,3) by (simp_all add: word_le_nat_alt word_less_nat_alt)
  then have un: "0 < unat ?n" "unat ?n < 2 ^ 31" "unat ?n mod 8 = 0" unfolding unat_align_down by (auto simp: minus_mod_eq_div_mult)
  have nn: "?n AND NOT 7 = ?n" by (simp only: and.assoc and.idem)
  have pos: "0 < sz" "0 <s ?n" using u un by (auto simp: word_less_nat_alt intro!: sless_small)
  obtain r1 s1 where 1: "rt_malloc 24 s = Some (r1, s1)" "heap_good s1"
      "case r1 of None \<Rightarrow> s1 = s | Some a \<Rightarrow> \<exists>k. 24 \<le> k \<and> (a, k) \<notin> heap_blocks s \<and> heap_blocks s1 = insert (a, k) (heap_blocks s)"
    using malloc_law [OF assms(1), of 24] by (auto split: option.splits)
  show ?thesis
  proof (cases r1)
    case None
    then show ?thesis using 1 pos assms(1) by (simp add: rt_ringbuffer_create_def rt_assert_def)
  next
    case (Some rb)
    then obtain k where k: "24 \<le> k" "(rb, k) \<notin> heap_blocks s" "heap_blocks s1 = insert (rb, k) (heap_blocks s)" using 1(3) by auto
    have uc: "unat (ucast ?n :: u64) = unat ?n" using un(2) by (simp only: unsigned_ucast_eq) (simp add: take_bit_nat_eq_self)
    obtain r2 s2 where 2: "rt_malloc (ucast ?n) s1 = Some (r2, s2)" "heap_good s2"
        "case r2 of None \<Rightarrow> s2 = s1 | Some a \<Rightarrow> \<exists>l. unat ?n \<le> l \<and> (a, l) \<notin> heap_blocks s1 \<and> heap_blocks s2 = insert (a, l) (heap_blocks s1)"
      using malloc_law [OF 1(2), of "ucast ?n"] un(2) unfolding uc by (auto split: option.splits)
    show ?thesis
    proof (cases r2)
      case None
      obtain s3 where "rt_free rb s1 = Some s3" "heap_good s3" "heap_blocks s3 = heap_blocks s1 - {(rb, k)}"
        using free_law [OF 1(2), of rb k] k(3) by auto
      then show ?thesis using 1 2 Some None pos k by (auto simp: rt_ringbuffer_create_def rt_assert_def)
    next
      case (Some pool)
      then obtain l where l: "unat ?n \<le> l" "(pool, l) \<notin> heap_blocks s1" "heap_blocks s2 = insert (pool, l) (heap_blocks s1)" using 2(3) by auto
      have "rt_ringbuffer_create sz s = Some (Some (rb, pool, ?n), s2)"
        using 1(1) 2(1) Some \<open>r1 = Some rb\<close> pos nn by (simp add: rt_ringbuffer_create_def rt_assert_def)
      moreover have "(pool, l) \<notin> heap_blocks s \<and> (rb, k) \<noteq> (pool, l) \<and> heap_blocks s2 = {(rb, k), (pool, l)} \<union> heap_blocks s"
        using k l(2,3) by auto
      ultimately show ?thesis using 2(2) k(1,2) l(1) by auto
    qed
  qed
qed

lemma destroy_result:
  assumes "heap_good s" "(rb, k) \<in> heap_blocks s" "(pool, l) \<in> heap_blocks s" "(rb, k) \<noteq> (pool, l)"
  shows "\<exists>s'. rt_ringbuffer_destroy rb pool s = Some s' \<and> heap_good s' \<and> heap_blocks s' = heap_blocks s - {(rb, k), (pool, l)}"
proof -
  obtain s1 where 1: "rt_free pool s = Some s1" "heap_good s1" "heap_blocks s1 = heap_blocks s - {(pool, l)}"
    using free_law [OF assms(1,3)] by auto
  moreover obtain s2 where "rt_free rb s1 = Some s2" "heap_good s2" "heap_blocks s2 = heap_blocks s1 - {(rb, k)}"
    using free_law [OF 1(2), of rb k] assms(2,4) 1(3) by auto
  ultimately show ?thesis by (auto simp: rt_ringbuffer_destroy_def)
qed


subsection \<open>Sequences of operations\<close>

datatype rb_op = Rb_put "u8 list" | Rb_put_force "u8 list" | Rb_get nat | Rb_putchar u8 | Rb_putchar_force u8 | Rb_getchar | Rb_reset

text \<open>One call: the bytes the caller reads, the value returned, and the buffer afterwards.\<close>

fun rb_exec :: "rb_op \<Rightarrow> rt_ringbuffer \<Rightarrow> (u8 list \<times> nat \<times> rt_ringbuffer) option" where
  "rb_exec (Rb_put xs) rb = do { (n, rb) \<leftarrow> rt_ringbuffer_put xs (length xs) rb; Some ([], n, rb) }"
| "rb_exec (Rb_put_force xs) rb = do { (n, rb) \<leftarrow> rt_ringbuffer_put_force xs (length xs) rb; Some ([], n, rb) }"
| "rb_exec (Rb_get n) rb = do { (xs, rb) \<leftarrow> rt_ringbuffer_get n rb; Some (xs, length xs, rb) }"
| "rb_exec (Rb_putchar x) rb = do { (n, rb) \<leftarrow> rt_ringbuffer_putchar x rb; Some ([], n, rb) }"
| "rb_exec (Rb_putchar_force x) rb = do { (n, rb) \<leftarrow> rt_ringbuffer_putchar_force x rb; Some ([], n, rb) }"
| "rb_exec Rb_getchar rb = do { (x, rb) \<leftarrow> rt_ringbuffer_getchar rb; Some (case x of None \<Rightarrow> ([], 0, rb) | Some x \<Rightarrow> ([x], 1, rb)) }"
| "rb_exec Rb_reset rb = Some ([], 0, rt_ringbuffer_reset rb)"

text \<open>
  The contract, on the list of stored bytes of a buffer of capacity \<open>c\<close>: putting keeps the
  prefix that fits, forcing keeps the last \<open>c\<close> bytes, getting takes from the front.
\<close>

fun fifo_exec :: "nat \<Rightarrow> rb_op \<Rightarrow> u8 list \<Rightarrow> u8 list \<times> nat \<times> u8 list" where
  "fifo_exec c (Rb_put xs) q = ([], min (length xs) (c - length q), q @ take (c - length q) xs)"
| "fifo_exec c (Rb_put_force xs) q = ([], min (length xs) c, drop (length q + length xs - c) (q @ xs))"
| "fifo_exec c (Rb_get n) q = (take n q, min n (length q), drop n q)"
| "fifo_exec c (Rb_putchar x) q = (if length q < c then ([], 1, q @ [x]) else ([], 0, q))"
| "fifo_exec c (Rb_putchar_force x) q = ([], 1, (if length q < c then q else tl q) @ [x])"
| "fifo_exec c Rb_getchar q = (take 1 q, min 1 (length q), tl q)"
| "fifo_exec c Rb_reset q = ([], 0, [])"

fun rb_run :: "rb_op list \<Rightarrow> rt_ringbuffer \<Rightarrow> ((u8 list \<times> nat) list \<times> rt_ringbuffer) option" where
  "rb_run [] rb = Some ([], rb)"
| "rb_run (x # ops) rb = do { (xs, n, rb) \<leftarrow> rb_exec x rb; (outs, rb) \<leftarrow> rb_run ops rb; Some ((xs, n) # outs, rb) }"

fun fifo_run :: "nat \<Rightarrow> rb_op list \<Rightarrow> u8 list \<Rightarrow> (u8 list \<times> nat) list \<times> u8 list" where
  "fifo_run c [] q = ([], q)"
| "fifo_run c (x # ops) q = (case fifo_exec c x q of (xs, n, q) \<Rightarrow> case fifo_run c ops q of (outs, q) \<Rightarrow> ((xs, n) # outs, q))"

lemma exec_refines:
  assumes "rb_ok rb"
  shows "\<exists>rb'. rb_exec x rb = Some (fst (fifo_exec (buffer_size rb) x (rb_data rb)), fst (snd (fifo_exec (buffer_size rb) x (rb_data rb))), rb') \<and>
    rb_ok rb' \<and> rb_frame rb rb' \<and> rb_data rb' = snd (snd (fifo_exec (buffer_size rb) x (rb_data rb)))"
proof (cases x)
  case (Rb_put xs)
  then show ?thesis using put_result [OF assms, of "length xs" xs] by (auto simp: min_def)
next
  case (Rb_put_force xs)
  then show ?thesis using put_force_result [OF assms, of "length xs" xs] by auto
next
  case (Rb_get n)
  then show ?thesis using get_result [OF assms, of n] by (auto simp: min_def)
next
  case (Rb_putchar ch)
  then show ?thesis using putchar_result [OF assms, of ch] by (auto split: if_splits)
next
  case (Rb_putchar_force ch)
  then show ?thesis using putchar_force_result [OF assms, of ch] by auto
next
  case Rb_getchar
  then show ?thesis using getchar_result [OF assms] by (cases "rb_data rb") (auto simp del: length_rb_data simp flip: length_rb_data)
next
  case Rb_reset
  then show ?thesis using reset_result [OF assms] by (auto simp: rt_ringbuffer_reset_def rb_frame_def)
qed

lemma run_refines:
  assumes "rb_ok rb"
  shows "\<exists>rb'. rb_run ops rb = Some (fst (fifo_run (buffer_size rb) ops (rb_data rb)), rb') \<and> rb_ok rb' \<and> rb_frame rb rb' \<and>
    rb_data rb' = snd (fifo_run (buffer_size rb) ops (rb_data rb))"
  using assms
proof (induction ops arbitrary: rb)
  case (Cons x ops)
  obtain rb1 where 1: "rb_exec x rb = Some (fst (fifo_exec (buffer_size rb) x (rb_data rb)), fst (snd (fifo_exec (buffer_size rb) x (rb_data rb))), rb1)"
      "rb_ok rb1" "rb_frame rb rb1" "rb_data rb1 = snd (snd (fifo_exec (buffer_size rb) x (rb_data rb)))"
    using exec_refines [OF Cons.prems] by blast
  show ?case using Cons.IH [OF 1(2)] 1 rb_frameD [OF 1(3)] rb_frame_trans [OF 1(3)] by (auto split: prod.splits)
qed simp

text \<open>Forced single bytes in a buffer of capacity 0 fill the memory from the write index on.\<close>

lemma force_steps:
  assumes "buffer_size rb = 0" "read_index rb = 0" "read_mirror rb = write_mirror rb"
    "write_index rb + n \<le> length (buffer_ptr rb)" "write_index rb + n < 2 ^ 31"
  shows "\<exists>rb'. rb_run (replicate n (Rb_putchar_force ch)) rb = Some (replicate n ([], 1), rb') \<and>
    buffer_ptr rb' = take (write_index rb) (buffer_ptr rb) @ replicate n ch @ drop (write_index rb + n) (buffer_ptr rb)"
  using assms
proof (induction n arbitrary: rb)
  case (Suc n)
  have full: "rt_ringbuffer_status rb \<noteq> RT_RINGBUFFER_FULL" using Suc.prems by (simp add: rt_ringbuffer_status_def)
  define pool where "pool = take (write_index rb) (buffer_ptr rb) @ [ch] @ drop (write_index rb + 1) (buffer_ptr rb)"
  define rb1 where "rb1 = rb\<lparr>buffer_ptr := pool, write_index := write_index rb + 1\<rparr>"
  have l: "length pool = length (buffer_ptr rb)" using Suc.prems(4) by (simp add: pool_def)
  have "rt_ringbuffer_putchar_force ch rb = Some (1, rb1)"
    using Suc.prems(1,4,5) full by (simp add: rt_ringbuffer_putchar_force_def rb_store_char_def blit_def pool_def rb1_def)
  moreover obtain rb' where "rb_run (replicate n (Rb_putchar_force ch)) rb1 = Some (replicate n ([], 1), rb')"
      "buffer_ptr rb' = take (write_index rb1) (buffer_ptr rb1) @ replicate n ch @ drop (write_index rb1 + n) (buffer_ptr rb1)"
    using Suc.IH [of rb1] Suc.prems l by (auto simp: rb1_def)
  moreover have "take (write_index rb1) (buffer_ptr rb1) = take (write_index rb) (buffer_ptr rb) @ [ch]"
    "drop (write_index rb1 + n) (buffer_ptr rb1) = drop (write_index rb + Suc n) (buffer_ptr rb)"
    using Suc.prems(4) by (simp_all add: rb1_def pool_def add.commute)
  ultimately show ?case by (simp add: replicate_append_same)
qed simp

subsection \<open>Properties\<close>

text \<open>A buffer of capacity 8 whose five stored bytes wrap around, with two more bytes behind the pool.\<close>

definition ex_ring :: rt_ringbuffer where
  "ex_ring = \<lparr>buffer_ptr = [1, 2, 3, 4, 5, 6, 7, 8, 98, 99], read_mirror = False, read_index = 5, write_mirror = True, write_index = 2, buffer_size = 8\<rparr>"

lemma ex_ring_facts:
  "rb_ok ex_ring" "rb_data ex_ring = [6, 7, 8, 1, 2]" "read_index ex_ring = 5" "buffer_size ex_ring = 8"
  "drop 8 (buffer_ptr ex_ring) = [98, 99]"
  by (simp add: rb_ok_def ex_ring_def, code_simp+)

text \<open>
  C28. A ring buffer implements its contract: every sequence of puts, forced puts, gets, single
  byte operations and resets on a buffer in order returns what the list of the stored bytes
  with the capacity of the buffer returns, never leaves the caller's data, changes no byte behind
  the pool, and leaves a buffer in order that holds the bytes of that list.
\<close>

theorem ring_refines:
  assumes "rb_ok rb" "fifo_run (buffer_size rb) ops (rb_data rb) = (outs, q)"
  shows "\<exists>rb'. rb_run ops rb = Some (outs, rb') \<and> rb_ok rb' \<and> rb_data rb' = q \<and> buffer_size rb' = buffer_size rb \<and>
    drop (buffer_size rb) (buffer_ptr rb') = drop (buffer_size rb) (buffer_ptr rb)"
  using run_refines [OF assms(1), of ops] assms(2) by (auto simp: rb_frame_def)

theorem ring_refines_witness:
  "\<exists>rb'. rb_run [Rb_put [9, 10, 11, 12], Rb_get 4, Rb_putchar_force 13, Rb_put_force [14, 15, 16, 17], Rb_getchar] ex_ring =
     Some ([([], 3), ([6, 7, 8, 1], 4), ([], 1), ([], 4), ([9], 1)], rb') \<and> rb_ok rb' \<and> rb_data rb' = [10, 11, 13, 14, 15, 16, 17] \<and>
     drop 8 (buffer_ptr rb') = [98, 99]"
proof -
  let ?ops = "[Rb_put [9, 10, 11, 12], Rb_get 4, Rb_putchar_force 13, Rb_put_force [14, 15, 16, 17], Rb_getchar]"
  have "fifo_run 8 ?ops [6, 7, 8, 1, 2] = ([([], 3), ([6, 7, 8, 1], 4), ([], 1), ([], 4), ([9], 1)], [10, 11, 13, 14, 15, 16, 17])"
    by code_simp
  then show ?thesis using ring_refines [OF ex_ring_facts(1), of ?ops] unfolding ex_ring_facts by blast
qed

text \<open>
  C29. Peeking at an empty buffer gives no address and no byte. Otherwise it gives the address of
  the oldest stored byte with the longest run of stored bytes from there on: all of them, or as
  many as there are up to the end of the pool when the stored bytes wrap around. The run consists
  of the oldest bytes in their order; exactly these are removed, and the pool is not changed. A
  second peek removes what is left.
\<close>

theorem ring_peek:
  assumes "rb_ok rb"
  shows "\<exists>i k rb'. rt_ringbuffer_peek rb = (i, k, rb') \<and> rb_ok rb' \<and> buffer_ptr rb' = buffer_ptr rb \<and>
    rb_data rb' = drop k (rb_data rb) \<and> rb_data (snd (snd (rt_ringbuffer_peek rb'))) = [] \<and>
    (if rb_data rb = [] then i = None \<and> k = 0
     else i = Some (read_index rb) \<and> 0 < k \<and> read_index rb + k \<le> buffer_size rb \<and>
       take k (drop (read_index rb) (buffer_ptr rb)) = take k (rb_data rb) \<and>
       (k = length (rb_data rb) \<or> k < length (rb_data rb) \<and> read_index rb + k = buffer_size rb))"
proof -
  obtain i k rb' where p: "rt_ringbuffer_peek rb = (i, k, rb')" by (cases "rt_ringbuffer_peek rb")
  obtain j l rb2 where "rt_ringbuffer_peek rb' = (j, l, rb2)" by (cases "rt_ringbuffer_peek rb'")
  with peek_twice [OF assms p this] peek_result [OF assms] p show ?thesis by (auto split: if_splits)
qed

theorem ring_peek_witness:
  "\<exists>rb'. rt_ringbuffer_peek ex_ring = (Some 5, 3, rb') \<and> rb_data rb' = [1, 2] \<and> rb_data (snd (snd (rt_ringbuffer_peek rb'))) = []"
proof -
  note e = ex_ring_facts
  obtain i k rb' where p: "rt_ringbuffer_peek ex_ring = (i, k, rb')" "rb_data rb' = drop k (rb_data ex_ring)"
      "rb_data (snd (snd (rt_ringbuffer_peek rb'))) = []" "i = Some 5" "5 + k \<le> 8" "k = length (rb_data ex_ring) \<or> 5 + k = 8"
    using ring_peek [OF e(1)] unfolding e(2-4) by (auto simp del: length_rb_data)
  then have "k = 3" unfolding e(2) by auto
  with p show ?thesis unfolding e(2) by (simp add: numeral_3_eq_3)
qed

text \<open>
  C30. Creating a ring buffer on the heap either yields two new blocks, one for the control
  block and one of at least the rounded size for the pool, or leaves the blocks in use as they
  were; destroying it afterwards gives both blocks back.
\<close>

theorem ring_create_destroy:
  assumes "heap_good s" "8 \<le> sz" "sz < 2 ^ 31"
  shows "\<exists>r s1. rt_ringbuffer_create sz s = Some (r, s1) \<and> heap_good s1 \<and>
    (case r of None \<Rightarrow> heap_blocks s1 = heap_blocks s
     | Some (rb, pool, n) \<Rightarrow> n = sz AND NOT 7 \<and>
         (\<exists>k l. 24 \<le> k \<and> unat n \<le> l \<and> heap_blocks s1 = {(rb, k), (pool, l)} \<union> heap_blocks s \<and> {rb..<rb + k} \<inter> {pool..<pool + l} = {}) \<and>
         (\<exists>s2. rt_ringbuffer_destroy rb pool s1 = Some s2 \<and> heap_good s2 \<and> heap_blocks s2 = heap_blocks s))"
proof -
  obtain r s1 where 1: "rt_ringbuffer_create sz s = Some (r, s1)" "heap_good s1"
      "case r of None \<Rightarrow> heap_blocks s1 = heap_blocks s
       | Some (rb, pool, n) \<Rightarrow> n = sz AND NOT 7 \<and> (\<exists>k l. 24 \<le> k \<and> unat n \<le> l \<and> (rb, k) \<notin> heap_blocks s \<and> (pool, l) \<notin> heap_blocks s \<and>
         (rb, k) \<noteq> (pool, l) \<and> heap_blocks s1 = {(rb, k), (pool, l)} \<union> heap_blocks s)"
    using create_result [OF assms] by blast
  show ?thesis
  proof (cases r)
    case None
    then show ?thesis using 1 by auto
  next
    case (Some x)
    obtain rb pool n where x: "x = (rb, pool, n)" by (cases x)
    then obtain k l where k: "n = sz AND NOT 7" "24 \<le> k" "unat n \<le> l" "(rb, k) \<notin> heap_blocks s" "(pool, l) \<notin> heap_blocks s"
        "(rb, k) \<noteq> (pool, l)" "heap_blocks s1 = {(rb, k), (pool, l)} \<union> heap_blocks s" using 1(3) Some by auto
    then have "{rb..<rb + k} \<inter> {pool..<pool + l} = {}" using hp.apart [OF 1(2), of rb k pool l] by blast
    moreover obtain s2 where "rt_ringbuffer_destroy rb pool s1 = Some s2" "heap_good s2" "heap_blocks s2 = heap_blocks s1 - {(rb, k), (pool, l)}"
      using destroy_result [OF 1(2), of rb k pool l] k(6,7) by auto
    moreover from this(3) have "heap_blocks s2 = heap_blocks s" using k(4,5,7) by blast
    ultimately show ?thesis using 1(1,2) Some x k(1,2,3,7) by auto
  qed
qed

theorem ring_create_destroy_witness:
  "\<exists>r s1. rt_ringbuffer_create 67 ex_heap = Some (r, s1) \<and> heap_good s1 \<and>
    (case r of None \<Rightarrow> heap_blocks s1 = {(4232, 24)}
     | Some (rb, pool, n) \<Rightarrow> n = 64 \<and> (\<exists>s2. rt_ringbuffer_destroy rb pool s1 = Some s2 \<and> heap_good s2 \<and> heap_blocks s2 = {(4232, 24)}))"
proof -
  obtain r s1 where 1: "rt_ringbuffer_create 67 ex_heap = Some (r, s1)" "heap_good s1"
      "case r of None \<Rightarrow> heap_blocks s1 = heap_blocks ex_heap
       | Some (rb, pool, n) \<Rightarrow> n = 67 AND NOT 7 \<and>
         (\<exists>s2. rt_ringbuffer_destroy rb pool s1 = Some s2 \<and> heap_good s2 \<and> heap_blocks s2 = heap_blocks ex_heap)"
    using ring_create_destroy [OF ex_heap_good(1), of 67] by (fastforce split: option.splits)
  then show ?thesis by (auto simp: ex_heap_good split: option.splits)
qed

text \<open>
  C31. \<^verbatim>\<open>rt_ringbuffer_init\<close> accepts every size from 1 to 7 and gives the buffer a capacity of 0.
  Forcing single bytes into such a buffer never wraps and never fails: with one call more than the
  pool has bytes, every call reports success and the byte behind the pool is overwritten.
\<close>

theorem ring_small_overrun:
  assumes "0 < sz" "sz < 8" "length pool = unat sz"
  shows "\<exists>rb rb'. rt_ringbuffer_init (pool @ x # behind) sz = Some rb \<and> buffer_size rb = 0 \<and>
    rb_run (replicate (length pool + 1) (Rb_putchar_force ch)) rb = Some (replicate (length pool + 1) ([], 1), rb') \<and>
    buffer_ptr rb' = replicate (length pool) ch @ ch # behind"
proof -
  let ?rb = "\<lparr>buffer_ptr = pool @ x # behind, read_mirror = False, read_index = 0, write_mirror = False, write_index = 0, buffer_size = 0\<rparr>"
  have n: "unat sz < 8" using assms(2) by (simp add: word_less_nat_alt)
  then have "unat (sz AND NOT 7) = 0" unfolding unat_align_down by simp
  moreover have "0 <s sz" by (rule sless_small) (use assms(1,2) in \<open>auto simp: word_less_nat_alt\<close>)
  ultimately have "rt_ringbuffer_init (pool @ x # behind) sz = Some ?rb" unfolding rt_ringbuffer_init_def by (simp only: rt_assert_def) simp
  moreover obtain rb' where "rb_run (replicate (length pool + 1) (Rb_putchar_force ch)) ?rb = Some (replicate (length pool + 1) ([], 1), rb')"
      "buffer_ptr rb' = replicate (length pool + 1) ch @ drop (length pool + 1) (pool @ x # behind)"
    using force_steps [of ?rb "length pool + 1" ch] n assms(3) by auto
  ultimately show ?thesis by (auto simp: replicate_append_same)
qed

theorem ring_small_overrun_witness:
  "\<exists>rb rb'. rt_ringbuffer_init [0, 0, 0, 0, 42] 4 = Some rb \<and> buffer_size rb = 0 \<and>
     rb_run (replicate 5 (Rb_putchar_force 1)) rb = Some (replicate 5 ([], 1), rb') \<and> buffer_ptr rb' = [1, 1, 1, 1, 1]"
proof -
  have l: "length [0 :: u8, 0, 0, 0] + 1 = 5" "(0 :: u32) < 4" "(4 :: u32) < 8" "length [0 :: u8, 0, 0, 0] = unat (4 :: u32)"
    "replicate (length [0 :: u8, 0, 0, 0]) (1 :: u8) @ 1 # [] = [1, 1, 1, 1, 1]"
    by code_simp+
  show ?thesis using ring_small_overrun [OF l(2-4), of 42 "[]" 1] unfolding l(1,5) by simp
qed

end
