(* ===== verification/Spec2Isabelle.thy ===== *)
theory Spec2Isabelle
  imports RT_Example RT_Live RT_Ring
begin

text \<open>
  A verification of the RT-Thread kernel (\<^verbatim>\<open>src/rt-thread\<close>): threads and their scheduler, timers,
  the IPC objects, memory pools, the small memory allocator with the system heap, and the ring
  buffer of the driver framework.

  \<^bold>\<open>The program and its configuration.\<close> Threads run by priority on one processor. A thread is on
  the ready list of its priority, on the suspend list of the object it waits for, or on the list of
  closed threads. The tick interrupt counts time slices and expires timers; the timer of a thread
  ends its wait. The configuration is that of the repository: one processor, 32 priorities, one
  row of the timer skip list, debug checks and stack check on, soft timers, the small memory
  allocator as heap with \<^verbatim>\<open>RT_USING_HEAP_ISR\<close>, \<^verbatim>\<open>RT_ALIGN_SIZE\<close> 8, 64-bit addresses, no signals,
  no processes, no message priorities. Hooks are not set.

  \<^bold>\<open>State and operations.\<close> The kernel state is the record \<^typ>\<open>kst\<close>: the thread control blocks, one
  list space for all lists of threads, the ready bitmap, nesting counters, the running thread, the
  timers \<^typ>\<open>tmst\<close> and the IPC objects \<^typ>\<open>ipcst\<close>. Objects are named by numbers, and their type byte
  tells whether they are initialised. Every function of the C code is a definition of the same
  name (without a leading underscore, or primed where both names exist) from a state to an optional
  result and state. \<^const>\<open>None\<close> stands for a failed \<^verbatim>\<open>RT_ASSERT\<close>, an access through a null pointer or
  out of bounds, or a loop that does not end. A call that blocks is cut at \<^verbatim>\<open>rt_schedule\<close>: it
  answers \<open>Wait\<close>, and the code after the switch is the definition with the suffix \<open>_resume\<close> (or
  \<open>_wake\<close>, \<open>_finish\<close>). Sections with interrupts disabled are atomic; a spin lock on one processor is
  a critical section of the scheduler. The callbacks of timers, the cleanup functions of threads and
  the hooks of the idle thread belong to the application and are parameters.

  \<^bold>\<open>The theories.\<close>
  \<^item> \<^verbatim>\<open>RT_Prelude\<close>: machine integers, error codes, assertions, shared lemmas. \<^verbatim>\<open>RT_List\<close>: the lists of
    \<^verbatim>\<open>include/rtservice.h\<close> on a store of pointers, and the sequences they represent; the locale
    \<open>list_provider\<close> is interpreted on both. \<^verbatim>\<open>RT_Ffs\<close>: \<^verbatim>\<open>__rt_ffs\<close> of \<^verbatim>\<open>src/kservice.c\<close>.
    \<^verbatim>\<open>RT_Object\<close>: type bytes of objects (\<^verbatim>\<open>src/object.c\<close>). \<^verbatim>\<open>RT_Fifo\<close>: the locale \<open>bounded_fifo\<close>,
    which mailboxes, message queues and ring buffers interpret.
  \<^item> \<^verbatim>\<open>RT_Timer\<close>: timer lists of \<^verbatim>\<open>src/timer.c\<close> and the tick counter of \<^verbatim>\<open>src/clock.c\<close>; starting
    and stopping keep the lists sorted. \<^verbatim>\<open>RT_Tick\<close>: the expiry loops, the timer thread and the tick
    interrupt; the loops end (locale \<open>expiry_loop\<close>). \<^verbatim>\<open>RT_Live\<close>: a timed wait ends at its deadline.
  \<^item> \<^verbatim>\<open>RT_Kernel\<close>: the state. \<^verbatim>\<open>RT_Sched\<close>: \<^verbatim>\<open>src/scheduler_up.c\<close> and \<^verbatim>\<open>src/scheduler_comm.c\<close>.
    \<^verbatim>\<open>RT_SchedInv\<close>: the invariant of the scheduler and the choice of the most urgent thread.
    \<^verbatim>\<open>RT_Susp\<close>: suspend lists (\<^verbatim>\<open>src/ipc.c\<close>) and suspending and resuming threads
    (\<^verbatim>\<open>src/thread.c\<close>). \<^verbatim>\<open>RT_KInv\<close>: the invariant \<open>kinv\<close> of the kernel, which links threads and
    timers. \<^verbatim>\<open>RT_Wait\<close>, \<^verbatim>\<open>RT_Class\<close>: what waiting calls share; the locale \<open>object_class\<close>, which every
    class of IPC objects interprets, and the footprint of an operation.
  \<^item> \<^verbatim>\<open>RT_Sem\<close>, \<^verbatim>\<open>RT_Event\<close>, \<^verbatim>\<open>RT_Mailbox\<close>, \<^verbatim>\<open>RT_MsgQueue\<close> (\<^verbatim>\<open>src/ipc.c\<close>) and \<^verbatim>\<open>RT_Mempool\<close>
    (\<^verbatim>\<open>src/mempool.c\<close>): one class of objects each, with its invariant, its abstract meaning and the
    operations on every branch. \<^verbatim>\<open>RT_Mutex\<close>: the operations of mutexes; \<^verbatim>\<open>RT_MutexInv\<close>,
    \<^verbatim>\<open>RT_MutexOps\<close>, \<^verbatim>\<open>RT_MutexTake\<close>: ownership, priority inheritance along chains of owners, and the
    queues of the mutexes.
  \<^item> \<^verbatim>\<open>RT_Thread\<close>: the life of a thread (\<^verbatim>\<open>src/thread.c\<close>, \<^verbatim>\<open>src/idle.c\<close>, the first stack frame of
    \<^verbatim>\<open>libcpu/risc-v/virt64/cpuport.c\<close>). \<^verbatim>\<open>RT_ThreadInv\<close>, \<^verbatim>\<open>RT_Close\<close>, \<^verbatim>\<open>RT_Detach\<close>: its steps keep the
    invariant; closed threads are reclaimed. \<^verbatim>\<open>RT_Total\<close>: the operations return. \<^verbatim>\<open>RT_Example\<close>:
    concrete states.
  \<^item> \<^verbatim>\<open>RT_SMem\<close>, \<^verbatim>\<open>RT_SMemInv\<close>, \<^verbatim>\<open>RT_SMemOps\<close>: the small memory allocator of \<^verbatim>\<open>src/mem.c\<close> with its item
    headers in memory, and the list of blocks they represent. \<^verbatim>\<open>RT_Heap\<close>, \<^verbatim>\<open>RT_HeapSpec\<close>: the system
    heap of \<^verbatim>\<open>src/kservice.c\<close> (locale \<open>block_heap\<close>) and the properties of both.
  \<^item> \<^verbatim>\<open>RT_Ring\<close>: the ring buffer of \<^verbatim>\<open>components/drivers/ipc/ringbuffer.c\<close>.

  \<^bold>\<open>What is shown.\<close> C1: the scheduler runs the most urgent ready thread. C2 to C5: mutexes refine an
  abstract mutex, priorities are inherited along chains of owners, and the propagation ends. C6 to
  C15: semaphores, events, mailboxes, message queues and memory pools do what their abstract
  objects do, on every branch. C16 to C18 and C32: timers stay in the order of expiry across the
  wrap-around of the tick, conversions and remaining timeouts are exact, and timed waits end on
  time. C19, C20: lists and \<^verbatim>\<open>__rt_ffs\<close>. C21 to C27: allocator and heap, with the requests whose size
  wraps around. C28 to C31: the ring buffer, with the overrun of buffers smaller than 8 bytes.

  \<^bold>\<open>Loops.\<close> No fuel is used. Loops over lists that shrink are recursive functions with a termination
  proof; the other loops are partial functions, and the properties state that they return.

  \<^bold>\<open>Where the model is coarser than the code.\<close>
  \<^item> The data of a message are a list of bytes; the code checks their size against the size of a
    block before it copies. Blocks of a memory pool are numbered, and the chain of free blocks is
    kept by number and not by address.
  \<^item> \<^verbatim>\<open>rt_mutex_release\<close> calls \<^verbatim>\<open>rt_schedule\<close> after it has released the spin lock; the model runs both
    in one step.
  \<^item> Signed operations of C wrap around: \<^const>\<open>rt_ffs_tiny\<close> negates the least 32-bit integer, and
    the tick conversions compute with unbounded integers, which is exact for at most 1000 ticks per
    second. The fields of a ring buffer are natural numbers below $2^{31}$, their differences are
    taken at the width of the C expression.
  \<^item> Objects have no names, and the containers of objects are not kept.

  \<^bold>\<open>Not modelled.\<close> The scheduler for several processors, signals, processes, the other allocators,
  memory tracing, formatted output, device drivers, file systems, network, shell, C library layers,
  start-up code and context switch in assembler, chips and boards.
\<close>

text \<open>
  C19. The pointer operations of the doubly linked lists keep a first-in first-out queue:
  on any store in which the lists are well formed, appending distinct unlinked nodes to
  an empty list with \<^verbatim>\<open>rt_list_insert_before\<close> and then taking the first node off with
  \<^verbatim>\<open>rt_list_remove\<close> until the list is empty yields the nodes in the order they were
  appended.
\<close>

theorem list_fifo:
  assumes "represents st L" "L h = []" "distinct ns" "\<forall>n\<in>set ns. unlinked L n"
  shows "ptr.drain (length ns) (fold (\<lambda>n s. rt_list_insert_before s (Head h) (Node n)) ns st) h = ns"
  by (rule ptr.fifo [OF assms])

theorem list_fifo_witness:
  "ptr.drain 2 (fold (\<lambda>n s. rt_list_insert_before s (Head ()) (Node n)) [1, 2::nat]
     \<lparr>nxt = id, prv = id\<rparr>) () = [1, 2]"
proof -
  have "represents \<lparr>nxt = id, prv = id\<rparr> (\<lambda>_ :: unit. [] :: nat list)"
    by (simp add: represents_def wf_ls_def unlinked_def)
  from list_fifo [OF this, where h = "()" and ns = "[1, 2]"] show ?thesis
    by (simp add: unlinked_def numeral_2_eq_2)
qed

text \<open>
  C20. The two software variants of \<^verbatim>\<open>__rt_ffs\<close>, the byte table and the modulo-37
  table, return the same result on every 32-bit value: 0 for 0 and otherwise one more
  than the index of the least significant set bit.
\<close>

theorem ffs_variants:
  "rt_ffs_tiny w = rt_ffs w \<and>
   (if w = 0 then rt_ffs w = 0 else 0 < rt_ffs w \<and> least_set w (rt_ffs w - 1))"
  using rt_ffs_pos rt_ffs_least by (simp add: rt_ffs_tiny_eq)

section \<open>Scheduling\<close>

text \<open>
  C1. \<^verbatim>\<open>rt_schedule\<close>, called outside critical sections with intact stacks, returns; it keeps the
  kernel invariant, and afterwards the current thread is running and no ready thread has a
  higher priority (a smaller number) than the running one.
\<close>

theorem schedule_selects:
  assumes "kinv s" "stacks_ok s" "lock_nest s = 0" "current s = Some c" "runnable (threads s c) \<or> ready_group s \<noteq> 0"
  shows "\<exists>s' c'. rt_schedule s = Some s' \<and> kinv s' \<and> current s' = Some c' \<and>
    th_stat (threads s' c') = RT_THREAD_RUNNING \<and>
    (\<forall>t. th_stat (threads s' t) = RT_THREAD_READY \<longrightarrow> prio_of (threads s' c') \<le> prio_of (threads s' t))"
proof -
  obtain s' where s': "rt_schedule s = Some s'" using schedule_returns [OF assms(1,2)] assms(4) by auto
  then show ?thesis
    using schedule_highest [OF s' kinvD(1) [OF assms(1)] assms(3,4)] kinv_schedule [OF s' assms(1)] assms(5) by blast
qed

theorem schedule_selects_witness:
  "\<exists>s' c'. rt_schedule (ex_state (Sem_q 0) None 0 0 ex_ipc) = Some s' \<and> kinv s' \<and> current s' = Some c' \<and>
    th_stat (threads s' c') = RT_THREAD_RUNNING \<and>
    (\<forall>t. th_stat (threads s' t) = RT_THREAD_READY \<longrightarrow> prio_of (threads s' c') \<le> prio_of (threads s' t))"
  by (rule schedule_selects [OF ex_kinv ex_stacks, where c = 2]) simp_all

section \<open>Semaphores\<close>

text \<open>
  C6. \<^verbatim>\<open>rt_sem_release\<close> refines the abstract counting semaphore: a waiting thread is woken first
  in the order of the queue and its take then succeeds, otherwise the value is counted up to
  the limit, and at the limit the call fails with \<^verbatim>\<open>-RT_EFULL\<close> and changes nothing; no other
  semaphore changes.
\<close>

theorem sem_release_refines:
  assumes "ksem_inv s" "stacks_ok s" "current s \<noteq> None"
    "rt_object_get_type (sem_type (sems (ipc s) i)) = RT_Object_Class_Semaphore"
  shows "\<exists>e s'. rt_sem_release i s = Some (e, s') \<and> ksem_inv s' \<and> asem_release (asem_of s i) = (e, asem_of s' i) \<and>
    (\<forall>j. j \<noteq> i \<longrightarrow> asem_of s' j = asem_of s j) \<and>
    (case tls s (Susp (Sem_q i)) of [] \<Rightarrow> True
     | t # ts \<Rightarrow> runnable (threads s' t) \<and> sem_take_resume t s' = RT_EOK)"
proof -
  obtain e s' where r: "rt_sem_release i s = Some (e, s')"
    using sem_release_returns [OF _ assms(2-4)] assms(1) by (auto simp: ksem_inv_def)
  show ?thesis
    using r release_refines [OF r assms(1)] ksem_release [OF r assms(1)] by (auto split: list.split)
qed

theorem sem_release_refines_witness:
  "\<exists>e s'. rt_sem_release 0 ex_sem = Some (e, s') \<and> ksem_inv s' \<and> asem_release (asem_of ex_sem 0) = (e, asem_of s' 0) \<and>
    (\<forall>j. j \<noteq> 0 \<longrightarrow> asem_of s' j = asem_of ex_sem j) \<and> runnable (threads s' 3) \<and> sem_take_resume 3 s' = RT_EOK"
proof -
  have "tls ex_sem (Susp (Sem_q 0)) = [3]" by (simp add: ex_sem_def ex_defs)
  then show ?thesis
    using sem_release_refines [OF ex_sem_inv(1,2) _ ex_sem_inv(4)] ex_sem_inv(3) by (simp add: in_thread_def)
qed

text \<open>
  C7. \<^verbatim>\<open>_rt_sem_take\<close> in a thread, with a timeout the timers accept: it takes a positive value at
  once; without a value it fails at once for timeout 0, and otherwise the caller is suspended
  in the queue of the semaphore, with its timer armed exactly when the timeout is positive,
  and has lost the processor. The semaphore invariant holds afterwards.
\<close>

theorem sem_take_effect:
  assumes "ksem_inv s" "stacks_ok s" "in_thread t s"
    "rt_object_get_type (sem_type (sems (ipc s) i)) = RT_Object_Class_Semaphore"
    "sf = RT_INTERRUPTIBLE \<or> sf = RT_KILLABLE \<or> sf = RT_UNINTERRUPTIBLE" "timeout < 0x7fffffff"
  shows "\<exists>s'. rt_sem_take' i timeout sf s = Some
      (if 0 < sem_value (sems (ipc s) i) then Ret RT_EOK else if timeout = 0 then Ret (- RT_ETIMEOUT) else Wait, s') \<and>
    ksem_inv s' \<and>
    (if 0 < sem_value (sems (ipc s) i) then sem_value (sems (ipc s') i) = sem_value (sems (ipc s) i) - 1
     else sems (ipc s') i = sems (ipc s) i \<and> (timeout \<noteq> 0 \<longrightarrow> th_suspended (threads s' t) \<and>
       t \<in> set (tls s' (Susp (Sem_q i))) \<and> (ttmr_set (threads s' t) \<longleftrightarrow> 0 < timeout) \<and> current s' \<noteq> Some t))"
  by (rule sem_take_returns [OF assms])

theorem sem_take_effect_witness:
  "\<exists>s'. rt_sem_take' 0 50 RT_UNINTERRUPTIBLE ex_sem = Some (Wait, s') \<and> ksem_inv s' \<and> th_suspended (threads s' 2) \<and>
    ttmr_set (threads s' 2) \<and> current s' \<noteq> Some 2"
proof -
  have "sem_value (sems (ipc ex_sem) 0) = 0" by (simp add: ex_sem_def)
  then show ?thesis
    using sem_take_effect [OF ex_sem_inv(1,2,3,4), of RT_UNINTERRUPTIBLE 50] by auto
qed

section \<open>Mutexes\<close>

text \<open>
  C2. \<^verbatim>\<open>rt_mutex_release\<close> refines the abstract mutex: only the owner can release; a nested hold
  is counted down; the last release hands the mutex to the first waiting thread, which then
  holds it once, or frees it. No other mutex changes owner, depth or queue.
\<close>

theorem mutex_release_refines:
  assumes "kmtx_inv s" "stacks_ok s" "current s = Some t" "irq_nest s = 0"
    "rt_object_get_type (mtx_type (mutexes (ipc s) i)) = RT_Object_Class_Mutex" "init_priority (threads s t) < RT_THREAD_PRIORITY_MAX"
  shows "\<exists>e s'. rt_mutex_release i s = Some (e, s') \<and> kmtx_inv s' \<and> amtx_release t (amtx_of s i) = (e, amtx_of s' i) \<and>
    (\<forall>j. j \<noteq> i \<longrightarrow> amtx_of s' j = amtx_of s j)"
proof -
  obtain e s' where r: "rt_mutex_release i s = Some (e, s')" using release_returns [OF assms] by blast
  then show ?thesis using release_result [OF r assms(1,3)] by blast
qed

theorem mutex_release_refines_witness:
  "\<exists>e s'. rt_mutex_release 0 (ex_mtx (Mutex_q 0) (Some 2) 1) = Some (e, s') \<and> kmtx_inv s' \<and> e = RT_EOK \<and>
     owner (mutexes (ipc s') 0) = Some 3"
proof -
  have "init_priority (threads (ex_mtx (Mutex_q 0) (Some 2) 1) 2) < RT_THREAD_PRIORITY_MAX"
    by (simp add: ex_mtx_def ex_defs)
  moreover have "amtx_of (ex_mtx (Mutex_q 0) (Some 2) 1) 0 = (Some 2, 1, [3])"
    by (simp add: amtx_of_def ex_mtx_def ex_defs)
  ultimately show ?thesis
    using mutex_release_refines [OF ex_mtx_inv(1) ex_mtx_simps(1) in_threadD(1,4) [OF ex_mtx_simps(2)] ex_mtx_simps(3), of 2]
    by (auto simp: amtx_of_def)
qed

text \<open>
  C3. \<^verbatim>\<open>_rt_mutex_take\<close> called from a thread returns, and refines the abstract mutex on every branch.
  It waits exactly when another thread owns the mutex and the timeout is not 0. Otherwise a free
  mutex is taken, the owner nests up to 255 holds and then gets \<^verbatim>\<open>-RT_EFULL\<close>, another thread gets
  \<^verbatim>\<open>-RT_ETIMEOUT\<close>. A caller that waits joins the queue of the mutex behind the waiting threads that
  are at least as urgent, while the owner and the depth stay; it is suspended, marked as waiting for
  the mutex, has its timer armed exactly when the timeout is positive, and has lost the processor. No
  other mutex changes its owner or depth or loses a waiting thread. The owner's own waiting chain is
  finite and does not contain the caller (no deadlock).
\<close>

theorem mutex_take_refines:
  assumes "kmtx_inv s" "stacks_ok s" "in_thread t s"
    "rt_object_get_type (mtx_type (mutexes (ipc s) i)) = RT_Object_Class_Mutex"
    "ceiling_priority (mutexes (ipc s) i) = 0xff \<or> ceiling_priority (mutexes (ipc s) i) < RT_THREAD_PRIORITY_MAX"
    "\<And>own. owner (mutexes (ipc s) i) = Some own \<Longrightarrow> own \<noteq> t \<Longrightarrow> owner_chain s own us \<and> t \<notin> set us"
    "\<forall>u\<in>set us. init_priority (threads s u) < RT_THREAD_PRIORITY_MAX"
    "sf = RT_INTERRUPTIBLE \<or> sf = RT_KILLABLE \<or> sf = RT_UNINTERRUPTIBLE" "timeout < 0x7fffffff"
  shows "\<exists>r s'. rt_mutex_take' i timeout sf s = Some (r, s') \<and> kmtx_inv s' \<and>
    (r = Wait \<longleftrightarrow> timeout \<noteq> 0 \<and> (\<exists>own. owner (mutexes (ipc s) i) = Some own \<and> own \<noteq> t)) \<and> (case r of
      Ret e \<Rightarrow> amtx_take t (amtx_of s i) = (e, amtx_of s' i)
    | Wait \<Rightarrow> amtx_of s' i = amtx_wait (\<lambda>u. current_priority (threads s u)) t (amtx_of s i) \<and>
        th_suspended (threads s' t) \<and> pending_object (threads s' t) = Some i \<and>
        (ttmr_set (threads s' t) \<longleftrightarrow> 0 < timeout) \<and> current s' \<noteq> Some t \<and>
        owner (mutexes (ipc s') i) = owner (mutexes (ipc s) i) \<and> hold (mutexes (ipc s') i) = hold (mutexes (ipc s) i) \<and>
        (\<forall>j. j \<noteq> i \<longrightarrow> owner (mutexes (ipc s') j) = owner (mutexes (ipc s) j) \<and>
           hold (mutexes (ipc s') j) = hold (mutexes (ipc s) j) \<and>
           set (tls s (Susp (Mutex_q j))) \<subseteq> set (tls s' (Susp (Mutex_q j)))))"
proof -
  obtain r s' where run: "rt_mutex_take' i timeout sf s = Some (r, s')" using take_returns [OF assms] by blast
  note t = take_result [OF run assms(1) in_threadD(1,2,5) [OF assms(3)]]
  have w: "r = Wait \<longleftrightarrow> timeout \<noteq> 0 \<and> (\<exists>own. owner (mutexes (ipc s) i) = Some own \<and> own \<noteq> t)"
    by (rule take_waits_iff [OF assms(1-4,6-9) run])
  show ?thesis
  proof (cases r)
    case Wait
    note q = take_wait_queues [OF run [unfolded Wait] assms(1) in_threadD(1,2,5) [OF assms(3)] assms(6)]
    show ?thesis using run t q w Wait by simp
  qed (use run t w in simp)
qed

theorem mutex_take_refines_witness:
  "\<exists>s'. rt_mutex_take' 0 50 RT_UNINTERRUPTIBLE (ex_mtx (Mutex_q 0) (Some 0) 1) = Some (Wait, s') \<and> kmtx_inv s' \<and>
     amtx_of s' 0 = (Some 0, 1, [3, 2]) \<and> th_suspended (threads s' 2) \<and> ttmr_set (threads s' 2) \<and> current s' \<noteq> Some 2"
proof -
  let ?s = "ex_mtx (Mutex_q 0) (Some 0) 1"
  have a: "amtx_of ?s 0 = (Some 0, 1, [3])" "ceiling_priority (mutexes (ipc ?s) 0) = 0xff" "owner_chain ?s 0 []"
    "current_priority (threads ?s 3) = 3" "current_priority (threads ?s 2) = 5"
    by (simp_all add: amtx_of_def waits_def ex_mtx_def ex_defs)
  then have "amtx_wait (\<lambda>u. current_priority (threads ?s u)) 2 (amtx_of ?s 0) = (Some 0, 1, [3, 2])"
    by (simp add: amtx_wait_def)
  then show ?thesis
    using mutex_take_refines [OF ex_mtx_inv(1) ex_mtx_simps(1-3), of 0 "[]" RT_UNINTERRUPTIBLE 50] a(2,3)
      ex_mtx_simps(4) [of "Mutex_q 0" "Some 0" 1]
    by (fastforce split: wres.splits)
qed

text \<open>
  C4. Priority inheritance is transitive. When a thread waits for a mutex whose owner waits, along
  a chain of mutexes, for further owners, the call returns and afterwards the owner and every
  owner along the chain run at least at the priority of the waiting thread. Before the call
  the priorities along the chain were passed on (each owner is at least as urgent as the
  thread that waits for it).
\<close>

theorem priority_inheritance:
  assumes "kmtx_inv s" "stacks_ok s" "in_thread t s" "timeout < 0x7fffffff" "timeout \<noteq> 0"
    "rt_object_get_type (mtx_type (mutexes (ipc s) i)) = RT_Object_Class_Mutex" "owner (mutexes (ipc s) i) = Some own"
    "owner_chain s own us" "distinct (t # own # us)" "\<forall>u\<in>set us. init_priority (threads s u) < RT_THREAD_PRIORITY_MAX"
    "sorted_wrt (\<lambda>u v. current_priority (threads s v) \<le> current_priority (threads s u)) (own # us)"
    "current_priority (threads s own) \<le> mtx_priority (mutexes (ipc s) i)"
  shows "\<exists>s'. rt_mutex_take i timeout s = Some (Wait, s') \<and>
    (\<forall>u\<in>set (own # us). current_priority (threads s' u) \<le> current_priority (threads s t))"
proof -
  have "t \<notin> set (own # us)" using assms(9) by simp
  then obtain s' where s': "rt_mutex_take' i timeout RT_UNINTERRUPTIBLE s = Some (Wait, s')"
    using take_wait_returns [OF assms(1-3,6-8) _ assms(10) _ assms(4,5)] by blast
  then show ?thesis
    using take_inherits [OF s' assms(1) in_threadD(1,2,5) [OF assms(3)] assms(7-9,11,12)] by (auto simp: rt_mutex_take_def)
qed

theorem priority_inheritance_witness:
  "\<exists>s'. rt_mutex_take 0 (- 1) (ex_mtx (Sem_q 9) (Some 0) 1) = Some (Wait, s') \<and> current_priority (threads s' 0) \<le> 5"
proof -
  let ?s = "ex_mtx (Sem_q 9) (Some 0) 1"
  have "owner_chain ?s 0 []" by (simp add: waits_def ex_mtx_def ex_defs)
  moreover have "current_priority (threads ?s 0) \<le> mtx_priority (mutexes (ipc ?s) 0)" "current_priority (threads ?s 2) = 5"
    by (simp_all add: ex_mtx_def ex_defs)
  ultimately show ?thesis
    using priority_inheritance [where timeout = "- 1" and us = "[]" and own = 0, OF ex_mtx_inv(2) ex_mtx_simps(1,2) _ _ ex_mtx_simps(3,4)] by simp
qed

text \<open>
  C5. The loop that propagates a changed priority through a chain of waiting owners terminates:
  for every thread whose chain of owners is finite, with initial priorities in range, it
  returns a result.
\<close>

theorem propagation_terminates:
  assumes "kmtx_inv s" "owner_chain s t us" "\<forall>u\<in>set us. init_priority (threads s u) < RT_THREAD_PRIORITY_MAX"
  shows "\<exists>s'. thread_update_loop t s = Some s'"
  using update_loop_total [OF kmtx_invD(1,2) [OF assms(1)] assms(2,3)] .

theorem propagation_terminates_witness: "\<exists>s'. thread_update_loop 3 (ex_mtx (Mutex_q 0) (Some 0) 1) = Some s'"
proof -
  have "owner_chain (ex_mtx (Mutex_q 0) (Some 0) 1) 3 [0]" "init_priority (threads (ex_mtx (Mutex_q 0) (Some 0) 1) 0) = 31"
    by (simp_all add: waits_def waits_for_def ex_mtx_def ex_defs)
  then show ?thesis using propagation_terminates [where t = 3 and us = "[0]", OF ex_mtx_inv(1)] by simp
qed

section \<open>Events\<close>

text \<open>
  C8. \<^verbatim>\<open>rt_event_send\<close> refines the abstract event: it returns \<^verbatim>\<open>RT_EOK\<close>, wakes exactly the waiting
  threads whose AND/OR condition holds on the bits set so far together with the sent ones,
  keeps the others in their order, and clears afterwards the bits received by the woken threads
  that asked for it. Each woken thread is runnable and its pending receive returns
  \<^verbatim>\<open>RT_EOK\<close> with the bits it asked for.
\<close>

theorem event_send_wakes:
  assumes "kev_inv s" "stacks_ok s" "current s \<noteq> None"
    "rt_object_get_type (ev_type (events (ipc s) i)) = RT_Object_Class_Event" "bits \<noteq> 0"
  shows "\<exists>s'. rt_event_send i bits s = Some (RT_EOK, s') \<and> kev_inv s' \<and> aev_of s' i = snd (aev_send bits (aev_of s i)) \<and>
    (\<forall>t got. (t, got) \<in> set (fst (aev_send bits (aev_of s i))) \<longrightarrow>
       runnable (threads s' t) \<and> event_recv_resume True t s' = (RT_EOK, Some got))"
proof -
  obtain e s' where r: "rt_event_send i bits s = Some (e, s')" using event_send_returns [OF assms(1-4)] by blast
  note f = event_send_refines [OF r assms(1,5)]
  show ?thesis using r f kev_send [OF r assms(1)] by blast
qed

theorem event_send_wakes_witness:
  "\<exists>s'. rt_event_send 0 3 ex_event = Some (RT_EOK, s') \<and> kev_inv s' \<and> aev_of s' 0 = (10, []) \<and>
     runnable (threads s' 3) \<and> event_recv_resume True 3 s' = (RT_EOK, Some 1)"
proof -
  have "aev_of ex_event 0 = (8, [(3, 6, 1)])" by (simp add: aev_of_def ex_event_def ex_defs)
  then have "aev_send 3 (aev_of ex_event 0) = ([(3, 1)], (10, []))"
    by (simp add: aev_send_def awant_def ev_sat_def)
  then show ?thesis
    using event_send_wakes [OF ex_event_inv(1,2) _ ex_event_inv(4), of 3] in_threadD(1) [OF ex_event_inv(3)] by simp
qed

section \<open>Mailboxes\<close>

text \<open>
  C9. \<^verbatim>\<open>rt_mb_send\<close> never waits. A mailbox with room takes the value at its end and the first
  thread waiting to receive is woken; a full mailbox keeps its mails and the call returns
  \<^verbatim>\<open>-RT_EFULL\<close>.
\<close>

theorem mb_send_result:
  assumes "kmb_inv s" "stacks_ok s" "current s \<noteq> None"
    "rt_object_get_type (mb_type (mbs (ipc s) i)) = RT_Object_Class_MailBox"
  shows "\<exists>e s'. rt_mb_send i v s = Some (Ret e, s') \<and> kmb_inv s' \<and>
    (if mb_entry (mbs (ipc s) i) < mb_size (mbs (ipc s) i)
     then e = RT_EOK \<and> mb_queue (mbs (ipc s') i) = mb_queue (mbs (ipc s) i) @ [v] \<and>
       (case tls s (Susp (Mb_q i)) of
          [] \<Rightarrow> True
        | t # ts \<Rightarrow> runnable (threads s' t) \<and> error (threads s' t) = RT_EOK \<and> tls s' (Susp (Mb_q i)) = ts)
     else e = - RT_EFULL \<and> s' = s)"
proof (cases "mb_entry (mbs (ipc s) i) < mb_size (mbs (ipc s) i)")
  case True
  have "call_ok 0 s" using assms(3) by (simp add: call_ok_def)
  from mb_send_returns [OF assms(1,2) this assms(4) True] obtain s' where
    r: "rt_mb_send_wait' i v 0 RT_UNINTERRUPTIBLE s = Some (Ret RT_EOK, s')" by blast
  show ?thesis
    using r True mb_send_refines [OF r assms(1)] kmb_send [OF r assms(1)]
    by (auto simp: rt_mb_send_def rt_mb_send_wait_def split: list.split)
next
  case False
  then have "mb_entry (mbs (ipc s) i) = mb_size (mbs (ipc s) i)" using mb_room(1) [OF kmb_invD(1) [OF assms(1,4)]] by blast
  then show ?thesis
    using assms(1,4) by (simp add: rt_mb_send_def rt_mb_send_wait_def rt_mb_send_wait'_def debug_scheduler_available_def)
qed

theorem mb_send_result_witness:
  "\<exists>s'. rt_mb_send 0 7 (ex_mb (Mb_q 0)) = Some (Ret RT_EOK, s') \<and> mb_queue (mbs (ipc s') 0) = [11, 7] \<and> runnable (threads s' 3)"
proof -
  have "current (ex_mb (Mb_q 0)) \<noteq> None" "mb_queue (mbs (ipc (ex_mb (Mb_q 0))) 0) = [11]" "tls (ex_mb (Mb_q 0)) (Susp (Mb_q 0)) = [3]"
    "mb_entry (mbs (ipc (ex_mb (Mb_q 0))) 0) < mb_size (mbs (ipc (ex_mb (Mb_q 0))) 0)"
    by (simp_all add: ex_mb_def ex_defs mb_queue_def ring_abs_def)
  then show ?thesis using mb_send_result [OF ex_mb_inv(1,3) _ ex_mb_inv(5), of 7] by auto
qed

text \<open>
  C10. \<^verbatim>\<open>rt_mb_recv\<close> on a mailbox that holds mails returns \<^verbatim>\<open>RT_EOK\<close> and the oldest of them, the rest
  stays in order, and the first thread waiting to send is woken; on an empty mailbox with no
  timeout it returns \<^verbatim>\<open>-RT_ETIMEOUT\<close> and changes nothing.
\<close>

theorem mb_recv_result:
  assumes "kmb_inv s" "stacks_ok s" "call_ok timeout s"
    "rt_object_get_type (mb_type (mbs (ipc s) i)) = RT_Object_Class_MailBox" "timeout = 0 \<or> mb_queue (mbs (ipc s) i) \<noteq> []"
  shows "\<exists>r s'. rt_mb_recv i timeout s = Some (Ret r, s') \<and> kmb_inv s' \<and>
    (case mb_queue (mbs (ipc s) i) of
       [] \<Rightarrow> r = (- RT_ETIMEOUT, None) \<and> s' = s
     | v # vs \<Rightarrow> r = (RT_EOK, Some v) \<and> mb_queue (mbs (ipc s') i) = vs \<and>
         (case tls s (Susp (Mb_sender_q i)) of
            [] \<Rightarrow> True
          | t # ts \<Rightarrow> runnable (threads s' t) \<and> error (threads s' t) = RT_EOK \<and> tls s' (Susp (Mb_sender_q i)) = ts))"
proof (cases "mb_queue (mbs (ipc s) i)")
  case Nil
  then have "mb_entry (mbs (ipc s) i) = 0" using mb_queue_length [of "mbs (ipc s) i"] by (simp add: unat_eq_0)
  then show ?thesis
    using assms Nil by (auto simp: rt_mb_recv_def rt_mb_recv'_def debug_scheduler_available_def)
next
  case (Cons v vs)
  then have "mb_entry (mbs (ipc s) i) \<noteq> 0" using mb_queue_length [of "mbs (ipc s) i"] by auto
  from mb_recv_returns [OF assms(1-4) this] obtain w s' where
    r: "rt_mb_recv' i timeout RT_UNINTERRUPTIBLE s = Some (Ret (RT_EOK, Some w), s')" by blast
  show ?thesis
    using r Cons mb_recv_refines [OF r assms(1)] kmb_recv [OF r assms(1)] by (auto simp: rt_mb_recv_def split: list.split)
qed

theorem mb_recv_result_witness:
  "\<exists>s'. rt_mb_recv 0 (- 1) (ex_mb (Mb_sender_q 0)) = Some (Ret (RT_EOK, Some 11), s') \<and> mb_queue (mbs (ipc s') 0) = [] \<and>
     runnable (threads s' 3)"
proof -
  have "mb_queue (mbs (ipc (ex_mb (Mb_sender_q 0))) 0) = [11]" "tls (ex_mb (Mb_sender_q 0)) (Susp (Mb_sender_q 0)) = [3]"
    by (simp_all add: ex_mb_def ex_defs mb_queue_def ring_abs_def)
  then show ?thesis using mb_recv_result [OF ex_mb_inv(2-5), of "- 1"] by auto
qed

text \<open>
  C11. The ring of a mailbox is a bounded first-in first-out buffer: after any sequence of stores
  and fetches with the routines of \<^verbatim>\<open>rt_mb_send_wait\<close> and \<^verbatim>\<open>rt_mb_recv\<close>, in which stores into a full
  and fetches from an empty ring are refused, the values fetched followed by those still stored
  are the values stored at first followed by those accepted, in that order, and the ring
  never holds more than its size.
\<close>

theorem mailbox_fifo:
  assumes "mb_ring x" "mbf.exec ops x = (ins, outs, x')"
  shows "mb_ring x' \<and> outs @ mb_queue x' = mb_queue x @ ins \<and> length (mb_queue x') \<le> unat (mb_size x')"
proof -
  have "length (mb_queue x) \<le> unat (mb_size x)" using assms(1) by (simp add: mb_ring_def word_le_nat_alt)
  then show ?thesis using mbf.fifo_order [OF assms] mbf.capacity_bound [OF assms(1) _ assms(2)] by blast
qed

theorem mailbox_fifo_witness:
  "\<exists>x'. mbf.exec [Put 5, Put 6, Get, Get] (mbs (ipc (ex_mb (Mb_q 0))) 0) = ([5], [11, 5], x') \<and> mb_queue x' = []"
proof -
  let ?x = "mbs (ipc (ex_mb (Mb_q 0))) 0"
  have "mb_ring ?x" by (simp add: ex_mb_def mb_ring_def)
  moreover have "\<exists>x'. mbf.exec [Put 5, Put 6, Get, Get] ?x = ([5], [11, 5], x')"
    by (simp add: ex_mb_def mb_queue_def mb_put_def mb_get_def ring_next_def word_le_nat_alt flip: length_0_conv)
  moreover have "mb_queue ?x = [11]" by (simp add: ex_mb_def mb_queue_def ring_abs_def)
  ultimately show ?thesis using mailbox_fifo by fastforce
qed

section \<open>Message queues\<close>

text \<open>
  C12. \<^verbatim>\<open>rt_mq_send\<close> never waits. A message larger than the queue's message size is refused with
  \<^verbatim>\<open>-RT_ERROR\<close> and a full queue answers \<^verbatim>\<open>-RT_EFULL\<close>, both without any change; otherwise the bytes of
  the message are appended to the queue and the first thread waiting to receive is woken.
\<close>

theorem mq_send_appends:
  assumes "kmq_inv s" "stacks_ok s" "current s \<noteq> None" "sz \<noteq> 0" "unat sz \<le> length buf"
    "rt_object_get_type (mq_type (mqs (ipc s) i)) = RT_Object_Class_MessageQueue" "mq_max_msgs (mqs (ipc s) i) \<noteq> 0"
  shows "\<exists>e s'. rt_mq_send i buf sz s = Some (Ret e, s') \<and> kmq_inv s' \<and>
    (if unat (mq_msg_size (mqs (ipc s) i)) < unat sz then e = - RT_ERROR \<and> s' = s
     else if mq_entry (mqs (ipc s) i) = mq_max_msgs (mqs (ipc s) i) then e = - RT_EFULL \<and> s' = s
     else e = RT_EOK \<and> mq_msgs (mqs (ipc s') i) = mq_msgs (mqs (ipc s) i) @ [take (unat sz) buf] \<and>
       (case tls s (Susp (Mq_q i)) of
          [] \<Rightarrow> True
        | t # ts \<Rightarrow> runnable (threads s' t) \<and> error (threads s' t) = RT_EOK \<and> tls s' (Susp (Mq_q i)) = ts))"
proof -
  let ?x = "mqs (ipc s) i"
  note room = mq_wf_room [OF kmq_invD(1) [OF assms(1), of i]]
  have le: "ucast (mq_msg_size ?x) < sz \<longleftrightarrow> unat (mq_msg_size ?x) < unat sz"
    by (simp add: word_less_nat_alt unat_ucast_16_64)
  have en: "mq_entry ?x = mq_max_msgs ?x \<longleftrightarrow> mq_free ?x = None" using room assms(6,7) by fastforce
  show ?thesis
  proof (cases "unat (mq_msg_size ?x) < unat sz \<or> mq_free ?x = None")
    case True
    then have "rt_mq_send i buf sz s =
        Some (Ret (if unat (mq_msg_size ?x) < unat sz then - RT_ERROR else - RT_EFULL), s)"
      using assms(3,4,6) le
      by (auto simp: rt_mq_send_def rt_mq_send_wait_def rt_mq_send_wait'_def debug_scheduler_available_def)
    then show ?thesis using assms(1) True en by auto
  next
    case False
    have "call_ok 0 s" using assms(3) by (simp add: call_ok_def)
    then obtain s' where r: "rt_mq_send_wait' i buf sz 0 RT_UNINTERRUPTIBLE s = Some (Ret RT_EOK, s')"
      using mq_send_returns [OF assms(1,2) _ _ _ assms(4) _ assms(5), of 0 i] assms(6,7) False room by fastforce
    then have "rt_mq_send i buf sz s = Some (Ret RT_EOK, s')" by (simp add: rt_mq_send_def rt_mq_send_wait_def)
    moreover note mq_send_result [OF r assms(1)]
    ultimately show ?thesis using False en assms(6,7) by (auto split: list.split)
  qed
qed

theorem mq_send_appends_witness:
  "\<exists>s'. rt_mq_send 0 [1, 2, 3] 2 (ex_mq (Mq_q 0)) = Some (Ret RT_EOK, s') \<and> mq_msgs (mqs (ipc s') 0) = [[1, 2]] \<and>
     runnable (threads s' 3)"
proof -
  have "tls (ex_mq (Mq_q 0)) (Susp (Mq_q 0)) = [3]" by (simp add: ex_mq_def ex_defs)
  moreover have "rt_object_get_type (mq_type (mqs (ipc (ex_mq (Mq_q 0))) 0)) = RT_Object_Class_MessageQueue"
    "current (ex_mq (Mq_q 0)) \<noteq> None" by (simp_all add: ex_mq_def ex_defs)
  ultimately show ?thesis
    using mq_send_appends [OF ex_mq_inv ex_mq_live(2), of 2 "[1, 2, 3]" 0] ex_mq_live(4-7) [of "Mq_q 0"] by auto
qed

text \<open>
  C13. The messages of a queue come out as they went in. After any sequence of sends and receives
  with the block routines of \<^verbatim>\<open>rt_mq_send_wait\<close> and \<^verbatim>\<open>rt_mq_recv\<close> (a send of a message that
  does not fit, into a full queue, or a receive from an empty one refused), the messages received
  followed by those still queued are the messages queued at first followed by those accepted, byte
  for byte, and no more than \<^verbatim>\<open>max_msgs\<close> are queued.
\<close>

theorem mq_roundtrip:
  assumes "mq_wf x" "mqf.exec ops x = (ins, outs, x')"
  shows "mq_wf x' \<and> outs @ mq_msgs x' = mq_msgs x @ ins \<and> length (mq_msgs x') \<le> unat (mq_max_msgs x')"
proof -
  have "length (mq_msgs y) \<le> unat (mq_max_msgs y)" if wf: "mq_wf y" for y
  proof -
    obtain qs fs where "mq_parts y qs fs 0" "length qs = unat (mq_entry y)" using wf by (auto simp: mq_wf_def)
    then show ?thesis using mq_msgs_parts [of y qs fs 0] mq_wf_room(2) [OF wf] by (simp add: word_le_nat_alt)
  qed
  then show ?thesis using mqf.fifo_order [OF assms] by blast
qed

theorem mq_roundtrip_witness:
  "case mqf.exec [Put [1, 2], Put [3], Put [4], Get] (mqs (ipc (ex_mq (Mq_q 0))) 0) of
     (ins, outs, x') \<Rightarrow> outs @ mq_msgs x' = ins"
proof -
  obtain ins outs x' where e: "mqf.exec [Put [1, 2], Put [3], Put [4], Get] (mqs (ipc (ex_mq (Mq_q 0))) 0) = (ins, outs, x')"
    by (rule prod_cases3)
  show ?thesis
    using mq_roundtrip [OF kmq_invD(1) [OF ex_mq_inv ex_mq_live(1)] e] unfolding e ex_mq_live(7) prod.case by (simp del: mqf.exec.simps)
qed

section \<open>Memory pools\<close>

text \<open>
  C14. \<^verbatim>\<open>rt_mp_alloc\<close> on a pool with free blocks returns the first of them; the block lies in the
  pool's area, is no longer free and is marked with its pool, and the other free blocks stay
  free. The free blocks are distinct, so no block is handed out twice.
\<close>

theorem mp_alloc_block:
  assumes "kmp_inv s" "in_thread t s" "mp_free_list s i = b # bs"
    "rt_object_get_type (mp_type (mps (ipc s) i)) = RT_Object_Class_MemPool"
  shows "\<exists>s'. rt_mp_alloc i time s = Some (Ret (Some b), s') \<and> kmp_inv s' \<and> mp_free_list s' i = bs \<and>
    b \<in> mp_area s i \<and> b \<notin> set bs \<and> mp_words (ipc s') b = Owned_by i"
proof -
  note live = assms(4)
  obtain c s' where r: "rt_mp_alloc i time s = Some (Ret (Some c), s')"
    using mp_alloc_returns [OF assms(1) live] assms(3) by fastforce
  note k = kmp_alloc [OF r assms(1) live in_threadD(1,2,3,5) [OF assms(2)]]
  have "distinct (mp_free_list s i)" using kmp_invD [OF assms(1) live] mp_free_list_state by (fastforce simp: mp_state_def)
  then show ?thesis using r k assms(3) by auto
qed

theorem mp_alloc_block_witness:
  "\<exists>s'. rt_mp_alloc 0 (- 1) ex_mp = Some (Ret (Some (0, 0)), s') \<and> mp_free_list s' 0 = [(0, 1)]"
  using mp_alloc_block [OF ex_mp_inv(1,3,5), of "- 1"] ex_mp_inv(4) by auto

text \<open>
  C15. \<^verbatim>\<open>rt_mp_free\<close> of a block handed out by a pool returns, puts the block at the head of the
  pool's free list and wakes the first thread that waits for a block.
\<close>

theorem mp_free_block:
  assumes "kmp_inv s" "stacks_ok s" "current s \<noteq> None" "rt_object_get_type (mp_type (mps (ipc s) i)) = RT_Object_Class_MemPool"
    "b \<in> mp_area s i" "b \<notin> set (mp_free_list s i)"
  shows "\<exists>s'. rt_mp_free (Some b) s = Some s' \<and> kmp_inv s' \<and> mp_free_list s' i = b # mp_free_list s i \<and>
    (case tls s (Susp (Mp_q i)) of [] \<Rightarrow> True | t # ts \<Rightarrow> runnable (threads s' t) \<and> error (threads s' t) = RT_EOK)"
proof -
  obtain fs where fs: "mp_state s i fs" using kmp_invD [OF assms(1,4)] by blast
  then have own: "mp_words (ipc s) b = Owned_by i"
    using assms(5,6) mp_free_list_state [OF fs] by (auto simp: mp_state_def)
  have "kinv s" using assms(1) by (simp add: kmp_inv_def)
  from mp_free_returns [OF this assms(2,3) own] obtain s' where r: "rt_mp_free (Some b) s = Some s'" by blast
  show ?thesis using r mp_free_result [OF r assms(1,4,5)] by (auto split: list.split)
qed

theorem mp_free_block_witness:
  "\<exists>s'. rt_mp_free (Some (0, 1)) ex_mp_used = Some s' \<and> mp_free_list s' 0 = [(0, 1)] \<and> runnable (threads s' 3)"
  using mp_free_block [OF ex_mp_used_inv(1,2) _ ex_mp_used_inv(4,6)] ex_mp_used_inv(5,8) in_threadD(1) [OF ex_mp_used_inv(3)]
  by auto

section \<open>Ticks and timers\<close>

text \<open>
  C16. Starting a timer with an initial tick below half the tick range keeps the timer list in the
  order of expiry, also when the 32-bit tick counter wraps: the order is by the distance of the
  expiry tick from the current tick. The timer is activated, expires its initial number of
  ticks from now, and the other timers keep their order.
\<close>

theorem timer_start_sorted:
  assumes "timer_inv s" "\<not> tm_has s t RT_TIMER_FLAG_PROCESSING" "rt_object_get_type (tm_type (timers s t)) = RT_Object_Class_Timer"
    "tm_sorted (rt_tick s) (timers s) (tmlist s h)" "h = tm_list_of (tm_flag (timers s t))" "unat (tm_init_tick (timers s t)) < 0x7fffffff"
  shows "\<exists>s'. timer_start h t s = (RT_EOK, s') \<and> timer_inv s' \<and> tm_sorted (rt_tick s') (timers s') (tmlist s' h) \<and>
    t \<in> set (tmlist s' h) \<and> tm_has s' t RT_TIMER_FLAG_ACTIVATED \<and>
    timeout_tick (timers s' t) = rt_tick s + tm_init_tick (timers s t) \<and>
    filter (\<lambda>u. u \<noteq> t) (tmlist s' h) = filter (\<lambda>u. u \<noteq> t) (tmlist s h)"
proof -
  let ?T = "(timers s)(t := started (rt_tick s) (timers s t))" and ?L = "ls_remove (tmlist s) t"
  let ?s = "s\<lparr>random_nr := random_nr s + 1, tmlist := ?L(h := timer_insert ?T t (?L h)), timers := ?T\<rparr>"
  have eq: "timer_start h t s = (RT_EOK, ?s)" using timer_start_eq [OF assms(2)] by (simp add: Let_def)
  have L: "?L h = filter (\<lambda>u. u \<noteq> t) (tmlist s h)" by (simp add: ls_remove_def)
  have "tm_sorted (rt_tick s) ?T (?L h)"
    using tm_sorted_remove [OF assms(4), of "\<lambda>u. u \<noteq> t"] tm_sorted_cong [of "?L h" ?T "timers s" "rt_tick s"] L by simp
  moreover have "tm_dist (rt_tick s) (?T t) < 0x7fffffff" using assms(6) by (simp add: tm_dist_def started_def)
  ultimately have "tm_sorted (rt_tick s) ?T (timer_insert ?T t (?L h))" by (rule timer_insert_sorted)
  moreover have "timer_inv ?s" using timer_start_inv [OF assms(1,5,3)] eq by simp
  moreover obtain xs ys where "?L h = xs @ ys" and "timer_insert ?T t (?L h) = xs @ t # ys" using timer_insert_split by blast
  then have "filter (\<lambda>u. u \<noteq> t) (timer_insert ?T t (?L h)) = filter (\<lambda>u. u \<noteq> t) (tmlist s h)"
    using arg_cong [OF L, of "filter (\<lambda>u. u \<noteq> t)"] by simp
  ultimately show ?thesis using eq by (simp add: tm_has_def started_def)
qed

theorem timer_start_sorted_witness:
  "\<exists>s'. timer_start Timer_list (User_timer 2) ex_tm = (RT_EOK, s') \<and> tm_sorted (rt_tick s') (timers s') (tmlist s' Timer_list) \<and>
     timeout_tick (timers s' (User_timer 2)) = 0xfffffffb"
proof -
  have i: "timer_inv ex_tm"
    by (auto simp: timer_inv_def timer_ok_def wf_ls_def unlinked_def ex_tm_def tm_list_of_def rt_object_get_type_def Let_def split: tmhead.splits)
  have f: "\<not> tm_has ex_tm (User_timer 2) RT_TIMER_FLAG_PROCESSING"
    "rt_object_get_type (tm_type (timers ex_tm (User_timer 2))) = RT_Object_Class_Timer"
    "tm_sorted (rt_tick ex_tm) (timers ex_tm) (tmlist ex_tm Timer_list)"
    "Timer_list = tm_list_of (tm_flag (timers ex_tm (User_timer 2)))"
    "unat (tm_init_tick (timers ex_tm (User_timer 2))) < 0x7fffffff"
    "rt_tick ex_tm + tm_init_tick (timers ex_tm (User_timer 2)) = 0xfffffffb"
    by (simp_all add: ex_tm_def Let_def tm_has_def tm_list_of_def tm_sorted_def tm_dist_def rt_object_get_type_def)
  show ?thesis using timer_start_sorted [OF i f(1-5)] unfolding f(6) by blast
qed

text \<open>
  C17. \<^verbatim>\<open>rt_tick_from_millisecond\<close> computes, for up to 1000 ticks per second and a non-negative
  argument, the number of ticks of that time rounded up, without overflow: at least the time
  asked for and less than one tick more (a tick is \<^verbatim>\<open>1000 / tps\<close> milliseconds).
\<close>

theorem tick_from_millisecond_ceil:
  assumes "0 < tps" "tps \<le> 1000" "0 \<le> ms" "ms < 2 ^ 31"
  shows "tps * ms \<le> 1000 * uint (rt_tick_from_millisecond tps ms) \<and>
    1000 * uint (rt_tick_from_millisecond tps ms) < tps * ms + 1000"
  unfolding rt_tick_from_millisecond_ceil [OF assms]
  using mult_div_mod_eq [of 1000 "tps * ms + 999"] pos_mod_bound [of 1000 "tps * ms + 999"]
    pos_mod_sign [of 1000 "tps * ms + 999"] by linarith

theorem tick_from_millisecond_ceil_witness: "uint (rt_tick_from_millisecond 100 15) = 2"
  using tick_from_millisecond_ceil [of 100 15] by simp

text \<open>
  C18. When a waiting call is resumed and waits again, the remaining timeout is the given one
  minus the ticks that passed, and never negative; the computation is right across the
  wrap-around of the tick counter.
\<close>

theorem remaining_timeout:
  assumes "0 < timeout" "timeout < 2 ^ 31" "uint (now - before) < 2 ^ 31"
  shows "timeout_left timeout before now = max 0 (timeout - uint (now - before))"
  using timeout_left_exact [OF assms] .

theorem remaining_timeout_witness: "timeout_left 100 0xfffffff0 0x10 = 68"
  using remaining_timeout [of 100 "0x10" "0xfffffff0"] by simp

end
